(* ===== verification/Prelude.thy ===== *)
theory Prelude
  imports Main "HOL-Library.Word"
begin

text \<open>
  Shared vocabulary of the development: the widths of the C integers of tcc.c (the compiler is
  a native Windows program, so int and long have 32 bits and long long has 64), the error
  result of the functions that may call _tcc_error, slices of byte buffers, and the rounding
  idiom (n + a - 1) \<^verbatim>\<open>&\<close> -a that sections, structs and the PE writer share.
\<close>

unbundle bit_operations_syntax

type_synonym u8 = "8 word"
type_synonym u16 = "16 word"
type_synonym u32 = "32 word"
type_synonym u64 = "64 word"

named_theorems buf_simps \<open>reading and writing byte buffers\<close>
named_theorems layout_simps \<open>alignment and rounding\<close>

text \<open>
  The result of code that may stop with _tcc_error: \<open>Inl msg\<close> for the error (the format
  string of the call), \<open>Inr v\<close> for a normal return.
\<close>

type_synonym 'a res = "string + 'a"

definition ebind :: "'e + 'a \<Rightarrow> ('a \<Rightarrow> 'e + 'b) \<Rightarrow> 'e + 'b" where
  "ebind m f = (case m of Inl e \<Rightarrow> Inl e | Inr x \<Rightarrow> f x)"

lemma ebind_simps [simp]:
  "ebind (Inl e) f = Inl e"
  "ebind (Inr x) f = f x"
  by (simp_all add: ebind_def)

lemma ebind_Inr_iff: "ebind m f = Inr y \<longleftrightarrow> (\<exists>x. m = Inr x \<and> f x = Inr y)"
  by (cases m) auto

lemma ebind_Inl_iff: "ebind m f = Inl e \<longleftrightarrow> m = Inl e \<or> (\<exists>x. m = Inr x \<and> f x = Inl e)"
  by (cases m) auto

subsection \<open>Byte masks\<close>

lemma and_255_mask: "x AND 255 = take_bit 8 (x :: 'a::len word)"
  by (simp add: take_bit_eq_mask mask_eq_exp_minus_1)

lemma and_127_mask: "x AND 127 = take_bit 7 (x :: 'a::len word)"
  by (simp add: take_bit_eq_mask mask_eq_exp_minus_1)

lemma unat_u8_less: "unat (b :: u8) < 256"
  by (rule order_less_le_trans [OF unsigned_less]) simp

lemma unat_u16_less: "unat (b :: u16) < 65536"
  by (rule order_less_le_trans [OF unsigned_less]) simp

lemma unat_u32_less: "unat (b :: u32) < 4294967296"
  by (rule order_less_le_trans [OF unsigned_less]) simp

lemma sint_small:
  assumes "unat (x :: u32) < 2 ^ 31"
  shows "sint x = int (unat x)"
proof -
  have "uint x < 2 ^ 31"
    using assms by (metis uint_nat of_nat_less_iff of_nat_numeral of_nat_power)
  moreover have "- (2 ^ 31) \<le> uint x" by (rule order_trans [OF _ unsigned_greater_eq]) simp
  ultimately have "signed_take_bit 31 (uint x) = uint x"
    using signed_take_bit_int_eq_self by blast
  then show ?thesis unfolding sint_uint by simp
qed

lemma uint_eq_sint:
  assumes "0 \<le> sint (x :: u32)"
  shows "uint x = sint x"
proof -
  have "uint x = uint (word_of_int (sint x) :: u32)" by simp
  also have "\<dots> = take_bit 32 (sint x)" by (simp only: unsigned_of_int) simp
  also have "\<dots> = sint x" using assms sint_less [of x] by (intro take_bit_int_eq_self) auto
  finally show ?thesis .
qed

subsection \<open>Slices of a buffer\<close>

definition bslice :: "nat \<Rightarrow> nat \<Rightarrow> 'a list \<Rightarrow> 'a list" where
  "bslice off n xs = take n (drop off xs)"

definition blit :: "'a list \<Rightarrow> nat \<Rightarrow> 'a list \<Rightarrow> 'a list" where
  "blit dst off src = take off dst @ src @ drop (off + length src) dst"

lemma length_blit [buf_simps]:
  "off + length src \<le> length dst \<Longrightarrow> length (blit dst off src) = length dst"
  by (simp add: blit_def)

lemma bslice_blit [buf_simps]:
  "off + length src \<le> length dst \<Longrightarrow> bslice off (length src) (blit dst off src) = src"
  by (simp add: blit_def bslice_def)

lemma nth_blit [buf_simps]:
  "off + length src \<le> length dst \<Longrightarrow> i < length dst \<Longrightarrow>
   blit dst off src ! i = (if off \<le> i \<and> i < off + length src then src ! (i - off) else dst ! i)"
  by (auto simp: blit_def nth_append min_def)

lemma length_bslice [buf_simps]: "length (bslice off n xs) = min n (length xs - off)"
  by (simp add: bslice_def)

lemma nth_bslice [buf_simps]: "off + i < length xs \<Longrightarrow> i < n \<Longrightarrow> bslice off n xs ! i = xs ! (off + i)"
  by (simp add: bslice_def)

subsection \<open>Rounding up to a multiple\<close>

definition round_up :: "nat \<Rightarrow> nat \<Rightarrow> nat" where
  "round_up n a = (n + a - 1) div a * a"

lemma round_up_ge [layout_simps]: "0 < a \<Longrightarrow> n \<le> round_up n a"
proof -
  assume "0 < a"
  have "n + a - 1 < round_up n a + a"
    unfolding round_up_def
    by (metis \<open>0 < a\<close> add.commute add_less_cancel_left div_mult_mod_eq mod_less_divisor)
  with \<open>0 < a\<close> show ?thesis by simp
qed

lemma round_up_dvd [layout_simps]: "a dvd round_up n a"
  by (simp add: round_up_def)

lemma round_up_lt [layout_simps]: "0 < a \<Longrightarrow> round_up n a < n + a"
proof -
  assume a: "0 < a"
  have "(n + a - 1) div a * a \<le> n + a - 1" by simp
  with a show ?thesis unfolding round_up_def by linarith
qed

lemma round_up_id: "0 < a \<Longrightarrow> a dvd n \<Longrightarrow> round_up n a = n"
proof -
  assume "0 < a" "a dvd n"
  then obtain k where n: "n = a * k" by (auto elim: dvdE)
  have "(a * k + (a - 1)) div a = k"
    using \<open>0 < a\<close> by (subst div_mult_self4) simp_all
  moreover have "n + a - 1 = a * k + (a - 1)"
    using n \<open>0 < a\<close> by simp
  ultimately show ?thesis
    by (simp add: round_up_def n mult.commute)
qed

lemma round_up_least: "0 < a \<Longrightarrow> a dvd m \<Longrightarrow> n \<le> m \<Longrightarrow> round_up n a \<le> m"
proof -
  assume "0 < a" "a dvd m" "n \<le> m"
  then obtain k where m: "m = a * k" by (auto elim: dvdE)
  have "(n + a - 1) div a \<le> (a * k + (a - 1)) div a"
    using \<open>n \<le> m\<close> m \<open>0 < a\<close> by (intro div_le_mono) simp
  also have "\<dots> = k"
    using \<open>0 < a\<close> by (subst div_mult_self4) simp_all
  finally show ?thesis unfolding round_up_def m by (simp add: mult.commute)
qed

text \<open>The bit trick of the code: for a power of two, masking with -a drops the remainder.\<close>

lemma unat_exp2: "k < LENGTH('a) \<Longrightarrow> unat (2 ^ k :: 'a::len word) = 2 ^ k"
  by transfer (simp add: take_bit_int_eq_self nat_power_eq)

lemma and_neg_mask_unat:
  fixes x :: "'a::len word"
  assumes "k < LENGTH('a)"
  shows "unat (x AND - (2 ^ k)) = unat x div 2 ^ k * 2 ^ k"
proof -
  have m: "- (2 ^ k) = NOT (mask k :: 'a word)"
    by (simp add: mask_eq_exp_minus_1 minus_eq_not_minus_1)
  have "x AND - (2 ^ k) = push_bit k (drop_bit k x)"
    unfolding m by (rule bit_word_eqI) (auto simp: bit_simps)
  then have "x AND - (2 ^ k) = drop_bit k x * 2 ^ k"
    by (simp add: push_bit_eq_mult)
  moreover have "unat (drop_bit k x) = unat x div 2 ^ k"
    by (subst unat_drop_bit_eq) (rule drop_bit_eq_div)
  moreover have "unat x div 2 ^ k * 2 ^ k < 2 ^ LENGTH('a)"
    using unsigned_less [of x] by (rule le_less_trans [rotated]) simp
  moreover have "unat (2 ^ k :: 'a word) = 2 ^ k"
    using assms by (simp add: unat_exp2)
  ultimately show ?thesis by (simp add: unat_word_ariths)
qed

lemma word_round_up:
  fixes x :: "'a::len word"
  assumes k: "k < LENGTH('a)" and no: "unat x + 2 ^ k \<le> 2 ^ LENGTH('a)"
  shows "unat ((x + 2 ^ k - 1) AND - (2 ^ k)) = round_up (unat x) (2 ^ k)"
proof -
  have e: "x + 2 ^ k - 1 = x + (2 ^ k - 1)" by simp
  have p: "unat (2 ^ k - 1 :: 'a word) = 2 ^ k - 1"
    using k by (simp add: unat_sub word_le_nat_alt unat_exp2)
  have "unat x + (2 ^ k - 1) < 2 ^ LENGTH('a)"
  proof -
    have "(1::nat) \<le> 2 ^ k" by simp
    with no show ?thesis by linarith
  qed
  then have "unat (x + (2 ^ k - 1)) = unat x + (2 ^ k - 1)"
    by (subst unat_word_ariths) (simp only: p mod_less)
  then show ?thesis
    using k by (simp add: e and_neg_mask_unat round_up_def)
qed

end
