(* ===== verification/Bytes.thy ===== *)
theory Bytes
  imports Prelude
begin

text \<open>
  The little-endian accessors of tcc.c (read16le .. add64le, lines 12077-12100). A C pointer
  into a buffer is the buffer (a list of bytes) and an offset. Reads and writes outside the
  buffer are undefined in C; the theorems carry the bound of the buffer as a hypothesis.
\<close>

definition read16le :: "u8 list \<Rightarrow> nat \<Rightarrow> u16" where
  "read16le d p = ucast (d ! p) OR push_bit 8 (ucast (d ! (p + 1)))"

definition write16le :: "u8 list \<Rightarrow> nat \<Rightarrow> u16 \<Rightarrow> u8 list" where
  "write16le d p x = d[p := ucast (x AND 255), p + 1 := ucast (drop_bit 8 x AND 255)]"

definition read32le :: "u8 list \<Rightarrow> nat \<Rightarrow> u32" where
  "read32le d p = ucast (read16le d p) OR push_bit 16 (ucast (read16le d (p + 2)))"

definition write32le :: "u8 list \<Rightarrow> nat \<Rightarrow> u32 \<Rightarrow> u8 list" where
  "write32le d p x = write16le (write16le d p (ucast x)) (p + 2) (ucast (drop_bit 16 x))"

definition add32le :: "u8 list \<Rightarrow> nat \<Rightarrow> u32 \<Rightarrow> u8 list" where
  "add32le d p x = write32le d p (read32le d p + x)"

definition read64le :: "u8 list \<Rightarrow> nat \<Rightarrow> u64" where
  "read64le d p = ucast (read32le d p) OR push_bit 32 (ucast (read32le d (p + 4)))"

definition write64le :: "u8 list \<Rightarrow> nat \<Rightarrow> u64 \<Rightarrow> u8 list" where
  "write64le d p x = write32le (write32le d p (ucast x)) (p + 4) (ucast (drop_bit 32 x))"

definition add64le :: "u8 list \<Rightarrow> nat \<Rightarrow> u64 \<Rightarrow> u8 list" where
  "add64le d p x = write64le d p (read64le d p + x)"

subsection \<open>Lengths and frames\<close>

lemma length_write16le [simp]: "length (write16le d p x) = length d"
  by (simp add: write16le_def)

lemma length_write32le [simp]: "length (write32le d p x) = length d"
  by (simp add: write32le_def)

lemma length_write64le [simp]: "length (write64le d p x) = length d"
  by (simp add: write64le_def)

lemma length_add32le [simp]: "length (add32le d p x) = length d"
  by (simp add: add32le_def)

lemma length_add64le [simp]: "length (add64le d p x) = length d"
  by (simp add: add64le_def)

lemma nth_write16le_other: "i < p \<or> p + 2 \<le> i \<Longrightarrow> write16le d p x ! i = d ! i"
  by (auto simp: write16le_def)

lemma nth_write32le_other: "i < p \<or> p + 4 \<le> i \<Longrightarrow> write32le d p x ! i = d ! i"
  by (auto simp: write32le_def nth_write16le_other)

lemma nth_write64le_other: "i < p \<or> p + 8 \<le> i \<Longrightarrow> write64le d p x ! i = d ! i"
  by (auto simp: write64le_def nth_write32le_other)

lemma nth_add32le_other: "i < p \<or> p + 4 \<le> i \<Longrightarrow> add32le d p x ! i = d ! i"
  by (simp add: add32le_def nth_write32le_other)

lemma nth_add64le_other: "i < p \<or> p + 8 \<le> i \<Longrightarrow> add64le d p x ! i = d ! i"
  by (simp add: add64le_def nth_write64le_other)

lemma read16le_cong: "d ! p = e ! p \<Longrightarrow> d ! (p + 1) = e ! (p + 1) \<Longrightarrow> read16le d p = read16le e p"
  by (simp add: read16le_def)

lemma read32le_cong:
  assumes "\<And>i. p \<le> i \<Longrightarrow> i < p + 4 \<Longrightarrow> d ! i = e ! i"
  shows "read32le d p = read32le e p"
  unfolding read32le_def
  by (subst read16le_cong [of d p e], (rule assms; simp)+)
     (subst read16le_cong [of d "p + 2" e], (rule assms; simp)+, rule refl)

subsection \<open>Reading what was written\<close>

lemma read16le_write16le [buf_simps]:
  "p + 2 \<le> length d \<Longrightarrow> read16le (write16le d p x) p = x"
  unfolding read16le_def write16le_def and_255_mask
  by (simp, intro bit_word_eqI) (auto simp: bit_simps)

lemma read16le_write16le_other [buf_simps]:
  "q + 2 \<le> p \<or> p + 2 \<le> q \<Longrightarrow> read16le (write16le d p x) q = read16le d q"
  by (rule read16le_cong) (auto intro: nth_write16le_other)

lemma read32le_write32le [buf_simps]:
  "p + 4 \<le> length d \<Longrightarrow> read32le (write32le d p x) p = x"
  unfolding read32le_def write32le_def
  by (simp add: read16le_write16le read16le_write16le_other, intro bit_word_eqI)
     (auto simp: bit_simps)

lemma read32le_write32le_other [buf_simps]:
  "q + 4 \<le> p \<or> p + 4 \<le> q \<Longrightarrow> read32le (write32le d p x) q = read32le d q"
  by (rule read32le_cong) (auto intro: nth_write32le_other)

lemma read64le_write64le [buf_simps]:
  "p + 8 \<le> length d \<Longrightarrow> read64le (write64le d p x) p = x"
  unfolding read64le_def write64le_def
  by (simp add: read32le_write32le read32le_write32le_other, intro bit_word_eqI)
     (auto simp: bit_simps)

lemma read32le_add32le [buf_simps]:
  "p + 4 \<le> length d \<Longrightarrow> read32le (add32le d p x) p = read32le d p + x"
  by (simp add: add32le_def read32le_write32le)

lemma read64le_add64le [buf_simps]:
  "p + 8 \<le> length d \<Longrightarrow> read64le (add64le d p x) p = read64le d p + x"
  by (simp add: add64le_def read64le_write64le)

subsection \<open>The numeric value of the bytes\<close>

lemma unat_read16le: "unat (read16le d p) = unat (d ! p) + 256 * unat (d ! (p + 1))"
proof -
  have "read16le d p = ucast (d ! p) + push_bit 8 (ucast (d ! (p + 1)))"
    unfolding read16le_def
    by (rule disjunctive_add [symmetric]) (auto simp: bit_simps dest: bit_imp_le_length)
  then show ?thesis
    using unat_u8_less [of "d ! p"] unat_u8_less [of "d ! Suc p"]
    by (simp add: push_bit_eq_mult unat_word_ariths unsigned_ucast_eq take_bit_nat_eq_self)
qed

lemma unat_read32le:
  "unat (read32le d p) = unat (read16le d p) + 65536 * unat (read16le d (p + 2))"
proof -
  have "read32le d p = ucast (read16le d p) + push_bit 16 (ucast (read16le d (p + 2)))"
    unfolding read32le_def
    by (rule disjunctive_add [symmetric]) (auto simp: bit_simps dest: bit_imp_le_length)
  then show ?thesis
    using unat_u16_less [of "read16le d p"] unat_u16_less [of "read16le d (Suc (Suc p))"]
    by (simp add: push_bit_eq_mult unat_word_ariths unsigned_ucast_eq take_bit_nat_eq_self)
qed

text \<open>
  Note: a 64-bit value written by write64le is read back, and the eight bytes are the only ones
  that change.
\<close>

theorem write64le_read_frame:
  assumes "p + 8 \<le> length d"
  shows "read64le (write64le d p x) p = x \<and> length (write64le d p x) = length d \<and>
         (\<forall>i. (i < p \<or> p + 8 \<le> i) \<longrightarrow> write64le d p x ! i = d ! i)"
  using assms by (simp add: read64le_write64le nth_write64le_other)

theorem write64le_read_frame_witness:
  "read64le (write64le [1, 2, 3, 4, 5, 6, 7, 8, 9] 1 0xDEADBEEF) 1 = 0xDEADBEEF"
  by (rule write64le_read_frame [THEN conjunct1]) simp

end
