(* ===== verification/Leb128.thy ===== *)
theory Leb128
  imports Bytes
begin

text \<open>
  The variable-length integers of the DWARF sections: the writers dwarf_uleb128, dwarf_sleb128
  and dwarf_sleb128_size (lines 23094-23126) and the readers dwarf_read_uleb128 and
  dwarf_read_sleb128 (lines 12154-12186). A section that grows by section_ptr_add(s, 1) is the
  list of its bytes; the reader's pair of pointers *ln, end is the list of the bytes between
  them. The loops of the writers stop because the shifted value shrinks; the loop counter of
  the readers is explicit.
\<close>

subsection \<open>The writers\<close>

lemma unat_drop_bit_less: "v \<noteq> 0 \<Longrightarrow> unat (drop_bit 7 v :: u64) < unat v"
  by (subst unat_drop_bit_eq) (simp add: drop_bit_eq_div unat_gt_0)

function dwarf_uleb128 :: "u8 list \<Rightarrow> u64 \<Rightarrow> u8 list" where
  "dwarf_uleb128 s v =
     (let byte = ucast (v AND 0x7f) :: u8;
          v' = drop_bit 7 v;
          s' = s @ [byte OR (if v' \<noteq> 0 then 0x80 else 0)]
      in if v' \<noteq> 0 then dwarf_uleb128 s' v' else s')"
  by pat_completeness auto
termination
  by (relation "measure (\<lambda>(s, v). unat v)") (auto intro!: unat_drop_bit_less)

declare dwarf_uleb128.simps [simp del]

text \<open>How far a signed value is from the end of the loop: 0 for 0 and -1.\<close>

definition sleb_meas :: "u64 \<Rightarrow> nat" where
  "sleb_meas v = nat (if sint v < 0 then - 1 - sint v else sint v)"

lemma sint_sdrop: "sint (signed_drop_bit n (v :: 'a::len word)) = sint v div 2 ^ n"
  by (simp add: sint_signed_drop_bit_eq drop_bit_eq_div)

text \<open>
  The loop of dwarf_sleb128 keeps end = value >> 63 and last = end \<^verbatim>\<open>&\<close> 0x40 from before the
  loop; the arithmetic shift does not change the sign, so they are the same computed from the
  current value, as here (\<open>sleb_end_shift\<close>).
\<close>

definition sleb_end :: "u64 \<Rightarrow> u64" where
  "sleb_end v = signed_drop_bit 63 v"

definition sleb_more :: "u64 \<Rightarrow> bool" where
  "sleb_more v =
     (let last_bit = ucast (sleb_end v) AND 0x40 :: u8;
          byte = ucast (v AND 0x7f) :: u8;
          v' = signed_drop_bit 7 v
      in v' \<noteq> sleb_end v \<or> byte AND 0x40 \<noteq> last_bit)"

lemma sleb_end_shift: "sleb_end (signed_drop_bit 7 v) = sleb_end v"
  by (simp add: sleb_end_def) (rule bit_word_eqI, case_tac n, auto simp: bit_simps)

lemma ucast_all_ones: "(ucast (- 1 :: u64) :: u8) = - 1"
  by (rule bit_word_eqI) (simp add: bit_simps)

lemma sleb_more_meas:
  assumes "sleb_more v"
  shows "sleb_meas (signed_drop_bit 7 v) < sleb_meas v"
proof -
  have z: "sleb_meas v \<noteq> 0"
  proof
    assume "sleb_meas v = 0"
    then have "sint v = 0 \<or> sint v = - 1" by (auto simp: sleb_meas_def split: if_splits)
    then have "v = 0 \<or> v = - 1" by (metis signed_word_eqI signed_0 signed_minus_1)
    with assms show False by (auto simp: sleb_more_def sleb_end_def Let_def ucast_all_ones)
  qed
  have "sint v \<noteq> 0" "sint v \<noteq> - 1" using z by (auto simp: sleb_meas_def)
  then consider "0 < sint v" | "sint v < - 1" by linarith
  then show ?thesis
  proof cases
    case 1
    then have "sint v div 128 < sint v" "0 \<le> sint v div 128" by auto
    with 1 show ?thesis by (simp add: sleb_meas_def sint_sdrop)
  next
    case 2
    then have "sint v div 128 < 0" "sint v < sint v div 128" by linarith+
    with 2 show ?thesis by (simp add: sleb_meas_def sint_sdrop)
  qed
qed

function dwarf_sleb128 :: "u8 list \<Rightarrow> u64 \<Rightarrow> u8 list" where
  "dwarf_sleb128 s v =
     (let byte = ucast (v AND 0x7f) :: u8;
          v' = signed_drop_bit 7 v;
          more = sleb_more v;
          s' = s @ [byte OR (if more then 0x80 else 0)]
      in if more then dwarf_sleb128 s' v' else s')"
  by pat_completeness auto
termination
  by (relation "measure (\<lambda>(s, v). sleb_meas v)") (auto intro: sleb_more_meas)

function dwarf_sleb128_size_loop :: "nat \<Rightarrow> u64 \<Rightarrow> nat" where
  "dwarf_sleb128_size_loop sz v =
     (if sleb_more v then dwarf_sleb128_size_loop (sz + 1) (signed_drop_bit 7 v)
      else sz + 1)"
  by pat_completeness auto
termination
  by (relation "measure (\<lambda>(n, v). sleb_meas v)") (auto intro: sleb_more_meas)

definition dwarf_sleb128_size :: "u64 \<Rightarrow> nat" where
  "dwarf_sleb128_size v = dwarf_sleb128_size_loop 0 v"

declare dwarf_sleb128.simps [simp del] dwarf_sleb128_size_loop.simps [simp del]

subsection \<open>The readers\<close>

text \<open>
  The byte at *ln, or 0 at the end of the data; the loop runs for i = 0 .. 9
  ((8 * sizeof(int64_t) + 6) / 7 = 10). The second component is what is left from *ln on.
\<close>

definition leb_byte :: "u8 list \<Rightarrow> u64" where
  "leb_byte cp = (case cp of [] \<Rightarrow> 0 | b # _ \<Rightarrow> ucast b)"

function dwarf_read_uleb128_loop :: "nat \<Rightarrow> u8 list \<Rightarrow> u64 \<Rightarrow> u64 \<times> u8 list" where
  "dwarf_read_uleb128_loop i cp retval =
     (if i < 10 then
        let byte = leb_byte cp;
            cp' = tl cp;
            retval' = retval OR push_bit (i * 7) (byte AND 0x7f)
        in if byte AND 0x80 = 0 then (retval', cp')
           else dwarf_read_uleb128_loop (i + 1) cp' retval'
      else (retval, cp))"
  by pat_completeness auto
termination by (relation "measure (\<lambda>(i, _). 10 - i)") auto

definition dwarf_read_uleb128 :: "u8 list \<Rightarrow> u64 \<times> u8 list" where
  "dwarf_read_uleb128 ln = dwarf_read_uleb128_loop 0 ln 0"

function dwarf_read_sleb128_loop :: "nat \<Rightarrow> u8 list \<Rightarrow> u64 \<Rightarrow> u64 \<times> u8 list" where
  "dwarf_read_sleb128_loop i cp retval =
     (if i < 10 then
        let byte = leb_byte cp;
            cp' = tl cp;
            retval' = retval OR push_bit (i * 7) (byte AND 0x7f)
        in if byte AND 0x80 = 0 then
             (if byte AND 0x40 \<noteq> 0 \<and> (i + 1) * 7 < 64
              then retval' OR push_bit ((i + 1) * 7) (- 1) else retval', cp')
           else dwarf_read_sleb128_loop (i + 1) cp' retval'
      else (retval, cp))"
  by pat_completeness auto
termination by (relation "measure (\<lambda>(i, _). 10 - i)") auto

definition dwarf_read_sleb128 :: "u8 list \<Rightarrow> u64 \<times> u8 list" where
  "dwarf_read_sleb128 ln = dwarf_read_sleb128_loop 0 ln 0"

declare dwarf_read_uleb128_loop.simps [simp del] dwarf_read_sleb128_loop.simps [simp del]

subsection \<open>Round trips\<close>

lemma uleb_append: "dwarf_uleb128 (t @ s) v = t @ dwarf_uleb128 s v"
proof (induction s v rule: dwarf_uleb128.induct)
  case (1 s v)
  then show ?case
    by (cases "drop_bit 7 v = 0")
       (simp_all add: dwarf_uleb128.simps [of s v] dwarf_uleb128.simps [of "t @ s" v] Let_def)
qed

lemma uleb_Nil:
  "dwarf_uleb128 [] v =
     (if drop_bit 7 v = 0 then [ucast (v AND 0x7f)]
      else (ucast (v AND 0x7f) OR 0x80) # dwarf_uleb128 [] (drop_bit 7 v))"
  using uleb_append [of "[ucast (v AND 0x7f) OR 0x80]" "[]" "drop_bit 7 v"]
  by (simp add: dwarf_uleb128.simps [of "[]" v] Let_def)

lemma sleb_append: "dwarf_sleb128 (t @ s) v = t @ dwarf_sleb128 s v"
proof (induction s v rule: dwarf_sleb128.induct)
  case (1 s v)
  then show ?case
    by (cases "sleb_more v")
       (simp_all add: dwarf_sleb128.simps [of s v] dwarf_sleb128.simps [of "t @ s" v] Let_def)
qed

lemma sleb_Nil:
  "dwarf_sleb128 [] v =
     (if sleb_more v then (ucast (v AND 0x7f) OR 0x80) # dwarf_sleb128 [] (signed_drop_bit 7 v)
      else [ucast (v AND 0x7f)])"
  using sleb_append [of "[ucast (v AND 0x7f) OR 0x80]" "[]" "signed_drop_bit 7 v"]
  by (simp add: dwarf_sleb128.simps [of "[]" v] Let_def)

text \<open>What the reader sees in an encoded byte: the payload and the continuation bit.\<close>

lemma leb_bit_128:
  "bit (128 :: 'a::len word) n \<longleftrightarrow> n = 7 \<and> 7 < LENGTH('a)"
  "bit (128 :: int) n \<longleftrightarrow> n = 7"
  using bit_exp_iff [where ?'a = "'a word", of 7 n] bit_exp_iff [where ?'a = int, of 7 n] by auto

lemma leb_bit_64:
  "bit (64 :: 'a::len word) n \<longleftrightarrow> n = 6 \<and> 6 < LENGTH('a)"
  "bit (64 :: int) n \<longleftrightarrow> n = 6"
  using bit_exp_iff [where ?'a = "'a word", of 6 n] bit_exp_iff [where ?'a = int, of 6 n] by auto

lemma leb_payload:
  "(ucast ((ucast (v AND 0x7f) :: u8) OR 0x80) :: u64) AND 0x7f = take_bit 7 (v :: u64)"
  "(ucast (ucast (v AND 0x7f) :: u8) :: u64) AND 0x7f = take_bit 7 v"
  unfolding and_127_mask
   apply (rule bit_word_eqI, auto simp: bit_simps leb_bit_128)[1]
  by (rule bit_word_eqI, auto simp: bit_simps)

lemma leb_more_bit:
  "(ucast ((ucast ((v :: u64) AND 0x7f) :: u8) OR 0x80) :: u64) AND 0x80 \<noteq> 0"
  "(ucast (ucast (v AND 0x7f) :: u8) :: u64) AND 0x80 = 0"
proof -
  have "bit ((ucast ((ucast (v AND 0x7f) :: u8) OR 0x80) :: u64) AND 0x80) 7"
    by (simp add: bit_simps leb_bit_128)
  then show "(ucast ((ucast (v AND 0x7f) :: u8) OR 0x80) :: u64) AND 0x80 \<noteq> 0"
    by (metis bit_0_eq bot_apply bot_bool_def)
  show "(ucast (ucast (v AND 0x7f) :: u8) :: u64) AND 0x80 = 0"
    unfolding and_127_mask by (rule bit_word_eqI) (auto simp: bit_simps leb_bit_128)
qed

lemma leb_join:
  "take_bit (i * 7) v OR push_bit (i * 7) (take_bit 7 (drop_bit (i * 7) v)) =
   take_bit ((i + 1) * 7) (v :: u64)"
  by (rule bit_word_eqI) (auto simp: bit_simps)

lemma uleb_read_loop:
  assumes "i < 10" "i = 0 \<or> drop_bit (i * 7) v \<noteq> 0"
  shows "dwarf_read_uleb128_loop i (dwarf_uleb128 [] (drop_bit (i * 7) v) @ rest)
           (take_bit (i * 7) v) = (v, rest)"
  using assms
proof (induction "10 - i" arbitrary: i)
  case 0
  then show ?case by simp
next
  case (Suc k)
  let ?w = "drop_bit (i * 7) v"
  have d: "drop_bit 7 ?w = drop_bit ((i + 1) * 7) v" by (simp add: add.commute)
  show ?case
  proof (cases "drop_bit 7 ?w = 0")
    case True
    then have "take_bit ((i + 1) * 7) v = v"
      unfolding d by (metis bits_ident push_bit_of_0 add_0)
    with True Suc.prems show ?thesis
      by (subst uleb_Nil, subst dwarf_read_uleb128_loop.simps)
         (simp add: leb_byte_def Let_def leb_payload leb_more_bit leb_join
           del: drop_bit_drop_bit push_bit_and)
  next
    case False
    have "i + 1 < 10"
    proof (rule ccontr)
      assume "\<not> i + 1 < 10"
      then have "drop_bit ((i + 1) * 7) v = 0"
        by (intro bit_word_eqI) (auto simp: bit_simps dest: bit_imp_le_length)
      with False d show False by simp
    qed
    with Suc.hyps(1) [of "i + 1"] Suc.hyps(2) False
    have "dwarf_read_uleb128_loop (i + 1) (dwarf_uleb128 [] (drop_bit ((i + 1) * 7) v) @ rest)
           (take_bit ((i + 1) * 7) v) = (v, rest)"
      using d by simp
    with False Suc.prems show ?thesis
      by (subst uleb_Nil, subst dwarf_read_uleb128_loop.simps)
         (simp add: leb_byte_def Let_def leb_payload leb_more_bit leb_join d
           del: drop_bit_drop_bit push_bit_and)
  qed
qed

text \<open>
  The last group of a signed number: what is left is a copy of the sign bit, and the sign bit
  is bit 6 of the last byte.
\<close>

lemma sleb_bit6: "(ucast (ucast (v AND 0x7f) :: u8) :: u64) AND 0x40 \<noteq> 0 \<longleftrightarrow> bit (v :: u64) 6"
proof
  assume "bit v 6"
  then have "bit ((ucast (ucast (v AND 0x7f) :: u8) :: u64) AND 0x40) 6"
    unfolding and_127_mask by (simp add: bit_simps leb_bit_64)
  then show "(ucast (ucast (v AND 0x7f) :: u8) :: u64) AND 0x40 \<noteq> 0"
    by (metis bit_0_eq bot_apply bot_bool_def)
next
  assume ne: "(ucast (ucast (v AND 0x7f) :: u8) :: u64) AND 0x40 \<noteq> 0"
  show "bit v 6"
  proof (rule ccontr)
    assume "\<not> bit v 6"
    then have "(ucast (ucast (v AND 0x7f) :: u8) :: u64) AND 0x40 = 0"
      unfolding and_127_mask by (intro bit_word_eqI) (auto simp: bit_simps leb_bit_64)
    with ne show False by simp
  qed
qed

lemma bit_sleb_end: "n < 64 \<Longrightarrow> bit (sleb_end v) n = bit v 63"
  by (cases n) (auto simp: sleb_end_def bit_simps)

lemma sleb_stop_bits:
  assumes "\<not> sleb_more v" "6 \<le> n" "n < 64"
  shows "bit v n = bit v 63"
proof (cases "n = 6")
  case True
  from assms(1) have e: "(ucast (v AND 0x7f) :: u8) AND 0x40 = ucast (sleb_end v) AND 0x40"
    by (simp add: sleb_more_def Let_def)
  have "bit v 6 = bit ((ucast (v AND 0x7f) :: u8) AND 0x40) 6"
    unfolding and_127_mask by (simp add: bit_simps leb_bit_64)
  also have "\<dots> = bit v 63"
    unfolding e by (simp add: bit_simps leb_bit_64 bit_sleb_end)
  finally show ?thesis using True by simp
next
  case False
  from assms(1) have e: "signed_drop_bit 7 v = sleb_end v"
    by (simp add: sleb_more_def Let_def)
  have "bit v n = bit (signed_drop_bit 7 v) (n - 7)"
    using False assms(2,3) by (auto simp: bit_simps)
  also have "\<dots> = bit v 63" unfolding e using assms(3) by (simp add: bit_sleb_end)
  finally show ?thesis .
qed

lemma bit_sdrop_high:
  assumes "63 \<le> j" "n < 64"
  shows "bit (signed_drop_bit j (v :: u64)) n = bit v 63"
proof (cases "64 - j \<le> n")
  case True
  then show ?thesis using assms(2) by (simp add: bit_signed_drop_bit_iff)
next
  case False
  then have "j + n = 63" using assms by linarith
  with False show ?thesis by (simp add: bit_signed_drop_bit_iff)
qed

lemma sleb_more_bound:
  assumes "sleb_more (signed_drop_bit (i * 7) v)"
  shows "i < 9"
proof (rule ccontr)
  assume "\<not> i < 9"
  then have b: "bit (signed_drop_bit (i * 7) v) n = bit v 63" if "n < 64" for n
    using that by (intro bit_sdrop_high) simp_all
  show False
  proof (cases "bit v 63")
    case True
    then have "signed_drop_bit (i * 7) v = - 1" using b by (intro bit_word_eqI) auto
    with assms show False
      by (auto simp: sleb_more_def sleb_end_def Let_def ucast_all_ones)
  next
    case False
    then have "signed_drop_bit (i * 7) v = 0" using b by (intro bit_word_eqI) auto
    with assms show False by (auto simp: sleb_more_def sleb_end_def Let_def)
  qed
qed

lemma sleb_take:
  "i < 10 \<Longrightarrow> take_bit (i * 7) v OR push_bit (i * 7) (take_bit 7 (signed_drop_bit (i * 7) v)) =
   take_bit ((i + 1) * 7) (v :: u64)"
  by (rule bit_word_eqI) (auto simp: bit_simps)

lemma sleb_last:
  assumes i: "i < 10" and
    stop: "\<not> sleb_more (signed_drop_bit (i * 7) v)"
  shows "(if bit (signed_drop_bit (i * 7) v) 6 \<and> i * 7 < 57
          then take_bit (7 + i * 7) v OR push_bit (7 + i * 7) (- 1)
          else take_bit (7 + i * 7) v) = v"
proof -
  let ?w = "signed_drop_bit (i * 7) v"
  have s: "bit ?w 63 = bit v 63" by (cases "i = 0") (auto simp: bit_simps)
  have up: "bit v n = bit v 63" if "(i + 1) * 7 \<le> n" "n < 64" for n
  proof -
    have "bit v n = bit ?w (n - i * 7)" using that by (auto simp: bit_simps)
    also have "\<dots> = bit v 63"
      using sleb_stop_bits [OF stop, of "n - i * 7"] that s by auto
    finally show ?thesis .
  qed
  have six: "bit ?w 6 = bit v 63" using sleb_stop_bits [OF stop, of 6] s by simp
  show ?thesis
  proof (rule bit_word_eqI)
    fix n
    assume "n < LENGTH(64)"
    then show "bit (if bit ?w 6 \<and> i * 7 < 57
        then take_bit (7 + i * 7) v OR push_bit (7 + i * 7) (- 1)
        else take_bit (7 + i * 7) v) n = bit v n"
      unfolding six using up [of n]
      by (cases "7 + i * 7 \<le> n")
         (auto simp: bit_simps add.commute simp del: push_bit_minus_one_eq_not_mask)
  qed
qed

lemma sleb_read_loop:
  assumes "i < 10"
  shows "dwarf_read_sleb128_loop i (dwarf_sleb128 [] (signed_drop_bit (i * 7) v) @ rest)
           (take_bit (i * 7) v) = (v, rest)"
  using assms
proof (induction "10 - i" arbitrary: i)
  case 0
  then show ?case by simp
next
  case (Suc k)
  let ?w = "signed_drop_bit (i * 7) v"
  have d: "signed_drop_bit 7 ?w = signed_drop_bit ((i + 1) * 7) v" by (simp add: add.commute)
  show ?case
  proof (cases "sleb_more ?w")
    case False
    with Suc.prems sleb_last [OF Suc.prems False] show ?thesis
      by (subst sleb_Nil, subst dwarf_read_sleb128_loop.simps)
         (auto simp: leb_byte_def Let_def leb_payload leb_more_bit sleb_take sleb_bit6
           split: if_splits simp del: push_bit_and push_bit_minus_one_eq_not_mask)
  next
    case True
    with sleb_more_bound [OF True] Suc.hyps(1) [of "i + 1"] Suc.hyps(2)
    have "dwarf_read_sleb128_loop (i + 1) (dwarf_sleb128 [] (signed_drop_bit ((i + 1) * 7) v) @ rest)
           (take_bit ((i + 1) * 7) v) = (v, rest)"
      by simp
    with True Suc.prems show ?thesis
      by (subst sleb_Nil, subst dwarf_read_sleb128_loop.simps)
         (simp add: leb_byte_def Let_def leb_payload leb_more_bit sleb_take
           d del: signed_drop_bit_signed_drop_bit push_bit_and)
  qed
qed

lemma sleb_size_loop: "dwarf_sleb128_size_loop n v = n + length (dwarf_sleb128 [] v)"
proof (induction n v rule: dwarf_sleb128_size_loop.induct)
  case (1 n v)
  then show ?case
    by (subst dwarf_sleb128_size_loop.simps, subst sleb_Nil) simp
qed

text \<open>
  Note: every 64-bit unsigned value that dwarf_uleb128 writes is read back by
  dwarf_read_uleb128, which stops exactly at the end of the encoding, and what was in the
  section before is kept.
\<close>

theorem uleb128_roundtrip:
  "dwarf_read_uleb128 (dwarf_uleb128 [] v @ rest) = (v, rest) \<and>
   dwarf_uleb128 s v = s @ dwarf_uleb128 [] v"
  using uleb_read_loop [of 0 v rest] uleb_append [of s "[]" v]
  by (simp add: dwarf_read_uleb128_def)

text \<open>
  Note: every 64-bit signed value that dwarf_sleb128 writes is read back by
  dwarf_read_sleb128 with its sign, and dwarf_sleb128_size announces the number of bytes written.
\<close>

theorem sleb128_roundtrip:
  "dwarf_read_sleb128 (dwarf_sleb128 [] v @ rest) = (v, rest) \<and>
   dwarf_sleb128 s v = s @ dwarf_sleb128 [] v \<and>
   dwarf_sleb128_size v = length (dwarf_sleb128 [] v)"
  using sleb_read_loop [of 0 v rest] sleb_append [of s "[]" v] sleb_size_loop [of 0 v]
  by (simp add: dwarf_read_sleb128_def dwarf_sleb128_size_def)

end
