(* ===== verification/Sections.thy ===== *)
theory Sections
  imports Bytes
begin

text \<open>
  The growing byte buffers of tccelf: section_realloc, section_add, section_ptr_add and
  put_elf_str (lines 25788-25846), with the alignment rule of new_section (lines 25723-25760).
  A section's data is the list of its allocated bytes, so data_allocated is the length of the
  list; data_offset is the number of bytes in use, kept at the 32 bits of an unsigned long.
  The doubling loop of section_realloc wraps to 0 for sizes above 2^31 and then never stops, so
  it is a partial function; \<open>section_realloc_total\<close> says when it returns.
\<close>

record sect =
  sec_name :: string
  sh_type :: u32
  sh_flags :: u32
  sh_addralign :: u32
  sh_num :: nat
  sh_info :: nat
  sh_addr :: u64
  data_offset :: u32
  sec_data :: "u8 list"

definition data_allocated :: "sect \<Rightarrow> u32" where
  "data_allocated sec = of_nat (length (sec_data sec))"

text \<open>The switch of new_section: the alignment of a section by its type.\<close>

definition sh_align_of_type :: "u32 \<Rightarrow> u32" where
  "sh_align_of_type ty =
     (if ty = 0x6fffffff then 2
      else if ty \<in> {5, 0x6ffffff6, 9, 4, 11, 2, 6, 0x6ffffffe, 0x6ffffffd} then 8
      else if ty = 3 then 1
      else 8)"

text \<open>
  new_section: a zeroed section; a private one (SHF_PRIVATE, 0x80000000) keeps number 0 and goes
  to priv_sections, any other one is numbered by the length of the sect list it is added to.
\<close>

definition new_section ::
  "sect list \<times> sect list \<Rightarrow> string \<Rightarrow> u32 \<Rightarrow> u32 \<Rightarrow> sect \<times> (sect list \<times> sect list)"
where
  "new_section tabs name ty flags =
     (let (secs, priv) = tabs;
          sec = \<lparr> sec_name = name, sh_type = ty, sh_flags = flags,
                 sh_addralign = sh_align_of_type ty, sh_num = 0, sh_info = 0, sh_addr = 0,
                 data_offset = 0, sec_data = [] \<rparr>
      in if flags AND 0x80000000 \<noteq> 0 then (sec, (secs, priv @ [sec]))
         else let sec' = sec\<lparr>sh_num := length secs\<rparr> in (sec', (secs @ [sec'], priv)))"

text \<open>have_section and find_section: the first section of that name, number 0 excepted.\<close>

fun have_section_loop :: "sect list \<Rightarrow> string \<Rightarrow> sect option" where
  "have_section_loop [] name = None"
| "have_section_loop (sec # secs) name =
     (if name = sec_name sec then Some sec else have_section_loop secs name)"

definition have_section :: "sect list \<Rightarrow> string \<Rightarrow> sect option" where
  "have_section secs name = have_section_loop (tl secs) name"

definition find_section ::
  "sect list \<times> sect list \<Rightarrow> string \<Rightarrow> sect \<times> (sect list \<times> sect list)" where
  "find_section tabs name =
     (case have_section (fst tabs) name of
        Some sec \<Rightarrow> (sec, tabs)
      | None \<Rightarrow> new_section tabs name 1 (push_bit 1 1))"

text \<open>free_section (of a section that exists).\<close>

definition free_section :: "sect \<Rightarrow> sect" where
  "free_section s = s\<lparr>sec_data := [], data_offset := 0\<rparr>"

subsection \<open>Growing\<close>

partial_function (option) grow_loop :: "u32 \<Rightarrow> u32 \<Rightarrow> u32 option" where
  "grow_loop sz new_size = (if sz < new_size then grow_loop (sz * 2) new_size else Some sz)"

definition section_realloc :: "sect \<Rightarrow> u32 \<Rightarrow> sect option" where
  "section_realloc sec new_size =
     (let sz = data_allocated sec;
          sz = (if sz = 0 then 1 else sz)
      in map_option (\<lambda>n. sec\<lparr>sec_data :=
           take (unat n) (sec_data sec) @ replicate (unat n - length (sec_data sec)) 0\<rparr>)
         (grow_loop sz new_size))"

definition section_add :: "sect \<Rightarrow> u64 \<Rightarrow> u32 \<Rightarrow> (u64 \<times> sect) option" where
  "section_add sec sz align =
     (let off = ucast ((data_offset sec + align - 1) AND - align) :: u64;
          offset1 = off + sz
      in map_option (\<lambda>s.
           let s = s\<lparr>data_offset := ucast offset1\<rparr>;
               s = (if sh_addralign s <s align then s\<lparr>sh_addralign := align\<rparr> else s)
           in (off, s))
         (if sh_type sec \<noteq> 8 \<and> offset1 > ucast (data_allocated sec)
          then section_realloc sec (ucast offset1) else Some sec))"

definition section_ptr_add :: "sect \<Rightarrow> u64 \<Rightarrow> (u64 \<times> sect) option" where
  "section_ptr_add sec sz = section_add sec sz 1"

text \<open>
  put_elf_str: the C string with its terminating 0 at the end of the section; the result is
  its offset.
\<close>

definition put_elf_str :: "sect \<Rightarrow> u8 list \<Rightarrow> (nat \<times> sect) option" where
  "put_elf_str s str =
     (let len = length str + 1;
          off = unat (data_offset s)
      in map_option (\<lambda>(p, s'). (off, s'\<lparr>sec_data := blit (sec_data s') (unat p) (str @ [0])\<rparr>))
         (section_ptr_add s (of_nat len)))"

subsection \<open>When the doubling loop returns\<close>

lemma unat_pow2_u32: "k \<le> 31 \<Longrightarrow> unat (2 ^ k :: u32) = 2 ^ k"
  by (simp add: unat_exp2)

lemma grow_loop_pow2:
  assumes "unat m \<le> 2 ^ 31" "k \<le> 31"
  shows "\<exists>j. grow_loop (2 ^ k) m = Some (2 ^ j) \<and> k \<le> j \<and> j \<le> 31 \<and> unat m \<le> 2 ^ j"
  using assms(2)
proof (induction "31 - k" arbitrary: k)
  case 0
  then have "\<not> (2 ^ k :: u32) < m"
    using assms(1) unat_pow2_u32 [of k] by (simp add: word_less_nat_alt)
  with 0 assms(1) show ?case
    by (subst grow_loop.simps) (auto intro!: exI [of _ k])
next
  case (Suc d)
  show ?case
  proof (cases "(2 ^ k :: u32) < m")
    case True
    have "31 - Suc k = d" "Suc k \<le> 31" using Suc.hyps(2) by auto
    then obtain j where j: "grow_loop (2 ^ Suc k) m = Some (2 ^ j)" "Suc k \<le> j" "j \<le> 31"
      "unat m \<le> 2 ^ j"
      using Suc.hyps(1) [of "Suc k"] by auto
    from True j(1) have "grow_loop (2 ^ k) m = Some (2 ^ j)"
      by (subst grow_loop.simps) (simp add: mult.commute)
    with j show ?thesis by (auto intro!: exI [of _ j])
  next
    case False
    then have "unat m \<le> 2 ^ k"
      using unat_pow2_u32 [OF Suc.prems] by (simp add: word_less_nat_alt)
    with False Suc.prems show ?thesis
      by (subst grow_loop.simps) (auto intro!: exI [of _ k])
  qed
qed

text \<open>Above 2^31 the doubled size wraps to 0 and the loop has no result.\<close>

lemma grow_loop_zero: "0 < m \<Longrightarrow> grow_loop 0 m \<noteq> Some r"
proof
  assume m: "0 < m" and s: "grow_loop 0 m = Some r"
  have "sz = 0 \<longrightarrow> nw = m \<longrightarrow> False" if "grow_loop sz nw = Some r" for sz nw
    using that
    by (rule grow_loop.raw_induct [where P = "\<lambda>sz nw r. sz = 0 \<longrightarrow> nw = m \<longrightarrow> False", rotated])
       (use m in \<open>auto split: if_splits\<close>)
  with s show False by blast
qed

text \<open>
  The allocated size is 0 or a power of two up to 2^31, and a section with contents in the file
  has its bytes in use allocated (SHT_NOBITS, 8, only counts them).
\<close>

definition alloc_ok :: "nat \<Rightarrow> bool" where
  "alloc_ok n \<longleftrightarrow> n = 0 \<or> (\<exists>k\<le>31. n = 2 ^ k)"

definition sect_ok :: "sect \<Rightarrow> bool" where
  "sect_ok sec \<longleftrightarrow> alloc_ok (length (sec_data sec)) \<and>
     (sh_type sec \<noteq> 8 \<longrightarrow> unat (data_offset sec) \<le> length (sec_data sec))"

lemma alloc_ok_le: "alloc_ok n \<Longrightarrow> n \<le> 2 ^ 31"
  by (auto simp: alloc_ok_def intro: power_increasing order_trans [OF power_increasing [of _ 31 2]])

lemma unat_data_allocated:
  "alloc_ok (length (sec_data sec)) \<Longrightarrow> unat (data_allocated sec) = length (sec_data sec)"
  using alloc_ok_le [of "length (sec_data sec)"] by (simp add: data_allocated_def unat_of_nat)

lemma data_allocated_pow2:
  assumes "alloc_ok (length (sec_data sec))"
  shows "\<exists>k\<le>31. (if data_allocated sec = 0 then 1 else data_allocated sec) = 2 ^ k \<and>
           length (sec_data sec) \<le> 2 ^ k"
proof (cases "length (sec_data sec) = 0")
  case True
  then show ?thesis by (auto simp: data_allocated_def intro!: exI [of _ 0])
next
  case False
  with assms obtain k where k: "k \<le> 31" "length (sec_data sec) = 2 ^ k"
    by (auto simp: alloc_ok_def)
  then have "unat (data_allocated sec) = unat (2 ^ k :: u32)"
    using unat_data_allocated [OF assms] unat_pow2_u32 [OF k(1)] by simp
  then have e: "data_allocated sec = 2 ^ k" by (rule unsigned_word_eqI)
  have "(2 ^ k :: u32) \<noteq> 0" using unat_pow2_u32 [OF k(1)] by (metis power_eq_0_iff unat_0 zero_neq_numeral)
  with e k show ?thesis by (auto intro!: exI [of _ k])
qed

lemma section_realloc_total:
  assumes ok: "alloc_ok (length (sec_data sec))" and m: "unat m \<le> 2 ^ 31"
  shows "\<exists>n. section_realloc sec m = Some (sec\<lparr>sec_data := sec_data sec @ replicate n 0\<rparr>) \<and>
             unat m \<le> length (sec_data sec) + n \<and> alloc_ok (length (sec_data sec) + n)"
proof -
  from data_allocated_pow2 [OF ok] obtain k where k: "k \<le> 31"
    "(if data_allocated sec = 0 then 1 else data_allocated sec) = 2 ^ k"
    "length (sec_data sec) \<le> 2 ^ k" by blast
  from grow_loop_pow2 [OF m k(1)] obtain j where j: "grow_loop (2 ^ k) m = Some (2 ^ j)"
    "k \<le> j" "j \<le> 31" "unat m \<le> 2 ^ j" by blast
  have "length (sec_data sec) \<le> 2 ^ j"
    using k(3) j(2) by (meson le_trans one_le_numeral power_increasing)
  moreover have "alloc_ok (2 ^ j)" using j(3) by (auto simp: alloc_ok_def)
  ultimately show ?thesis
    using j k(2) unat_pow2_u32 [OF j(3)]
    by (intro exI [of _ "2 ^ j - length (sec_data sec)"]) (simp add: section_realloc_def Let_def)
qed

subsection \<open>Adding to a section\<close>

text \<open>What section_add returns, in terms of the sizes as natural numbers.\<close>

definition grew_to :: "sect \<Rightarrow> nat \<Rightarrow> sect \<Rightarrow> bool" where
  "grew_to sec end s' \<longleftrightarrow>
     (\<exists>n. sec_data s' = sec_data sec @ replicate n 0) \<and>
     unat (data_offset s') = end \<and> sect_ok s' \<and>
     sh_type s' = sh_type sec \<and> sh_num s' = sh_num sec \<and> sec_name s' = sec_name sec"

lemma section_add_grows:
  assumes ok: "sect_ok sec" and ty: "sh_type sec \<noteq> 8" and k: "k < 31"
    and fit: "unat (data_offset sec) + 2 ^ k + unat sz \<le> 2 ^ 31"
  shows "\<exists>off s'. section_add sec sz (2 ^ k) = Some (off, s') \<and>
           unat off = round_up (unat (data_offset sec)) (2 ^ k) \<and>
           grew_to sec (unat off + unat sz) s'"
proof -
  let ?o = "(data_offset sec + 2 ^ k - 1) AND - (2 ^ k)"
  let ?r = "round_up (unat (data_offset sec)) (2 ^ k)"
  have o: "unat ?o = ?r"
    using fit k by (intro word_round_up) simp_all
  have r: "?r < unat (data_offset sec) + 2 ^ k" by (simp add: round_up_lt)
  have uo: "unat (ucast ?o :: u64) = ?r"
    using unat_u32_less [of ?o] by (simp add: o [symmetric] unsigned_ucast_eq take_bit_nat_eq_self)
  have "?r + unat sz < 2 ^ 64" using r fit by simp
  then have e: "unat (ucast ?o + sz :: u64) = ?r + unat sz"
    using uo by (subst unat_word_ariths) simp
  have e31: "?r + unat sz \<le> 2 ^ 31" using r fit by linarith
  have e32: "unat (ucast (ucast ?o + sz :: u64) :: u32) = ?r + unat sz"
    using e e31 by (simp add: unsigned_ucast_eq take_bit_nat_eq_self)
  have da: "unat (data_allocated sec) = length (sec_data sec)"
    using ok by (intro unat_data_allocated) (simp add: sect_ok_def)
  have da64: "unat (ucast (data_allocated sec) :: u64) = length (sec_data sec)"
    using unat_u32_less [of "data_allocated sec"]
    by (simp add: da [symmetric] unsigned_ucast_eq take_bit_nat_eq_self)
  have cond: "(ucast ?o + sz :: u64) > ucast (data_allocated sec) \<longleftrightarrow>
      length (sec_data sec) < ?r + unat sz"
    using e da64 by (simp add: word_less_nat_alt)
  show ?thesis
  proof (cases "length (sec_data sec) < ?r + unat sz")
    case True
    from section_realloc_total [of sec "ucast (ucast ?o + sz :: u64)"] e31 e32 ok
    obtain n where n: "section_realloc sec (ucast (ucast ?o + sz :: u64)) =
        Some (sec\<lparr>sec_data := sec_data sec @ replicate n 0\<rparr>)"
      "?r + unat sz \<le> length (sec_data sec) + n" "alloc_ok (length (sec_data sec) + n)"
      by (auto simp: sect_ok_def)
    with True ty cond e32 uo show ?thesis
      by (simp add: section_add_def Let_def grew_to_def sect_ok_def split del: if_split)
         (simp add: sect_ok_def; blast)
  next
    case False
    with ok ty cond e32 uo show ?thesis
      by (simp add: section_add_def Let_def grew_to_def sect_ok_def split del: if_split)
         (simp add: sect_ok_def)
  qed
qed

lemma section_ptr_add_grows:
  assumes "sect_ok sec" "sh_type sec \<noteq> 8" "unat (data_offset sec) + 1 + unat sz \<le> 2 ^ 31"
  shows "\<exists>off s'. section_ptr_add sec sz = Some (off, s') \<and>
           unat off = unat (data_offset sec) \<and> grew_to sec (unat (data_offset sec) + unat sz) s'"
  using section_add_grows [of sec 0 sz] assms
  by (fastforce simp: section_ptr_add_def round_up_def)

text \<open>
  Note: as long as sizes stay below 2^31, section_add on a section with file contents returns
  (its doubling loop ends); the offset is the least multiple of the alignment that is not below
  the old end, the section ends just behind the added bytes, nothing that was in the section
  changes and what is newly allocated is zero.
\<close>

theorem section_add_spec:
  assumes "sect_ok sec" "sh_type sec \<noteq> 8" "k < 31"
    and "unat (data_offset sec) + 2 ^ k + unat sz \<le> 2 ^ 31"
  shows "\<exists>off s' n. section_add sec sz (2 ^ k) = Some (off, s') \<and>
           unat off = round_up (unat (data_offset sec)) (2 ^ k) \<and>
           2 ^ k dvd unat off \<and> unat (data_offset sec) \<le> unat off \<and>
           unat (data_offset s') = unat off + unat sz \<and>
           sec_data s' = sec_data sec @ replicate n 0 \<and> sect_ok s'"
  using section_add_grows [OF assms]
  by (auto simp: grew_to_def round_up_dvd round_up_ge)

definition demo_sect :: sect where
  "demo_sect = \<lparr>sec_name = ''.text'', sh_type = 1, sh_flags = 6, sh_addralign = 8,
     sh_num = 1, sh_info = 0, sh_addr = 0, data_offset = 3, sec_data = [1, 2, 3, 0]\<rparr>"

lemma demo_sect_ok: "sect_ok demo_sect"
proof -
  have "length (sec_data demo_sect) = 4" by (simp add: demo_sect_def)
  moreover have "alloc_ok 4" unfolding alloc_ok_def by (intro disjI2 exI [of _ 2]) simp
  ultimately show ?thesis by (simp add: sect_ok_def) (simp add: demo_sect_def)
qed

theorem section_add_spec_witness:
  "\<exists>off s' n. section_add demo_sect 10 (2 ^ 3) = Some (off, s') \<and> unat off = 8 \<and>
     unat (data_offset s') = 18 \<and> sec_data s' = [1, 2, 3, 0] @ replicate n 0"
proof -
  have "sect_ok demo_sect" by (rule demo_sect_ok)
  moreover have "sh_type demo_sect \<noteq> 8" by (simp add: demo_sect_def)
  moreover have "unat (data_offset demo_sect) + 2 ^ 3 + unat (10 :: u64) \<le> 2 ^ 31"
    by (simp add: demo_sect_def)
  ultimately obtain off s' n where
    r: "section_add demo_sect 10 (2 ^ 3) = Some (off, s')"
       "unat off = round_up (unat (data_offset demo_sect)) (2 ^ 3)"
       "unat (data_offset s') = unat off + unat (10 :: u64)"
       "sec_data s' = sec_data demo_sect @ replicate n 0"
    using section_add_spec [of demo_sect 3 10] by auto
  have "round_up 3 8 = 8" by (simp add: round_up_def)
  with r show ?thesis by (auto simp: demo_sect_def)
qed

text \<open>
  Note: put_elf_str appends a string to a string table: it returns the old end of the section as
  the string's offset, the bytes at that offset are the string and a terminating 0, the bytes
  before it are unchanged and the new end is just behind the terminator.
\<close>

theorem put_elf_str_spec:
  assumes "sect_ok s" "sh_type s \<noteq> 8" "unat (data_offset s) + length str + 2 \<le> 2 ^ 31"
  shows "\<exists>s'. put_elf_str s str = Some (unat (data_offset s), s') \<and>
           bslice (unat (data_offset s)) (length str + 1) (sec_data s') = str @ [0] \<and>
           take (unat (data_offset s)) (sec_data s') = take (unat (data_offset s)) (sec_data s) \<and>
           unat (data_offset s') = unat (data_offset s) + length str + 1 \<and> sect_ok s'"
proof -
  let ?p = "unat (data_offset s)"
  have l: "unat (of_nat (length str + 1) :: u64) = length str + 1"
    using assms(3) by (subst unat_of_nat) simp
  obtain off s' where r: "section_ptr_add s (of_nat (length str + 1)) = Some (off, s')"
    "unat off = ?p" "grew_to s (?p + (length str + 1)) s'"
    using section_ptr_add_grows [of s "of_nat (length str + 1)"] assms l by auto
  then obtain n where d: "sec_data s' = sec_data s @ replicate n 0"
    "unat (data_offset s') = ?p + (length str + 1)" "sect_ok s'" "sh_type s' = sh_type s"
    by (auto simp: grew_to_def)
  have le: "?p + length (str @ [0 :: u8]) \<le> length (sec_data s')"
    using d assms(2) by (simp add: sect_ok_def)
  have p: "?p \<le> length (sec_data s)" using assms(1,2) by (simp add: sect_ok_def)
  let ?s = "s'\<lparr>sec_data := blit (sec_data s') ?p (str @ [0])\<rparr>"
  have "put_elf_str s str = Some (?p, ?s)"
    using r by (simp add: put_elf_str_def Let_def)
  moreover have "bslice ?p (length (str @ [0 :: u8])) (sec_data ?s) = str @ [0]"
    using bslice_blit [OF le] by simp
  moreover have "take ?p (sec_data ?s) = take ?p (sec_data s)"
    using p d(1) by (simp add: blit_def)
  moreover have "sect_ok ?s"
    using d(3) length_blit [OF le] by (simp add: sect_ok_def)
  ultimately show ?thesis using d(2) by (intro exI [of _ ?s]) simp
qed

theorem put_elf_str_spec_witness:
  "\<exists>s'. put_elf_str demo_sect [109, 97, 105, 110] = Some (3, s') \<and>
     bslice 3 (length [109, 97, 105, 110 :: u8] + 1) (sec_data s') = [109, 97, 105, 110, 0]"
proof -
  from put_elf_str_spec [OF demo_sect_ok, of "[109, 97, 105, 110]"] show ?thesis
    by (auto simp: demo_sect_def)
qed

end
