(* ===== verification/ElfSym.thy ===== *)
theory ElfSym
  imports Sections
begin

text \<open>
  ELF symbol tables with their string table and hash table (elf_hash .. set_elf_sym, lines
  25761-25770 and 25847-26074, and the renumbering of update_relocs and sort_syms, lines
  26121-26172). The three sections of a table are read through their element types: the symbol
  section as an array of Elf64_Sym, the string section as bytes, the hash section as an array of
  int with the layout
  \<^verbatim>\<open>nbuckets, nsyms, bucket[0..nbuckets-1], chain[0..nsyms-1]\<close>.
  section_ptr_add of one element is then an append (Sections.put_elf_str_spec is the byte level
  of put_elf_str). Names are the bytes of the C string without its terminator.
\<close>

record elf_sym =
  st_name :: nat
  st_info :: u8
  st_other :: u8
  st_shndx :: u16
  st_value :: u64
  st_size :: u64

definition st_bind :: "u8 \<Rightarrow> u8" where "st_bind info = drop_bit 4 info"
definition st_type :: "u8 \<Rightarrow> u8" where "st_type info = info AND 0xf"
definition st_mkinfo :: "u8 \<Rightarrow> u8 \<Rightarrow> u8" where "st_mkinfo b t = push_bit 4 b + (t AND 0xf)"
definition st_visibility :: "u8 \<Rightarrow> u8" where "st_visibility other = other AND 0x03"

record symtab =
  syms :: "elf_sym list"
  strs :: "u8 list"
  hash_tab :: "nat list option"
  nb_hashed_syms :: nat
  tab_flags :: u32

text \<open>The C string at an offset of the string table.\<close>

definition cstr_at :: "u8 list \<Rightarrow> nat \<Rightarrow> u8 list" where
  "cstr_at d off = takeWhile (\<lambda>c. c \<noteq> 0) (drop off d)"

definition sym_name :: "symtab \<Rightarrow> nat \<Rightarrow> u8 list" where
  "sym_name s i = cstr_at (strs s) (st_name (syms s ! i))"

fun elf_hash_loop :: "u32 \<Rightarrow> u8 list \<Rightarrow> u32" where
  "elf_hash_loop h [] = h"
| "elf_hash_loop h (c # name) =
     (let h = push_bit 4 h + ucast c;
          g = h AND 0xf0000000;
          h = (if g \<noteq> 0 then h XOR drop_bit 24 g else h);
          h = h AND NOT g
      in elf_hash_loop h name)"

definition elf_hash :: "u8 list \<Rightarrow> u32" where
  "elf_hash name = elf_hash_loop 0 name"

definition hash_bucket :: "nat \<Rightarrow> u8 list \<Rightarrow> nat" where
  "hash_bucket nb name = unat (elf_hash name) mod nb"

text \<open>
  init_symtab: the string table holds the empty string, the symbol table the null symbol, the
  hash table one empty bucket and the chain entry of the null symbol.
\<close>

definition null_sym :: elf_sym where
  "null_sym = \<lparr>st_name = 0, st_info = 0, st_other = 0, st_shndx = 0, st_value = 0, st_size = 0\<rparr>"

definition init_symtab :: "u32 \<Rightarrow> symtab" where
  "init_symtab flags = \<lparr>syms = [null_sym], strs = [0], hash_tab = Some [1, 1, 0, 0],
     nb_hashed_syms = 0, tab_flags = flags\<rparr>"

text \<open>
  rebuild_hash: the loop over the symbols from number 1 on; \<open>buckets\<close> is hash[0..],
  \<open>chain\<close> the entries written through ptr so far.
\<close>

fun rebuild_loop ::
  "symtab \<Rightarrow> nat \<Rightarrow> elf_sym list \<Rightarrow> nat \<Rightarrow> nat list \<Rightarrow> nat list \<Rightarrow> nat list \<times> nat list" where
  "rebuild_loop s nb [] i buckets chain = (buckets, chain)"
| "rebuild_loop s nb (y # ys) i buckets chain =
     (if st_bind (st_info y) \<noteq> 0 then
        let h = hash_bucket nb (cstr_at (strs s) (st_name y))
        in rebuild_loop s nb ys (i + 1) (buckets[h := i]) (chain @ [buckets ! h])
      else rebuild_loop s nb ys (i + 1) buckets (chain @ [0]))"

definition rebuild_hash :: "symtab \<Rightarrow> nat \<Rightarrow> symtab" where
  "rebuild_hash s nb0 =
     (let nb_syms = length (syms s);
          nb = (if nb0 = 0 then the (hash_tab s) ! 0 else nb0);
          (buckets, chain) = rebuild_loop s nb (tl (syms s)) 1 (replicate nb 0) [0]
      in s\<lparr>hash_tab := Some (nb # nb_syms # buckets @ chain)\<rparr>)"

definition put_elf_sym ::
  "symtab \<Rightarrow> u64 \<Rightarrow> u64 \<Rightarrow> u8 \<Rightarrow> u8 \<Rightarrow> u16 \<Rightarrow> u8 list \<Rightarrow> nat \<times> symtab" where
  "put_elf_sym s val sz info other shndx name =
     (let sym_index = length (syms s);
          (name_offset, strs') =
            (if name \<noteq> [] then (length (strs s), strs s @ name @ [0]) else (0, strs s));
          s = s\<lparr>strs := strs', syms := syms s @ [\<lparr>st_name = name_offset, st_info = info,
                 st_other = other, st_shndx = shndx, st_value = val, st_size = sz\<rparr>]\<rparr>
      in case hash_tab s of
           None \<Rightarrow> (sym_index, s)
         | Some base \<Rightarrow>
             let ptr = length base; base = base @ [0] in
             if st_bind info \<noteq> 0 then
               let nbuckets = base ! 0;
                   h = hash_bucket nbuckets (cstr_at (strs s) name_offset);
                   base = base[ptr := base ! (2 + h)];
                   base = base[2 + h := sym_index];
                   base = base[1 := base ! 1 + 1];
                   s = s\<lparr>hash_tab := Some base, nb_hashed_syms := nb_hashed_syms s + 1\<rparr>
               in (sym_index, if nb_hashed_syms s > 2 * nbuckets then rebuild_hash s (2 * nbuckets) else s)
             else
               let base = base[ptr := 0]; base = base[1 := base ! 1 + 1]
               in (sym_index, s\<lparr>hash_tab := Some base\<rparr>))"

text \<open>
  find_elf_sym: the walk along the chain. Nothing in the code bounds it, so it is a partial
  function; \<open>find_elf_sym_total\<close> shows that it returns on every table the operations build.
\<close>

partial_function (option) find_loop ::
  "symtab \<Rightarrow> nat list \<Rightarrow> u8 list \<Rightarrow> nat \<Rightarrow> nat option" where
  "find_loop s base name sym_index =
     (if sym_index \<noteq> 0 then
        (if name = sym_name s sym_index then Some sym_index
         else find_loop s base name (base ! (2 + base ! 0 + sym_index)))
      else Some 0)"

definition find_elf_sym :: "symtab \<Rightarrow> u8 list \<Rightarrow> nat option" where
  "find_elf_sym s name =
     (case hash_tab s of
        None \<Rightarrow> Some 0
      | Some base \<Rightarrow> find_loop s base name (base ! (2 + hash_bucket (base ! 0) name)))"

subsection \<open>The greatest index below a bound with a property\<close>

text \<open>Index 0 is the null symbol and stands for "none".\<close>

fun last_in :: "(nat \<Rightarrow> bool) \<Rightarrow> nat \<Rightarrow> nat" where
  "last_in P 0 = 0"
| "last_in P (Suc n) = (if n \<noteq> 0 \<and> P n then n else last_in P n)"

lemma last_in_cong: "(\<And>j. 0 < j \<Longrightarrow> j < n \<Longrightarrow> P j = Q j) \<Longrightarrow> last_in P n = last_in Q n"
  by (induction n) auto

lemma last_in_le: "last_in P n \<le> n - 1"
  by (induction n) auto

lemma last_in_less: "last_in P n \<noteq> 0 \<Longrightarrow> last_in P n < n \<and> P (last_in P n)"
  by (induction n) (auto split: if_splits simp: less_Suc_eq)

lemma last_in_skip: "last_in P n = k \<Longrightarrow> k < j \<Longrightarrow> j < n \<Longrightarrow> \<not> P j"
  by (induction n) (auto split: if_splits simp: less_Suc_eq)

lemma last_in_zero_iff: "last_in P n = 0 \<longleftrightarrow> (\<forall>j. 0 < j \<and> j < n \<longrightarrow> \<not> P j)"
  by (induction n) (auto simp: less_Suc_eq)

lemma last_in_shorten: "m \<le> n \<Longrightarrow> (\<And>j. m \<le> j \<Longrightarrow> j < n \<Longrightarrow> \<not> P j) \<Longrightarrow> last_in P n = last_in P m"
  by (induction n) (auto simp: le_Suc_eq)

lemma last_in_eqI:
  "0 < k \<Longrightarrow> k < n \<Longrightarrow> P k \<Longrightarrow> (\<And>j. k < j \<Longrightarrow> j < n \<Longrightarrow> \<not> P j) \<Longrightarrow> last_in P n = k"
  using last_in_shorten [of "Suc k" n P] by simp

subsection \<open>The invariant\<close>

definition named :: "symtab \<Rightarrow> u8 list \<Rightarrow> nat \<Rightarrow> bool" where
  "named s name i \<longleftrightarrow> st_bind (st_info (syms s ! i)) \<noteq> 0 \<and> sym_name s i = name"

definition in_bucket :: "symtab \<Rightarrow> nat \<Rightarrow> nat \<Rightarrow> nat \<Rightarrow> bool" where
  "in_bucket s nb b i \<longleftrightarrow>
     st_bind (st_info (syms s ! i)) \<noteq> 0 \<and> hash_bucket nb (sym_name s i) = b"

definition strs_ok :: "symtab \<Rightarrow> bool" where
  "strs_ok s \<longleftrightarrow> strs s \<noteq> [] \<and> hd (strs s) = 0 \<and> last (strs s) = 0 \<and> syms s \<noteq> [] \<and>
     (\<forall>y\<in>set (syms s). st_name y < length (strs s))"

definition hash_ok :: "symtab \<Rightarrow> nat \<Rightarrow> nat list \<Rightarrow> nat list \<Rightarrow> bool" where
  "hash_ok s nb buckets chain \<longleftrightarrow>
     0 < nb \<and> length buckets = nb \<and> length chain = length (syms s) \<and>
     (\<forall>b<nb. buckets ! b = last_in (in_bucket s nb b) (length (syms s))) \<and>
     (\<forall>i. 0 < i \<and> i < length (syms s) \<and> st_bind (st_info (syms s ! i)) \<noteq> 0 \<longrightarrow>
        chain ! i = last_in (in_bucket s nb (hash_bucket nb (sym_name s i))) i)"

definition symtab_ok :: "symtab \<Rightarrow> bool" where
  "symtab_ok s \<longleftrightarrow> strs_ok s \<and>
     (\<exists>nb buckets chain. hash_tab s = Some (nb # length (syms s) # buckets @ chain) \<and>
        hash_ok s nb buckets chain)"

lemma init_symtab_ok: "symtab_ok (init_symtab flags)"
  by (auto simp: symtab_ok_def strs_ok_def init_symtab_def null_sym_def hash_ok_def
      intro!: exI [of _ 1] exI [of _ "[0]"] exI [of _ "[0 :: nat]"])

subsection \<open>Lookup\<close>

lemma named_in_bucket: "named s name i \<Longrightarrow> in_bucket s nb (hash_bucket nb name) i"
  by (simp add: named_def in_bucket_def)

lemma find_loop_spec:
  assumes ok: "hash_ok s nb buckets chain" and m: "m \<le> length (syms s)"
    and base: "base = nb # length (syms s) # buckets @ chain"
  shows "find_loop s base name (last_in (in_bucket s nb (hash_bucket nb name)) m) =
         Some (last_in (named s name) m)"
  using m
proof (induction m rule: less_induct)
  case (less m)
  let ?B = "in_bucket s nb (hash_bucket nb name)"
  let ?i = "last_in ?B m"
  show ?case
  proof (cases "?i = 0")
    case True
    then have "\<forall>j. 0 < j \<and> j < m \<longrightarrow> \<not> named s name j"
      using named_in_bucket by (auto simp: last_in_zero_iff)
    then have "last_in (named s name) m = 0" by (simp add: last_in_zero_iff)
    with True show ?thesis by (subst find_loop.simps) simp
  next
    case False
    then have i: "?i < m" "?B ?i" using last_in_less [of ?B m] by auto
    have skip: "\<not> named s name j" if "?i < j" "j < m" for j
      using last_in_skip [of ?B m ?i j] that named_in_bucket by blast
    show ?thesis
    proof (cases "name = sym_name s ?i")
      case True
      with i False have "last_in (named s name) m = ?i"
        by (intro last_in_eqI skip) (auto simp: named_def in_bucket_def)
      with True False show ?thesis by (subst find_loop.simps) simp
    next
      case ne: False
      have "chain ! ?i = last_in ?B ?i"
        using ok i False less.prems unfolding hash_ok_def in_bucket_def by auto
      moreover have "base ! (2 + base ! 0 + ?i) = chain ! ?i"
        using ok by (simp add: base hash_ok_def nth_append)
      moreover have "find_loop s base name (last_in ?B ?i) = Some (last_in (named s name) ?i)"
        using less.IH [OF i(1)] i(1) less.prems by simp
      moreover have "last_in (named s name) m = last_in (named s name) ?i"
        using skip ne i(1)
        by (intro last_in_shorten) (auto simp: named_def le_less)
      ultimately show ?thesis
        using ne False by (subst find_loop.simps) simp
    qed
  qed
qed

lemma find_elf_sym_total:
  assumes "symtab_ok s"
  shows "find_elf_sym s name = Some (last_in (named s name) (length (syms s)))"
proof -
  from assms obtain nb buckets chain where
    h: "hash_tab s = Some (nb # length (syms s) # buckets @ chain)" "hash_ok s nb buckets chain"
    by (auto simp: symtab_ok_def)
  let ?base = "nb # length (syms s) # buckets @ chain"
  have "hash_bucket nb name < nb"
    using h(2) by (simp add: hash_bucket_def hash_ok_def)
  then have "?base ! (2 + hash_bucket nb name) =
      last_in (in_bucket s nb (hash_bucket nb name)) (length (syms s))"
    using h(2) by (simp add: hash_ok_def nth_append)
  with find_loop_spec [OF h(2) order_refl refl, of name] show ?thesis
    by (simp add: find_elf_sym_def h(1))
qed

subsection \<open>Insertion keeps the invariant\<close>

lemma cstr_at_append:
  assumes "off < length d" "last d = 0"
  shows "cstr_at (d @ e) off = cstr_at d off"
proof -
  have "last (drop off d) = 0" "drop off d \<noteq> []" using assms by auto
  then have "0 \<in> set (drop off d)" by (metis last_in_set)
  then show ?thesis using assms by (simp add: cstr_at_def takeWhile_append1)
qed

lemma takeWhile_cstr: "0 \<notin> set name \<Longrightarrow> takeWhile (\<lambda>c. c \<noteq> 0) (name @ 0 # e) = name"
  by (induction name) auto

lemma cstr_at_new: "0 \<notin> set name \<Longrightarrow> cstr_at (d @ name @ [0]) (length d) = name"
  by (simp add: cstr_at_def takeWhile_cstr)

lemma cstr_at_zero: "d \<noteq> [] \<Longrightarrow> hd d = 0 \<Longrightarrow> cstr_at d 0 = []"
  by (cases d) (auto simp: cstr_at_def)

lemma rebuild_loop_ok:
  assumes "syms s = pre @ ys" "length pre = i" "0 < i" "0 < nb"
    and "length buckets = nb" "length chain = i"
    and "\<forall>b<nb. buckets ! b = last_in (in_bucket s nb b) i"
    and "\<forall>j. 0 < j \<and> j < i \<and> st_bind (st_info (syms s ! j)) \<noteq> 0 \<longrightarrow>
        chain ! j = last_in (in_bucket s nb (hash_bucket nb (sym_name s j))) j"
  shows "case rebuild_loop s nb ys i buckets chain of (bs, ch) \<Rightarrow> hash_ok s nb bs ch"
  using assms
proof (induction ys arbitrary: pre i buckets chain)
  case Nil
  then show ?case by (auto simp: hash_ok_def)
next
  case (Cons y ys)
  have y: "syms s ! i = y" using Cons.prems(1,2) by (simp add: nth_append)
  show ?case
  proof (cases "st_bind (st_info y) \<noteq> 0")
    case True
    let ?h = "hash_bucket nb (cstr_at (strs s) (st_name y))"
    have h: "?h < nb" "?h = hash_bucket nb (sym_name s i)"
      using Cons.prems(4) y by (simp_all add: hash_bucket_def sym_name_def)
    have "case rebuild_loop s nb ys (i + 1) (buckets[?h := i]) (chain @ [buckets ! ?h]) of
        (bs, ch) \<Rightarrow> hash_ok s nb bs ch"
      using Cons.prems True h y
      by (intro Cons.IH [of "pre @ [y]"])
         (auto simp: nth_append less_Suc_eq nth_list_update in_bucket_def)
    with True show ?thesis by (simp add: Let_def)
  next
    case False
    have "case rebuild_loop s nb ys (i + 1) buckets (chain @ [0]) of
        (bs, ch) \<Rightarrow> hash_ok s nb bs ch"
      using Cons.prems False y
      by (intro Cons.IH [of "pre @ [y]"])
         (auto simp: nth_append less_Suc_eq in_bucket_def)
    with False show ?thesis by simp
  qed
qed

lemma hash_ok_cong:
  "syms s = syms t \<Longrightarrow> strs s = strs t \<Longrightarrow> hash_ok s = hash_ok t"
  by (intro ext) (simp add: hash_ok_def in_bucket_def [abs_def] sym_name_def)

lemma strs_ok_cong: "syms s = syms t \<Longrightarrow> strs s = strs t \<Longrightarrow> strs_ok s = strs_ok t"
  by (simp add: strs_ok_def)

lemma named_cong: "syms s = syms t \<Longrightarrow> strs s = strs t \<Longrightarrow> named s = named t"
  by (intro ext) (simp add: named_def sym_name_def)

lemma rebuild_hash_frame [simp]:
  "syms (rebuild_hash s nb) = syms s" "strs (rebuild_hash s nb) = strs s"
  "tab_flags (rebuild_hash s nb) = tab_flags s"
  by (simp_all add: rebuild_hash_def Let_def split: prod.splits)

lemma rebuild_hash_ok:
  assumes "strs_ok s" "0 < nb"
  shows "symtab_ok (rebuild_hash s nb)"
proof -
  obtain y ys where ys: "syms s = y # ys" using assms(1) by (cases "syms s") (auto simp: strs_ok_def)
  obtain bs ch where r: "rebuild_loop s nb ys 1 (replicate nb 0) [0] = (bs, ch)" by fastforce
  have ok: "hash_ok s nb bs ch"
    using rebuild_loop_ok [of s "[y]" ys 1 nb "replicate nb 0" "[0]"] ys assms(2) r by simp
  have e: "rebuild_hash s nb = s\<lparr>hash_tab := Some (nb # length (syms s) # bs @ ch)\<rparr>"
    using assms(2) r ys by (simp add: rebuild_hash_def)
  have "hash_ok (rebuild_hash s nb) nb bs ch"
    using ok hash_ok_cong [of "rebuild_hash s nb" s] by simp
  moreover have "strs_ok (rebuild_hash s nb)"
    using assms(1) strs_ok_cong [of "rebuild_hash s nb" s] by simp
  ultimately show ?thesis unfolding symtab_ok_def by (auto simp: e)
qed

text \<open>The table with the new symbol, before the hash table is brought up to date.\<close>

definition add_sym ::
  "symtab \<Rightarrow> u64 \<Rightarrow> u64 \<Rightarrow> u8 \<Rightarrow> u8 \<Rightarrow> u16 \<Rightarrow> u8 list \<Rightarrow> symtab" where
  "add_sym s val sz info other shndx name =
     s\<lparr>strs := (if name \<noteq> [] then strs s @ name @ [0] else strs s),
       syms := syms s @ [\<lparr>st_name = (if name \<noteq> [] then length (strs s) else 0), st_info = info,
         st_other = other, st_shndx = shndx, st_value = val, st_size = sz\<rparr>]\<rparr>"

lemma add_sym_frame [simp]:
  "hash_tab (add_sym s v z i ot n name) = hash_tab s"
  "tab_flags (add_sym s v z i ot n name) = tab_flags s"
  "length (syms (add_sym s v z i ot n name)) = Suc (length (syms s))"
  "j < length (syms s) \<Longrightarrow> syms (add_sym s v z i ot n name) ! j = syms s ! j"
  "st_info (syms (add_sym s v z i ot n name) ! length (syms s)) = i"
  by (auto simp: add_sym_def nth_append)

lemma add_sym_name_old:
  assumes "strs_ok s" "j < length (syms s)"
  shows "sym_name (add_sym s v z i ot n name) j = sym_name s j"
proof -
  have "st_name (syms s ! j) < length (strs s)" "last (strs s) = 0"
    using assms by (auto simp: strs_ok_def)
  then show ?thesis
    using assms(2) by (auto simp: add_sym_def sym_name_def nth_append cstr_at_append)
qed

lemma add_sym_name_new:
  "strs_ok s \<Longrightarrow> 0 \<notin> set name \<Longrightarrow>
   sym_name (add_sym s v z i ot n name) (length (syms s)) = name"
  by (auto simp: add_sym_def sym_name_def cstr_at_new cstr_at_zero strs_ok_def)

lemma add_sym_strs_ok: "strs_ok s \<Longrightarrow> strs_ok (add_sym s v z i ot n name)"
  by (auto simp: strs_ok_def add_sym_def)

lemma add_sym_in_bucket:
  "strs_ok s \<Longrightarrow> j < length (syms s) \<Longrightarrow>
   in_bucket (add_sym s v z i ot n name) nb b j = in_bucket s nb b j"
  by (simp add: in_bucket_def add_sym_name_old)

lemma add_sym_named:
  "strs_ok s \<Longrightarrow> j < length (syms s) \<Longrightarrow>
   named (add_sym s v z i ot n name) nm j = named s nm j"
  by (simp add: named_def add_sym_name_old)

lemma add_sym_last_in:
  assumes "strs_ok s" "m \<le> length (syms s)"
  shows "last_in (in_bucket (add_sym s v z i ot n name) nb b) m = last_in (in_bucket s nb b) m"
        "last_in (named (add_sym s v z i ot n name) nm) m = last_in (named s nm) m"
  using assms by (auto intro!: last_in_cong simp: add_sym_in_bucket add_sym_named)

lemma add_sym_hash_ok:
  assumes so: "strs_ok s" and ho: "hash_ok s nb buckets chain" and nz: "0 \<notin> set name"
    and t: "t = add_sym s v z info ot n name"
  shows "st_bind info = 0 \<Longrightarrow> hash_ok t nb buckets (chain @ [0])"
    and "st_bind info \<noteq> 0 \<Longrightarrow> h = hash_bucket nb name \<Longrightarrow>
         hash_ok t nb (buckets[h := length (syms s)]) (chain @ [buckets ! h])"
proof -
  have pos: "0 < length (syms s)" using so by (simp add: strs_ok_def)
  have ch: "(chain @ [e]) ! i = last_in (in_bucket t nb (hash_bucket nb (sym_name t i))) i"
    if "0 < i" "i < length (syms s)" "st_bind (st_info (syms t ! i)) \<noteq> 0" for i e
    using that ho so unfolding t
    by (simp add: hash_ok_def nth_append add_sym_last_in add_sym_name_old)
  show "hash_ok t nb buckets (chain @ [0])" if b: "st_bind info = 0"
    using ho so b pos ch unfolding hash_ok_def
    by (auto simp: t in_bucket_def less_Suc_eq add_sym_last_in)
  show "hash_ok t nb (buckets[h := length (syms s)]) (chain @ [buckets ! h])"
    if b: "st_bind info \<noteq> 0" and h: "h = hash_bucket nb name"
  proof -
    have "h < nb" using ho by (simp add: h hash_bucket_def hash_ok_def)
    moreover have "in_bucket t nb bb (length (syms s)) \<longleftrightarrow> bb = h" for bb
      using b so nz by (auto simp: t h in_bucket_def add_sym_name_new)
    moreover have "sym_name t (length (syms s)) = name"
      using so nz by (simp add: t add_sym_name_new)
    ultimately show ?thesis
      using ho so pos ch unfolding hash_ok_def
      by (auto simp: t less_Suc_eq add_sym_last_in nth_list_update nth_append h)
  qed
qed

lemma put_elf_sym_add:
  assumes ok: "symtab_ok s" and nz: "0 \<notin> set name"
  shows "fst (put_elf_sym s v z info ot n name) = length (syms s) \<and>
         symtab_ok (snd (put_elf_sym s v z info ot n name)) \<and>
         syms (snd (put_elf_sym s v z info ot n name)) = syms (add_sym s v z info ot n name) \<and>
         strs (snd (put_elf_sym s v z info ot n name)) = strs (add_sym s v z info ot n name) \<and>
         tab_flags (snd (put_elf_sym s v z info ot n name)) = tab_flags s"
proof -
  from ok obtain nb buckets chain where so: "strs_ok s"
    and h: "hash_tab s = Some (nb # length (syms s) # buckets @ chain)"
    and ho: "hash_ok s nb buckets chain"
    by (auto simp: symtab_ok_def)
  let ?t = "add_sym s v z info ot n name"
  let ?h = "hash_bucket nb name"
  have nb: "0 < nb" "length buckets = nb" "?h < nb" "length chain = length (syms s)"
    using ho by (auto simp: hash_ok_def hash_bucket_def)
  have nm: "cstr_at (strs ?t) (if name \<noteq> [] then length (strs s) else 0) = name"
    using so nz by (auto simp: add_sym_def cstr_at_new cstr_at_zero strs_ok_def)
  note ho' = add_sym_hash_ok [OF so ho nz refl, where v = v and z = z and info = info and ot = ot and n = n]
  show ?thesis
  proof (cases "st_bind info = 0")
    case True
    have e: "put_elf_sym s v z info ot n name =
        (length (syms s), ?t\<lparr>hash_tab := Some (nb # Suc (length (syms s)) # buckets @ chain @ [0])\<rparr>)"
      using True h nb by (simp add: put_elf_sym_def add_sym_def Let_def list_update_append)
    have "hash_ok (?t\<lparr>hash_tab := x\<rparr>) nb buckets (chain @ [0])" for x
      using ho'(1) [OF True] hash_ok_cong [of "?t\<lparr>hash_tab := x\<rparr>" ?t] by simp
    with add_sym_strs_ok [OF so, of v z info ot n name] show ?thesis
      unfolding e symtab_ok_def by (simp add: strs_ok_def; blast)
  next
    case False
    let ?b = "nb # Suc (length (syms s)) # buckets[?h := length (syms s)] @ chain @ [buckets ! ?h]"
    let ?u = "?t\<lparr>hash_tab := Some ?b, nb_hashed_syms := nb_hashed_syms s + 1\<rparr>"
    have e: "put_elf_sym s v z info ot n name =
        (length (syms s), if nb_hashed_syms s + 1 > 2 * nb then rebuild_hash ?u (2 * nb) else ?u)"
      using False h nb nm
      by (cases "name = []")
         (simp_all add: put_elf_sym_def add_sym_def Let_def nth_append list_update_append)
    have so': "strs_ok ?u" using add_sym_strs_ok [OF so, of v z info ot n name] by (simp add: strs_ok_def)
    have "hash_ok ?u nb (buckets[?h := length (syms s)]) (chain @ [buckets ! ?h])"
      using ho'(2) [OF False refl] hash_ok_cong [of ?u ?t] by simp
    with so' have "symtab_ok ?u" unfolding symtab_ok_def by (simp; blast)
    moreover have "symtab_ok (rebuild_hash ?u (2 * nb))"
      using so' nb(1) by (intro rebuild_hash_ok) simp_all
    ultimately show ?thesis unfolding e by simp
  qed
qed

subsection \<open>The table as a map\<close>

text \<open>
  What a table promises its clients (set_elf_sym, the PE import tables, the archive loader): a
  lookup always returns, an insertion of a global or weak symbol is found under its name and
  hides no other name, an insertion of a local symbol is not found.
\<close>

locale symbol_map =
  fixes find :: "'t \<Rightarrow> 'n \<Rightarrow> nat option"
    and put :: "'t \<Rightarrow> 'v \<Rightarrow> 'n \<Rightarrow> nat \<times> 't"
    and visible :: "'v \<Rightarrow> bool"
    and ok :: "'t \<Rightarrow> bool"
    and okn :: "'n \<Rightarrow> bool"
  assumes find_total: "ok t \<Longrightarrow> \<exists>i. find t n = Some i"
    and put_ok: "ok t \<Longrightarrow> okn n \<Longrightarrow> ok (snd (put t v n))"
    and find_put: "ok t \<Longrightarrow> okn n \<Longrightarrow>
      find (snd (put t v n)) m = (if visible v \<and> m = n then Some (fst (put t v n)) else find t m)"
begin

text \<open>Inserting a list of symbols one after the other.\<close>

primrec put_all :: "'t \<Rightarrow> ('v \<times> 'n) list \<Rightarrow> 't" where
  "put_all t [] = t"
| "put_all t (x # xs) = put_all (snd (put t (fst x) (snd x))) xs"

lemma put_all_ok: "ok t \<Longrightarrow> list_all okn (map snd xs) \<Longrightarrow> ok (put_all t xs)"
  by (induction xs arbitrary: t) (auto intro: put_ok)

lemma find_put_all_other:
  "ok t \<Longrightarrow> list_all okn (map snd xs) \<Longrightarrow> (\<forall>x\<in>set xs. visible (fst x) \<longrightarrow> snd x \<noteq> n) \<Longrightarrow>
   find (put_all t xs) n = find t n"
  by (induction xs arbitrary: t) (auto simp: find_put put_ok)

lemma find_put_all_last:
  assumes "ok t" "list_all okn (map snd (xs @ (v, n) # ys))" "visible v"
    and "\<forall>x\<in>set ys. visible (fst x) \<longrightarrow> snd x \<noteq> n"
  shows "find (put_all t (xs @ (v, n) # ys)) n = Some (fst (put (put_all t xs) v n))"
  using assms
proof (induction xs arbitrary: t)
  case Nil
  then show ?case by (simp add: find_put_all_other put_ok find_put)
next
  case (Cons x xs)
  then show ?case by (simp add: put_ok)
qed

end

type_synonym sym_def = "u64 \<times> u64 \<times> u8 \<times> u8 \<times> u16"

definition put_sym :: "symtab \<Rightarrow> sym_def \<Rightarrow> u8 list \<Rightarrow> nat \<times> symtab" where
  "put_sym s d name = (case d of (v, z, info, ot, n) \<Rightarrow> put_elf_sym s v z info ot n name)"

definition sym_visible :: "sym_def \<Rightarrow> bool" where
  "sym_visible d = (case d of (v, z, info, ot, n) \<Rightarrow> st_bind info \<noteq> 0)"

lemma find_put_elf_sym:
  assumes ok: "symtab_ok s" and nz: "0 \<notin> set name"
  shows "find_elf_sym (snd (put_elf_sym s v z info ot n name)) nm =
    (if st_bind info \<noteq> 0 \<and> nm = name then Some (length (syms s)) else find_elf_sym s nm)"
proof -
  let ?r = "snd (put_elf_sym s v z info ot n name)" and ?t = "add_sym s v z info ot n name"
  note p = put_elf_sym_add [OF ok nz, of v z info ot n]
  have so: "strs_ok s" using ok by (simp add: symtab_ok_def)
  have pos: "0 < length (syms s)" using so by (simp add: strs_ok_def)
  have "find_elf_sym ?r nm = Some (last_in (named ?t nm) (Suc (length (syms s))))"
    using find_elf_sym_total [of ?r nm] p named_cong [of ?r ?t] by simp
  moreover have "named ?t nm (length (syms s)) \<longleftrightarrow> st_bind info \<noteq> 0 \<and> nm = name"
    using so nz by (auto simp: named_def add_sym_name_new)
  ultimately show ?thesis
    using pos so find_elf_sym_total [OF ok, of nm] by (auto simp: add_sym_last_in)
qed

interpretation elf: symbol_map find_elf_sym put_sym sym_visible symtab_ok "\<lambda>n. 0 \<notin> set n"
proof unfold_locales
  fix t :: symtab and v :: sym_def and n m :: "u8 list"
  show "symtab_ok t \<Longrightarrow> \<exists>i. find_elf_sym t n = Some i"
    by (simp add: find_elf_sym_total)
  show "symtab_ok t \<Longrightarrow> 0 \<notin> set n \<Longrightarrow> symtab_ok (snd (put_sym t v n))"
    by (cases v) (simp add: put_sym_def put_elf_sym_add)
  show "symtab_ok t \<Longrightarrow> 0 \<notin> set n \<Longrightarrow> find_elf_sym (snd (put_sym t v n)) m =
      (if sym_visible v \<and> m = n then Some (fst (put_sym t v n)) else find_elf_sym t m)"
    by (cases v) (simp add: put_sym_def sym_visible_def put_elf_sym_add find_put_elf_sym)
qed

text \<open>
  C9: the hash table of a symbol table is a correct index at any size: after any sequence of
  put_elf_sym from init_symtab (the table is rebuilt with twice the buckets whenever it is more
  than two symbols per bucket full), find_elf_sym returns, and it returns the most recently
  inserted non-local symbol of the name, or 0 when no non-local symbol has it.
\<close>

theorem find_elf_sym_after_puts:
  assumes "list_all (\<lambda>n. 0 \<notin> set n) (map snd xs)"
  shows "find_elf_sym (elf.put_all (init_symtab flags) xs) name =
           Some (last_in (named (elf.put_all (init_symtab flags) xs) name)
                         (length (syms (elf.put_all (init_symtab flags) xs)))) \<and>
         ((\<forall>x\<in>set xs. sym_visible (fst x) \<longrightarrow> snd x \<noteq> name) \<longrightarrow>
            find_elf_sym (elf.put_all (init_symtab flags) xs) name = Some 0)"
proof -
  have ok: "symtab_ok (elf.put_all (init_symtab flags) xs)"
    using elf.put_all_ok [OF init_symtab_ok assms] .
  have "find_elf_sym (init_symtab flags) name = Some 0"
    using find_elf_sym_total [OF init_symtab_ok, of flags name] by (simp add: init_symtab_def)
  then show ?thesis
    using find_elf_sym_total [OF ok, of name]
      elf.find_put_all_other [OF init_symtab_ok assms, of name flags] by auto
qed

definition demo_syms :: "(sym_def \<times> u8 list) list" where
  "demo_syms = [((16, 4, 0x10, 0, 1), [102]), ((32, 4, 0x00, 0, 1), [103])]"

theorem find_elf_sym_after_puts_witness:
  "list_all (\<lambda>n. 0 \<notin> set n) (map snd demo_syms) \<and>
   find_elf_sym (elf.put_all (init_symtab 0) demo_syms) [103] = Some 0"
proof -
  have l: "list_all (\<lambda>n. 0 \<notin> set n) (map snd demo_syms)" by (simp add: demo_syms_def)
  have "\<forall>x\<in>set demo_syms. sym_visible (fst x) \<longrightarrow> snd x \<noteq> [103]"
    by (simp add: demo_syms_def sym_visible_def st_bind_def)
  with find_elf_sym_after_puts [OF l, of 0 "[103]"] l show ?thesis by blast
qed

end
