(* ===== verification/ElfLink.thy ===== *)
theory ElfLink
  imports ElfSym "HOL-Library.Multiset"
begin

text \<open>
  Symbol resolution and renumbering of the linker part of tcc.c: set_elf_sym with IS_BSS (lines
  26008-26074), get_sym_addr (25951-25970), update_relocs (26121-26139), sort_syms
  (26140-26172) and relocate_syms (26173-26199). The types of the sections of the state are a
  list indexed by section number; _tcc_error_noabort, which reports and goes on, sets a flag in
  the result.
\<close>

definition IS_BSS :: "u32 list \<Rightarrow> u16 \<Rightarrow> bool" where
  "IS_BSS types ndx \<longleftrightarrow>
     ndx = 0xfff2 \<or> (unat ndx < length types \<and> types ! unat ndx = 8)"

text \<open>
  The decision of set_elf_sym between a symbol that is defined already and a new entry of the
  same name: keep the old definition, patch it with the new one, or report a double definition.
\<close>

datatype resolution = Keep | Patch | Twice

definition resolve ::
  "u32 list \<Rightarrow> u32 \<Rightarrow> elf_sym \<Rightarrow> u8 \<Rightarrow> u8 \<Rightarrow> u16 \<Rightarrow> resolution" where
  "resolve types flags esym info other shndx =
     (let sym_bind = st_bind info; sym_vis = st_visibility other;
          esym_bind = st_bind (st_info esym)
      in if shndx = 0 then Keep
         else if sym_bind = 1 \<and> esym_bind = 2 then Patch
         else if sym_bind = 2 \<and> esym_bind = 1 then Keep
         else if sym_bind = 2 \<and> esym_bind = 2 then Keep
         else if sym_vis = 2 \<or> sym_vis = 1 then Keep
         else if flags AND 0x40000000 \<noteq> 0 then Keep
         else if \<not> IS_BSS types shndx \<and> IS_BSS types (st_shndx esym) then Patch
         else if IS_BSS types shndx then Keep
         else if st_other esym AND 0x04 \<noteq> 0 then Patch
         else Twice)"

definition merge_vis :: "u8 \<Rightarrow> u8 \<Rightarrow> u8" where
  "merge_vis esym_vis sym_vis =
     (if esym_vis = 0 then sym_vis
      else if sym_vis = 0 then esym_vis
      else if esym_vis < sym_vis then esym_vis else sym_vis)"

definition patch_sym :: "elf_sym \<Rightarrow> u64 \<Rightarrow> u64 \<Rightarrow> u8 \<Rightarrow> u16 \<Rightarrow> elf_sym" where
  "patch_sym esym val sz info shndx =
     esym\<lparr>st_info := st_mkinfo (st_bind info) (st_type info), st_shndx := shndx,
          st_value := val, st_size := sz\<rparr>"

definition set_elf_sym ::
  "u32 list \<Rightarrow> symtab \<Rightarrow> u64 \<Rightarrow> u64 \<Rightarrow> u8 \<Rightarrow> u8 \<Rightarrow> u16 \<Rightarrow> u8 list \<Rightarrow> (nat \<times> symtab \<times> bool) option"
where
  "set_elf_sym types s val sz info other shndx name =
     (let do_def = (case put_elf_sym s val sz (st_mkinfo (st_bind info) (st_type info))
                           other shndx name of (i, s') \<Rightarrow> (i, s', False))
      in if st_bind info \<noteq> 0 then
           (case find_elf_sym s name of
              None \<Rightarrow> None
            | Some sym_index \<Rightarrow>
                if sym_index = 0 then Some do_def
                else
                  let esym = syms s ! sym_index in
                  if st_value esym = val \<and> st_size esym = sz \<and> st_info esym = info \<and>
                     st_other esym = other \<and> st_shndx esym = shndx
                  then Some (sym_index, s, False)
                  else if st_shndx esym \<noteq> 0 then
                    let esym = esym\<lparr>st_other := (st_other esym AND NOT 3) OR
                          merge_vis (st_visibility (st_other esym)) (st_visibility other)\<rparr>
                    in (case resolve types (tab_flags s) esym info other shndx of
                          Keep \<Rightarrow> Some (sym_index, s\<lparr>syms := (syms s)[sym_index := esym]\<rparr>, False)
                        | Patch \<Rightarrow> Some (sym_index, s\<lparr>syms := (syms s)[sym_index :=
                                    patch_sym esym val sz info shndx]\<rparr>, False)
                        | Twice \<Rightarrow> Some (sym_index, s\<lparr>syms := (syms s)[sym_index := esym]\<rparr>, True))
                  else Some (sym_index, s\<lparr>syms := (syms s)[sym_index :=
                         patch_sym (esym\<lparr>st_other := other\<rparr>) val sz info shndx]\<rparr>, False))
         else Some do_def)"

text \<open>
  get_sym_addr: the address of a defined symbol, (Elf64_Addr)-1 otherwise. With a leading
  underscore the name is copied behind it into a buffer of 256 bytes (pstrcpy truncates).
\<close>

definition get_sym_addr :: "bool \<Rightarrow> symtab \<Rightarrow> u8 list \<Rightarrow> bool \<Rightarrow> u64 option" where
  "get_sym_addr leading_underscore s name forc =
     (let name = (if forc \<and> leading_underscore \<and> 64 \<notin> set name then 95 # take 254 name else name)
      in map_option (\<lambda>sym_index.
           let esym = syms s ! sym_index in
           if sym_index = 0 \<or> st_shndx esym = 0 then - 1 else st_value esym)
         (find_elf_sym s name))"

subsection \<open>Changing a symbol in place\<close>

text \<open>
  An entry may be changed as long as its name and whether it is local stay: the index of the
  table does not depend on the rest.
\<close>

definition same_entry :: "elf_sym \<Rightarrow> elf_sym \<Rightarrow> bool" where
  "same_entry x y \<longleftrightarrow> st_name x = st_name y \<and> (st_bind (st_info x) = 0) = (st_bind (st_info y) = 0)"

lemma update_entry:
  assumes "i < length (syms s)" "same_entry y (syms s ! i)"
  shows "named (s\<lparr>syms := (syms s)[i := y]\<rparr>) = named s"
    and "in_bucket (s\<lparr>syms := (syms s)[i := y]\<rparr>) = in_bucket s"
    and "sym_name (s\<lparr>syms := (syms s)[i := y]\<rparr>) = sym_name s"
  using assms
  by (auto intro!: ext simp: named_def in_bucket_def sym_name_def same_entry_def nth_list_update
      split: if_splits)

lemma update_entry_ok:
  assumes ok: "symtab_ok s" and i: "i < length (syms s)" and y: "same_entry y (syms s ! i)"
  shows "symtab_ok (s\<lparr>syms := (syms s)[i := y]\<rparr>)"
proof -
  let ?t = "s\<lparr>syms := (syms s)[i := y]\<rparr>"
  have loc: "(st_bind (st_info (syms ?t ! j)) = 0) = (st_bind (st_info (syms s ! j)) = 0)"
    if "j < length (syms s)" for j
    using y that i by (auto simp: same_entry_def nth_list_update)
  have "hash_ok ?t nb bs ch" if "hash_ok s nb bs ch" for nb bs ch
    using that loc unfolding hash_ok_def update_entry [OF i y] by auto
  moreover have "strs_ok ?t"
    using ok i y set_update_subset_insert [of "syms s" i y] nth_mem [OF i]
    by (fastforce simp: symtab_ok_def strs_ok_def same_entry_def)
  ultimately show ?thesis using ok unfolding symtab_ok_def by fastforce
qed

lemma update_entry_find:
  assumes "symtab_ok s" "i < length (syms s)" "same_entry y (syms s ! i)"
  shows "find_elf_sym (s\<lparr>syms := (syms s)[i := y]\<rparr>) = find_elf_sym s"
  using find_elf_sym_total [OF update_entry_ok [OF assms]] find_elf_sym_total [OF assms(1)]
    update_entry [OF assms(2,3)]
  by (intro ext) simp

lemma mkinfo_self: "st_mkinfo (st_bind info) (st_type info) = info"
proof -
  have "info AND 0xf AND 0xf = take_bit 4 info"
    by (simp add: take_bit_eq_mask mask_eq_exp_minus_1 and.assoc)
  then show ?thesis
    unfolding st_mkinfo_def st_bind_def st_type_def by (simp only: bits_ident and.assoc)
qed

lemma bind_mkinfo: "st_bind (st_mkinfo (st_bind info) (st_type info)) = st_bind info"
  by (simp add: mkinfo_self)

lemma find_SomeD:
  assumes "symtab_ok s" "find_elf_sym s name = Some i" "i \<noteq> 0"
  shows "i < length (syms s)" "named s name i"
  using assms find_elf_sym_total [OF assms(1), of name] last_in_less [of "named s name"]
  by auto

lemma set_elf_sym_cases:
  assumes ok: "symtab_ok s" and b: "st_bind info \<noteq> 0"
    and f: "find_elf_sym s name = Some i" and i: "i \<noteq> 0"
  shows "\<exists>y e. set_elf_sym types s val sz info other shndx name =
           Some (i, s\<lparr>syms := (syms s)[i := y]\<rparr>, e) \<and> same_entry y (syms s ! i)"
proof -
  have il: "i < length (syms s)" and nm: "named s name i"
    using find_SomeD [OF ok f i] by auto
  have eb: "st_bind (st_info (syms s ! i)) \<noteq> 0" using nm by (simp add: named_def)
  show ?thesis
  proof (cases "st_value (syms s ! i) = val \<and> st_size (syms s ! i) = sz \<and>
      st_info (syms s ! i) = info \<and> st_other (syms s ! i) = other \<and> st_shndx (syms s ! i) = shndx")
    case True
    then show ?thesis
      using b f i il
      by (intro exI [of _ "syms s ! i"] exI [of _ False])
         (auto simp: set_elf_sym_def Let_def same_entry_def)
  next
    case False
    then show ?thesis
      using b f i eb
      by (cases "resolve types (tab_flags s) ((syms s ! i)\<lparr>st_other := (st_other (syms s ! i) AND NOT 3)
            OR merge_vis (st_visibility (st_other (syms s ! i))) (st_visibility other)\<rparr>)
            info other shndx")
         (auto simp: set_elf_sym_def Let_def same_entry_def patch_sym_def bind_mkinfo)
  qed
qed

text \<open>
  C30: set_elf_sym always returns on a well-formed table and keeps it well formed. For a
  non-local symbol the number it returns is the one a lookup of the name finds from then on, and
  no lookup of another name changes; a symbol whose name is known is never entered twice.
\<close>

theorem set_elf_sym_lookup:
  assumes "symtab_ok s" "0 \<notin> set name" "st_bind info \<noteq> 0"
  shows "\<exists>i s' e. set_elf_sym types s val sz info other shndx name = Some (i, s', e) \<and>
           symtab_ok s' \<and> i \<noteq> 0 \<and> find_elf_sym s' name = Some i \<and>
           (\<forall>nm. nm \<noteq> name \<longrightarrow> find_elf_sym s' nm = find_elf_sym s nm) \<and>
           length (syms s') = length (syms s) + (if find_elf_sym s name = Some 0 then 1 else 0)"
proof -
  obtain i where f: "find_elf_sym s name = Some i"
    using find_elf_sym_total [OF assms(1)] by blast
  show ?thesis
  proof (cases "i = 0")
    case True
    have "length (syms s) \<noteq> 0" using assms(1) by (simp add: symtab_ok_def strs_ok_def)
    with True f assms show ?thesis
      using find_put_elf_sym [OF assms(1,2), of val sz "st_mkinfo (st_bind info) (st_type info)"
          other shndx]
        put_elf_sym_add [OF assms(1,2), of val sz "st_mkinfo (st_bind info) (st_type info)"
          other shndx]
      by (auto simp: set_elf_sym_def Let_def bind_mkinfo split: prod.splits)
  next
    case False
    from set_elf_sym_cases [OF assms(1,3) f False] obtain y e where
      y: "set_elf_sym types s val sz info other shndx name =
          Some (i, s\<lparr>syms := (syms s)[i := y]\<rparr>, e)" "same_entry y (syms s ! i)" by blast
    have il: "i < length (syms s)" using find_SomeD [OF assms(1) f False] by simp
    from y update_entry_ok [OF assms(1) il y(2)] update_entry_find [OF assms(1) il y(2)] f False
    show ?thesis by auto
  qed
qed

definition demo_tab :: symtab where
  "demo_tab = snd (put_elf_sym (init_symtab 0) 0x10 4 0x11 0 1 [102])"

lemma demo_tab_ok: "symtab_ok demo_tab"
  unfolding demo_tab_def using put_elf_sym_add [OF init_symtab_ok, of "[102]"] by simp

theorem set_elf_sym_lookup_witness:
  "\<exists>i s' e. set_elf_sym [0, 1] demo_tab 0x20 4 0x21 0 1 [102] = Some (i, s', e) \<and>
     i \<noteq> 0 \<and> find_elf_sym s' [102] = Some i"
proof -
  have "st_bind 0x21 \<noteq> 0" by (simp add: st_bind_def)
  with set_elf_sym_lookup [where types = "[0, 1]" and val = "0x20" and sz = "4" and other = "0"
      and shndx = "1", OF demo_tab_ok, of "[102]" "0x21"] show ?thesis
    by fastforce
qed

subsection \<open>Who wins\<close>

text \<open>A symbol has one definition: no two non-local entries with the same name.\<close>

definition unique_names :: "symtab \<Rightarrow> bool" where
  "unique_names s \<longleftrightarrow> (\<forall>i j name. 0 < i \<and> i < length (syms s) \<and> 0 < j \<and> j < length (syms s) \<and>
     named s name i \<and> named s name j \<longrightarrow> i = j)"

lemma unique_names_put:
  assumes so: "strs_ok s" and u: "unique_names s" and nz: "0 \<notin> set name"
    and new: "st_bind info = 0 \<or> last_in (named s name) (length (syms s)) = 0"
    and t: "syms t = syms (add_sym s v z info ot n name)" "strs t = strs (add_sym s v z info ot n name)"
  shows "unique_names t"
proof -
  let ?a = "add_sym s v z info ot n name"
  have fresh: "\<not> named s name j" if "st_bind info \<noteq> 0" "0 < j" "j < length (syms s)" for j
    using new that by (auto simp: last_in_zero_iff)
  have last: "named ?a nm (length (syms s)) \<longleftrightarrow> st_bind info \<noteq> 0 \<and> nm = name" for nm
    using so nz by (auto simp: named_def add_sym_name_new)
  have "unique_names ?a"
    unfolding unique_names_def
  proof (intro allI impI, elim conjE)
    fix i j nm
    assume *: "0 < i" "i < length (syms ?a)" "0 < j" "j < length (syms ?a)" "named ?a nm i" "named ?a nm j"
    consider "i < length (syms s)" "j < length (syms s)" | "i = length (syms s)" "j = i"
      | "i = length (syms s)" "j < length (syms s)" | "j = length (syms s)" "i < length (syms s)"
      using *(2,4) by (auto simp: less_Suc_eq)
    then show "i = j"
    proof cases
      case 1
      with * so have "named s nm i" "named s nm j" by (simp_all add: add_sym_named)
      with u * 1 show ?thesis unfolding unique_names_def by blast
    qed (use * so last fresh in \<open>auto simp: add_sym_named\<close>)
  qed
  then show ?thesis
    using named_cong [of t ?a] t by (simp add: unique_names_def)
qed

text \<open>
  The resolution rule, stated on its own: whether the new definition replaces the old entry, and
  whether the pair is a double definition.
\<close>

definition both_strong :: "u32 list \<Rightarrow> u32 \<Rightarrow> elf_sym \<Rightarrow> u8 \<Rightarrow> u8 \<Rightarrow> u16 \<Rightarrow> bool" where
  "both_strong types flags old info other shndx \<longleftrightarrow>
     st_shndx old \<noteq> 0 \<and> shndx \<noteq> 0 \<and> st_bind (st_info old) = 1 \<and> st_bind info = 1 \<and>
     st_visibility other \<notin> {1, 2} \<and> flags AND 0x40000000 = 0 \<and> \<not> IS_BSS types shndx"

definition new_wins :: "u32 list \<Rightarrow> u32 \<Rightarrow> elf_sym \<Rightarrow> u8 \<Rightarrow> u8 \<Rightarrow> u16 \<Rightarrow> bool" where
  "new_wins types flags old info other shndx \<longleftrightarrow>
     st_shndx old = 0 \<or>
     shndx \<noteq> 0 \<and> st_bind info = 1 \<and> st_bind (st_info old) = 2 \<or>
     both_strong types flags old info other shndx \<and>
       (IS_BSS types (st_shndx old) \<or> st_other old AND 4 \<noteq> 0)"

definition defined_twice :: "u32 list \<Rightarrow> u32 \<Rightarrow> elf_sym \<Rightarrow> u8 \<Rightarrow> u8 \<Rightarrow> u16 \<Rightarrow> bool" where
  "defined_twice types flags old info other shndx \<longleftrightarrow>
     both_strong types flags old info other shndx \<and>
     \<not> IS_BSS types (st_shndx old) \<and> st_other old AND 4 = 0"

lemma merged_other_flag4:
  "((x AND NOT 3) OR merge_vis (st_visibility x) (st_visibility y)) AND 4 = x AND (4 :: u8)"
proof -
  have three: "(3 :: u8) = mask 2" by (simp add: mask_eq_exp_minus_1)
  have four: "bit (4 :: u8) n \<longleftrightarrow> n = 2" "bit (4 :: int) n \<longleftrightarrow> n = 2" for n
    using bit_exp_iff [where ?'a = u8, of 2 n] bit_exp_iff [where ?'a = int, of 2 n] by auto
  have "merge_vis (st_visibility x) (st_visibility y) AND 4 = 0"
    by (rule bit_word_eqI)
       (auto simp: merge_vis_def st_visibility_def three four bit_simps)
  moreover have "(x AND NOT 3) AND 4 = x AND (4 :: u8)"
    by (rule bit_word_eqI) (auto simp: three four bit_simps)
  ultimately show ?thesis by (simp add: bit.conj_disj_distrib2)
qed



subsection \<open>Renumbering\<close>

text \<open>
  A section as update_relocs sees it: its type, the section number its link points to and, for a
  relocation section (type 4), its data as an array of Elf64_Rela.
\<close>

record elf_rela =
  r_offset :: u64
  r_info :: u64
  r_addend :: u64

record rel_sect =
  rs_type :: u32
  rs_link :: nat
  rs_rels :: "elf_rela list"

definition r_sym :: "u64 \<Rightarrow> u32" where "r_sym info = ucast (drop_bit 32 info)"
definition r_type :: "u64 \<Rightarrow> u32" where "r_type info = ucast (info AND 0xffffffff)"

text \<open>Both operands of the sum are int converted to Elf64_Xword: the type is sign extended.\<close>

definition r_mkinfo :: "u32 \<Rightarrow> u32 \<Rightarrow> u64" where
  "r_mkinfo y t = push_bit 32 (scast y) + scast t"

definition update_rel :: "nat list \<Rightarrow> int \<Rightarrow> elf_rela \<Rightarrow> elf_rela" where
  "update_rel old_to_new_syms first_sym rel =
     (let sym_index = sint (r_sym (r_info rel)) - first_sym; type = r_type (r_info rel)
      in if sym_index < 0 then rel
         else rel\<lparr>r_info := r_mkinfo (of_nat (old_to_new_syms ! nat sym_index)) type\<rparr>)"

definition update_relocs :: "rel_sect list \<Rightarrow> nat \<Rightarrow> nat list \<Rightarrow> int \<Rightarrow> rel_sect list" where
  "update_relocs sections s old_to_new_syms first_sym =
     take 1 sections @
     List.map (\<lambda>sr. if rs_type sr = 4 \<and> rs_link sr = s
                then sr\<lparr>rs_rels := List.map (update_rel old_to_new_syms first_sym) (rs_rels sr)\<rparr> else sr)
         (drop 1 sections)"

text \<open>
  One pass of sort_syms over the symbols: those that satisfy the test of the pass are appended to
  new_syms (\<open>q\<close>, so that q - new_syms is its length) and their new number is recorded.
\<close>

fun sort_pass ::
  "(elf_sym \<Rightarrow> bool) \<Rightarrow> elf_sym list \<Rightarrow> nat \<Rightarrow> nat list \<Rightarrow> elf_sym list \<Rightarrow> nat list \<times> elf_sym list"
where
  "sort_pass test [] i old_to_new q = (old_to_new, q)"
| "sort_pass test (p # ps) i old_to_new q =
     (if test p then sort_pass test ps (i + 1) (old_to_new[i := length q]) (q @ [p])
      else sort_pass test ps (i + 1) old_to_new q)"

definition sort_syms ::
  "rel_sect list \<Rightarrow> nat \<Rightarrow> elf_sym list \<Rightarrow> nat \<Rightarrow> nat \<Rightarrow> elf_sym list \<times> nat \<times> rel_sect list" where
  "sort_syms sections s tab sz si =
     (let (old_to_new, q) =
            sort_pass (\<lambda>p. st_bind (st_info p) = 0) tab 0 (replicate (length tab) 0) [];
          si = (if sz \<noteq> 0 then length q else si);
          (old_to_new, q) = sort_pass (\<lambda>p. st_bind (st_info p) \<noteq> 0) tab 0 old_to_new q
      in (q, si, update_relocs sections s old_to_new 0))"

lemma sort_pass_spec:
  assumes "sort_pass test ps i r q = (r', q')" "i + length ps \<le> length r"
  shows "q' = q @ filter test ps \<and> length r' = length r \<and>
         (\<forall>j < length ps. test (ps ! j) \<longrightarrow> r' ! (i + j) < length q' \<and> q' ! (r' ! (i + j)) = ps ! j) \<and>
         (\<forall>k < length r. (k < i \<or> i + length ps \<le> k \<or> \<not> test (ps ! (k - i))) \<longrightarrow> r' ! k = r ! k)"
  using assms
proof (induction ps arbitrary: i r q)
  case (Cons p ps)
  let ?r = "if test p then r[i := length q] else r" and ?q = "if test p then q @ [p] else q"
  have *: "sort_pass test ps (i + 1) ?r ?q = (r', q')" using Cons.prems(1) by (simp split: if_splits)
  have le: "i + 1 + length ps \<le> length ?r" using Cons.prems(2) by simp
  note IH = Cons.IH [OF * le]
  have at_i: "test p \<Longrightarrow> r' ! i = length q" using IH Cons.prems(2) by simp
  have q': "q' = q @ filter test (p # ps)" using IH by simp
  have "\<forall>j < length (p # ps). test ((p # ps) ! j) \<longrightarrow>
      r' ! (i + j) < length q' \<and> q' ! (r' ! (i + j)) = (p # ps) ! j"
  proof (intro allI impI)
    fix j assume j: "j < length (p # ps)" "test ((p # ps) ! j)"
    show "r' ! (i + j) < length q' \<and> q' ! (r' ! (i + j)) = (p # ps) ! j"
    proof (cases j)
      case 0
      with j at_i q' show ?thesis by (simp add: nth_append)
    next
      case (Suc m)
      with j IH show ?thesis by auto
    qed
  qed
  moreover have "r' ! k = r ! k"
    if "k < length r" "k < i \<or> i + length (p # ps) \<le> k \<or> \<not> test ((p # ps) ! (k - i))" for k
  proof -
    have "k < i + 1 \<or> i + 1 + length ps \<le> k \<or> \<not> test (ps ! (k - (i + 1)))"
      using that by (cases "k \<le> i") (auto simp: nth_Cons' Suc_diff_le not_le split: if_splits)
    with IH that have "r' ! k = ?r ! k" by auto
    with that show ?thesis by (cases "k = i") auto
  qed
  ultimately show ?case using IH q' by auto
qed simp

lemma sort_syms_spec:
  assumes "sort_syms sections s tab sz si = (q, si', sections')"
  shows "\<exists>o2n. q = filter (\<lambda>p. st_bind (st_info p) = 0) tab @
                   filter (\<lambda>p. st_bind (st_info p) \<noteq> 0) tab \<and>
           si' = (if sz \<noteq> 0 then length (filter (\<lambda>p. st_bind (st_info p) = 0) tab) else si) \<and>
           sections' = update_relocs sections s o2n 0 \<and>
           (\<forall>i < length tab. o2n ! i < length q \<and> q ! (o2n ! i) = tab ! i)"
proof -
  obtain o1 q1 where p1: "sort_pass (\<lambda>p. st_bind (st_info p) = 0) tab 0 (replicate (length tab) 0) [] = (o1, q1)"
    by fastforce
  obtain o2 q2 where p2: "sort_pass (\<lambda>p. st_bind (st_info p) \<noteq> 0) tab 0 o1 q1 = (o2, q2)"
    by fastforce
  note s1 = sort_pass_spec [OF p1, simplified]
  then have "0 + length tab \<le> length o1" by simp
  note s2 = sort_pass_spec [OF p2 this]
  have out: "q = q2" "si' = (if sz \<noteq> 0 then length q1 else si)" "sections' = update_relocs sections s o2 0"
    using assms p1 p2 by (auto simp: sort_syms_def)
  have "o2 ! i < length q2 \<and> q2 ! (o2 ! i) = tab ! i" if i: "i < length tab" for i
  proof (cases "st_bind (st_info (tab ! i)) = 0")
    case True
    with s1 i have "o1 ! i < length q1" "q1 ! (o1 ! i) = tab ! i" by auto
    moreover have "o2 ! i = o1 ! i" using s1 s2 True i by auto
    ultimately show ?thesis using s2 by (simp add: nth_append)
  next
    case False
    with s2 i show ?thesis by auto
  qed
  with s1 s2 out show ?thesis by auto
qed

lemma r_mkinfo_parts:
  assumes "unat t < 2 ^ 31"
  shows "r_sym (r_mkinfo y t) = y" "r_type (r_mkinfo y t) = t"
proof -
  have hi: "\<not> bit t n" if "31 \<le> n" for n
    using assms that by (metis bit_take_bit_iff linorder_not_le take_bit_nat_eq_self unsigned_take_bit_eq
        word_unat_eq_iff)
  have dis: "push_bit 32 (scast y) AND (scast t :: u64) = 0"
    by (rule bit_word_eqI) (auto simp: bit_simps hi min_def split: if_splits)
  have e: "r_mkinfo y t = push_bit 32 (scast y) OR (scast t :: u64)"
    unfolding r_mkinfo_def by (rule disjunctive_add_eq_or [OF dis])
  have m: "(0xffffffff :: u64) = mask 32" by (simp add: mask_eq_exp_minus_1)
  show "r_sym (r_mkinfo y t) = y"
    unfolding e r_sym_def
    by (rule bit_word_eqI, rename_tac n, case_tac "n = 31")
       (auto simp: bit_simps hi min_def split: if_splits)
  show "r_type (r_mkinfo y t) = t"
    unfolding e r_type_def m
    by (rule bit_word_eqI) (auto simp: bit_simps hi min_def split: if_splits)
qed

definition rels_ok :: "rel_sect \<Rightarrow> nat \<Rightarrow> bool" where
  "rels_ok sr n \<longleftrightarrow>
     (\<forall>rel\<in>set (rs_rels sr). unat (r_sym (r_info rel)) < n \<and> unat (r_type (r_info rel)) < 2 ^ 31)"

definition same_target :: "elf_sym list \<Rightarrow> elf_rela \<Rightarrow> elf_sym list \<Rightarrow> elf_rela \<Rightarrow> bool" where
  "same_target tab rel tab' rel' \<longleftrightarrow>
     unat (r_sym (r_info rel')) < length tab' \<and>
     tab' ! unat (r_sym (r_info rel')) = tab ! unat (r_sym (r_info rel)) \<and>
     r_type (r_info rel') = r_type (r_info rel) \<and>
     r_offset rel' = r_offset rel \<and> r_addend rel' = r_addend rel"

lemma update_rel_same_target:
  assumes "length tab < 2 ^ 31" "length q = length tab"
    and o2n: "\<forall>i < length tab. o2n ! i < length q \<and> q ! (o2n ! i) = tab ! i"
    and rel: "unat (r_sym (r_info rel)) < length tab" "unat (r_type (r_info rel)) < 2 ^ 31"
  shows "same_target tab rel q (update_rel o2n 0 rel)"
proof -
  let ?i = "unat (r_sym (r_info rel))"
  have "sint (r_sym (r_info rel)) = int ?i"
    using assms(1) rel(1) by (intro sint_small) linarith
  then have e: "r_info (update_rel o2n 0 rel) = r_mkinfo (of_nat (o2n ! ?i)) (r_type (r_info rel))"
    by (simp add: update_rel_def Let_def)
  have lt: "o2n ! ?i < length q" using o2n rel by simp
  have "unat (of_nat (o2n ! ?i) :: u32) = o2n ! ?i"
    using lt assms(1,2) by (subst unat_of_nat) simp
  with e lt o2n rel show ?thesis
    by (simp add: same_target_def r_mkinfo_parts)
       (simp add: update_rel_def Let_def)
qed

text \<open>
  C27: sort_syms permutes the symbols, the local ones first and each group in its old order, sets
  sh_info of a section that has a size to the number of local symbols, and renumbers the
  relocations that use the table: each still refers to the entry it referred to, with its type,
  offset and addend, and no relocation of another table changes.
\<close>

theorem sort_syms_relocs:
  assumes "sort_syms sections s tab sz si = (q, si', sections')"
    and "length tab < 2 ^ 31"
    and "\<forall>sr\<in>set (drop 1 sections). rs_type sr = 4 \<and> rs_link sr = s \<longrightarrow> rels_ok sr (length tab)"
  shows "mset q = mset tab \<and>
    q = filter (\<lambda>p. st_bind (st_info p) = 0) tab @ filter (\<lambda>p. st_bind (st_info p) \<noteq> 0) tab \<and>
    (sz \<noteq> 0 \<longrightarrow> si' = length (filter (\<lambda>p. st_bind (st_info p) = 0) tab)) \<and>
    list_all2 (\<lambda>sr sr'. rs_type sr' = rs_type sr \<and> rs_link sr' = rs_link sr \<and>
        (if rs_type sr = 4 \<and> rs_link sr = s
         then list_all2 (\<lambda>rel rel'. same_target tab rel q rel') (rs_rels sr) (rs_rels sr')
         else sr' = sr)) (drop 1 sections) (drop 1 sections')"
proof -
  obtain o2n where *: "q = filter (\<lambda>p. st_bind (st_info p) = 0) tab @
                   filter (\<lambda>p. st_bind (st_info p) \<noteq> 0) tab"
      "si' = (if sz \<noteq> 0 then length (filter (\<lambda>p. st_bind (st_info p) = 0) tab) else si)"
      "sections' = update_relocs sections s o2n 0"
      "\<forall>i < length tab. o2n ! i < length q \<and> q ! (o2n ! i) = tab ! i"
    using sort_syms_spec [OF assms(1)] by blast
  have m: "mset q = mset tab" unfolding *(1) by simp
  have len: "length q = length tab" using m mset_eq_length by blast
  have d: "drop 1 sections' = List.map (\<lambda>sr. if rs_type sr = 4 \<and> rs_link sr = s
      then sr\<lparr>rs_rels := List.map (update_rel o2n 0) (rs_rels sr)\<rparr> else sr) (drop 1 sections)"
    using *(3) by (cases sections) (simp_all add: update_relocs_def)
  have "list_all2 (\<lambda>sr sr'. rs_type sr' = rs_type sr \<and> rs_link sr' = rs_link sr \<and>
        (if rs_type sr = 4 \<and> rs_link sr = s
         then list_all2 (\<lambda>rel rel'. same_target tab rel q rel') (rs_rels sr) (rs_rels sr')
         else sr' = sr)) (drop 1 sections) (drop 1 sections')"
    unfolding d list_all2_map2
    by (rule list_all2_same [THEN iffD2])
       (use assms(3) update_rel_same_target [OF assms(2) len *(4)] in
         \<open>auto simp: rels_ok_def list_all2_map2 list_all2_same\<close>)
  with m *(1,2) show ?thesis by simp
qed

definition demo_rel :: rel_sect where
  "demo_rel = \<lparr>rs_type = 4, rs_link = 1,
     rs_rels = [\<lparr>r_offset = 8, r_info = r_mkinfo 1 2, r_addend = 0\<rparr>]\<rparr>"

theorem sort_syms_relocs_witness:
  "\<exists>q si sections'. sort_syms [demo_rel, demo_rel] 1
      [null_sym, null_sym\<lparr>st_info := 0x10\<rparr>, null_sym\<lparr>st_value := 3\<rparr>] 1 0 = (q, si, sections') \<and> si = 2"
proof -
  let ?tab = "[null_sym, null_sym\<lparr>st_info := 0x10\<rparr>, null_sym\<lparr>st_value := 3\<rparr>]"
  obtain q si sections' where e: "sort_syms [demo_rel, demo_rel] 1 ?tab 1 0 = (q, si, sections')"
    by (metis prod_cases3)
  have "rels_ok demo_rel 3" by (simp add: demo_rel_def rels_ok_def r_mkinfo_parts)
  then have "si = 2"
    using sort_syms_relocs [OF e] by (simp add: null_sym_def st_bind_def numeral_3_eq_3)
  with e show ?thesis by blast
qed

subsection \<open>Relocating the symbols\<close>

text \<open>
  relocate_syms: one symbol. The result is the symbol and the name an error is reported for, if
  any; \<open>secs\<close> holds sh_addr by section number, \<open>names\<close> the string table of s1->symtab.
\<close>

definition fp_hw :: "u8 list" where "fp_hw = [95, 102, 112, 95, 104, 119]"

definition relocate_sym ::
  "symtab option \<Rightarrow> u8 list \<Rightarrow> u64 list \<Rightarrow> nat \<Rightarrow> elf_sym \<Rightarrow> (elf_sym \<times> u8 list list) option" where
  "relocate_sym dynsym names secs do_resolve y =
     (if st_shndx y = 0 then
        if do_resolve = 2 then Some (y, [])
        else
          let name = cstr_at names (st_name y);
              undefined =
                (if name = fp_hw then (y, [])
                 else if st_bind (st_info y) = 2 then (y\<lparr>st_value := 0\<rparr>, [])
                 else (y, [name]))
          in if do_resolve \<noteq> 0 then Some undefined
             else (case dynsym of
                     None \<Rightarrow> Some undefined
                   | Some d \<Rightarrow> map_option (\<lambda>i. if i \<noteq> 0 then (y, []) else undefined) (find_elf_sym d name))
      else if st_shndx y < 0xff00 then
        Some (y\<lparr>st_value := st_value y + secs ! unat (st_shndx y)\<rparr>, [])
      else Some (y, []))"

fun relocate_syms_loop ::
  "symtab option \<Rightarrow> u8 list \<Rightarrow> u64 list \<Rightarrow> nat \<Rightarrow> elf_sym list \<Rightarrow> (elf_sym list \<times> u8 list list) option"
where
  "relocate_syms_loop dynsym names secs do_resolve [] = Some ([], [])"
| "relocate_syms_loop dynsym names secs do_resolve (y # ys) =
     Option.bind (relocate_sym dynsym names secs do_resolve y) (\<lambda>(y', e).
     Option.bind (relocate_syms_loop dynsym names secs do_resolve ys) (\<lambda>(ys', es).
       Some (y' # ys', e @ es)))"

definition relocate_syms ::
  "symtab option \<Rightarrow> u8 list \<Rightarrow> u64 list \<Rightarrow> nat \<Rightarrow> elf_sym list \<Rightarrow> (elf_sym list \<times> u8 list list) option"
where
  "relocate_syms dynsym names secs do_resolve tab =
     map_option (\<lambda>(ys, es). (take 1 tab @ ys, es))
       (relocate_syms_loop dynsym names secs do_resolve (drop 1 tab))"

text \<open>What the linker means by a symbol without a definition.\<close>

definition provided :: "symtab option \<Rightarrow> u8 list \<Rightarrow> bool" where
  "provided dynsym name \<longleftrightarrow>
     name = fp_hw \<or> (\<exists>d i. dynsym = Some d \<and> find_elf_sym d name = Some i \<and> i \<noteq> 0)"

definition unresolved :: "symtab option \<Rightarrow> u8 list \<Rightarrow> elf_sym \<Rightarrow> bool" where
  "unresolved dynsym names y \<longleftrightarrow> st_shndx y = 0 \<and> st_bind (st_info y) \<noteq> 2 \<and>
     \<not> provided dynsym (cstr_at names (st_name y))"

definition address_of :: "symtab option \<Rightarrow> u8 list \<Rightarrow> u64 list \<Rightarrow> elf_sym \<Rightarrow> u64" where
  "address_of dynsym names secs y =
     (if st_shndx y = 0 then
        if st_bind (st_info y) = 2 \<and> \<not> provided dynsym (cstr_at names (st_name y)) then 0
        else st_value y
      else if st_shndx y < 0xff00 then st_value y + secs ! unat (st_shndx y)
      else st_value y)"

lemma relocate_sym_spec:
  assumes "\<forall>d. dynsym = Some d \<longrightarrow> symtab_ok d"
  shows "relocate_sym dynsym names secs 0 y =
     Some (y\<lparr>st_value := address_of dynsym names secs y\<rparr>,
           if unresolved dynsym names y then [cstr_at names (st_name y)] else [])"
proof (cases dynsym)
  case None
  then show ?thesis
    by (simp add: relocate_sym_def Let_def address_of_def unresolved_def provided_def)
next
  case (Some d)
  then obtain i where "find_elf_sym d (cstr_at names (st_name y)) = Some i"
    using assms find_elf_sym_total by blast
  with Some show ?thesis
    by (simp add: relocate_sym_def Let_def address_of_def unresolved_def provided_def)
qed

lemma relocate_syms_loop_spec:
  assumes "\<forall>d. dynsym = Some d \<longrightarrow> symtab_ok d"
  shows "relocate_syms_loop dynsym names secs 0 ys =
     Some (List.map (\<lambda>y. y\<lparr>st_value := address_of dynsym names secs y\<rparr>) ys,
           List.map (\<lambda>y. cstr_at names (st_name y)) (filter (unresolved dynsym names) ys))"
  by (induction ys) (simp_all add: relocate_sym_spec [OF assms])

text \<open>
  C26: the final relocation of the symbols always returns; it adds the address of its section to
  every defined symbol, leaves absolute and common ones alone, makes a weak undefined symbol
  that no dynamic symbol provides 0, and reports exactly the names of the other undefined
  symbols without a provider.
\<close>

theorem relocate_syms_addresses:
  assumes "\<forall>d. dynsym = Some d \<longrightarrow> symtab_ok d"
  shows "relocate_syms dynsym names secs 0 (null # ys) =
     Some (null # List.map (\<lambda>y. y\<lparr>st_value := address_of dynsym names secs y\<rparr>) ys,
           List.map (\<lambda>y. cstr_at names (st_name y)) (filter (unresolved dynsym names) ys))"
  by (simp add: relocate_syms_def relocate_syms_loop_spec [OF assms])

theorem relocate_syms_addresses_witness:
  "relocate_syms (Some demo_tab) [0, 102, 0] [0, 0x1000] 0
      [null_sym, null_sym\<lparr>st_shndx := 1, st_value := 8\<rparr>] =
   Some ([null_sym, null_sym\<lparr>st_shndx := 1, st_value := 0x1008\<rparr>], [])"
  using relocate_syms_addresses [of "Some demo_tab" "[0, 102, 0]" "[0, 0x1000]" null_sym
      "[null_sym\<lparr>st_shndx := 1, st_value := 8\<rparr>]"] demo_tab_ok
  by (simp add: address_of_def unresolved_def null_sym_def)

end
