(* ===== verification/Relocate.thy ===== *)
theory Relocate
  imports ElfLink
begin

text \<open>
  Applying relocations (get_sym_attr, lines 26103-26120; relocate_section and relocate_sections,
  26200-26243; relocate, 28118-28332). A relocation section is an array of Elf64_Rela; while it is
  applied the code also overwrites its entries from the start, through qrel, with those the dynamic
  linker still has to do, so the array is part of the state. _tcc_error_noabort adds to the list of
  errors. The bytes before ptr that the patterns of thread-local code compare must exist; where C would
  read outside the section the comparison fails.
\<close>

record sym_attr =
  got_offset :: u32
  plt_offset :: u32
  plt_sym :: u32
  dyn_index :: u32
  linker_sym :: bool

text \<open>get_sym_attr: with alloc the table grows to the next power of two, without it an index beyond gives entry 0.\<close>

function attr_size :: "nat \<Rightarrow> nat \<Rightarrow> nat" where
  "attr_size i n = (if 0 < n \<and> n \<le> i then attr_size i (n * 2) else n)"
  by pat_completeness auto
termination by (relation "measure (\<lambda>(i, n). Suc i - n)") auto

declare attr_size.simps [simp del]

definition no_attr :: sym_attr where "no_attr = \<lparr>got_offset = 0, plt_offset = 0, plt_sym = 0, dyn_index = 0, linker_sym = False\<rparr>"

definition get_sym_attr :: "sym_attr list \<Rightarrow> nat \<Rightarrow> bool \<Rightarrow> sym_attr list \<times> nat" where
  "get_sym_attr tab i alloc =
     (if length tab \<le> i then
        (if \<not> alloc then (tab, 0)
         else (tab @ replicate (attr_size i 1 - length tab) no_attr, i))
      else (tab, i))"

definition sym_attr_of :: "sym_attr list \<Rightarrow> u32 \<Rightarrow> sym_attr" where
  "sym_attr_of tab y = (let (tab, i) = get_sym_attr tab (unat y) False in tab ! i)"

text \<open>What relocate reads: output_type 4 is a shared library.\<close>

record rel_sec =
  rsec_addr :: u64
  rsec_size :: u64

record rel_env =
  output_type :: u32
  attrs :: "sym_attr list"
  got_addr :: u64
  symbols :: "elf_sym list"
  secs :: "rel_sec list"
  stab :: "rel_sec option"
  tls_end :: u64
  pe_imagebase :: u64
  dwlo :: nat
  dwhi :: nat

record rel_state =
  bytes :: "u8 list"
  rels :: "elf_rela list"
  qrel :: nat
  errors :: "string list"

definition write_qrel :: "u64 \<Rightarrow> u64 \<Rightarrow> u64 \<Rightarrow> rel_state \<Rightarrow> rel_state" where
  "write_qrel ofs info addend st =
     st\<lparr>rels := (rels st)[qrel st := \<lparr>r_offset = ofs, r_info = info, r_addend = addend\<rparr>], qrel := qrel st + 1\<rparr>"

definition rel_error :: "string \<Rightarrow> rel_state \<Rightarrow> rel_state" where
  "rel_error e st = st\<lparr>errors := errors st @ [e]\<rparr>"

definition add32 :: "nat \<Rightarrow> u32 \<Rightarrow> rel_state \<Rightarrow> rel_state" where
  "add32 p x st = st\<lparr>bytes := add32le (bytes st) p x\<rparr>"

definition add64 :: "nat \<Rightarrow> u64 \<Rightarrow> rel_state \<Rightarrow> rel_state" where
  "add64 p x st = st\<lparr>bytes := add64le (bytes st) p x\<rparr>"

text \<open>The section a symbol is defined in, and its offset from the end of that section.\<close>

definition tls_offset :: "rel_env \<Rightarrow> nat \<Rightarrow> u64 \<Rightarrow> u32" where
  "tls_offset E y val =
     (let s = secs E ! unat (st_shndx (symbols E ! y)) in ucast (val - rsec_addr s - rsec_size s))"

definition clear_rel :: "nat \<Rightarrow> rel_state \<Rightarrow> rel_state" where
  "clear_rel i st = st\<lparr>rels := (rels st)[i := (rels st ! i)\<lparr>r_info := 0\<rparr>]\<rparr>"

definition tlsgd_expect :: "u8 list" where
  "tlsgd_expect = [0x66, 0x48, 0x8d, 0x3d, 0, 0, 0, 0, 0x66, 0x66, 0x48, 0xe8, 0, 0, 0, 0]"
definition tlsgd_replace :: "u8 list" where
  "tlsgd_replace = [0x64, 0x48, 0x8b, 0x04, 0x25, 0, 0, 0, 0, 0x48, 0x8d, 0x80, 0, 0, 0, 0]"
definition tlsld_expect :: "u8 list" where
  "tlsld_expect = [0x48, 0x8d, 0x3d, 0, 0, 0, 0, 0xe8, 0, 0, 0, 0]"
definition tlsld_replace :: "u8 list" where
  "tlsld_replace = [0x66, 0x66, 0x66, 0x64, 0x48, 0x8b, 0x04, 0x25, 0, 0, 0, 0]"

definition matches :: "u8 list \<Rightarrow> nat \<Rightarrow> nat \<Rightarrow> u8 list \<Rightarrow> bool" where
  "matches d p back pat \<longleftrightarrow> back \<le> p \<and> p - back + length pat \<le> length d \<and> bslice (p - back) (length pat) d = pat"

text \<open>The cases of relocate; i is the number of the relocation, p the position of ptr in the section.\<close>

definition relocate_64 :: "rel_env \<Rightarrow> elf_rela \<Rightarrow> nat \<Rightarrow> u64 \<Rightarrow> rel_state \<Rightarrow> rel_state" where
  "relocate_64 E rel p val st =
     (let esym = dyn_index (sym_attr_of (attrs E) (r_sym (r_info rel))) in
      if output_type E AND 4 \<noteq> 0 then
        (if esym \<noteq> 0 then write_qrel (r_offset rel) (r_mkinfo esym 1) (r_addend rel) st
         else add64 p val (write_qrel (r_offset rel) (r_mkinfo 0 8) (read64le (bytes st) p + val) st))
      else add64 p val st)"

definition in_stab :: "rel_env \<Rightarrow> u64 \<Rightarrow> bool" where
  "in_stab E addr = (case stab E of None \<Rightarrow> False | Some s \<Rightarrow> rsec_addr s \<le> addr \<and> addr < rsec_addr s + rsec_size s)"

definition relocate_32 :: "rel_env \<Rightarrow> elf_rela \<Rightarrow> u32 \<Rightarrow> nat \<Rightarrow> u64 \<Rightarrow> u64 \<Rightarrow> rel_state \<Rightarrow> rel_state" where
  "relocate_32 E rel type p addr val st =
     (let st = (if output_type E AND 4 \<noteq> 0
                then write_qrel (r_offset rel) (r_mkinfo 0 8) (scast (read32le (bytes st) p) + val) st else st);
          st = (if (if type = 10 then val \<noteq> ucast (ucast val :: u32) else val \<noteq> scast (ucast val :: u32)) \<and> \<not> in_stab E addr
                then rel_error ''relocation 'R_X86_64_32[S]' out of range'' st else st)
      in add32 p (ucast val) st)"

definition relocate_pc32 :: "rel_env \<Rightarrow> elf_rela \<Rightarrow> nat \<Rightarrow> u64 \<Rightarrow> u64 \<Rightarrow> rel_state \<Rightarrow> rel_state" where
  "relocate_pc32 E rel p addr val st =
     (let diff = val - addr;
          st = (if (sint diff < - 2147483648 \<or> sint diff > 2147483647) \<and>
                   st_shndx (symbols E ! unat (r_sym (r_info rel))) \<noteq> 0
                then rel_error ''relocation '%d' out of range'' st else st)
      in add32 p (ucast diff) st)"

definition relocate_tls :: "rel_env \<Rightarrow> elf_rela \<Rightarrow> nat \<Rightarrow> nat \<Rightarrow> u32 \<Rightarrow> rel_state \<Rightarrow> rel_state" where
  "relocate_tls E rel i p type st =
     (if type = 19 then
        (if matches (bytes st) p 4 tlsgd_expect then
           (let st = clear_rel (i + 1) (st\<lparr>bytes := blit (bytes st) (p - 4) tlsgd_replace\<rparr>);
                y = unat (r_sym (r_info rel))
            in add32 (p + 8) (tls_offset E y (st_value (symbols E ! y))) st)
         else rel_error ''unexpected R_X86_64_TLSGD pattern'' st)
      else
        (if matches (bytes st) p 3 tlsld_expect
         then clear_rel (i + 1) (st\<lparr>bytes := blit (bytes st) (p - 3) tlsld_replace\<rparr>)
         else rel_error ''unexpected R_X86_64_TLSLD pattern'' st))"

definition relocate :: "rel_env \<Rightarrow> nat \<Rightarrow> elf_rela \<Rightarrow> u32 \<Rightarrow> nat \<Rightarrow> u64 \<Rightarrow> u64 \<Rightarrow> rel_state \<Rightarrow> rel_state" where
  "relocate E i rel type p addr val st =
     (let y = r_sym (r_info rel); at = sym_attr_of (attrs E) y; esym = dyn_index at in
      if type = 1 then relocate_64 E rel p val st
      else if type = 10 \<or> type = 11 then relocate_32 E rel type p addr val st
      else if type = 2 then
        (if output_type E = 4 \<and> esym \<noteq> 0
         then write_qrel (r_offset rel) (r_mkinfo esym 2) (scast (read32le (bytes st) p) + r_addend rel) st
         else relocate_pc32 E rel p addr val st)
      else if type = 4 then relocate_pc32 E rel p addr val st
      else if type = 5 \<or> type = 0 then st
      else if type = 31 then add64 p (val - got_addr E + r_addend rel) st
      else if type = 24 then
        (if output_type E = 4 \<and> esym \<noteq> 0
         then write_qrel (r_offset rel) (r_mkinfo esym 24) (read64le (bytes st) p + r_addend rel) st
         else add64 p (val - addr) st)
      else if type = 6 \<or> type = 7 then st\<lparr>bytes := write64le (bytes st) p (val - r_addend rel)\<rparr>
      else if type = 9 \<or> type = 41 \<or> type = 42 then add32 p (ucast (got_addr E - addr + ucast (got_offset at) - 4)) st
      else if type = 26 then add32 p (ucast (got_addr E - addr + r_addend rel)) st
      else if type = 29 then add64 p (got_addr E - addr + r_addend rel) st
      else if type = 22 then add32 p (ucast (val - got_addr E)) st
      else if type = 3 then add32 p (got_offset at) st
      else if type = 27 then add64 p (ucast (got_offset at)) st
      else if type = 25 then add64 p (val - got_addr E) st
      else if type = 19 \<or> type = 20 then relocate_tls E rel i p type st
      else if type = 21 \<or> type = 23 \<or> type = 17 \<or> type = 18 then
        (let x = (if tls_end E \<noteq> 0 then ucast (val - tls_end E) else tls_offset E (unat y) val) :: u32 in
         if type = 17 \<or> type = 18 then add64 p (scast x) st else add32 p x st)
      else if type = 8 then add32 p (ucast (val - pe_imagebase E)) st
      else st)"

text \<open>
  relocate_section: s is the number of the section, its data is the state's; the entries are read as the
  loop reaches them, after the earlier ones may have been overwritten. A section without data (a null
  pointer in C) has no bytes, and its relocations are skipped.
\<close>

definition reloc_target :: "rel_env \<Rightarrow> elf_rela \<Rightarrow> u64" where
  "reloc_target E rel = st_value (symbols E ! unat (r_sym (r_info rel))) + r_addend rel"

definition relocate_step :: "rel_env \<Rightarrow> nat \<Rightarrow> rel_state \<Rightarrow> nat \<Rightarrow> rel_state" where
  "relocate_step E s st i =
     (let rel = rels st ! i; p = unat (r_offset rel); y = symbols E ! unat (r_sym (r_info rel));
          type = r_type (r_info rel); tgt = reloc_target E rel; shn = unat (st_shndx y) in
      if bytes st = [] then st
      else if (dwlo E \<le> s \<and> s < dwhi E) \<and> type = 10 \<and> dwlo E \<le> shn \<and> shn < dwhi E
      then add32 p (ucast (tgt - rsec_addr (secs E ! shn))) st
      else relocate E i rel type p (rsec_addr (secs E ! s) + r_offset rel) tgt st)"

definition relocate_section :: "rel_env \<Rightarrow> nat \<Rightarrow> u8 list \<Rightarrow> elf_rela list \<Rightarrow> rel_state" where
  "relocate_section E s data sr =
     foldl (relocate_step E s) \<lparr>bytes = data, rels = sr, qrel = 0, errors = []\<rparr> [0..<length sr]"


text \<open>
  relocate_sections: got is the number of the GOT section (0 without one). Each section has its data and, when
  it is a relocation section, its entries, which apply to the section sh_info names.
\<close>

record link_sect =
  ls_type :: u32
  ls_info :: nat
  ls_data :: "u8 list"
  ls_rels :: "elf_rela list"

definition relocate_nth :: "rel_env \<Rightarrow> nat \<Rightarrow> bool \<Rightarrow> link_sect list \<times> string list \<Rightarrow> nat \<Rightarrow> link_sect list \<times> string list" where
  "relocate_nth E got static_link = (\<lambda>(ss, errs) i.
     let sr = ss ! i; s = ls_info sr in
     if ls_type sr \<noteq> 4 then (ss, errs)
     else if s \<noteq> got \<or> static_link \<or> output_type E = 1 then
       (let st = relocate_section E s (ls_data (ss ! s)) (ls_rels sr)
        in (ss[s := (ss ! s)\<lparr>ls_data := bytes st\<rparr>, i := sr\<lparr>ls_rels := rels st\<rparr>], errs @ errors st))
     else (ss, errs))"

definition relocate_sections :: "rel_env \<Rightarrow> nat \<Rightarrow> bool \<Rightarrow> link_sect list \<Rightarrow> link_sect list \<times> string list" where
  "relocate_sections E got static_link ss = foldl (relocate_nth E got static_link) (ss, []) [1..<length ss]"

section \<open>Absolute and relative relocations of an executable\<close>

text \<open>
  The relocations the code generator and the object files of other compilers use for code and data: 64
  bits (1, 24) or 32 bits (2, 4, 10, 11), absolute or relative to the address of the slot.
\<close>

definition plain_type :: "u32 \<Rightarrow> bool" where
  "plain_type t \<longleftrightarrow> t = 1 \<or> t = 24 \<or> t = 2 \<or> t = 4 \<or> t = 10 \<or> t = 11"

definition rel_type :: "elf_rela \<Rightarrow> u32" where "rel_type rel = r_type (r_info rel)"
definition wide :: "elf_rela \<Rightarrow> bool" where "wide rel \<longleftrightarrow> rel_type rel = 1 \<or> rel_type rel = 24"
definition slot_size :: "elf_rela \<Rightarrow> nat" where "slot_size rel = (if wide rel then 8 else 4)"
definition slot :: "elf_rela \<Rightarrow> nat set" where
  "slot rel = {unat (r_offset rel) ..< unat (r_offset rel) + slot_size rel}"

text \<open>The value of the ABI, S + A or S + A - P, for a relocation of the section s.\<close>

definition rel_value :: "rel_env \<Rightarrow> nat \<Rightarrow> elf_rela \<Rightarrow> u64" where
  "rel_value E s rel =
     (let sa = st_value (symbols E ! unat (r_sym (r_info rel))) + r_addend rel in
      if rel_type rel = 2 \<or> rel_type rel = 4 \<or> rel_type rel = 24
      then sa - (rsec_addr (secs E ! s) + r_offset rel) else sa)"

definition fits :: "rel_env \<Rightarrow> nat \<Rightarrow> elf_rela \<Rightarrow> bool" where
  "fits E s rel \<longleftrightarrow>
     wide rel \<or>
     (if rel_type rel = 10 then rel_value E s rel = ucast (ucast (rel_value E s rel) :: u32)
      else rel_value E s rel = scast (ucast (rel_value E s rel) :: u32))"

text \<open>The relocations whose range is not checked: those of the debug section, and calls of undefined symbols.\<close>

definition not_checked :: "rel_env \<Rightarrow> nat \<Rightarrow> elf_rela \<Rightarrow> bool" where
  "not_checked E s rel \<longleftrightarrow>
     (if rel_type rel = 10 \<or> rel_type rel = 11 then in_stab E (rsec_addr (secs E ! s) + r_offset rel)
      else st_shndx (symbols E ! unat (r_sym (r_info rel))) = 0)"

definition rel_errors :: "rel_env \<Rightarrow> nat \<Rightarrow> elf_rela \<Rightarrow> string list" where
  "rel_errors E s rel =
     (if fits E s rel \<or> not_checked E s rel then []
      else if rel_type rel = 10 \<or> rel_type rel = 11 then [''relocation 'R_X86_64_32[S]' out of range'']
      else [''relocation '%d' out of range''])"

definition applied :: "u8 list \<Rightarrow> u8 list \<Rightarrow> elf_rela \<Rightarrow> u64 \<Rightarrow> bool" where
  "applied d d' rel v \<longleftrightarrow>
     (let p = unat (r_offset rel) in
      if wide rel then read64le d' p = read64le d p + v else read32le d' p = read32le d p + ucast v)"

definition sections_ok :: "rel_env \<Rightarrow> nat \<Rightarrow> nat \<Rightarrow> elf_rela list \<Rightarrow> bool" where
  "sections_ok E s n sr \<longleftrightarrow>
     output_type E AND 4 = 0 \<and> \<not> (dwlo E \<le> s \<and> s < dwhi E) \<and>
     list_all (\<lambda>rel. plain_type (rel_type rel) \<and> unat (r_offset rel) + slot_size rel \<le> n) sr \<and>
     sorted_wrt (\<lambda>a b. unat (r_offset a) + slot_size a \<le> unat (r_offset b) \<or> unat (r_offset b) + slot_size b \<le> unat (r_offset a)) sr"

lemma sint_fits:
  fixes v :: u64
  shows "(sint v < - 2147483648 \<or> sint v > 2147483647) \<longleftrightarrow> v \<noteq> scast (ucast v :: u32)"
proof -
  have "sint (scast (ucast v :: u32) :: u64) = sint (ucast v :: u32)"
    unfolding signed_scast_eq sint_uint [of "ucast v :: u32"] by simp
  also have "\<dots> = signed_take_bit 31 (sint v)"
    unfolding sint_uint by (simp add: unsigned_ucast_eq unsigned_take_bit_eq signed_take_bit_take_bit)
  finally have sc: "sint (scast (ucast v :: u32) :: u64) = signed_take_bit 31 (sint v)" .
  have "word_of_int (sint v) = v" "word_of_int (sint (scast (ucast v :: u32) :: u64)) = (scast (ucast v :: u32) :: u64)"
    by simp_all
  then have e: "v = scast (ucast v :: u32) \<longleftrightarrow> sint v = signed_take_bit 31 (sint v)" using sc by metis
  have "sint v = signed_take_bit 31 (sint v) \<longleftrightarrow> - (2 ^ 31) \<le> sint v \<and> sint v < 2 ^ 31"
    by (metis signed_take_bit_int_eq_self signed_take_bit_int_greater_eq_minus_exp signed_take_bit_int_less_exp)
  then show ?thesis unfolding e by auto
qed

lemma relocate_pc32_eq:
  "relocate_pc32 E rel p addr val st =
    st\<lparr>bytes := add32le (bytes st) p (ucast (val - addr)),
       errors := errors st @ (if val - addr = scast (ucast (val - addr) :: u32) \<or> st_shndx (symbols E ! unat (r_sym (r_info rel))) = 0
         then [] else [''relocation '%d' out of range''])\<rparr>"
  unfolding relocate_pc32_def Let_def sint_fits by (simp add: add32_def rel_error_def)

lemma relocate_32_eq:
  "output_type E AND 4 = 0 \<Longrightarrow> relocate_32 E rel type p addr val st =
    st\<lparr>bytes := add32le (bytes st) p (ucast val),
       errors := errors st @ (if (if type = 10 then val = ucast (ucast val :: u32) else val = scast (ucast val :: u32)) \<or> in_stab E addr
         then [] else [''relocation 'R_X86_64_32[S]' out of range''])\<rparr>"
  by (cases "type = 10") (simp_all add: relocate_32_def Let_def add32_def rel_error_def)

lemma relocate_plain:
  assumes "output_type E AND 4 = 0" "\<not> (dwlo E \<le> s \<and> s < dwhi E)" "plain_type (rel_type (rels st ! i))" "rel = rels st ! i"
    and "bytes st \<noteq> []"
  shows "relocate_step E s st i =
    st\<lparr>bytes := (if wide rel then add64le (bytes st) (unat (r_offset rel)) (rel_value E s rel)
                 else add32le (bytes st) (unat (r_offset rel)) (ucast (rel_value E s rel))),
       errors := errors st @ rel_errors E s rel\<rparr>"
proof -
  have n4: "output_type E \<noteq> 4" using assms(1) by auto
  have step: "relocate_step E s st i = relocate E i rel (rel_type rel) (unat (r_offset rel)) (rsec_addr (secs E ! s) + r_offset rel) (reloc_target E rel) st"
    using assms(2,5) by (auto simp: relocate_step_def Let_def assms(4) rel_type_def)
  have v: "rel_value E s rel = (if rel_type rel = 2 \<or> rel_type rel = 4 \<or> rel_type rel = 24
      then reloc_target E rel - (rsec_addr (secs E ! s) + r_offset rel) else reloc_target E rel)"
    by (simp add: rel_value_def reloc_target_def Let_def)
  note d = step relocate_def wide_def rel_errors_def fits_def not_checked_def v relocate_pc32_eq relocate_32_eq [OF assms(1)]
  consider "rel_type rel = 1" | "rel_type rel = 24" | "rel_type rel = 2" | "rel_type rel = 4" | "rel_type rel = 10" | "rel_type rel = 11"
    using assms(3,4) by (auto simp: plain_type_def)
  then show ?thesis
  proof cases
    case 1
    then show ?thesis using assms(1) by (simp add: d relocate_64_def add64_def Let_def)
  next
    case 2
    then show ?thesis using n4 by (simp add: d add64_def Let_def)
  next
    case 3
    then show ?thesis using n4 by (simp add: d Let_def)
  next
    case 4
    then show ?thesis by (simp add: d Let_def)
  next
    case 5
    then show ?thesis by (simp add: d Let_def)
  next
    case 6
    then show ?thesis by (simp add: d Let_def)
  qed
qed

lemma slot_reads:
  assumes "unat (r_offset a) + slot_size a \<le> length d"
    and "\<And>k. unat (r_offset a) \<le> k \<Longrightarrow> k < unat (r_offset a) + slot_size a \<Longrightarrow> e ! k = d ! k"
  shows "wide a \<Longrightarrow> read64le e (unat (r_offset a)) = read64le d (unat (r_offset a))"
    "\<not> wide a \<Longrightarrow> read32le e (unat (r_offset a)) = read32le d (unat (r_offset a))"
proof -
  let ?p = "unat (r_offset a)"
  show "\<not> wide a \<Longrightarrow> read32le e ?p = read32le d ?p"
    using assms(2) by (intro read32le_cong) (simp add: slot_size_def)
  assume w: "wide a"
  have "read32le e ?p = read32le d ?p" "read32le e (?p + 4) = read32le d (?p + 4)"
    using assms(2) w by (intro read32le_cong; simp add: slot_size_def)+
  then show "read64le e ?p = read64le d ?p" by (simp add: read64le_def)
qed

lemma relocate_loop:
  assumes ok: "sections_ok E s (length data) sr" and n: "n \<le> length sr"
  shows "\<exists>d. foldl (relocate_step E s) \<lparr>bytes = data, rels = sr, qrel = 0, errors = []\<rparr> [0..<n] =
      \<lparr>bytes = d, rels = sr, qrel = 0, errors = concat (map (rel_errors E s) (take n sr))\<rparr>
    \<and> length d = length data
    \<and> (\<forall>j<n. applied data d (sr ! j) (rel_value E s (sr ! j)))
    \<and> (\<forall>k. (\<forall>j<n. k \<notin> slot (sr ! j)) \<longrightarrow> d ! k = data ! k)"
  using n
proof (induction n)
  case 0
  then show ?case by simp
next
  case (Suc n)
  then obtain d where d: "foldl (relocate_step E s) \<lparr>bytes = data, rels = sr, qrel = 0, errors = []\<rparr> [0..<n] =
      \<lparr>bytes = d, rels = sr, qrel = 0, errors = concat (map (rel_errors E s) (take n sr))\<rparr>"
    "length d = length data" "\<forall>j<n. applied data d (sr ! j) (rel_value E s (sr ! j))"
    "\<forall>k. (\<forall>j<n. k \<notin> slot (sr ! j)) \<longrightarrow> d ! k = data ! k" by auto
  let ?r = "sr ! n"
  let ?p = "unat (r_offset ?r)"
  have ns: "n < length sr" using Suc.prems by simp
  have pl: "output_type E AND 4 = 0" "\<not> (dwlo E \<le> s \<and> s < dwhi E)" "plain_type (rel_type ?r)" "?p + slot_size ?r \<le> length data"
    using ok ns by (auto simp: sections_ok_def list_all_length)
  have ne: "d \<noteq> []" using pl(4) d(2) by (auto simp: slot_size_def split: if_splits)
  have dis: "slot (sr ! j) \<inter> slot ?r = {}" if "j < n" for j
  proof -
    have "unat (r_offset (sr ! j)) + slot_size (sr ! j) \<le> ?p \<or> ?p + slot_size ?r \<le> unat (r_offset (sr ! j))"
      using ok ns that unfolding sections_ok_def sorted_wrt_iff_nth_less by blast
    then show ?thesis by (auto simp: slot_def)
  qed
  have fr: "d ! k = data ! k" if "k \<in> slot ?r" for k using d(4) dis that by blast
  define d' where "d' = (if wide ?r then add64le d ?p (rel_value E s ?r) else add32le d ?p (ucast (rel_value E s ?r)))"
  have other: "d' ! k = d ! k" if "k \<notin> slot ?r" for k
    using that by (auto simp: d'_def slot_def slot_size_def nth_add64le_other nth_add32le_other not_le)
  have new: "applied data d' ?r (rel_value E s ?r)"
  proof (cases "wide ?r")
    case True
    then have "read64le d ?p = read64le data ?p" using slot_reads(1) [OF pl(4), of d] fr by (simp add: slot_def)
    then show ?thesis using True pl(4) d(2) by (simp add: applied_def Let_def d'_def slot_size_def read64le_add64le)
  next
    case False
    then have "read32le d ?p = read32le data ?p" using slot_reads(2) [OF pl(4), of d] fr by (simp add: slot_def)
    then show ?thesis using False pl(4) d(2) by (simp add: applied_def Let_def d'_def slot_size_def read32le_add32le)
  qed
  have old: "applied data d' (sr ! j) (rel_value E s (sr ! j))" if j: "j < n" for j
  proof -
    have b: "unat (r_offset (sr ! j)) + slot_size (sr ! j) \<le> length d"
      using ok ns j d(2) by (auto simp: sections_ok_def list_all_length)
    have "d' ! k = d ! k" if "k \<in> slot (sr ! j)" for k using other dis [OF j] that by blast
    then have "wide (sr ! j) \<Longrightarrow> read64le d' (unat (r_offset (sr ! j))) = read64le d (unat (r_offset (sr ! j)))"
      "\<not> wide (sr ! j) \<Longrightarrow> read32le d' (unat (r_offset (sr ! j))) = read32le d (unat (r_offset (sr ! j)))"
      using slot_reads [OF b, of d'] by (simp_all add: slot_def)
    moreover have "applied data d (sr ! j) (rel_value E s (sr ! j))" using d(3) j by blast
    ultimately show ?thesis by (simp add: applied_def Let_def split: if_splits)
  qed
  have l: "length d' = length data" by (simp add: d'_def d(2))
  have out: "d' ! k = data ! k" if "\<forall>j<Suc n. k \<notin> slot (sr ! j)" for k
    using that other d(4) by auto
  have fold: "foldl (relocate_step E s) \<lparr>bytes = data, rels = sr, qrel = 0, errors = []\<rparr> [0..<Suc n] =
      \<lparr>bytes = d', rels = sr, qrel = 0, errors = concat (map (rel_errors E s) (take (Suc n) sr))\<rparr>"
  proof -
    let ?st = "\<lparr>bytes = d, rels = sr, qrel = 0, errors = concat (map (rel_errors E s) (take n sr))\<rparr>"
    have "relocate_step E s ?st n = ?st\<lparr>bytes := d', errors := errors ?st @ rel_errors E s ?r\<rparr>"
      by (subst relocate_plain [OF pl(1,2) _ refl]) (use pl(3) ne in \<open>simp_all add: d'_def\<close>)
    then show ?thesis using ns by (simp add: d(1) take_Suc_conv_app_nth)
  qed
  have all: "applied data d' (sr ! j) (rel_value E s (sr ! j))" if "j < Suc n" for j
    using that new old by (cases "j = n") simp_all
  show ?case using fold l all out by blast
qed

text \<open>While entries are rewritten for the dynamic linker, those still to be applied stay as they were.\<close>

definition kept :: "nat \<Rightarrow> rel_state \<Rightarrow> rel_state \<Rightarrow> bool" where
  "kept i st st' \<longleftrightarrow> qrel st' \<le> i + 1 \<and> drop (i + 1) (rels st') = drop (i + 1) (rels st) \<and> length (rels st') = length (rels st)"

lemma kept_simps [simp]:
  "kept i st (add32 p x st') = kept i st st'" "kept i st (add64 p y st') = kept i st st'"
  "kept i st (rel_error e st') = kept i st st'" "kept i st (st'\<lparr>bytes := d\<rparr>) = kept i st st'"
  "qrel st \<le> i \<Longrightarrow> kept i st st" "qrel st \<le> i \<Longrightarrow> kept i st (write_qrel ofs info ad st)"
  by (auto simp: kept_def add32_def add64_def rel_error_def write_qrel_def drop_update_cancel)

lemma kept_relocate:
  assumes "qrel st \<le> i" "type \<noteq> 19" "type \<noteq> 20"
  shows "kept i st (relocate E i rel type p addr val st)"
proof -
  have a: "kept i st (relocate_64 E rel p val st)" "kept i st (relocate_32 E rel type p addr val st)"
    "kept i st (relocate_pc32 E rel p addr val st)"
    using assms(1) by (simp_all add: relocate_64_def relocate_32_def relocate_pc32_def Let_def)
  show ?thesis
    unfolding relocate_def Let_def using assms a by (simp split: if_split)
qed

lemma kept_step:
  assumes "qrel st \<le> i" "r_type (r_info (rels st ! i)) \<noteq> 19" "r_type (r_info (rels st ! i)) \<noteq> 20"
  shows "kept i st (relocate_step E s st i)"
  unfolding relocate_step_def Let_def using kept_relocate [OF assms] assms(1) by (simp split: if_split)

lemma relocations_kept:
  assumes "\<forall>rel\<in>set sr. rel_type rel \<noteq> 19 \<and> rel_type rel \<noteq> 20" "i \<le> length sr"
    and "st = foldl (relocate_step E s) \<lparr>bytes = data, rels = sr, qrel = 0, errors = []\<rparr> [0..<i]"
  shows "qrel st \<le> i \<and> drop i (rels st) = drop i sr \<and> length (rels st) = length sr"
  using assms(2) unfolding assms(3)
proof (induction i)
  case (Suc i)
  let ?st = "foldl (relocate_step E s) \<lparr>bytes = data, rels = sr, qrel = 0, errors = []\<rparr> [0..<i]"
  have ih: "qrel ?st \<le> i" "drop i (rels ?st) = drop i sr" "length (rels ?st) = length sr" using Suc by auto
  have r: "rels ?st ! i = sr ! i"
    using arg_cong [OF ih(2), of "\<lambda>l. l ! 0"] ih(3) Suc.prems by simp
  then have t: "r_type (r_info (rels ?st ! i)) \<noteq> 19" "r_type (r_info (rels ?st ! i)) \<noteq> 20"
    using assms(1) Suc.prems by (auto simp: rel_type_def)
  have "kept i ?st (relocate_step E s ?st i)"
    by (rule kept_step [OF ih(1) t])
  moreover have "drop (i + 1) (rels ?st) = drop (i + 1) sr" using arg_cong [OF ih(2), of "drop 1"] by simp
  ultimately show ?case using ih(3) by (simp add: kept_def)
qed simp


section \<open>Properties\<close>

text \<open>An executable's section at 0x1000 with a call (type 4), an absolute 32-bit address (11) and a pointer (1).\<close>

definition example_env :: rel_env where
  "example_env = \<lparr>output_type = 2, attrs = [no_attr], got_addr = 0,
     symbols = [\<lparr>st_name = 0, st_info = 0, st_other = 0, st_shndx = 0, st_value = 0, st_size = 0\<rparr>,
                \<lparr>st_name = 1, st_info = 0x10, st_other = 0, st_shndx = 1, st_value = 0x2000, st_size = 8\<rparr>],
     secs = [\<lparr>rsec_addr = 0, rsec_size = 0\<rparr>, \<lparr>rsec_addr = 0x1000, rsec_size = 20\<rparr>], stab = None,
     tls_end = 0, pe_imagebase = 0, dwlo = 5, dwhi = 5\<rparr>"

definition example_rels :: "elf_rela list" where
  "example_rels = [\<lparr>r_offset = 1, r_info = 0x100000004, r_addend = - 4\<rparr>,
     \<lparr>r_offset = 12, r_info = 0x100000001, r_addend = 0\<rparr>, \<lparr>r_offset = 6, r_info = 0x10000000b, r_addend = 16\<rparr>]"

lemma example_sections: "sections_ok example_env 1 20 example_rels"
  by code_simp

text \<open>
  C8: relocation of an executable. When the slots of a section's relocations lie in the section and do not
  overlap, relocate_section adds to each slot the value of the ABI, S + A or S + A - P, changes no other
  byte, leaves the relocations as they are, and reports exactly the 32-bit values that are out of range.
\<close>

theorem relocate_section_applies:
  assumes "sections_ok E s (length data) sr"
  shows "length (bytes (relocate_section E s data sr)) = length data
    \<and> (\<forall>rel\<in>set sr. applied data (bytes (relocate_section E s data sr)) rel (rel_value E s rel))
    \<and> (\<forall>k. (\<forall>rel\<in>set sr. k \<notin> slot rel) \<longrightarrow> bytes (relocate_section E s data sr) ! k = data ! k)
    \<and> rels (relocate_section E s data sr) = sr
    \<and> errors (relocate_section E s data sr) = concat (map (rel_errors E s) sr)"
proof -
  obtain d where d: "relocate_section E s data sr = \<lparr>bytes = d, rels = sr, qrel = 0, errors = concat (map (rel_errors E s) sr)\<rparr>"
    "length d = length data" "\<forall>j<length sr. applied data d (sr ! j) (rel_value E s (sr ! j))"
    "\<forall>k. (\<forall>j<length sr. k \<notin> slot (sr ! j)) \<longrightarrow> d ! k = data ! k"
    using relocate_loop [OF assms order_refl] unfolding relocate_section_def by auto
  have a: "\<forall>rel\<in>set sr. applied data d rel (rel_value E s rel)" using d(3) by (auto simp: in_set_conv_nth)
  have b: "d ! k = data ! k" if "\<forall>rel\<in>set sr. k \<notin> slot rel" for k using d(4) that nth_mem by blast
  show ?thesis using d(1,2) a b by simp
qed

theorem relocate_section_applies_witness:
  "read32le (bytes (relocate_section example_env 1 (replicate 20 0) example_rels)) 1 = 0x2000 - 4 - 0x1001
   \<and> read64le (bytes (relocate_section example_env 1 (replicate 20 0) example_rels)) 12 = 0x2000
   \<and> errors (relocate_section example_env 1 (replicate 20 0) example_rels) = []"
proof -
  have ok: "sections_ok example_env 1 (length (replicate 20 (0 :: u8))) example_rels" using example_sections by simp
  note t = relocate_section_applies [OF ok]
  have m: "example_rels ! 0 \<in> set example_rels" "example_rels ! 1 \<in> set example_rels" by (simp_all add: example_rels_def)
  have v: "rel_value example_env 1 (example_rels ! 0) = 0xffb" "rel_value example_env 1 (example_rels ! 1) = 0x2000"
    "\<not> wide (example_rels ! 0)" "wide (example_rels ! 1)" "r_offset (example_rels ! 0) = 1" "r_offset (example_rels ! 1) = 12"
    "concat (map (rel_errors example_env 1) example_rels) = []"
    "read32le (replicate 20 0) 1 = 0" "read64le (replicate 20 0) 12 = 0"
    by code_simp+
  have "applied (replicate 20 0) (bytes (relocate_section example_env 1 (replicate 20 0) example_rels)) (example_rels ! 0) 0xffb"
    "applied (replicate 20 0) (bytes (relocate_section example_env 1 (replicate 20 0) example_rels)) (example_rels ! 1) 0x2000"
    using t m v(1,2) by metis+
  then show ?thesis using t v by (simp add: applied_def Let_def)
qed

text \<open>
  C31: in a shared library no relocation is lost. While the loop of relocate_section rewrites the entries
  from the start for the dynamic linker, the entries it has not reached yet are still the original ones.
\<close>

theorem relocations_not_overwritten:
  assumes "\<forall>rel\<in>set sr. rel_type rel \<noteq> 19 \<and> rel_type rel \<noteq> 20" "i < length sr"
  shows "rels (foldl (relocate_step E s) \<lparr>bytes = data, rels = sr, qrel = 0, errors = []\<rparr> [0..<i]) ! i = sr ! i
    \<and> qrel (foldl (relocate_step E s) \<lparr>bytes = data, rels = sr, qrel = 0, errors = []\<rparr> [0..<i]) \<le> i"
proof -
  note k = relocations_kept [OF assms(1) less_imp_le [OF assms(2)] refl, of E s data]
  have "rels (foldl (relocate_step E s) \<lparr>bytes = data, rels = sr, qrel = 0, errors = []\<rparr> [0..<i]) ! i = sr ! i"
    using k assms(2) by (metis hd_drop_conv_nth)
  then show ?thesis using k by simp
qed

theorem relocations_not_overwritten_witness:
  "rels (foldl (relocate_step (example_env\<lparr>output_type := 4\<rparr>) 1)
      \<lparr>bytes = replicate 20 0, rels = example_rels, qrel = 0, errors = []\<rparr> [0..<2]) ! 2 = example_rels ! 2"
proof -
  have "list_all (\<lambda>rel. rel_type rel \<noteq> 19 \<and> rel_type rel \<noteq> 20) example_rels" by code_simp
  then have "\<forall>rel\<in>set example_rels. rel_type rel \<noteq> 19 \<and> rel_type rel \<noteq> 20" by (simp only: list_all_iff)
  moreover have "2 < length example_rels" by (simp add: example_rels_def)
  ultimately show ?thesis using relocations_not_overwritten by blast
qed

end
