(* ===== verification/Scopes.thy ===== *)
theory Scopes
  imports Prelude
begin

text \<open>
  Identifiers and their scopes (__sym_malloc to sym_pop, lines 16502-16636, labels 16637-16681, new_scope_s,
  prev_scope_s and their likes, 21126-21164). A Sym is a cell of a store; pointers are optional addresses. The
  cells of a pool and the free ones are chained by next, the symbols of a scope by prev, those of one
  name, innermost first, by prev_tok from its TokenSym. The flags of a name are 0x40000000 for a
  tag (SYM_STRUCT), 0x20000000 for a member (SYM_FIELD); names from 0x10000000 on are anonymous and not linked.
\<close>

record scell =
  sy_v :: u32
  sy_r :: u16
  sy_scope :: int
  sy_c :: int
  sy_t :: u32
  sy_ref :: "nat option"
  sy_next :: "nat option"
  sy_prev :: "nat option"
  sy_tok :: "nat option"

record token_sym =
  id_sym :: "nat option"
  id_struct :: "nat option"
  id_label :: "nat option"

record sym_store =
  cells :: "nat \<Rightarrow> scell"
  pool_end :: nat
  free_first :: "nat option"
  global_stack :: "nat option"
  local_stack :: "nat option"
  local_scope :: int
  idents :: "token_sym list"

definition null_cell :: scell where
  "null_cell = \<lparr>sy_v = 0, sy_r = 0, sy_scope = 0, sy_c = 0, sy_t = 0, sy_ref = None, sy_next = None, sy_prev = None, sy_tok = None\<rparr>"

definition upd_cell :: "nat \<Rightarrow> (scell \<Rightarrow> scell) \<Rightarrow> sym_store \<Rightarrow> sym_store" where
  "upd_cell a f st = st\<lparr>cells := (cells st)(a := f (cells st a))\<rparr>"

text \<open>A pool holds 8192 / sizeof(Sym) = 146 symbols.\<close>

definition pool_size :: nat where "pool_size = 8192 div 56"

definition new_pool :: "sym_store \<Rightarrow> sym_store" where
  "new_pool st =
     fold (\<lambda>a st. (upd_cell a (sy_next_update (\<lambda>_. free_first st)) st)\<lparr>free_first := Some a\<rparr>)
       [pool_end st..<pool_end st + pool_size] (st\<lparr>pool_end := pool_end st + pool_size\<rparr>)"

definition sym_malloc :: "sym_store \<Rightarrow> nat \<times> sym_store" where
  "sym_malloc st =
     (let st = (if free_first st = None then new_pool st else st);
          a = the (free_first st)
      in (a, st\<lparr>free_first := sy_next (cells st a)\<rparr>))"

definition sym_free :: "nat \<Rightarrow> sym_store \<Rightarrow> sym_store" where
  "sym_free a st = (upd_cell a (sy_next_update (\<lambda>_. free_first st)) st)\<lparr>free_first := Some a\<rparr>"

text \<open>sym_push2: the caller stores the address in the stack whose top it passes.\<close>

definition sym_push2 :: "nat option \<Rightarrow> u32 \<Rightarrow> u32 \<Rightarrow> int \<Rightarrow> sym_store \<Rightarrow> nat \<times> sym_store" where
  "sym_push2 tp v t c st =
     (let (a, st) = sym_malloc st
      in (a, upd_cell a (\<lambda>_. null_cell\<lparr>sy_v := v, sy_t := t, sy_c := c, sy_prev := tp\<rparr>) st))"

partial_function (option) sym_find2 :: "nat option \<Rightarrow> u32 \<Rightarrow> sym_store \<Rightarrow> nat option option" where
  "sym_find2 s v st =
     (case s of
        None \<Rightarrow> Some None
      | Some a \<Rightarrow> if sy_v (cells st a) = v then Some (Some a) else sym_find2 (sy_prev (cells st a)) v st)"

declare sym_find2.simps [code]

text \<open>The index of a name in table_ident, and the check of struct_find, sym_find and label_find.\<close>

definition tok_index :: "u32 \<Rightarrow> nat" where "tok_index v = unat (v - 256)"

definition struct_find :: "u32 \<Rightarrow> sym_store \<Rightarrow> nat option" where
  "struct_find v st = (if length (idents st) \<le> tok_index v then None else id_struct (idents st ! tok_index v))"

definition sym_find :: "u32 \<Rightarrow> sym_store \<Rightarrow> nat option" where
  "sym_find v st = (if length (idents st) \<le> tok_index v then None else id_sym (idents st ! tok_index v))"

definition is_tag :: "u32 \<Rightarrow> bool" where "is_tag v \<longleftrightarrow> v AND 0x40000000 \<noteq> 0"
definition untag :: "u32 \<Rightarrow> u32" where "untag v = v AND NOT 0x40000000"
definition is_named :: "u32 \<Rightarrow> bool" where "is_named v \<longleftrightarrow> untag v < 0x10000000"

text \<open>The start of the chain of a name, where ps points in sym_link.\<close>

definition link_head :: "u32 \<Rightarrow> sym_store \<Rightarrow> nat option" where
  "link_head v st = (let ts = idents st ! tok_index (untag v) in if is_tag v then id_struct ts else id_sym ts)"

definition set_head :: "u32 \<Rightarrow> nat option \<Rightarrow> sym_store \<Rightarrow> sym_store" where
  "set_head v p st =
     (let i = tok_index (untag v); ts = idents st ! i
      in st\<lparr>idents := (idents st)[i := if is_tag v then ts\<lparr>id_struct := p\<rparr> else ts\<lparr>id_sym := p\<rparr>]\<rparr>)"

definition sym_link :: "nat \<Rightarrow> bool \<Rightarrow> sym_store \<Rightarrow> sym_store" where
  "sym_link a yes st =
     (let v = sy_v (cells st a) in
      if yes
      then upd_cell a (\<lambda>s. s\<lparr>sy_tok := link_head v st, sy_scope := local_scope st\<rparr>) (set_head v (Some a) st)
      else set_head v (sy_tok (cells st a)) st)"

text \<open>The scope of an enumeration constant is that of its type: its own field holds part of the value.\<close>

definition sym_scope_ex :: "nat \<Rightarrow> sym_store \<Rightarrow> int" where
  "sym_scope_ex a st =
     (if sy_t (cells st a) AND 0xfff00080 = 0x300000 then sy_scope (cells st (the (sy_ref (cells st a))))
      else sy_scope (cells st a))"

text \<open>Inl v is the error redeclaration of v.\<close>

definition sym_push :: "u32 \<Rightarrow> u32 \<times> nat option \<Rightarrow> u16 \<Rightarrow> int \<Rightarrow> sym_store \<Rightarrow> u32 + nat \<times> sym_store" where
  "sym_push v ty r c st =
     (let on_local = local_stack st \<noteq> None;
          (a, st) = sym_push2 (if on_local then local_stack st else global_stack st) v (fst ty) c st;
          st = (if on_local then st\<lparr>local_stack := Some a\<rparr> else st\<lparr>global_stack := Some a\<rparr>);
          st = upd_cell a (\<lambda>s. s\<lparr>sy_ref := snd ty, sy_r := r\<rparr>) st
      in if is_named v then
           let st = sym_link a True st
           in case sy_tok (cells st a) of
                None \<Rightarrow> Inr (a, st)
              | Some b \<Rightarrow> if sym_scope_ex b st = local_scope st then Inl v else Inr (a, st)
         else Inr (a, st))"

text \<open>
  The loop of global_identifier_push: after which symbol of the chain p, reached from at, the new one goes
  (None for the head of the chain).
\<close>

partial_function (option) global_place :: "nat option \<Rightarrow> nat option \<Rightarrow> sym_store \<Rightarrow> (nat option \<times> nat option) option" where
  "global_place at p st =
     (case p of
        None \<Rightarrow> Some (at, p)
      | Some a \<Rightarrow> if sy_scope (cells st a) \<noteq> 0 then global_place p (sy_tok (cells st a)) st else Some (at, p))"

declare global_place.simps [code]

definition global_identifier_push :: "u32 \<Rightarrow> u32 \<Rightarrow> int \<Rightarrow> sym_store \<Rightarrow> (nat \<times> sym_store) option" where
  "global_identifier_push v t c st =
     (let (a, st) = sym_push2 (global_stack st) v t c st;
          st = upd_cell a (\<lambda>s. s\<lparr>sy_r := 0x30 OR 0x0200\<rparr>) (st\<lparr>global_stack := Some a\<rparr>)
      in if v < 0x10000000 then
           map_option (\<lambda>(at, p).
             let st = upd_cell a (\<lambda>s. s\<lparr>sy_tok := p\<rparr>) st
             in (a, case at of None \<Rightarrow> set_head v (Some a) st
                    | Some b \<Rightarrow> upd_cell b (\<lambda>s. s\<lparr>sy_tok := Some a\<rparr>) st))
           (global_place None (link_head v st) st)
         else Some (a, st))"

text \<open>
  The loop of sym_pop; None is a walk that never meets b. The caller sets its stack to b unless the symbols
  are kept.
\<close>

partial_function (option) sym_pop :: "nat option \<Rightarrow> nat option \<Rightarrow> bool \<Rightarrow> sym_store \<Rightarrow> sym_store option" where
  "sym_pop s b keep st =
     (if s = b then Some st
      else case s of
        None \<Rightarrow> None
      | Some a \<Rightarrow>
          let ss = sy_prev (cells st a);
              st = (if is_named (sy_v (cells st a)) then sym_link a False st else st);
              st = (if keep then st else sym_free a st)
          in sym_pop ss b keep st)"

declare sym_pop.simps [code]

definition pop_local :: "nat option \<Rightarrow> bool \<Rightarrow> sym_store \<Rightarrow> sym_store option" where
  "pop_local b keep st =
     map_option (\<lambda>st. if keep then st else st\<lparr>local_stack := b\<rparr>) (sym_pop (local_stack st) b keep st)"

section \<open>Blocks\<close>

text \<open>
  A function body as a sequence of steps: new_scope and prev_scope (which remember the top of the local stack
  in lstk; a statement expression keeps the symbols of its scope), declarations, and identifiers that a
  function body makes global, such as an undeclared function that is called.
\<close>

datatype scope_op =
    New_scope
  | Prev_scope bool
  | Declare u32 "u32 \<times> nat option" u16 int
  | Declare_global u32 u32 int

type_synonym scope_state = "sym_store \<times> nat option list"

definition new_scope :: "scope_state \<Rightarrow> scope_state" where
  "new_scope = (\<lambda>(st, saved). (st\<lparr>local_scope := local_scope st + 1\<rparr>, local_stack st # saved))"

definition prev_scope :: "bool \<Rightarrow> scope_state \<Rightarrow> scope_state option" where
  "prev_scope is_expr = (\<lambda>(st, saved).
     map_option (\<lambda>st. (st\<lparr>local_scope := local_scope st - 1\<rparr>, tl saved)) (pop_local (hd saved) is_expr st))"

primrec scope_step :: "scope_op \<Rightarrow> scope_state \<Rightarrow> (u32 + scope_state) option" where
  "scope_step New_scope s = Some (Inr (new_scope s))"
| "scope_step (Prev_scope is_expr) s = map_option Inr (prev_scope is_expr s)"
| "scope_step (Declare v ty r c) s = Some (map_sum id (\<lambda>(a, st). (st, snd s)) (sym_push v ty r c (fst s)))"
| "scope_step (Declare_global v t c) s = map_option (\<lambda>(a, st). Inr (st, snd s)) (global_identifier_push v t c (fst s))"

primrec run_scopes :: "scope_op list \<Rightarrow> scope_state \<Rightarrow> (u32 + scope_state) option" where
  "run_scopes [] s = Some (Inr s)"
| "run_scopes (x # xs) s =
     Option.bind (scope_step x s) (\<lambda>r. case r of Inl v \<Rightarrow> Some (Inl v) | Inr s \<Rightarrow> run_scopes xs s)"

section \<open>What scopes mean\<close>

text \<open>
  The specification is an environment of nested scopes, innermost first: the number of a scope, the declarations
  of its names, and the names that were declared in statement expressions within it. What was visible before is the base,
  where the number of the scope comes with each declaration.
\<close>

type_synonym decl = "u32 \<times> nat option \<times> u16 \<times> int"
type_synonym layer = "int \<times> (u32 \<times> decl) list \<times> u32 list"

record scope_env =
  layers :: "layer list"
  base_env :: "u32 \<rightharpoonup> int \<times> decl"
  depth :: int

fun lookup_in :: "layer list \<Rightarrow> (u32 \<rightharpoonup> int \<times> decl) \<Rightarrow> u32 \<Rightarrow> (int \<times> decl) option" where
  "lookup_in [] B v = B v"
| "lookup_in ((n, D, K) # ls) B v = (case map_of D v of Some d \<Rightarrow> Some (n, d) | None \<Rightarrow> lookup_in ls B v)"

definition env_lookup :: "scope_env \<Rightarrow> u32 \<Rightarrow> decl option" where
  "env_lookup e v = map_option snd (lookup_in (layers e) (base_env e) v)"

definition declare_in :: "u32 \<Rightarrow> decl \<Rightarrow> layer list \<Rightarrow> layer list" where
  "declare_in v d ls = (case ls of [] \<Rightarrow> [] | (n, D, K) # ls \<Rightarrow> (n, (v, d) # D, K) # ls)"

primrec env_step :: "scope_op \<Rightarrow> scope_env \<Rightarrow> u32 + scope_env" where
  "env_step New_scope e = Inr (e\<lparr>depth := depth e + 1, layers := (depth e + 1, [], []) # layers e\<rparr>)"
| "env_step (Prev_scope is_expr) e =
     Inr (e\<lparr>depth := depth e - 1,
            layers := (case layers e of
                (n, D, K) # (n', D', K') # ls \<Rightarrow> (n', D', if is_expr then map fst D @ K @ K' else K') # ls
              | _ \<Rightarrow> [])\<rparr>)"
| "env_step (Declare v ty r c) e =
     (if \<not> is_named v then Inr e
      else if map_option fst (lookup_in (layers e) (base_env e) v) = Some (depth e) then Inl v
      else Inr (e\<lparr>layers := declare_in v (fst ty, snd ty, r, c) (layers e)\<rparr>))"
| "env_step (Declare_global v t c) e =
     (if v < 0x10000000 then Inr (e\<lparr>base_env := (base_env e)(v \<mapsto> (0, t, None, 0x30 OR 0x0200, c))\<rparr>) else Inr e)"

primrec run_env :: "scope_op list \<Rightarrow> scope_env \<Rightarrow> u32 + scope_env" where
  "run_env [] e = Inr e"
| "run_env (x # xs) e = ebind (env_step x e) (run_env xs)"


section \<open>The free list\<close>

primrec linked :: "(nat \<Rightarrow> nat option) \<Rightarrow> nat option \<Rightarrow> nat list \<Rightarrow> nat option \<Rightarrow> bool" where
  "linked f p [] q \<longleftrightarrow> p = q"
| "linked f p (a # as) q \<longleftrightarrow> p = Some a \<and> linked f (f a) as q"

lemma linked_append: "linked f p (as @ bs) q \<longleftrightarrow> (\<exists>r. linked f p as r \<and> linked f r bs q)"
  by (induction as arbitrary: p) auto

lemma linked_cong: "(\<And>a. a \<in> set as \<Longrightarrow> f a = g a) \<Longrightarrow> linked f p as q \<longleftrightarrow> linked g p as q"
  by (induction as arbitrary: p) auto

definition mem_ok :: "sym_store \<Rightarrow> nat list \<Rightarrow> nat set \<Rightarrow> bool" where
  "mem_ok st F U \<longleftrightarrow>
     linked (\<lambda>a. sy_next (cells st a)) (free_first st) F None \<and> distinct F \<and>
     set F \<subseteq> {..<pool_end st} \<and> U \<subseteq> {..<pool_end st} \<and> U \<inter> set F = {}"

lemma upd_cell_simps [simp]:
  "cells (upd_cell a f st) = (cells st)(a := f (cells st a))" "pool_end (upd_cell a f st) = pool_end st"
  "free_first (upd_cell a f st) = free_first st" "global_stack (upd_cell a f st) = global_stack st"
  "local_stack (upd_cell a f st) = local_stack st" "local_scope (upd_cell a f st) = local_scope st"
  "idents (upd_cell a f st) = idents st"
  by (simp_all add: upd_cell_def)

lemma set_head_simps [simp]:
  "cells (set_head v p st) = cells st" "pool_end (set_head v p st) = pool_end st"
  "free_first (set_head v p st) = free_first st" "global_stack (set_head v p st) = global_stack st"
  "local_stack (set_head v p st) = local_stack st" "local_scope (set_head v p st) = local_scope st"
  "length (idents (set_head v p st)) = length (idents st)"
  by (simp_all add: set_head_def Let_def)

text \<open>What allocation leaves alone.\<close>

definition same_frame :: "sym_store \<Rightarrow> sym_store \<Rightarrow> bool" where
  "same_frame st st' \<longleftrightarrow> global_stack st' = global_stack st \<and> local_stack st' = local_stack st \<and>
     local_scope st' = local_scope st \<and> idents st' = idents st"

lemma pool_loop:
  assumes "linked (\<lambda>a. sy_next (cells st a)) (free_first st) F None" "\<forall>a\<in>set F. a < k" "k \<le> m"
  defines "st' \<equiv> fold (\<lambda>a st. (upd_cell a (sy_next_update (\<lambda>_. free_first st)) st)\<lparr>free_first := Some a\<rparr>) [k..<m] st"
  shows "linked (\<lambda>a. sy_next (cells st' a)) (free_first st') (rev [k..<m] @ F) None
    \<and> (\<forall>a<k. cells st' a = cells st a) \<and> pool_end st' = pool_end st \<and> same_frame st st'"
  using assms(3) unfolding st'_def
proof (induction m rule: dec_induct)
  case base
  then show ?case using assms(1) by (simp add: same_frame_def)
next
  case (step n)
  let ?s = "fold (\<lambda>a st. (upd_cell a (sy_next_update (\<lambda>_. free_first st)) st)\<lparr>free_first := Some a\<rparr>) [k..<n] st"
  let ?s' = "(upd_cell n (sy_next_update (\<lambda>_. free_first ?s)) ?s)\<lparr>free_first := Some n\<rparr>"
  have n: "\<forall>a\<in>set (rev [k..<n] @ F). a \<noteq> n" using step.hyps assms(2) by auto
  have "linked (\<lambda>a. sy_next (cells ?s' a)) (free_first ?s) (rev [k..<n] @ F) None"
    using step.IH n by (subst linked_cong [where g = "\<lambda>a. sy_next (cells ?s a)"]) auto
  then show ?case using step.IH step.hyps by (auto simp: same_frame_def)
qed

lemma new_pool_ok:
  assumes "mem_ok st F U" "free_first st = None"
  shows "\<exists>F'. F' \<noteq> [] \<and> mem_ok (new_pool st) F' U \<and> (\<forall>a\<in>U. cells (new_pool st) a = cells st a) \<and> same_frame st (new_pool st)"
proof -
  have F: "F = []" using assms by (cases F) (auto simp: mem_ok_def)
  note p = pool_loop [of "st\<lparr>pool_end := pool_end st + pool_size\<rparr>" "[]" "pool_end st" "pool_end st + pool_size"]
  have "mem_ok (new_pool st) (rev [pool_end st..<pool_end st + pool_size]) U"
    using p assms unfolding mem_ok_def new_pool_def by (auto simp: same_frame_def)
  moreover have "\<forall>a\<in>U. cells (new_pool st) a = cells st a" "same_frame st (new_pool st)"
    using p assms unfolding mem_ok_def new_pool_def by (auto simp: same_frame_def)
  moreover have "rev [pool_end st..<pool_end st + pool_size] \<noteq> []" by (simp add: pool_size_def)
  ultimately show ?thesis by blast
qed

lemma sym_push2_ok:
  assumes "mem_ok st F U" "sym_push2 tp v t c st = (a, st')"
  shows "a \<notin> U" "\<exists>F. mem_ok st' F (insert a U)" "\<And>b. b \<in> U \<Longrightarrow> cells st' b = cells st b" "same_frame st st'"
    "cells st' a = null_cell\<lparr>sy_v := v, sy_t := t, sy_c := c, sy_prev := tp\<rparr>"
proof -
  define s1 where "s1 = (if free_first st = None then new_pool st else st)"
  obtain F1 where F1: "F1 \<noteq> []" "mem_ok s1 F1 U" "\<forall>a\<in>U. cells s1 a = cells st a" "same_frame st s1"
  proof (cases "free_first st = None")
    case True
    then show ?thesis using new_pool_ok [OF assms(1) True] that by (auto simp: s1_def)
  next
    case False
    then have "F \<noteq> []" using assms(1) by (auto simp: mem_ok_def)
    then show ?thesis using that [of F] False assms(1) by (simp add: s1_def same_frame_def)
  qed
  then obtain x F2 where x: "F1 = x # F2" by (cases F1) auto
  have st': "a = x" "st' = upd_cell x (\<lambda>_. null_cell\<lparr>sy_v := v, sy_t := t, sy_c := c, sy_prev := tp\<rparr>) (s1\<lparr>free_first := sy_next (cells s1 x)\<rparr>)"
    using assms(2) F1(2) x by (auto simp: sym_push2_def sym_malloc_def Let_def s1_def [symmetric] mem_ok_def)
  have l: "linked (\<lambda>b. sy_next (cells st' b)) (free_first st') F2 None"
    using F1(2) x st' by (subst linked_cong [where g = "\<lambda>a. sy_next (cells s1 a)"]) (auto simp: mem_ok_def)
  show "a \<notin> U" "\<And>b. b \<in> U \<Longrightarrow> cells st' b = cells st b" using F1 x st' by (auto simp: mem_ok_def)
  then show "\<exists>F. mem_ok st' F (insert a U)"
    using l F1(2) x st' by (intro exI [of _ F2]) (auto simp: mem_ok_def)
  show "same_frame st st'" using F1(4) st' by (simp add: same_frame_def)
  show "cells st' a = null_cell\<lparr>sy_v := v, sy_t := t, sy_c := c, sy_prev := tp\<rparr>" using st' by simp
qed

lemma mem_ok_upd:
  assumes "mem_ok st F U" "a \<in> U"
  shows "mem_ok (upd_cell a f st) F U"
proof -
  have "linked (\<lambda>b. sy_next (cells (upd_cell a f st) b)) (free_first st) F None"
    using assms by (subst linked_cong [where g = "\<lambda>a. sy_next (cells st a)"]) (auto simp: mem_ok_def)
  then show ?thesis using assms by (simp add: mem_ok_def)
qed

lemma mem_ok_same:
  "mem_ok st F U \<Longrightarrow> cells st' = cells st \<Longrightarrow> free_first st' = free_first st \<Longrightarrow> pool_end st' = pool_end st \<Longrightarrow> mem_ok st' F U"
  by (simp add: mem_ok_def)

lemma mem_ok_free:
  assumes "mem_ok st F U" "a \<in> U"
  shows "mem_ok (sym_free a st) (a # F) (U - {a})"
proof -
  have "linked (\<lambda>b. sy_next (cells (sym_free a st) b)) (free_first st) F None"
    using assms by (subst linked_cong [where g = "\<lambda>a. sy_next (cells st a)"]) (auto simp: mem_ok_def sym_free_def)
  then show ?thesis using assms by (auto simp: mem_ok_def sym_free_def)
qed

section \<open>The chains of names\<close>

definition known :: "sym_store \<Rightarrow> u32 \<Rightarrow> bool" where
  "known st v \<longleftrightarrow> is_named v \<and> tok_index (untag v) < length (idents st)"

lemma bit_tag: "bit (0x40000000 :: u32) k = (k = 30)"
proof -
  have "(0x40000000 :: u32) = 2 ^ 30" by simp
  then show ?thesis by (simp only: bit_exp_iff) auto
qed

lemma name_eqI:
  assumes "is_tag v = is_tag w" "tok_index (untag v) = tok_index (untag w)"
  shows "v = w"
proof (rule bit_word_eqI)
  fix n assume n: "n < LENGTH(32)"
  have t: "is_tag u = bit u 30" for u :: u32
  proof -
    have "u AND 0x40000000 = 0 \<longleftrightarrow> \<not> bit u 30"
      by (subst bit_eq_iff, unfold bit_and_iff bit_tag) (auto dest: spec [of _ 30])
    then show ?thesis by (simp add: is_tag_def)
  qed
  have "untag v - 256 = untag w - 256"
    using arg_cong [OF assms(2), of "of_nat :: nat \<Rightarrow> u32"] by (simp add: tok_index_def)
  then have "untag v = untag w" by simp
  then have "bit (untag v) n = bit (untag w) n" by simp
  moreover have "bit (untag u) n = (bit u n \<and> n \<noteq> 30)" for u :: u32
    using n unfolding untag_def bit_and_iff bit_not_iff bit_tag by simp
  ultimately show "bit v n = bit w n" using assms(1) t by metis
qed

lemma link_head_set_head:
  assumes "known st v"
  shows "link_head w (set_head v p st) = (if w = v then p else link_head w st)"
proof -
  have i: "tok_index (untag v) < length (idents st)" using assms by (simp add: known_def)
  show ?thesis
  proof (cases "tok_index (untag w) = tok_index (untag v) \<and> is_tag w = is_tag v")
    case True
    then have "w = v" using name_eqI by blast
    then show ?thesis using i by (simp add: link_head_def set_head_def Let_def)
  next
    case False
    then have "w \<noteq> v" by auto
    then show ?thesis using False i by (auto simp: link_head_def set_head_def Let_def nth_list_update)
  qed
qed

section \<open>The invariant\<close>

text \<open>
  For each open scope, innermost first: its part of the local stack, and the visible symbol of each of its
  names; A gives the symbols of the base. The chain of a name starts with the innermost visible symbol.
\<close>

type_synonym ghost = "nat list \<times> (u32 \<rightharpoonup> nat)"

fun chain_head :: "ghost list \<Rightarrow> (u32 \<rightharpoonup> nat) \<Rightarrow> u32 \<Rightarrow> nat option" where
  "chain_head [] A v = A v"
| "chain_head ((sg, B) # gs) A v = (case B v of Some a \<Rightarrow> Some a | None \<Rightarrow> chain_head gs A v)"

definition deepest :: "(nat \<Rightarrow> scell) \<Rightarrow> nat list \<Rightarrow> u32 \<Rightarrow> nat option" where
  "deepest C sg v = find (\<lambda>a. sy_v (C a) = v) (rev sg)"

definition payload :: "scell \<Rightarrow> decl" where
  "payload s = (sy_t s, sy_ref s, sy_r s, sy_c s)"

definition is_enum_val :: "u32 \<Rightarrow> bool" where "is_enum_val t \<longleftrightarrow> t AND 0xfff00080 = 0x300000"

definition visible_ok :: "(nat \<Rightarrow> scell) \<Rightarrow> (u32 \<rightharpoonup> nat) \<Rightarrow> nat list \<Rightarrow> (u32 \<rightharpoonup> nat) \<Rightarrow> int \<Rightarrow> bool" where
  "visible_ok C H sg B n \<longleftrightarrow>
     (\<forall>v a. B v = Some a \<longrightarrow> a \<in> set sg \<and> sy_v (C a) = v \<and> is_named v \<and> sy_tok (C a) = H v \<and> sy_scope (C a) = n \<and> \<not> is_enum_val (sy_t (C a)))"

definition kept_ok :: "(nat \<Rightarrow> scell) \<Rightarrow> nat \<Rightarrow> nat list \<Rightarrow> (u32 \<rightharpoonup> nat) \<Rightarrow> u32 list \<Rightarrow> bool" where
  "kept_ok C m sg B K \<longleftrightarrow>
     (\<forall>a\<in>set sg. is_named (sy_v (C a)) \<longrightarrow> tok_index (untag (sy_v (C a))) < m \<and> (B (sy_v (C a)) = Some a \<or> sy_v (C a) \<in> set K))"

definition deepest_ok :: "(nat \<Rightarrow> scell) \<Rightarrow> (u32 \<rightharpoonup> nat) \<Rightarrow> nat list \<Rightarrow> bool" where
  "deepest_ok C H sg \<longleftrightarrow> (\<forall>v a. is_named v \<longrightarrow> deepest C sg v = Some a \<longrightarrow> sy_tok (C a) = H v)"

fun layers_ok :: "(nat \<Rightarrow> scell) \<Rightarrow> nat \<Rightarrow> (u32 \<rightharpoonup> nat) \<Rightarrow> int \<Rightarrow> ghost list \<Rightarrow> layer list \<Rightarrow> bool" where
  "layers_ok C m A d [] [] \<longleftrightarrow> 0 \<le> d"
| "layers_ok C m A d ((sg, B) # gs) ((n, D, K) # ls) \<longleftrightarrow>
     n = d \<and> 1 \<le> d \<and> visible_ok C (chain_head gs A) sg B n \<and> kept_ok C m sg B K \<and> deepest_ok C (chain_head gs A) sg \<and>
     (\<forall>v. map_of D v = map_option (\<lambda>a. payload (C a)) (B v)) \<and> layers_ok C m A (d - 1) gs ls"
| "layers_ok C m A d _ _ \<longleftrightarrow> False"

abbreviation stack_of :: "ghost list \<Rightarrow> nat list" where "stack_of gs \<equiv> concat (map fst gs)"

definition top_of :: "nat list \<Rightarrow> nat \<Rightarrow> nat option" where
  "top_of as pb = (case as of [] \<Rightarrow> Some pb | a # _ \<Rightarrow> Some a)"

lemma top_of_not_None [simp]: "top_of as pb \<noteq> None"
  by (cases as) (simp_all add: top_of_def)

lemma top_of_Some: "top_of as pb = Some a \<Longrightarrow> a = pb \<or> a \<in> set as"
  by (cases as) (simp_all add: top_of_def)

lemma linked_top: "linked f p as (Some pb) \<Longrightarrow> p = top_of as pb"
  by (cases as) (simp_all add: top_of_def)

primrec saved_ok :: "nat \<Rightarrow> ghost list \<Rightarrow> nat option list \<Rightarrow> bool" where
  "saved_ok pb [] saved \<longleftrightarrow> True"
| "saved_ok pb (g # gs) saved \<longleftrightarrow> (\<exists>ss. saved = top_of (stack_of gs) pb # ss \<and> saved_ok pb gs ss)"

text \<open>The base: its symbols are in R, and stay as they are.\<close>

definition base_ok :: "sym_store \<Rightarrow> nat set \<Rightarrow> (u32 \<rightharpoonup> nat) \<Rightarrow> (u32 \<rightharpoonup> int \<times> decl) \<Rightarrow> bool" where
  "base_ok st R A E \<longleftrightarrow>
     (\<forall>v. known st v \<longrightarrow> E v = map_option (\<lambda>a. (sym_scope_ex a st, payload (cells st a))) (A v)) \<and>
     (\<forall>v a. known st v \<longrightarrow> A v = Some a \<longrightarrow> a \<in> R \<and> (is_enum_val (sy_t (cells st a)) \<longrightarrow> the (sy_ref (cells st a)) \<in> R))"

definition scopes_inv :: "scope_state \<Rightarrow> scope_env \<Rightarrow> ghost list \<Rightarrow> (u32 \<rightharpoonup> nat) \<Rightarrow> nat set \<Rightarrow> nat \<Rightarrow> bool" where
  "scopes_inv s e gs A R pb \<longleftrightarrow>
     (let st = fst s in
      (\<exists>F. mem_ok st F (R \<union> set (stack_of gs))) \<and> R \<inter> set (stack_of gs) = {} \<and> distinct (stack_of gs) \<and> pb \<in> R \<and>
      linked (\<lambda>a. sy_prev (cells st a)) (local_stack st) (stack_of gs) (Some pb) \<and>
      saved_ok pb gs (snd s) \<and> local_scope st = depth e \<and>
      layers_ok (cells st) (length (idents st)) A (depth e) gs (layers e) \<and>
      base_ok st R A (base_env e) \<and>
      (\<forall>v. known st v \<longrightarrow> link_head v st = chain_head gs A v))"

lemma find_app: "find P (xs @ ys) = (case find P xs of None \<Rightarrow> find P ys | Some x \<Rightarrow> Some x)"
  by (induction xs) auto

lemma deepest_cong:
  assumes "\<And>a. a \<in> set sg \<Longrightarrow> C a = C' a"
  shows "deepest C sg v = deepest C' sg v"
  unfolding deepest_def by (rule find_cong) (use assms in auto)

lemma deepest_SomeD: "deepest C sg v = Some a \<Longrightarrow> a \<in> set sg \<and> sy_v (C a) = v"
  by (auto simp: deepest_def find_Some_iff) (metis nth_mem length_rev set_rev)

lemma deepest_NoneD: "deepest C sg v = None \<Longrightarrow> a \<in> set sg \<Longrightarrow> sy_v (C a) \<noteq> v"
  by (auto simp: deepest_def find_None_iff)

lemma visible_ok_cong:
  assumes "visible_ok C H sg B n" "\<And>a. a \<in> set sg \<Longrightarrow> C a = C' a"
  shows "visible_ok C' H sg B n"
  using assms by (fastforce simp: visible_ok_def)

lemma kept_ok_cong:
  assumes "kept_ok C m sg B K" "\<And>a. a \<in> set sg \<Longrightarrow> C a = C' a"
  shows "kept_ok C' m sg B K"
  using assms by (simp add: kept_ok_def)

lemma deepest_ok_cong:
  assumes "deepest_ok C H sg" "\<And>a. a \<in> set sg \<Longrightarrow> C a = C' a"
  shows "deepest_ok C' H sg"
proof -
  have "deepest C sg v = deepest C' sg v" for v by (rule deepest_cong) (rule assms(2))
  then show ?thesis using assms by (metis deepest_SomeD deepest_ok_def)
qed

lemma layers_ok_cong:
  assumes "layers_ok C m A d gs ls" "\<And>a. a \<in> set (stack_of gs) \<Longrightarrow> C a = C' a"
  shows "layers_ok C' m A d gs ls"
  using assms
proof (induction C m A d gs ls rule: layers_ok.induct)
  case (2 C m A d sg B gs n D K ls)
  have c: "C a = C' a" if "a \<in> set sg" for a using 2 that by auto
  have p: "map_option (\<lambda>a. payload (C a)) (B v) = map_option (\<lambda>a. payload (C' a)) (B v)" for v
    using 2(2) c by (cases "B v") (auto simp: visible_ok_def)
  have "visible_ok C' (chain_head gs A) sg B n" "kept_ok C' m sg B K" "deepest_ok C' (chain_head gs A) sg"
    using 2(2) c visible_ok_cong [of C] kept_ok_cong [of C] deepest_ok_cong [of C] by auto
  then show ?case using 2 by (simp add: p)
qed auto

lemma chain_member:
  assumes "layers_ok C m A d gs ls" "chain_head gs A v = Some b"
  shows "b \<in> set (stack_of gs) \<and> sy_v (C b) = v \<and> is_named v \<and> \<not> is_enum_val (sy_t (C b)) \<or> A v = Some b"
  using assms
  by (induction C m A d gs ls rule: layers_ok.induct) (auto simp: visible_ok_def split: option.splits)

lemma lookup_chain:
  assumes "layers_ok (cells st) m A d gs ls" "base_ok st R A E" "known st v"
  shows "lookup_in ls E v = map_option (\<lambda>a. (sym_scope_ex a st, payload (cells st a))) (chain_head gs A v)"
  using assms(1,2)
proof (induction "cells st" m A d gs ls rule: layers_ok.induct)
  case (1 m A d)
  then show ?case using assms(3) by (simp add: base_ok_def)
next
  case (2 m A d sg B gs n D K ls)
  show ?case
  proof (cases "B v")
    case (Some a)
    then have "sym_scope_ex a st = n" using 2 by (simp add: visible_ok_def sym_scope_ex_def is_enum_val_def)
    then show ?thesis using 2 Some by simp
  qed (use 2 in simp)
qed auto

section \<open>Steps keep the invariant\<close>

lemma known_simps [simp]: "known (upd_cell a f st) v = known st v" "known (set_head w p st) v = known st v"
  by (simp_all add: known_def)

lemma link_head_upd_cell [simp]: "link_head v (upd_cell a f st) = link_head v st"
  by (simp add: link_head_def)

lemma base_ok_cong:
  assumes "base_ok st R A E" "\<And>a. a \<in> R \<Longrightarrow> cells st' a = cells st a" "length (idents st') = length (idents st)"
  shows "base_ok st' R A E"
proof -
  have k: "known st' v = known st v" for v using assms(3) by (simp add: known_def)
  have "sym_scope_ex a st' = sym_scope_ex a st" "cells st' a = cells st a" if "known st v" "A v = Some a" for v a
    using assms(1,2) that by (auto simp: base_ok_def sym_scope_ex_def is_enum_val_def)
  then have "map_option (\<lambda>a. (sym_scope_ex a st', payload (cells st' a))) (A v) = map_option (\<lambda>a. (sym_scope_ex a st, payload (cells st a))) (A v)"
    if "known st v" for v using that by (cases "A v") auto
  then show ?thesis using assms k by (simp add: base_ok_def)
qed

lemma mem_ok_frame [simp]:
  "mem_ok (st\<lparr>local_stack := x\<rparr>) F U = mem_ok st F U" "mem_ok (st\<lparr>local_scope := n\<rparr>) F U = mem_ok st F U"
  "mem_ok (st\<lparr>global_stack := x\<rparr>) F U = mem_ok st F U" "mem_ok (set_head v p st) F U = mem_ok st F U"
  by (simp_all add: mem_ok_def)

lemma layers_depth: "layers_ok C m A d gs ls \<Longrightarrow> 0 \<le> d"
  by (induction C m A d gs ls rule: layers_ok.induct) auto

lemma layers_length: "layers_ok C m A d gs ls \<Longrightarrow> length ls = length gs"
  by (induction C m A d gs ls rule: layers_ok.induct) auto

lemma scopes_invD:
  assumes "scopes_inv (st, saved) e gs A R pb"
  shows "\<exists>F. mem_ok st F (R \<union> set (stack_of gs))" "R \<inter> set (stack_of gs) = {}" "distinct (stack_of gs)" "pb \<in> R"
    "linked (\<lambda>a. sy_prev (cells st a)) (local_stack st) (stack_of gs) (Some pb)" "saved_ok pb gs saved"
    "local_scope st = depth e" "layers_ok (cells st) (length (idents st)) A (depth e) gs (layers e)"
    "base_ok st R A (base_env e)" "\<And>v. known st v \<Longrightarrow> link_head v st = chain_head gs A v" "0 \<le> depth e"
  using assms layers_depth unfolding scopes_inv_def Let_def fst_conv snd_conv by blast+

lemma scopes_invI:
  assumes "mem_ok st F (R \<union> set (stack_of gs))" "R \<inter> set (stack_of gs) = {}" "distinct (stack_of gs)" "pb \<in> R"
    "linked (\<lambda>a. sy_prev (cells st a)) (local_stack st) (stack_of gs) (Some pb)" "saved_ok pb gs saved"
    "local_scope st = depth e" "layers_ok (cells st) (length (idents st)) A (depth e) gs (layers e)"
    "base_ok st R A (base_env e)" "\<And>v. known st v \<Longrightarrow> link_head v st = chain_head gs A v"
  shows "scopes_inv (st, saved) e gs A R pb"
  using assms unfolding scopes_inv_def Let_def fst_conv snd_conv by blast

lemma inv_new_scope:
  assumes "scopes_inv (st, saved) e gs A R pb"
  shows "\<exists>e'. env_step New_scope e = Inr e' \<and> scopes_inv (new_scope (st, saved)) e' (([], Map.empty) # gs) A R pb"
proof -
  note i = scopes_invD [OF assms]
  obtain F where F: "mem_ok st F (R \<union> set (stack_of gs))" using i(1) by blast
  let ?st = "st\<lparr>local_scope := local_scope st + 1\<rparr>"
  have l: "layers_ok (cells ?st) (length (idents ?st)) A (depth e + 1) (([], Map.empty) # gs) ((depth e + 1, [], []) # layers e)"
    using i(8,11) by (simp add: visible_ok_def kept_ok_def deepest_ok_def deepest_def)
  have b: "base_ok ?st R A (base_env e)" by (rule base_ok_cong [OF i(9)]) simp_all
  have h: "link_head v ?st = link_head v st" "known ?st v = known st v" for v by (simp_all add: link_head_def known_def)
  have sv: "saved_ok pb (([], Map.empty) # gs) (local_stack st # saved)" using i(6) linked_top [OF i(5)] by simp
  have "scopes_inv (?st, local_stack st # saved) (e\<lparr>depth := depth e + 1, layers := (depth e + 1, [], []) # layers e\<rparr>)
      (([], Map.empty) # gs) A R pb"
    by (rule scopes_invI [of _ F]) (use i F l b h sv in simp_all)
  then show ?thesis by (simp add: new_scope_def)
qed

text \<open>The symbol a, pushed on the local stack.\<close>

lemma layers_ok_push:
  assumes "layers_ok C m A d ((sg, B) # gs) ((n, D, K) # ls)" "a \<notin> set (stack_of ((sg, B) # gs))"
    and "sy_v c = v" "payload c = p"
  shows "\<not> is_named v \<Longrightarrow> layers_ok (C(a := c)) m A d ((a # sg, B) # gs) ((n, D, K) # ls)"
    and "is_named v \<Longrightarrow> tok_index (untag v) < m \<Longrightarrow> B v = None \<Longrightarrow> sy_tok c = chain_head gs A v \<Longrightarrow> sy_scope c = d \<Longrightarrow>
      \<not> is_enum_val (sy_t c) \<Longrightarrow> layers_ok (C(a := c)) m A d ((a # sg, B(v \<mapsto> a)) # gs) ((n, (v, p) # D, K) # ls)"
proof -
  let ?C = "C(a := c)" and ?H = "chain_head gs A"
  have e: "C b = ?C b" if "b \<in> set sg \<or> b \<in> set (stack_of gs)" for b using assms(2) that by auto
  have i: "visible_ok ?C ?H sg B n" "kept_ok ?C m sg B K" "deepest_ok ?C ?H sg" "layers_ok ?C m A (d - 1) gs ls" "n = d" "1 \<le> d"
    using assms(1) e visible_ok_cong [of C] kept_ok_cong [of C] deepest_ok_cong [of C] layers_ok_cong [of C] by auto
  have p: "map_of D w = map_option (\<lambda>b. payload (?C b)) (B w)" for w
    using assms(1) i(1) e by (cases "B w") (auto simp: visible_ok_def)
  have dp: "deepest ?C (a # sg) w = (case deepest ?C sg w of Some x \<Rightarrow> Some x | None \<Rightarrow> if v = w then Some a else None)" for w
    using assms(3) by (auto simp: deepest_def find_app split: option.split)
  have an: "a \<noteq> b" if "B w = Some b" for b w using that i(1) assms(2) by (auto simp: visible_ok_def)
  show "layers_ok ?C m A d ((a # sg, B) # gs) ((n, D, K) # ls)" if nv: "\<not> is_named v"
  proof -
    have "visible_ok ?C ?H (a # sg) B n" using i(1) by (auto simp: visible_ok_def)
    moreover have "kept_ok ?C m (a # sg) B K" using i(2) nv assms(3) by (simp add: kept_ok_def)
    moreover have "deepest_ok ?C ?H (a # sg)"
      using i(3) nv unfolding deepest_ok_def dp by (auto split: option.split)
    ultimately show ?thesis using i p by simp
  qed
  show "layers_ok ?C m A d ((a # sg, B(v \<mapsto> a)) # gs) ((n, (v, p) # D, K) # ls)"
    if nv: "is_named v" "tok_index (untag v) < m" "B v = None" "sy_tok c = ?H v" "sy_scope c = d" "\<not> is_enum_val (sy_t c)"
  proof -
    have "visible_ok ?C ?H (a # sg) (B(v \<mapsto> a)) n" using i(1,5) nv assms(3) an by (auto simp: visible_ok_def)
    moreover have "kept_ok ?C m (a # sg) (B(v \<mapsto> a)) K"
      using i(2) nv assms(2,3) by (auto simp: kept_ok_def)
    moreover have "deepest_ok ?C ?H (a # sg)"
      using i(3) nv unfolding deepest_ok_def dp by (auto split: option.split)
    moreover have "map_of ((v, p) # D) w = map_option (\<lambda>b. payload (?C b)) ((B(v \<mapsto> a)) w)" for w
      using p assms(4) by simp
    ultimately show ?thesis using i by simp
  qed
qed

text \<open>A declaration.\<close>

lemma inv_pushed:
  assumes "scopes_inv (st, saved) e ((sg, B) # gs) A R pb"
    and "a \<notin> R \<union> set (stack_of ((sg, B) # gs))" "mem_ok st' F (insert a (R \<union> set (stack_of ((sg, B) # gs))))"
    and "\<And>b. b \<in> R \<union> set (stack_of ((sg, B) # gs)) \<Longrightarrow> cells st' b = cells st b" "sy_prev (cells st' a) = local_stack st"
    and "local_stack st' = Some a" "local_scope st' = local_scope st" "length (idents st') = length (idents st)"
    and "layers_ok (cells st') (length (idents st)) A (depth e) ((a # sg, B') # gs) ls"
    and "\<And>v. known st v \<Longrightarrow> link_head v st' = chain_head ((a # sg, B') # gs) A v"
  shows "scopes_inv (st', saved) (e\<lparr>layers := ls\<rparr>) ((a # sg, B') # gs) A R pb"
proof -
  note i = scopes_invD [OF assms(1)]
  have "linked (\<lambda>a. sy_prev (cells st' a)) (local_stack st') (a # stack_of ((sg, B) # gs)) (Some pb)"
    using i(5) assms(4-6) by (subst linked.simps, subst linked_cong [where g = "\<lambda>a. sy_prev (cells st a)"]) auto
  moreover have "base_ok st' R A (base_env e)" by (rule base_ok_cong [OF i(9)]) (use assms in auto)
  moreover have "known st' v = known st v" for v using assms(8) by (simp add: known_def)
  moreover have "saved_ok pb ((a # sg, B') # gs) saved" using i(6) by simp
  ultimately show ?thesis
    using assms i(2,3,4,7) by (intro scopes_invI [of _ F]) auto
qed

lemma inv_declare:
  assumes "scopes_inv (st, saved) e ((sg, B) # gs) A R pb" "is_named v \<Longrightarrow> known st v" "\<not> is_enum_val (fst ty)"
  shows "case env_step (Declare v ty r c) e of
      Inl u \<Rightarrow> sym_push v ty r c st = Inl u
    | Inr e' \<Rightarrow> \<exists>a st' gs'. sym_push v ty r c st = Inr (a, st') \<and> scopes_inv (st', saved) e' gs' A R pb \<and>
        length (idents st') = length (idents st)"
proof -
  note i = scopes_invD [OF assms(1)]
  let ?U = "R \<union> set (stack_of ((sg, B) # gs))"
  obtain n D K ls where ls: "layers e = (n, D, K) # ls" using i(8) by (cases "layers e") auto
  obtain F where F: "mem_ok st F ?U" using i(1) by blast
  have l: "local_stack st \<noteq> None" unfolding linked_top [OF i(5)] by (rule top_of_not_None)
  obtain a s1 where s1: "sym_push2 (local_stack st) v (fst ty) c st = (a, s1)"
    by (cases "sym_push2 (local_stack st) v (fst ty) c st") blast
  note p = sym_push2_ok [OF F s1]
  obtain F1 where F1: "mem_ok s1 F1 (insert a ?U)" using p(2) by blast
  have fr: "local_scope s1 = local_scope st" "idents s1 = idents st" using p(4) by (auto simp: same_frame_def)
  define c0 where "c0 = null_cell\<lparr>sy_v := v, sy_t := fst ty, sy_c := c, sy_prev := local_stack st, sy_ref := snd ty, sy_r := r\<rparr>"
  define s2 where "s2 = upd_cell a (\<lambda>s. s\<lparr>sy_ref := snd ty, sy_r := r\<rparr>) (s1\<lparr>local_stack := Some a\<rparr>)"
  have c2: "cells s2 = (cells s1)(a := c0)" "idents s2 = idents st" "local_scope s2 = local_scope st" "local_stack s2 = Some a"
    by (simp_all add: s2_def c0_def p(5) fr)
  have push: "sym_push v ty r c st =
      (if is_named v then
         let st = sym_link a True s2
         in case sy_tok (cells st a) of
              None \<Rightarrow> Inr (a, st)
            | Some b \<Rightarrow> if sym_scope_ex b st = local_scope st then Inl v else Inr (a, st)
       else Inr (a, s2))"
    unfolding sym_push_def s2_def using l by (simp add: s1)
  have L: "layers_ok (cells s1) (length (idents st)) A (depth e) ((sg, B) # gs) ((n, D, K) # ls)"
    by (rule layers_ok_cong [OF i(8) [unfolded ls]]) (rule p(3) [symmetric], blast)
  have an: "a \<notin> set (stack_of ((sg, B) # gs))" using p(1) by blast
  have hd: "link_head w s2 = link_head w st" for w by (simp add: link_head_def c2)
  show ?thesis
  proof (cases "is_named v")
    case False
    have "layers_ok (cells s2) (length (idents st)) A (depth e) ((a # sg, B) # gs) (layers e)"
      unfolding c2 ls by (rule layers_ok_push(1) [OF L an _ refl False]) (simp add: c0_def)
    moreover have "mem_ok s2 F1 (insert a ?U)"
      unfolding s2_def by (rule mem_ok_upd) (use F1 in simp_all)
    ultimately have "scopes_inv (s2, saved) (e\<lparr>layers := layers e\<rparr>) ((a # sg, B) # gs) A R pb"
      using p(1,3) i(10) fr by (intro inv_pushed [OF assms(1), of a s2 F1]) (auto simp: c2 hd c0_def)
    then have "\<exists>gs'. scopes_inv (s2, saved) e gs' A R pb" by auto
    then show ?thesis using False by (simp add: push c2)
  next
    case True
    note k = assms(2) [OF True]
    define s3 where "s3 = sym_link a True s2"
    have v2: "sy_v (cells s2 a) = v" by (simp add: c2 c0_def)
    have c3: "cells s3 = (cells s1)(a := c0\<lparr>sy_tok := link_head v st, sy_scope := depth e\<rparr>)"
      using v2 i(7) by (simp add: s3_def sym_link_def Let_def c2 hd)
    have k2: "known s2 v" using k by (simp add: known_def c2)
    have hd3: "link_head w s3 = (if w = v then Some a else link_head w st)" for w
      using link_head_set_head [OF k2] v2 hd by (simp add: s3_def sym_link_def Let_def)
    have o3: "local_stack s3 = Some a" "local_scope s3 = depth e" "length (idents s3) = length (idents st)"
      using i(7) by (simp_all add: s3_def sym_link_def Let_def s2_def fr)
    have m3: "mem_ok s3 F1 (insert a ?U)"
      by (simp only: s3_def sym_link_def Let_def if_True s2_def) (intro mem_ok_upd insertI1, simp only: mem_ok_frame, intro mem_ok_upd insertI1, simp only: mem_ok_frame F1)
    have hv: "link_head v st = chain_head ((sg, B) # gs) A v" by (rule i(10) [OF k])
    have eq: "cells s3 b = cells st b" if "b \<in> ?U" for b using that p(1,3) by (auto simp: c3)
    have sc: "sym_scope_ex b s3 = sym_scope_ex b st" if "link_head v st = Some b" for b
    proof -
      from chain_member [OF i(8), of v b] that hv
      have "b \<in> ?U \<and> (is_enum_val (sy_t (cells st b)) \<longrightarrow> the (sy_ref (cells st b)) \<in> ?U)"
        using i(9) k unfolding base_ok_def by auto
      then show ?thesis using eq by (simp add: sym_scope_ex_def is_enum_val_def)
    qed
    have dup: "(case link_head v st of None \<Rightarrow> False | Some b \<Rightarrow> sym_scope_ex b st = depth e) \<longleftrightarrow>
        map_option fst (lookup_in (layers e) (base_env e) v) = Some (depth e)"
      unfolding lookup_chain [OF i(8,9) k] hv [symmetric] by (cases "link_head v st") simp_all
    have push3: "sym_push v ty r c st = (if map_option fst (lookup_in (layers e) (base_env e) v) = Some (depth e) then Inl v else Inr (a, s3))"
    proof (cases "link_head v st")
      case None
      then show ?thesis using dup True by (simp add: push s3_def [symmetric] c3)
    next
      case (Some b)
      then show ?thesis using dup True sc [OF Some] o3 by (simp add: push s3_def [symmetric] c3)
    qed
    show ?thesis
    proof (cases "map_option fst (lookup_in (layers e) (base_env e) v) = Some (depth e)")
      case False
      have lay: "n = depth e" "map_of D v = map_option (\<lambda>a. payload (cells st a)) (B v)" using i(8) by (simp_all add: ls)
      have Bv: "B v = None"
      proof (rule ccontr)
        assume "B v \<noteq> None"
        then have "map_of D v \<noteq> None" using lay(2) by simp
        then show False using False lay(1) by (cases "map_of D v") (simp_all add: ls)
      qed
      have "layers_ok (cells s3) (length (idents st)) A (depth e) ((a # sg, B(v \<mapsto> a)) # gs) (declare_in v (fst ty, snd ty, r, c) (layers e))"
        unfolding c3 ls declare_in_def list.case prod.case
        by (rule layers_ok_push(2) [OF L an _ _ True])
          (use k hv Bv assms(3) in \<open>simp_all add: c0_def payload_def known_def\<close>)
      then have "scopes_inv (s3, saved) (e\<lparr>layers := declare_in v (fst ty, snd ty, r, c) (layers e)\<rparr>) ((a # sg, B(v \<mapsto> a)) # gs) A R pb"
        using p(1) i(7,10) m3 eq hd3 o3 by (intro inv_pushed [OF assms(1), of a s3 F1]) (auto simp: c3 c0_def)
      then have "\<exists>gs'. scopes_inv (s3, saved) (e\<lparr>layers := declare_in v (fst ty, snd ty, r, c) (layers e)\<rparr>) gs' A R pb" by blast
      then show ?thesis using False True o3 by (simp add: push3)
    qed (simp add: push3 True)
  qed
qed

text \<open>The end of a scope.\<close>

lemma deepest_Cons:
  "deepest C (a # sg) v = (case deepest C sg v of Some x \<Rightarrow> Some x | None \<Rightarrow> if sy_v (C a) = v then Some a else None)"
  by (auto simp: deepest_def find_app split: option.split)

lemma sym_pop_ok:
  assumes "linked (\<lambda>a. sy_prev (cells st a)) s sg b" "distinct sg" "\<And>a. a \<in> set sg \<Longrightarrow> b \<noteq> Some a"
    and "\<And>a. a \<in> set sg \<Longrightarrow> is_named (sy_v (cells st a)) \<Longrightarrow> known st (sy_v (cells st a))"
    and "mem_ok st F (set sg \<union> V)" "V \<inter> set sg = {}"
  shows "\<exists>st'. sym_pop s b keep st = Some st' \<and> length (idents st') = length (idents st) \<and>
    local_stack st' = local_stack st \<and> local_scope st' = local_scope st \<and>
    (\<forall>v. is_named v \<longrightarrow> link_head v st' = (case deepest (cells st) sg v of None \<Rightarrow> link_head v st | Some a \<Rightarrow> sy_tok (cells st a))) \<and>
    (if keep then cells st' = cells st \<and> mem_ok st' F (set sg \<union> V)
     else (\<exists>F. mem_ok st' F V) \<and> (\<forall>a\<in>V. cells st' a = cells st a))"
  using assms
proof (induction sg arbitrary: s st F V)
  case Nil
  then show ?case by (subst sym_pop.simps) (auto simp: deepest_def)
next
  case (Cons a sg)
  define s1 where "s1 = (if is_named (sy_v (cells st a)) then sym_link a False st else st)"
  define s2 where "s2 = (if keep then s1 else sym_free a s1)"
  have pop: "sym_pop s b keep st = sym_pop (sy_prev (cells st a)) b keep s2"
    using Cons.prems(1,3) by (subst sym_pop.simps) (auto simp: s1_def s2_def Let_def)
  have c1: "cells s1 = cells st" "length (idents s1) = length (idents st)" "local_stack s1 = local_stack st"
    "local_scope s1 = local_scope st" "mem_ok s1 F (set (a # sg) \<union> V)"
    using Cons.prems(5) by (simp_all add: s1_def sym_link_def Let_def)
  have h1: "link_head v s1 = (if sy_v (cells st a) = v then sy_tok (cells st a) else link_head v st)" if "is_named v" for v
    using link_head_set_head [of st "sy_v (cells st a)"] Cons.prems(4) [of a] that
    by (auto simp: s1_def sym_link_def Let_def)
  have c2: "cells s2 x = cells st x" if "x \<noteq> a \<or> keep" for x using that by (auto simp: s2_def sym_free_def c1)
  have o2: "length (idents s2) = length (idents st)" "local_stack s2 = local_stack st" "local_scope s2 = local_scope st"
    "link_head v s2 = link_head v s1" for v
    by (simp_all add: s2_def sym_free_def c1 link_head_def)
  obtain F2 where m2: "mem_ok s2 F2 (set sg \<union> (if keep then insert a V else V))" "keep \<longrightarrow> F2 = F"
  proof (cases keep)
    case True
    then show ?thesis using that [of F] c1(5) by (simp add: s2_def)
  next
    case False
    have "set (a # sg) \<union> V - {a} = set sg \<union> V" using Cons.prems(2,6) by auto
    then show ?thesis using that [of "a # F"] mem_ok_free [OF c1(5), of a] False by (simp add: s2_def)
  qed
  let ?V = "if keep then insert a V else V"
  have c2': "cells s2 x = cells st x" if "x \<in> set sg" for x using that Cons.prems(2) by (intro c2) auto
  have l2: "linked (\<lambda>a. sy_prev (cells s2 a)) (sy_prev (cells st a)) sg b"
    using Cons.prems(1) by (subst linked_cong [where g = "\<lambda>a. sy_prev (cells st a)"]) (simp_all add: c2')
  have k2: "known s2 (sy_v (cells s2 x))" if "x \<in> set sg" "is_named (sy_v (cells s2 x))" for x
    using that Cons.prems(4) [of x] c2' [of x] o2(1) by (simp add: known_def)
  have d2: "deepest (cells s2) sg v = deepest (cells st) sg v" for v
    by (rule deepest_cong) (rule c2')
  have t2: "(case deepest (cells s2) sg v of None \<Rightarrow> link_head v s2 | Some x \<Rightarrow> sy_tok (cells s2 x)) =
      (case deepest (cells st) (a # sg) v of None \<Rightarrow> link_head v st | Some x \<Rightarrow> sy_tok (cells st x))" if "is_named v" for v
  proof (cases "deepest (cells st) sg v")
    case None
    then show ?thesis using h1 [OF that] by (simp add: d2 o2 deepest_Cons)
  next
    case (Some x)
    then have "x \<noteq> a" using deepest_SomeD [OF Some] Cons.prems(2) by auto
    then show ?thesis using Some c2 by (simp add: d2 deepest_Cons)
  qed
  have v2: "?V \<inter> set sg = {}" using Cons.prems(2,6) by auto
  have b2: "b \<noteq> Some x" if "x \<in> set sg" for x using Cons.prems(3) that by simp
  have dis: "distinct sg" using Cons.prems(2) by simp
  obtain st' where st': "sym_pop (sy_prev (cells st a)) b keep s2 = Some st'"
    "length (idents st') = length (idents s2)" "local_stack st' = local_stack s2" "local_scope st' = local_scope s2"
    "\<And>v. is_named v \<Longrightarrow> link_head v st' = (case deepest (cells s2) sg v of None \<Rightarrow> link_head v s2 | Some x \<Rightarrow> sy_tok (cells s2 x))"
    "if keep then cells st' = cells s2 \<and> mem_ok st' F2 (set sg \<union> ?V) else (\<exists>F. mem_ok st' F ?V) \<and> (\<forall>a\<in>?V. cells st' a = cells s2 a)"
    using Cons.IH [OF l2 dis b2 k2 m2(1) v2] by blast
  have fin: "if keep then cells st' = cells st \<and> mem_ok st' F (set (a # sg) \<union> V)
     else (\<exists>F. mem_ok st' F V) \<and> (\<forall>a\<in>V. cells st' a = cells st a)"
  proof (cases keep)
    case True
    then show ?thesis using st'(6) m2(2) c2 by (auto simp: fun_eq_iff)
  next
    case False
    have "cells s2 x = cells st x" if "x \<in> V" for x using that Cons.prems(6) by (intro c2) auto
    then show ?thesis using st'(6) False by simp
  qed
  show ?case unfolding pop st'(1) option.inject using st'(2-5) fin t2 o2 by auto
qed

lemma deepest_append:
  "deepest C (sg @ sg') v = (case deepest C sg' v of Some x \<Rightarrow> Some x | None \<Rightarrow> deepest C sg v)"
  by (auto simp: deepest_def find_app split: option.split)

lemma visible_deepest: "visible_ok C H sg B n \<Longrightarrow> deepest C sg v = None \<Longrightarrow> B v = None"
proof (rule ccontr)
  assume a: "visible_ok C H sg B n" "deepest C sg v = None" "B v \<noteq> None"
  then obtain x where "B v = Some x" by auto
  then have "x \<in> set sg" "sy_v (C x) = v" using a(1) by (auto simp: visible_ok_def)
  then show False using deepest_NoneD [OF a(2)] by blast
qed

lemma layers_ok_merge:
  assumes "layers_ok C m A d ((sg, B) # (sg', B') # gs) ((n, D, K) # (n', D', K') # ls)"
  shows "layers_ok C m A (d - 1) ((sg @ sg', B') # gs) ((n', D', map fst D @ K @ K') # ls)"
proof -
  let ?H = "chain_head gs A"
  have i: "visible_ok C (chain_head ((sg', B') # gs) A) sg B n" "kept_ok C m sg B K"
    "deepest_ok C (chain_head ((sg', B') # gs) A) sg" "\<And>v. map_of D v = map_option (\<lambda>a. payload (C a)) (B v)"
    "n' = d - 1" "1 \<le> d - 1" "visible_ok C ?H sg' B' n'" "kept_ok C m sg' B' K'" "deepest_ok C ?H sg'"
    "\<And>v. map_of D' v = map_option (\<lambda>a. payload (C a)) (B' v)" "layers_ok C m A (d - 1 - 1) gs ls"
    using assms unfolding layers_ok.simps by blast+
  have "visible_ok C ?H (sg @ sg') B' n'" using i(7) by (auto simp: visible_ok_def)
  moreover have "v \<in> fst ` set D" if "B v = Some a" for v a
    using i(4) [of v] that by (auto simp: image_iff dest!: map_of_SomeD intro: rev_bexI)
  then have "kept_ok C m (sg @ sg') B' (map fst D @ K @ K')"
    using i(2,8) unfolding kept_ok_def by auto
  moreover have "deepest_ok C ?H (sg @ sg')"
    unfolding deepest_ok_def
  proof (intro allI impI)
    fix v a assume v: "is_named v" "deepest C (sg @ sg') v = Some a"
    show "sy_tok (C a) = ?H v"
    proof (cases "deepest C sg' v")
      case None
      then have "sy_tok (C a) = chain_head ((sg', B') # gs) A v" using v i(3) by (auto simp: deepest_append deepest_ok_def)
      then show ?thesis using visible_deepest [OF i(7) None] by simp
    next
      case (Some x)
      then show ?thesis using v i(9) by (simp add: deepest_append deepest_ok_def)
    qed
  qed
  ultimately show ?thesis using i(5,6,10,11) by simp
qed

lemma inv_prev_scope:
  assumes "scopes_inv (st, saved) e ((sg, B) # gs) A R pb" "is_expr \<Longrightarrow> gs \<noteq> []"
  shows "\<exists>st' saved' gs' e'. prev_scope is_expr (st, saved) = Some (st', saved') \<and> env_step (Prev_scope is_expr) e = Inr e' \<and>
    scopes_inv (st', saved') e' gs' A R pb \<and> length (idents st') = length (idents st)"
proof -
  note i = scopes_invD [OF assms(1)]
  let ?r = "stack_of gs"
  let ?b = "top_of ?r pb"
  have dis: "distinct sg" "distinct ?r" "set sg \<inter> set ?r = {}" using i(3) by simp_all
  obtain F where F: "mem_ok st F (set sg \<union> (R \<union> set ?r))" using i(1) by (auto simp: Un_left_commute)
  obtain n D K ls where ls: "layers e = (n, D, K) # ls" using i(8) by (cases "layers e") auto
  have k: "known st (sy_v (cells st a))" if "a \<in> set sg" "is_named (sy_v (cells st a))" for a
    using i(8) that by (auto simp: ls kept_ok_def known_def)
  obtain p where p: "linked (\<lambda>a. sy_prev (cells st a)) (local_stack st) sg p" "linked (\<lambda>a. sy_prev (cells st a)) p ?r (Some pb)"
    using i(5) by (auto simp: linked_append)
  have b: "p = ?b" by (rule linked_top [OF p(2)])
  obtain ss where ss: "saved = ?b # ss" "saved_ok pb gs ss" using i(6) by auto
  have nb: "?b \<noteq> Some a" if "a \<in> set sg" for a
    using top_of_Some [of ?r pb a] that i(2,4) dis(3) by auto
  have V: "(R \<union> set ?r) \<inter> set sg = {}" using i(2) dis(3) by auto
  obtain s1 where s1: "sym_pop (local_stack st) ?b is_expr st = Some s1" "length (idents s1) = length (idents st)"
    "local_stack s1 = local_stack st" "local_scope s1 = local_scope st"
    "\<And>v. is_named v \<Longrightarrow> link_head v s1 = (case deepest (cells st) sg v of None \<Rightarrow> link_head v st | Some a \<Rightarrow> sy_tok (cells st a))"
    "if is_expr then cells s1 = cells st \<and> mem_ok s1 F (set sg \<union> (R \<union> set ?r))
     else (\<exists>F. mem_ok s1 F (R \<union> set ?r)) \<and> (\<forall>a\<in>R \<union> set ?r. cells s1 a = cells st a)"
    using sym_pop_ok [OF p(1) [unfolded b] dis(1) nb k F V] by blast
  define s2 where "s2 = (if is_expr then s1 else s1\<lparr>local_stack := ?b\<rparr>)\<lparr>local_scope := local_scope s1 - 1\<rparr>"
  have pr: "prev_scope is_expr (st, saved) = Some (s2, ss)"
    by (simp only: prev_scope_def prod.case pop_local_def ss(1) list.sel s1(1) option.map s2_def) (cases is_expr, simp_all)
  have s2: "cells s2 = cells s1" "length (idents s2) = length (idents st)" "local_scope s2 = depth e - 1"
    "local_stack s2 = (if is_expr then local_stack st else ?b)" "\<And>F U. mem_ok s2 F U = mem_ok s1 F U"
    "\<And>v. link_head v s2 = link_head v s1" "\<And>v. known s2 v = known st v"
    using s1(2-4) i(7) by (simp_all add: s2_def link_head_def known_def)
  have vis: "visible_ok (cells st) (chain_head gs A) sg B n" "deepest_ok (cells st) (chain_head gs A) sg"
    using i(8) unfolding ls layers_ok.simps by blast+
  have hd: "link_head v s2 = chain_head gs A v" if "known st v" for v
  proof (cases "deepest (cells st) sg v")
    case None
    then show ?thesis using that s1(5) i(10) visible_deepest [OF vis(1) None] by (simp add: s2 known_def)
  next
    case (Some a)
    then show ?thesis using that s1(5) vis(2) by (simp add: s2 known_def deepest_ok_def del: chain_head.simps)
  qed
  have eR: "cells s2 a = cells st a" if "a \<in> R \<union> set ?r" for a using s1(6) that by (auto simp: s2 split: if_splits)
  have base: "base_ok s2 R A (base_env e)" by (rule base_ok_cong [OF i(9)]) (use eR s2(2) in auto)
  have lay: "layers_ok (cells s2) (length (idents st)) A (depth e - 1) gs ls"
    by (rule layers_ok_cong [of "cells st"]) (use i(8) eR in \<open>auto simp: ls\<close>)
  show ?thesis
  proof (cases is_expr)
    case True
    then obtain sg' B' gs' where g: "gs = (sg', B') # gs'" using assms(2) by (cases gs) auto
    then obtain n' D' K' ls' where ls': "ls = (n', D', K') # ls'" using i(8) by (cases ls) (auto simp: ls)
    let ?e = "e\<lparr>depth := depth e - 1, layers := (n', D', map fst D @ K @ K') # ls'\<rparr>"
    have "scopes_inv (s2, ss) ?e ((sg @ sg', B') # gs') A R pb"
    proof (rule scopes_invI [of _ F])
      show "layers_ok (cells s2) (length (idents s2)) A (depth ?e) ((sg @ sg', B') # gs') (layers ?e)"
        using layers_ok_merge [OF i(8) [unfolded ls g ls']] s1(6) True s2 by (simp del: layers_ok.simps)
      show "mem_ok s2 F (R \<union> set (stack_of ((sg @ sg', B') # gs')))" using s1(6) True by (simp add: s2 g ac_simps)
      show "saved_ok pb ((sg @ sg', B') # gs') ss" using ss(2) by (simp add: g)
      show "linked (\<lambda>a. sy_prev (cells s2 a)) (local_stack s2) (stack_of ((sg @ sg', B') # gs')) (Some pb)"
        using i(5) s1(6) True by (simp add: s2 g)
    qed (use i True s2 base hd in \<open>auto simp: g\<close>)
    then show ?thesis using pr s2(2) True by (auto simp: ls ls')
  next
    case False
    obtain F' where F': "mem_ok s1 F' (R \<union> set ?r)" using s1(6) False by auto
    have "scopes_inv (s2, ss) (e\<lparr>depth := depth e - 1, layers := ls\<rparr>) gs A R pb"
    proof (rule scopes_invI [of _ F'])
      show "linked (\<lambda>a. sy_prev (cells s2 a)) (local_stack s2) ?r (Some pb)"
        using p(2) eR False by (subst linked_cong [where g = "\<lambda>a. sy_prev (cells st a)"]) (auto simp: s2(4) b)
    qed (use i False s2 base hd lay F' ss dis in auto)
    moreover have "env_step (Prev_scope is_expr) e = Inr (e\<lparr>depth := depth e - 1, layers := ls\<rparr>)"
      using False by (cases ls) (auto simp: ls)
    ultimately show ?thesis using pr s2(2) by blast
  qed
qed

text \<open>A global declaration in a block: the visible symbols of the name, and what changes in the last one.\<close>

fun visible_syms :: "ghost list \<Rightarrow> u32 \<Rightarrow> nat list" where
  "visible_syms [] v = []"
| "visible_syms ((sg, B) # gs) v = (case B v of None \<Rightarrow> visible_syms gs v | Some a \<Rightarrow> a # visible_syms gs v)"

definition link_last :: "nat list \<Rightarrow> nat \<Rightarrow> (nat \<Rightarrow> scell) \<Rightarrow> nat \<Rightarrow> scell" where
  "link_last bs a C = (if bs = [] then C else C(last bs := (C (last bs))\<lparr>sy_tok := Some a\<rparr>))"

lemma global_place_ok:
  assumes "layers_ok (cells st) m A d gs ls" "\<And>a. A v = Some a \<Longrightarrow> sy_scope (cells st a) = 0"
  shows "global_place at (chain_head gs A v) st =
    Some (if visible_syms gs v = [] then at else Some (last (visible_syms gs v)), A v)"
  using assms
proof (induction "cells st" m A d gs ls arbitrary: at rule: layers_ok.induct)
  case (1 m A d)
  then show ?case by (subst global_place.simps) (auto split: option.split)
next
  case (2 m A d sg B gs n D K ls)
  show ?case
  proof (cases "B v")
    case None
    then show ?thesis using 2 by simp
  next
    case (Some a)
    then have "sy_scope (cells st a) \<noteq> 0" "sy_tok (cells st a) = chain_head gs A v"
      using 2(2) by (auto simp: visible_ok_def)
    then show ?thesis using 2 Some by (subst global_place.simps) simp
  qed
qed auto

lemma visible_syms_in: "layers_ok C m A d gs ls \<Longrightarrow> set (visible_syms gs v) \<subseteq> set (stack_of gs)"
  by (induction C m A d gs ls rule: layers_ok.induct) (auto simp: visible_ok_def split: option.split)

lemma chain_head_global:
  "chain_head gs (A(v \<mapsto> a)) w = (if w = v \<and> visible_syms gs v = [] then Some a else chain_head gs A w)"
  by (induction gs v rule: visible_syms.induct) (auto split: option.split)

lemma link_last_other: "b \<noteq> last bs \<Longrightarrow> link_last bs a C b = C b"
  by (simp add: link_last_def)

lemma link_last_fields:
  "sy_v (link_last bs a C b) = sy_v (C b)" "sy_scope (link_last bs a C b) = sy_scope (C b)" "sy_t (link_last bs a C b) = sy_t (C b)"
  "sy_prev (link_last bs a C b) = sy_prev (C b)" "sy_next (link_last bs a C b) = sy_next (C b)" "sy_ref (link_last bs a C b) = sy_ref (C b)"
  "payload (link_last bs a C b) = payload (C b)"
  by (simp_all add: link_last_def payload_def)

lemma kept_ok_link_last: "kept_ok (link_last bs a C) m sg B K = kept_ok C m sg B K"
  by (simp add: kept_ok_def link_last_fields)

lemma deepest_link_last: "deepest (link_last bs a C) sg v = deepest C sg v"
  by (simp add: deepest_def link_last_fields)

lemma layers_ok_global:
  assumes "layers_ok C m A d gs ls" "distinct (stack_of gs)" "is_named v" "list_all (\<lambda>(n, D, K). v \<notin> set K) ls"
  shows "layers_ok (link_last (visible_syms gs v) a C) m (A(v \<mapsto> a)) d gs ls"
  using assms
proof (induction C m A d gs ls rule: layers_ok.induct)
  case (2 C m A d sg B gs n D K ls)
  let ?C = "link_last (visible_syms ((sg, B) # gs) v) a C"
  let ?H = "chain_head gs A" and ?H' = "chain_head gs (A(v \<mapsto> a))"
  have i: "n = d" "1 \<le> d" "visible_ok C ?H sg B n" "kept_ok C m sg B K" "deepest_ok C ?H sg"
    "\<And>v. map_of D v = map_option (\<lambda>a. payload (C a)) (B v)" "layers_ok C m A (d - 1) gs ls"
    using 2(2) unfolding layers_ok.simps by blast+
  have dis: "distinct (stack_of gs)" "set sg \<inter> set (stack_of gs) = {}" using 2(3) by auto
  have only: "B v = Some b" if "b \<in> set sg" "sy_v (C b) = v" for b
    using i(4) that 2(4,5) by (auto simp: kept_ok_def)
  have ih: "layers_ok (link_last (visible_syms gs v) a C) m (A(v \<mapsto> a)) (d - 1) gs ls"
    by (rule 2(1) [OF i(7) dis(1) 2(4)]) (use 2(5) in simp)
  have lastin: "last (visible_syms gs v) \<notin> set sg" if "visible_syms gs v \<noteq> []"
    using visible_syms_in [OF i(7), of v] dis(2) last_in_set [OF that] by blast
  have V: "visible_ok ?C ?H' sg B n" and T: "deepest_ok ?C ?H' sg" and L: "layers_ok ?C m (A(v \<mapsto> a)) (d - 1) gs ls"
  proof -
    consider (none) "B v = None" | (here) b where "B v = Some b" "visible_syms gs v = []"
      | (below) b where "B v = Some b" "visible_syms gs v \<noteq> []" by blast
    then have "visible_ok ?C ?H' sg B n \<and> deepest_ok ?C ?H' sg \<and> layers_ok ?C m (A(v \<mapsto> a)) (d - 1) gs ls"
    proof cases
      case none
      have same: "C b = ?C b" if "b \<in> set sg" for b
        using none lastin that by (auto simp: link_last_def)
      have H: "?H' w = ?H w" if "w \<noteq> v" for w using that by (simp add: chain_head_global)
      have "visible_ok C ?H' sg B n" using i(3) none H by (auto simp: visible_ok_def) (metis H none option.distinct(1))+
      moreover have "deepest_ok C ?H' sg"
        unfolding deepest_ok_def
      proof (intro allI impI)
        fix w x assume w: "is_named w" "deepest C sg w = Some x"
        then have "w \<noteq> v" using only deepest_SomeD [OF w(2)] none by auto
        then show "sy_tok (C x) = ?H' w" using i(5) w H by (simp add: deepest_ok_def)
      qed
      ultimately show ?thesis using same ih none visible_ok_cong [of C] deepest_ok_cong [of C] by simp
    next
      case here
      have C: "?C = C(b := (C b)\<lparr>sy_tok := Some a\<rparr>)" using here by (simp add: link_last_def)
      have b: "b \<in> set sg" "sy_v (C b) = v" using i(3) here by (auto simp: visible_ok_def)
      have H: "?H' w = (if w = v then Some a else ?H w)" for w using here by (simp add: chain_head_global)
      have "visible_ok ?C ?H' sg B n"
        unfolding visible_ok_def
      proof (intro allI impI)
        fix w x assume w: "B w = Some x"
        then have x: "x \<in> set sg" "sy_v (C x) = w" "is_named w" "sy_tok (C x) = ?H w" "sy_scope (C x) = n" "\<not> is_enum_val (sy_t (C x))"
          using i(3) by (auto simp: visible_ok_def)
        have "sy_tok (?C x) = ?H' w"
        proof (cases "w = v")
          case True
          then show ?thesis unfolding C H using w here by simp
        next
          case False
          then have "x \<noteq> b" using x b by auto
          then show ?thesis unfolding C H using False x by simp
        qed
        then show "x \<in> set sg \<and> sy_v (?C x) = w \<and> is_named w \<and> sy_tok (?C x) = ?H' w \<and> sy_scope (?C x) = n \<and> \<not> is_enum_val (sy_t (?C x))"
          using x unfolding link_last_fields by blast
      qed
      moreover have "deepest_ok ?C ?H' sg"
        unfolding deepest_ok_def deepest_link_last
      proof (intro allI impI)
        fix w x assume w: "is_named w" "deepest C sg w = Some x"
        note x = deepest_SomeD [OF w(2)]
        show "sy_tok (?C x) = ?H' w"
        proof (cases "w = v")
          case True
          then have "x = b" using only [of x] x here by simp
          then show ?thesis unfolding C H using True by simp
        next
          case False
          then have "x \<noteq> b" using x b by auto
          then show ?thesis unfolding C H using False i(5) w by (simp add: deepest_ok_def)
        qed
      qed
      moreover have "layers_ok ?C m (A(v \<mapsto> a)) (d - 1) gs ls"
        by (rule layers_ok_cong [OF ih]) (use here b dis(2) in \<open>auto simp: link_last_def\<close>)
      ultimately show ?thesis by blast
    next
      case below
      have same: "C b = ?C b" if "b \<in> set sg" for b
        using below lastin that by (auto simp: link_last_def)
      have H: "?H' = ?H" using below by (auto simp: chain_head_global)
      have c: "?C = link_last (visible_syms gs v) a C" using below by (simp add: link_last_def)
      show ?thesis using visible_ok_cong [OF i(3) same] deepest_ok_cong [OF i(5) same] ih unfolding H c by blast
    qed
    then show "visible_ok ?C ?H' sg B n" "deepest_ok ?C ?H' sg" "layers_ok ?C m (A(v \<mapsto> a)) (d - 1) gs ls" by blast+
  qed
  show ?case
    unfolding layers_ok.simps kept_ok_link_last link_last_fields using i(1,2,4,6) V T L by blast
qed auto

lemma plain_name:
  assumes "(v :: u32) < 0x10000000"
  shows "untag v = v" "is_named v" "\<not> is_tag v"
proof -
  have "unat v < 2 ^ 30" using assms by (simp add: word_less_nat_alt)
  then have "\<not> bit (unat v) 30" by (simp add: bit_iff_odd)
  then have nb: "\<not> bit v 30" by (simp add: bit_unsigned_iff)
  show u: "untag v = v"
    by (rule bit_word_eqI, unfold untag_def bit_and_iff bit_not_iff bit_tag) (use nb in auto)
  show "is_named v" using assms by (simp add: is_named_def u)
  have "v AND 0x40000000 = 0"
    by (rule bit_word_eqI, unfold bit_and_iff bit_tag) (use nb in auto)
  then show "\<not> is_tag v" by (simp add: is_tag_def)
qed

lemma inv_declare_global:
  assumes "scopes_inv (st, saved) e gs A R pb" "\<not> is_enum_val t"
    and "v < 0x10000000 \<Longrightarrow> known st v \<and> list_all (\<lambda>(n, D, K). v \<notin> set K) (layers e)"
    and "\<And>n d. v < 0x10000000 \<Longrightarrow> base_env e v = Some (n, d) \<Longrightarrow> n = 0 \<and> \<not> is_enum_val (fst d)"
  shows "\<exists>a st' A' e'. global_identifier_push v t c st = Some (a, st') \<and> env_step (Declare_global v t c) e = Inr e' \<and>
    scopes_inv (st', saved) e' gs A' (insert a R) pb \<and> length (idents st') = length (idents st)"
proof -
  note i = scopes_invD [OF assms(1)]
  obtain F where F: "mem_ok st F (R \<union> set (stack_of gs))" using i(1) by blast
  obtain a s1 where s1: "sym_push2 (global_stack st) v t c st = (a, s1)"
    by (cases "sym_push2 (global_stack st) v t c st") blast
  note p = sym_push2_ok [OF F s1]
  obtain F1 where F1: "mem_ok s1 F1 (insert a (R \<union> set (stack_of gs)))" using p(2) by blast
  define s2 where "s2 = upd_cell a (\<lambda>s. s\<lparr>sy_r := 0x30 OR 0x0200\<rparr>) (s1\<lparr>global_stack := Some a\<rparr>)"
  have c2: "cells s2 b = cells st b" if "b \<in> R \<union> set (stack_of gs)" for b using p(1,3) that by (auto simp: s2_def)
  have a2: "sy_v (cells s2 a) = v" "sy_scope (cells s2 a) = 0" "sy_t (cells s2 a) = t" "payload (cells s2 a) = (t, None, 0x30 OR 0x0200, c)"
    by (simp_all add: s2_def p(5) null_cell_def payload_def)
  have o2: "local_stack s2 = local_stack st" "local_scope s2 = local_scope st" "idents s2 = idents st"
    using p(4) by (simp_all add: s2_def same_frame_def)
  have m2: "mem_ok s2 F1 (insert a (R \<union> set (stack_of gs)))" unfolding s2_def by (rule mem_ok_upd) (use F1 in simp_all)
  have lh: "link_head w s2 = link_head w st" "known s2 w = known st w" for w by (simp_all add: link_head_def known_def o2)
  have push: "global_identifier_push v t c st =
      (if v < 0x10000000 then
         map_option (\<lambda>(at, p).
           let st = upd_cell a (\<lambda>s. s\<lparr>sy_tok := p\<rparr>) s2
           in (a, case at of None \<Rightarrow> set_head v (Some a) st
                  | Some b \<Rightarrow> upd_cell b (\<lambda>s. s\<lparr>sy_tok := Some a\<rparr>) st))
         (global_place None (link_head v s2) s2)
       else Some (a, s2))"
    by (simp add: global_identifier_push_def s1 s2_def Let_def)
  have lay2: "layers_ok (cells s2) (length (idents st)) A (depth e) gs (layers e)"
    by (rule layers_ok_cong [OF i(8)]) (simp add: c2)
  have lk2: "linked (\<lambda>a. sy_prev (cells s2 a)) (local_stack st) (stack_of gs) (Some pb)"
    using i(5) by (subst linked_cong [where g = "\<lambda>a. sy_prev (cells st a)"]) (simp_all add: c2)
  have dis: "insert a R \<inter> set (stack_of gs) = {}" using i(2) p(1) by auto
  have base2: "base_ok s2 R A (base_env e)" by (rule base_ok_cong [OF i(9)]) (simp_all add: c2 o2)
  show ?thesis
  proof (cases "v < 0x10000000")
    case False
    have "base_ok s2 (insert a R) A (base_env e)" using base2 by (auto simp: base_ok_def)
    then have "scopes_inv (s2, saved) e gs A (insert a R) pb"
      using i m2 o2 lh lk2 lay2 dis by (intro scopes_invI [of _ F1]) auto
    then show ?thesis using False o2 by (auto simp: push)
  next
    case True
    note v = plain_name [OF True]
    have k: "known st v" and nk: "list_all (\<lambda>(n, D, K). v \<notin> set K) (layers e)" using assms(3) [OF True] by blast+
    have raw: "sy_scope (cells s2 b) = 0" if "A v = Some b" for b
    proof -
      have E: "base_env e v = Some (sym_scope_ex b s2, payload (cells s2 b))" using base2 k that by (simp add: base_ok_def lh)
      show ?thesis using assms(4) [OF True E] by (auto simp: sym_scope_ex_def is_enum_val_def payload_def)
    qed
    have hd: "link_head v s2 = chain_head gs A v" using i(10) [OF k] lh by simp
    define vs where "vs = visible_syms gs v"
    have pl: "global_place None (link_head v s2) s2 = Some (if vs = [] then None else Some (last vs), A v)"
      unfolding hd vs_def by (rule global_place_ok [OF lay2 raw])
    define s3 where "s3 = upd_cell a (\<lambda>s. s\<lparr>sy_tok := A v\<rparr>) s2"
    define s4 where "s4 = (if vs = [] then set_head v (Some a) s3 else upd_cell (last vs) (\<lambda>s. s\<lparr>sy_tok := Some a\<rparr>) s3)"
    have push4: "global_identifier_push v t c st = Some (a, s4)"
      by (simp add: push True pl s4_def s3_def)
    have vin: "last vs \<in> set (stack_of gs)" if "vs \<noteq> []"
      using visible_syms_in [OF lay2, of v] that by (auto simp: vs_def dest: last_in_set)
    have c4: "cells s4 b = link_last vs a (cells s2) b" if "b \<noteq> a" for b
      using that by (simp add: s4_def s3_def link_last_def)
    have cR: "cells s4 b = cells s2 b" if "b \<in> R" for b
    proof -
      have "b \<noteq> a" using that p(1) by auto
      moreover have "vs \<noteq> [] \<Longrightarrow> b \<noteq> last vs" using vin that i(2) by auto
      ultimately show ?thesis by (simp add: c4 link_last_def)
    qed
    have a4: "sy_scope (cells s4 a) = 0" "sy_t (cells s4 a) = t" "payload (cells s4 a) = (t, None, 0x30 OR 0x0200, c)"
    proof -
      have "vs \<noteq> [] \<Longrightarrow> a \<noteq> last vs" using vin p(1) by auto
      then show "sy_scope (cells s4 a) = 0" "sy_t (cells s4 a) = t" "payload (cells s4 a) = (t, None, 0x30 OR 0x0200, c)"
        using a2 by (auto simp: s4_def s3_def payload_def)
    qed
    have o4: "local_stack s4 = local_stack st" "local_scope s4 = local_scope st" "length (idents s4) = length (idents st)"
      using o2 by (simp_all add: s4_def s3_def)
    have m4: "mem_ok s4 F1 (insert a (R \<union> set (stack_of gs)))"
      using m2 vin unfolding s4_def s3_def by (auto intro!: mem_ok_upd)
    have na: "b \<noteq> a" if "b \<in> set (stack_of gs)" for b using that p(1) by auto
    have lay4: "layers_ok (cells s4) (length (idents s4)) (A(v \<mapsto> a)) (depth e) gs (layers e)"
      unfolding o4 by (rule layers_ok_cong [OF layers_ok_global [OF lay2 i(3) v(2) nk]]) (simp add: c4 na vs_def)
    have lk4: "linked (\<lambda>a. sy_prev (cells s4 a)) (local_stack s4) (stack_of gs) (Some pb)"
      using lk2 by (subst linked_cong [where g = "\<lambda>a. sy_prev (cells s2 a)"]) (simp_all add: c4 na link_last_fields o4)
    have k3: "known s3 v" using k by (simp add: s3_def lh)
    have hd4: "link_head w s4 = chain_head gs (A(v \<mapsto> a)) w" if "known st w" for w
    proof (cases "vs = []")
      case True
      then show ?thesis using link_head_set_head [OF k3, of w "Some a"] i(10) [OF that]
        by (simp add: s4_def chain_head_global s3_def lh vs_def)
    next
      case False
      then show ?thesis using i(10) [OF that] by (simp add: s4_def chain_head_global s3_def lh vs_def)
    qed
    have k4: "known s4 w = known st w" for w by (simp add: known_def o4)
    have base4: "base_ok s4 (insert a R) (A(v \<mapsto> a)) ((base_env e)(v \<mapsto> (0, t, None, 0x30 OR 0x0200, c)))"
    proof -
      have "base_ok s4 R A (base_env e)" by (rule base_ok_cong [OF base2]) (simp_all add: cR o4 o2)
      moreover have "sym_scope_ex a s4 = 0" using a4 assms(2) by (simp add: sym_scope_ex_def is_enum_val_def)
      ultimately show ?thesis using a4 assms(2) by (auto simp: base_ok_def)
    qed
    have "scopes_inv (s4, saved) (e\<lparr>base_env := (base_env e)(v \<mapsto> (0, t, None, 0x30 OR 0x0200, c))\<rparr>) gs (A(v \<mapsto> a)) (insert a R) pb"
      by (rule scopes_invI [of _ F1]) (use i m4 o4 lay4 lk4 dis base4 hd4 k4 in auto)
    then show ?thesis using True o4 push4 by auto
  qed
qed

section \<open>Function bodies\<close>

text \<open>
  The steps a function body makes: scopes are closed when one is open (a statement expression is within
  another scope), names belong to identifiers of the program, and enumeration constants, whose scope
  shares its storage with their value, are left out. A name is made global when it is not visible at all or
  its innermost declaration outside the function is global, and when it was not declared in a statement expression
  of an open scope: kept_symbol_hides_global shows why.
\<close>

definition op_ok :: "nat \<Rightarrow> scope_op \<Rightarrow> scope_env \<Rightarrow> bool" where
  "op_ok n x e \<longleftrightarrow>
     (case x of
        New_scope \<Rightarrow> True
      | Prev_scope is_expr \<Rightarrow> (if is_expr then 1 else 0) < length (layers e)
      | Declare v ty r c \<Rightarrow> layers e \<noteq> [] \<and> \<not> is_enum_val (fst ty) \<and> (is_named v \<longrightarrow> tok_index (untag v) < n)
      | Declare_global v t c \<Rightarrow>
          \<not> is_enum_val t \<and>
          (v < 0x10000000 \<longrightarrow>
             tok_index v < n \<and> list_all (\<lambda>(n, D, K). v \<notin> set K) (layers e) \<and>
             (case base_env e v of None \<Rightarrow> True | Some (n, d) \<Rightarrow> n = 0 \<and> \<not> is_enum_val (fst d))))"

primrec ops_ok :: "nat \<Rightarrow> scope_op list \<Rightarrow> scope_env \<Rightarrow> bool" where
  "ops_ok n [] e \<longleftrightarrow> True"
| "ops_ok n (x # xs) e \<longleftrightarrow> op_ok n x e \<and> (case env_step x e of Inl v \<Rightarrow> True | Inr e' \<Rightarrow> ops_ok n xs e')"

text \<open>The start of a body: R holds the symbols in use, F is the free list.\<close>

definition body_start :: "sym_store \<Rightarrow> nat list \<Rightarrow> nat set \<Rightarrow> bool" where
  "body_start st F R \<longleftrightarrow>
     mem_ok st F R \<and> 0 \<le> local_scope st \<and>
     (case local_stack st of None \<Rightarrow> False | Some pb \<Rightarrow> pb \<in> R) \<and>
     (\<forall>v a. known st v \<longrightarrow> link_head v st = Some a \<longrightarrow>
        a \<in> R \<and> (is_enum_val (sy_t (cells st a)) \<longrightarrow> the (sy_ref (cells st a)) \<in> R))"

definition start_env :: "sym_store \<Rightarrow> scope_env" where
  "start_env st =
     \<lparr>layers = [], base_env = (\<lambda>v. map_option (\<lambda>a. (sym_scope_ex a st, payload (cells st a))) (link_head v st)),
      depth = local_scope st\<rparr>"

text \<open>The symbol a name finds, with sym_find or struct_find.\<close>

definition find_name :: "u32 \<Rightarrow> sym_store \<Rightarrow> nat option" where
  "find_name v st = (if is_tag v then struct_find (untag v) st else sym_find v st)"

lemma find_name_head: "known st v \<Longrightarrow> find_name v st = link_head v st"
proof -
  assume k: "known st v"
  have "untag v = v" if "\<not> is_tag v"
  proof (rule bit_word_eqI)
    fix n
    have "\<not> bit (v AND 0x40000000) 30" using that by (simp add: is_tag_def)
    then have "\<not> bit v 30" by (simp only: bit_and_iff bit_tag) simp
    then show "bit (untag v) n = bit v n" if "n < LENGTH(32)"
      using that unfolding untag_def bit_and_iff bit_not_iff bit_tag by auto
  qed
  then show ?thesis
    using k by (auto simp: find_name_def link_head_def struct_find_def sym_find_def known_def Let_def)
qed

lemma start_inv:
  assumes "body_start st F R"
  shows "\<exists>A pb. scopes_inv (st, []) (start_env st) [] A R pb"
proof -
  obtain pb where pb: "local_stack st = Some pb" "pb \<in> R" using assms by (auto simp: body_start_def split: option.splits)
  have "base_ok st R (\<lambda>v. link_head v st) (base_env (start_env st))"
    using assms by (auto simp: base_ok_def body_start_def start_env_def)
  then have "scopes_inv (st, []) (start_env st) [] (\<lambda>v. link_head v st) R pb"
    using assms pb by (intro scopes_invI [of _ F]) (auto simp: body_start_def start_env_def)
  then show ?thesis by blast
qed

lemma step_inv:
  assumes "scopes_inv (st, saved) e gs A R pb" "op_ok (length (idents st)) x e"
  shows "case env_step x e of
      Inl v \<Rightarrow> scope_step x (st, saved) = Some (Inl v)
    | Inr e' \<Rightarrow> \<exists>st' saved' gs' A' R'. scope_step x (st, saved) = Some (Inr (st', saved')) \<and>
        scopes_inv (st', saved') e' gs' A' R' pb \<and> length (idents st') = length (idents st)"
proof (cases x)
  case New_scope
  then show ?thesis using inv_new_scope [OF assms(1)] by (fastforce simp: new_scope_def)
next
  case (Prev_scope is_expr)
  have l: "layers_ok (cells st) (length (idents st)) A (depth e) gs (layers e)" by (rule scopes_invD(8) [OF assms(1)])
  have "(if is_expr then 1 else 0) < length gs"
    using assms(2) l layers_length [OF l] by (simp add: Prev_scope op_ok_def)
  then obtain sg B gs' where g: "gs = (sg, B) # gs'" "is_expr \<longrightarrow> gs' \<noteq> []" by (cases gs) (auto split: if_splits)
  then obtain st' saved' gs2 e' where "prev_scope is_expr (st, saved) = Some (st', saved')"
    "env_step (Prev_scope is_expr) e = Inr e'" "scopes_inv (st', saved') e' gs2 A R pb" "length (idents st') = length (idents st)"
    using inv_prev_scope [OF assms(1) [unfolded g(1)]] by blast
  then show ?thesis unfolding Prev_scope by (simp del: env_step.simps) blast
next
  case (Declare v ty r c)
  have l: "layers_ok (cells st) (length (idents st)) A (depth e) gs (layers e)" by (rule scopes_invD(8) [OF assms(1)])
  have "layers e \<noteq> []" using assms(2) by (simp add: Declare op_ok_def)
  then obtain sg B gs' where g: "gs = (sg, B) # gs'" using layers_length [OF l] by (cases gs) auto
  have k: "is_named v \<Longrightarrow> known st v" "\<not> is_enum_val (fst ty)" using assms(2) by (simp_all add: Declare op_ok_def known_def)
  note d = inv_declare [OF assms(1) [unfolded g] k, of r c]
  show ?thesis
  proof (cases "env_step (Declare v ty r c) e")
    case (Inl u)
    then show ?thesis using d unfolding Declare by (simp del: env_step.simps)
  next
    case (Inr e')
    then obtain a st' gs2 where "sym_push v ty r c st = Inr (a, st')" "scopes_inv (st', saved) e' gs2 A R pb"
      "length (idents st') = length (idents st)" using d by auto
    then show ?thesis using Inr unfolding Declare by (simp del: env_step.simps) blast
  qed
next
  case (Declare_global v t c)
  have ok: "\<not> is_enum_val t" "v < 0x10000000 \<Longrightarrow> known st v \<and> list_all (\<lambda>(n, D, K). v \<notin> set K) (layers e)"
    "\<And>n d. v < 0x10000000 \<Longrightarrow> base_env e v = Some (n, d) \<Longrightarrow> n = 0 \<and> \<not> is_enum_val (fst d)"
    using assms(2) plain_name [of v] by (auto simp: Declare_global op_ok_def known_def)
  obtain a st' A' e' where "global_identifier_push v t c st = Some (a, st')" "env_step (Declare_global v t c) e = Inr e'"
    "scopes_inv (st', saved) e' gs A' (insert a R) pb" "length (idents st') = length (idents st)"
    using inv_declare_global [OF assms(1) ok] by blast
  then show ?thesis unfolding Declare_global by (simp del: env_step.simps) blast
qed

lemma run_inv:
  assumes "scopes_inv (st, saved) e gs A R pb" "ops_ok (length (idents st)) ops e"
  shows "case run_env ops e of
      Inl v \<Rightarrow> run_scopes ops (st, saved) = Some (Inl v)
    | Inr e' \<Rightarrow> \<exists>st' saved' gs' A' R'. run_scopes ops (st, saved) = Some (Inr (st', saved')) \<and>
        scopes_inv (st', saved') e' gs' A' R' pb \<and> length (idents st') = length (idents st)"
  using assms
proof (induction ops arbitrary: st saved e gs A R)
  case (Cons x xs)
  have ok: "op_ok (length (idents st)) x e" using Cons.prems(2) by simp
  note d = step_inv [OF Cons.prems(1) ok]
  show ?case
  proof (cases "env_step x e")
    case (Inl v)
    then show ?thesis using d by simp
  next
    case (Inr e')
    then obtain st' saved' gs' A' R' where s: "scope_step x (st, saved) = Some (Inr (st', saved'))"
      "scopes_inv (st', saved') e' gs' A' R' pb" "length (idents st') = length (idents st)" using d by auto
    have "ops_ok (length (idents st')) xs e'" using Cons.prems(2) Inr s(3) by simp
    note ih = Cons.IH [OF s(2) this]
    have eq: "run_env (x # xs) e = run_env xs e'" "run_scopes (x # xs) (st, saved) = run_scopes xs (st', saved')"
      using Inr s(1) by simp_all
    show ?thesis unfolding eq using ih unfolding s(3) by simp
  qed
qed auto

text \<open>The first k addresses of the free list.\<close>

primrec free_cells :: "nat \<Rightarrow> nat option \<Rightarrow> sym_store \<Rightarrow> nat list" where
  "free_cells 0 p st = []"
| "free_cells (Suc k) p st = (case p of None \<Rightarrow> [] | Some a \<Rightarrow> a # free_cells k (sy_next (cells st a)) st)"

lemma free_cells_linked: "linked (\<lambda>a. sy_next (cells st a)) p F None \<Longrightarrow> set (free_cells k p st) \<subseteq> set F"
proof (induction k arbitrary: p F)
  case (Suc k)
  show ?case
  proof (cases F)
    case (Cons a F')
    then show ?thesis using Suc.prems Suc.IH [of "sy_next (cells st a)" F'] by auto
  qed (use Suc.prems in simp)
qed simp

section \<open>Properties\<close>

text \<open>
  C2: scopes work. Running the steps of a function body on the stacks and chains of the compiler ends, and
  is the same as running them on nested environments: it stops with a redeclaration exactly when the
  innermost declaration of the name is in the scope that is open, and otherwise every name finds the declaration
  that its nested environments give, with its type, storage and value.
\<close>

theorem scopes_refine_environments:
  assumes "body_start st F R" "ops_ok (length (idents st)) ops (start_env st)"
  shows "case run_env ops (start_env st) of
      Inl v \<Rightarrow> run_scopes ops (st, []) = Some (Inl v)
    | Inr e \<Rightarrow> \<exists>st' saved. run_scopes ops (st, []) = Some (Inr (st', saved)) \<and>
        (\<forall>v. known st v \<longrightarrow> map_option (\<lambda>a. payload (cells st' a)) (find_name v st') = env_lookup e v)"
proof -
  obtain A pb where i: "scopes_inv (st, []) (start_env st) [] A R pb" using start_inv [OF assms(1)] by blast
  note r = run_inv [OF i assms(2)]
  show ?thesis
  proof (cases "run_env ops (start_env st)")
    case (Inl v)
    then show ?thesis using r by simp
  next
    case (Inr e)
    then obtain st' saved gs A' R' where s: "run_scopes ops (st, []) = Some (Inr (st', saved))"
      "scopes_inv (st', saved) e gs A' R' pb" "length (idents st') = length (idents st)" using r by auto
    note j = scopes_invD [OF s(2)]
    have "map_option (\<lambda>a. payload (cells st' a)) (find_name v st') = env_lookup e v" if "known st v" for v
    proof -
      have k: "known st' v" using that s(3) by (simp add: known_def)
      show ?thesis
        unfolding find_name_head [OF k] j(10) [OF k] env_lookup_def lookup_chain [OF j(8,9) k]
        by (simp add: option.map_comp o_def)
    qed
    then show ?thesis using Inr s(1) by auto
  qed
qed

text \<open>A body with one global x (name 256) of type int, and the symbol gen_function pushes.\<close>

definition example_start :: sym_store where
  "example_start =
     \<lparr>cells = (\<lambda>a. if a = 0 then null_cell\<lparr>sy_v := 256, sy_t := 3, sy_r := 0x230\<rparr>
        else if a = 1 then null_cell\<lparr>sy_v := 0x20000000\<rparr>
        else null_cell\<lparr>sy_next := if a < 6 then Some (a + 1) else None\<rparr>),
      pool_end = 7, free_first = Some 2, global_stack = Some 0, local_stack = Some 1, local_scope = 0,
      idents = [\<lparr>id_sym = Some 0, id_struct = None, id_label = None\<rparr>, \<lparr>id_sym = None, id_struct = None, id_label = None\<rparr>]\<rparr>"

text \<open>\<^verbatim>\<open>{ char x; { short x; f(); } struct x ...; }\<close>, before the last brace; f (name 257) becomes global.\<close>

definition example_ops :: "scope_op list" where
  "example_ops =
     [New_scope, Declare 256 (1, None) 0x132 (- 8), New_scope, Declare 256 (2, None) 0x132 (- 16),
      Declare_global 257 6 0, Prev_scope False, Declare (256 OR 0x40000000) (7, None) 0 (- 1)]"

lemma example_body_start: "body_start example_start [2, 3, 4, 5, 6] {0, 1}"
proof -
  have "link_head v example_start = Some 0 \<or> link_head v example_start = None" if "known example_start v" for v
    using that by (auto simp: link_head_def example_start_def known_def Let_def nth_Cons')
  moreover have "mem_ok example_start [2, 3, 4, 5, 6] {0, 1}" "local_stack example_start = Some 1" "local_scope example_start = 0"
    "\<not> is_enum_val (sy_t (cells example_start 0))"
    by (simp_all add: mem_ok_def example_start_def is_enum_val_def)
  ultimately show ?thesis by (fastforce simp: body_start_def)
qed

theorem scopes_refine_environments_witness:
  "\<exists>st' saved. run_scopes example_ops (example_start, []) = Some (Inr (st', saved))
    \<and> map_option (\<lambda>a. payload (cells st' a)) (find_name 256 st') = Some (1, None, 0x132, - 8)
    \<and> map_option (\<lambda>a. payload (cells st' a)) (find_name 257 st') = Some (6, None, 0x230, 0)
    \<and> map_option (\<lambda>a. payload (cells st' a)) (find_name (256 OR 0x40000000) st') = Some (7, None, 0, - 1)"
proof -
  define e where "e = projr (run_env example_ops (start_env example_start))"
  have "ops_ok (length (idents example_start)) example_ops (start_env example_start)" by code_simp
  note t = scopes_refine_environments [OF example_body_start this]
  have e: "isl (run_env example_ops (start_env example_start)) = False" by code_simp
  then have r: "run_env example_ops (start_env example_start) = Inr e" by (simp add: e_def)
  have l: "env_lookup e 256 = Some (1, None, 0x132, - 8)" "env_lookup e 257 = Some (6, None, 0x230, 0)"
    "env_lookup e (256 OR 0x40000000) = Some (7, None, 0, - 1)"
    unfolding e_def by code_simp+
  have k: "known example_start 256" "known example_start 257" "known example_start (256 OR 0x40000000)" by code_simp+
  obtain st' saved where s: "run_scopes example_ops (example_start, []) = Some (Inr (st', saved))"
    "\<And>v. known example_start v \<Longrightarrow> map_option (\<lambda>a. payload (cells st' a)) (find_name v st') = env_lookup e v"
    using t unfolding r by auto
  show ?thesis using s(1) s(2) [OF k(1)] s(2) [OF k(2)] s(2) [OF k(3)] unfolding l by blast
qed

text \<open>
  C29: sym_find and struct_find never return a symbol that was freed: whatever a function body declares and
  whatever scopes it closes, the symbol a name finds is not on the free list, from which the next symbol is taken.
\<close>

theorem visible_symbols_not_free:
  assumes "body_start st F R" "ops_ok (length (idents st)) ops (start_env st)"
    and "run_scopes ops (st, []) = Some (Inr (st', saved))" "known st v" "find_name v st' = Some a"
  shows "a \<notin> set (free_cells k (free_first st') st')"
proof -
  obtain A pb where i: "scopes_inv (st, []) (start_env st) [] A R pb" using start_inv [OF assms(1)] by blast
  obtain e gs A' R' where s: "scopes_inv (st', saved) e gs A' R' pb" "length (idents st') = length (idents st)"
    using run_inv [OF i assms(2)] assms(3) by (auto split: sum.splits)
  note j = scopes_invD [OF s(1)]
  have k: "known st' v" using assms(4) s(2) by (simp add: known_def)
  obtain F' where F': "mem_ok st' F' (R' \<union> set (stack_of gs))" using j(1) by blast
  have "chain_head gs A' v = Some a" using assms(5) find_name_head [OF k] j(10) [OF k] by simp
  then have "a \<in> R' \<union> set (stack_of gs)" using chain_member [OF j(8)] j(9) k unfolding base_ok_def by blast
  then have "a \<notin> set F'" using F' by (auto simp: mem_ok_def)
  moreover have "set (free_cells k (free_first st') st') \<subseteq> set F'"
    using F' by (intro free_cells_linked) (simp add: mem_ok_def)
  ultimately show ?thesis by blast
qed

theorem visible_symbols_not_free_witness:
  "\<exists>st' saved. run_scopes [New_scope] (example_start, []) = Some (Inr (st', saved)) \<and> 0 \<notin> set (free_cells 3 (free_first st') st')"
proof -
  have ok: "ops_ok (length (idents example_start)) [New_scope] (start_env example_start)" by (simp add: op_ok_def)
  obtain st' saved where s: "run_scopes [New_scope] (example_start, []) = Some (Inr (st', saved))" by (simp add: new_scope_def)
  then have "idents st' = idents example_start" by (auto simp: new_scope_def)
  then have "find_name 256 st' = Some 0" by (simp add: find_name_def sym_find_def is_tag_def tok_index_def example_start_def)
  moreover have "known example_start 256" by code_simp
  ultimately show ?thesis using visible_symbols_not_free [OF example_body_start ok s] s by blast
qed

text \<open>
  A symbol kept for a statement expression stays on the local stack, and is taken out of its chain a
  second time when the function ends; label_pop marks such labels, sym_pop does not. A name made global in between,
  here with \<^verbatim>\<open>({ int f; }); f();\<close>, is lost from the chain: sym_find does not find it after the function.
\<close>

lemma kept_symbol_hides_global:
  "map_option (map_sum id (\<lambda>s. find_name 257 (fst s)))
     (run_scopes [New_scope, New_scope, Declare 257 (3, None) 0x132 (- 8), Prev_scope True, Declare_global 257 6 0]
        (example_start, [])) = Some (Inr (Some 3))"
  "map_option (map_sum id (\<lambda>s. find_name 257 (fst s)))
     (run_scopes [New_scope, New_scope, Declare 257 (3, None) 0x132 (- 8), Prev_scope True, Declare_global 257 6 0, Prev_scope False]
        (example_start, [])) = Some (Inr None)"
  by code_simp+

end
