(* ===== verification/CodeGen.thy ===== *)
theory CodeGen
  imports Sections
begin

text \<open>
  The machine-code emitters of x86_64-gen (g .. gen_modrm_impl, lines 26978-27127) and the jumps
  (gjmp .. gjmp_cond, lines 27559-27608): the bytes are written at ind into the data of
  cur_text_section, which grows through section_realloc. An int is a 32-bit word; a position in
  the section is a natural number (the section is below 2^31 bytes, see
  \<open>section_realloc_text\<close>). A relocation is recorded with the number of its ELF symbol.
\<close>

named_theorems emit_simps \<open>emitters as byte lists\<close>

record cgen =
  text_data :: "u8 list"
  ind :: nat
  nocode_wanted :: u32
  relas :: "(nat \<times> nat \<times> nat \<times> u64) list"

subsection \<open>Growing the text section\<close>

text \<open>The doubling loop of section_realloc on sizes that do not wrap.\<close>

function grow_nat :: "nat \<Rightarrow> nat \<Rightarrow> nat" where
  "grow_nat sz n = (if 0 < sz \<and> sz < n then grow_nat (2 * sz) n else sz)"
  by auto
termination by (relation "measure (\<lambda>(sz, n). n - sz)") auto

declare grow_nat.simps [simp del]

definition text_realloc :: "u8 list \<Rightarrow> nat \<Rightarrow> u8 list" where
  "text_realloc d n =
     (let m = grow_nat (if d = [] then 1 else length d) n
      in take m d @ replicate (m - length d) 0)"

lemma grow_nat_ge: "0 < sz \<Longrightarrow> n \<le> grow_nat sz n \<and> sz \<le> grow_nat sz n"
proof (induction sz n rule: grow_nat.induct)
  case (1 sz n)
  then show ?case by (subst (1 2) grow_nat.simps) auto
qed

lemma length_text_realloc: "n \<le> length (text_realloc d n) \<and> length d \<le> length (text_realloc d n)"
  using grow_nat_ge [of "if d = [] then 1 else length d" n]
  by (auto simp: text_realloc_def Let_def)

lemma take_text_realloc: "k \<le> length d \<Longrightarrow> take k (text_realloc d n) = take k d"
  using grow_nat_ge [of "if d = [] then 1 else length d" n]
  by (auto simp: text_realloc_def Let_def)

lemma grow_loop_nat:
  assumes "unat m \<le> 2 ^ 31" "k \<le> 31"
  shows "\<exists>j\<le>31. grow_loop (2 ^ k) m = Some (2 ^ j) \<and> grow_nat (2 ^ k) (unat m) = 2 ^ j"
  using assms(2)
proof (induction "31 - k" arbitrary: k)
  case 0
  then have "\<not> (2 ^ k :: u32) < m"
    using assms(1) unat_pow2_u32 [of k] by (simp add: word_less_nat_alt)
  with 0 assms(1) show ?case
    by (subst grow_loop.simps, subst grow_nat.simps) (auto intro!: exI [of _ k])
next
  case (Suc d)
  have w: "(2 ^ k :: u32) < m \<longleftrightarrow> 2 ^ k < unat m"
    using unat_pow2_u32 [OF Suc.prems] by (simp add: word_less_nat_alt)
  show ?case
  proof (cases "2 ^ k < unat m")
    case True
    have "31 - Suc k = d" "Suc k \<le> 31" using Suc.hyps(2) by auto
    then obtain j where "j \<le> 31" "grow_loop (2 ^ Suc k) m = Some (2 ^ j)"
        "grow_nat (2 ^ Suc k) (unat m) = 2 ^ j"
      using Suc.hyps(1) [of "Suc k"] by auto
    with True w show ?thesis
      by (subst grow_loop.simps, subst grow_nat.simps)
         (auto simp: mult.commute intro!: exI [of _ j])
  next
    case False
    with w Suc.prems show ?thesis
      by (subst grow_loop.simps, subst grow_nat.simps) (auto intro!: exI [of _ k])
  qed
qed

text \<open>Up to 2 GB \<open>text_realloc\<close> is the section_realloc of the sections.\<close>

lemma section_realloc_text:
  assumes ok: "alloc_ok (length (sec_data sec))" and m: "unat m \<le> 2 ^ 31"
  shows "section_realloc sec m = Some (sec\<lparr>sec_data := text_realloc (sec_data sec) (unat m)\<rparr>)"
proof -
  obtain k where k: "k \<le> 31" "(if data_allocated sec = 0 then 1 else data_allocated sec) = 2 ^ k"
    using data_allocated_pow2 [OF ok] by blast
  obtain j where j: "j \<le> 31" "grow_loop (2 ^ k) m = Some (2 ^ j)" "grow_nat (2 ^ k) (unat m) = 2 ^ j"
    using grow_loop_nat [OF m k(1)] by blast
  have "unat (if data_allocated sec = 0 then 1 else data_allocated sec) =
      (if sec_data sec = [] then 1 else length (sec_data sec))"
    using unat_data_allocated [OF ok] by (auto simp: data_allocated_def)
  then have s: "(if sec_data sec = [] then 1 else length (sec_data sec)) = 2 ^ k"
    using k unat_pow2_u32 by simp
  show ?thesis
    using j k unat_pow2_u32 [OF j(1)] s
    unfolding section_realloc_def text_realloc_def Let_def by simp
qed

subsection \<open>Emitting bytes\<close>

definition emit_g :: "u32 \<Rightarrow> cgen \<Rightarrow> cgen" where
  "emit_g c s =
     (if nocode_wanted s \<noteq> 0 then s
      else let ind1 = ind s + 1;
               d = (if ind1 > length (text_data s) then text_realloc (text_data s) ind1
                    else text_data s)
           in s\<lparr>text_data := d[ind s := ucast c], ind := ind1\<rparr>)"

lemma drop_bit_8_less: "c \<noteq> 0 \<Longrightarrow> unat (drop_bit 8 c :: u32) < unat c"
proof -
  assume "c \<noteq> 0"
  then have "0 < unat c" by (simp add: unat_gt_0)
  then have "unat c div 256 < unat c" by simp
  moreover have "unat (drop_bit 8 c) = unat c div 2 ^ 8"
    by (subst unat_drop_bit_eq) (rule drop_bit_eq_div)
  ultimately show ?thesis by simp
qed

function emit_o :: "u32 \<Rightarrow> cgen \<Rightarrow> cgen" where
  "emit_o c s = (if c \<noteq> 0 then emit_o (drop_bit 8 c) (emit_g c s) else s)"
  by auto

termination by (relation "measure (\<lambda>(c, s). unat c)") (auto simp: drop_bit_8_less)

declare emit_o.simps [simp del]

definition gen_le16 :: "u32 \<Rightarrow> cgen \<Rightarrow> cgen" where
  "gen_le16 v s = emit_g (signed_drop_bit 8 v) (emit_g v s)"

definition gen_le32 :: "u32 \<Rightarrow> cgen \<Rightarrow> cgen" where
  "gen_le32 c s =
     emit_g (signed_drop_bit 24 c) (emit_g (signed_drop_bit 16 c)
       (emit_g (signed_drop_bit 8 c) (emit_g c s)))"

definition gen_le64 :: "u64 \<Rightarrow> cgen \<Rightarrow> cgen" where
  "gen_le64 c s =
     emit_g (ucast (signed_drop_bit 56 c)) (emit_g (ucast (signed_drop_bit 48 c))
       (emit_g (ucast (signed_drop_bit 40 c)) (emit_g (ucast (signed_drop_bit 32 c))
         (emit_g (ucast (signed_drop_bit 24 c)) (emit_g (ucast (signed_drop_bit 16 c))
           (emit_g (ucast (signed_drop_bit 8 c)) (emit_g (ucast c) s)))))))"

definition rex_base :: "u32 \<Rightarrow> u32" where "rex_base r = drop_bit 3 r AND 1"

definition orex :: "u32 \<Rightarrow> u32 \<Rightarrow> u32 \<Rightarrow> u32 \<Rightarrow> cgen \<Rightarrow> cgen" where
  "orex ll r r2 b s =
     (let r = (if r AND 0x3f \<ge> 0x30 then 0 else r);
          r2 = (if r2 AND 0x3f \<ge> 0x30 then 0 else r2)
      in if ll \<noteq> 0 \<or> rex_base r \<noteq> 0 \<or> rex_base r2 \<noteq> 0 then
           let (s, b) = (if b AND 0xff = 0x66 then (emit_o 0x66 s, signed_drop_bit 8 b) else (s, b));
               s = emit_o (0x40 OR rex_base r OR push_bit 2 (rex_base r2) OR push_bit 3 ll) s
           in emit_o b s
         else emit_o b s)"

definition oad :: "u32 \<Rightarrow> u32 \<Rightarrow> cgen \<Rightarrow> u32 \<times> cgen" where
  "oad c v s =
     (if nocode_wanted s \<noteq> 0 then (v, s)
      else let s = emit_o c s; t = ind s in (of_nat t, gen_le32 v s))"

definition gen_fill_nops :: "nat \<Rightarrow> cgen \<Rightarrow> cgen" where
  "gen_fill_nops bytes s = ((emit_g 0x90) ^^ bytes) s"

text \<open>greloca against a symbol that has its number: nothing while no code is wanted.\<close>

definition greloca :: "nat \<Rightarrow> nat \<Rightarrow> nat \<Rightarrow> u64 \<Rightarrow> cgen \<Rightarrow> cgen" where
  "greloca symc offset type addend s =
     (if nocode_wanted s \<noteq> 0 then s else s\<lparr>relas := relas s @ [(offset, type, symc, addend)]\<rparr>)"

subsection \<open>Emitters as byte lists\<close>

text \<open>The code so far, and a state in which code is wanted and ind is inside the section.\<close>

definition code :: "cgen \<Rightarrow> u8 list" where "code s = take (ind s) (text_data s)"

definition emitting :: "cgen \<Rightarrow> bool" where
  "emitting s \<longleftrightarrow> nocode_wanted s = 0 \<and> ind s \<le> length (text_data s)"

primrec emit :: "u8 list \<Rightarrow> cgen \<Rightarrow> cgen" where
  "emit [] s = s"
| "emit (b # bs) s = emit bs (emit_g (ucast b) s)"

lemma emit_append [emit_simps]: "emit (xs @ ys) s = emit ys (emit xs s)"
  by (induction xs arbitrary: s) auto

lemma emit_g_emit: "emit_g c s = emit [ucast c] s"
proof -
  have "ucast (ucast (ucast c :: u8) :: u32) = (ucast c :: u8)"
    by (rule bit_word_eqI) (auto simp: bit_simps)
  then show ?thesis by (simp add: emit_g_def)
qed

lemma emit_g_code:
  assumes "emitting s"
  shows "emitting (emit_g c s)" "code (emit_g c s) = code s @ [ucast c]"
    "ind (emit_g c s) = ind s + 1" "relas (emit_g c s) = relas s"
proof -
  let ?d = "if ind s + 1 > length (text_data s) then text_realloc (text_data s) (ind s + 1)
            else text_data s"
  have l: "ind s + 1 \<le> length ?d" using length_text_realloc [of "ind s + 1"] by auto
  have t: "take (ind s) ?d = take (ind s) (text_data s)"
    using assms by (auto simp: take_text_realloc emitting_def)
  have e: "emit_g c s = s\<lparr>text_data := ?d[ind s := ucast c], ind := ind s + 1\<rparr>"
    using assms by (simp add: emit_g_def emitting_def Let_def)
  show "ind (emit_g c s) = ind s + 1" "relas (emit_g c s) = relas s"
    unfolding e by simp_all
  show "emitting (emit_g c s)" using l assms unfolding e emitting_def by simp
  show "code (emit_g c s) = code s @ [ucast c]"
    using l t unfolding e code_def by (simp add: take_Suc_conv_app_nth)
qed

lemma emit_code:
  assumes "emitting s"
  shows "emitting (emit bs s)" "code (emit bs s) = code s @ bs"
    "ind (emit bs s) = ind s + length bs" "relas (emit bs s) = relas s"
proof -
  have "emitting (emit bs s) \<and> code (emit bs s) = code s @ bs \<and>
    ind (emit bs s) = ind s + length bs \<and> relas (emit bs s) = relas s"
    using assms
  proof (induction bs arbitrary: s)
    case (Cons b bs)
    have u: "ucast (ucast b :: u32) = b" by (rule bit_word_eqI) (auto simp: bit_simps)
    note g = emit_g_code [OF Cons.prems, of "ucast b"]
    show ?case using Cons.IH [OF g(1)] g u by simp
  qed simp
  then show "emitting (emit bs s)" "code (emit bs s) = code s @ bs"
    "ind (emit bs s) = ind s + length bs" "relas (emit bs s) = relas s" by blast+
qed

function o_bytes :: "u32 \<Rightarrow> u8 list" where
  "o_bytes c = (if c \<noteq> 0 then ucast c # o_bytes (drop_bit 8 c) else [])"
  by auto
termination by (relation "measure unat") (auto simp: drop_bit_8_less)

declare o_bytes.simps [simp del]

definition le32 :: "u32 \<Rightarrow> u8 list" where
  "le32 c = [ucast c, ucast (drop_bit 8 c), ucast (drop_bit 16 c), ucast (drop_bit 24 c)]"

definition le64 :: "u64 \<Rightarrow> u8 list" where
  "le64 c = [ucast c, ucast (drop_bit 8 c), ucast (drop_bit 16 c), ucast (drop_bit 24 c),
     ucast (drop_bit 32 c), ucast (drop_bit 40 c), ucast (drop_bit 48 c), ucast (drop_bit 56 c)]"

lemma emit_Cons: "emit (x # xs) s = emit xs (emit [x] s)"
  using emit_append [of "[x]" xs s] by simp

lemma emit_o_emit [emit_simps]: "emit_o c s = emit (o_bytes c) s"
proof (induction c s rule: emit_o.induct)
  case (1 c s)
  show ?case
  proof (cases "c = 0")
    case True
    then show ?thesis by (subst emit_o.simps, subst o_bytes.simps) simp
  next
    case False
    have "emit_o c s = emit_o (drop_bit 8 c) (emit_g c s)"
      using False by (subst emit_o.simps) simp
    also have "\<dots> = emit (o_bytes (drop_bit 8 c)) (emit_g c s)" using 1 [OF False] .
    also have "\<dots> = emit (ucast c # o_bytes (drop_bit 8 c)) s"
      by (simp only: emit_g_emit [of c s] emit_Cons [of "ucast c" "o_bytes (drop_bit 8 c)" s])
    also have "ucast c # o_bytes (drop_bit 8 c) = o_bytes c"
      using False by (subst (2) o_bytes.simps) simp
    finally show ?thesis .
  qed
qed

lemma gen_le32_emit [emit_simps]: "gen_le32 c s = emit (le32 c) s"
proof -
  have *: "ucast (signed_drop_bit n c) = (ucast (drop_bit n c) :: u8)" if "n \<le> 24" for n
    using that by (intro bit_word_eqI) (auto simp: bit_simps min_def)
  show ?thesis
    unfolding gen_le32_def le32_def emit_g_emit emit_append [symmetric] by (simp add: *)
qed

end
