(* ===== verification/Jumps.thy ===== *)
theory Jumps
  imports CodeGen
begin

text \<open>
  Forward jumps (gsym_addr, gsym, gjmp, gjmp_addr, gjmp_append, gjmp_cond; lines 27032-27040,
  16212-16218 and 27564-27608). A jump whose target is not known yet is emitted with the position
  of the previous such jump in its displacement field, so that the jumps to one label form a
  linked list inside the code, ended by 0; gsym_addr walks the list and replaces every link by
  the displacement of the target. The walks are partial functions (a cyclic list would never
  end); the theorems show that they return on the lists the emitters build.
\<close>

definition gjmp :: "u32 \<Rightarrow> cgen \<Rightarrow> u32 \<times> cgen" where
  "gjmp t s = oad 0xe9 t s"

definition gjmp_addr :: "u32 \<Rightarrow> cgen \<Rightarrow> cgen" where
  "gjmp_addr a s =
     (let r = a - of_nat (ind s) - 2
      in if r = scast (ucast r :: u8) then emit_g r (emit_g 0xeb s)
         else snd (oad 0xe9 (a - of_nat (ind s) - 5) s))"

text \<open>gjmp_cond: \<open>cmp_r\<close> is vtop->cmp_r.\<close>

definition gjmp_cond :: "u32 \<Rightarrow> u32 \<Rightarrow> u32 \<Rightarrow> cgen \<Rightarrow> u32 \<times> cgen" where
  "gjmp_cond cmp_r op t s =
     (let (op, t, s) =
        (if op AND 0x100 \<noteq> 0 then
           let v = cmp_r; op = op AND NOT 0x100
           in if op XOR v XOR (if v \<noteq> 0x95 then 1 else 0) \<noteq> 0 then (op, t, emit_o 0x067a s)
              else let s = emit_g 0x0f s; (t, s) = oad 0x8a t s in (op, t, s)
         else (op, t, s));
         s = emit_g 0x0f s
      in oad (op - 16) t s)"

partial_function (option) gsym_addr :: "u32 \<Rightarrow> u32 \<Rightarrow> u8 list \<Rightarrow> u8 list option" where
  "gsym_addr t a d =
     (if t \<noteq> 0 then
        let n = read32le d (unat t)
        in gsym_addr n a (write32le d (unat t) (if a <s 0 then - a else a - t - 4))
      else Some d)"

definition gsym :: "u32 \<Rightarrow> cgen \<Rightarrow> cgen option" where
  "gsym t s =
     (if t \<noteq> 0 then
        map_option (\<lambda>d. s\<lparr>text_data := d, nocode_wanted := nocode_wanted s AND NOT 0x20000000\<rparr>)
          (gsym_addr t (of_nat (ind s)) (text_data s))
      else Some s)"

partial_function (option) append_loop :: "u32 \<Rightarrow> u8 list \<Rightarrow> u32 option" where
  "append_loop n1 d =
     (let n2 = read32le d (unat n1) in if n2 \<noteq> 0 then append_loop n2 d else Some n1)"

definition gjmp_append :: "u32 \<Rightarrow> u32 \<Rightarrow> u8 list \<Rightarrow> (u32 \<times> u8 list) option" where
  "gjmp_append n t d =
     (if n \<noteq> 0 then map_option (\<lambda>p. (n, write32le d (unat p) t)) (append_loop n d)
      else Some (t, d))"

subsection \<open>Lists of jumps\<close>

fun chain :: "u8 list \<Rightarrow> u32 \<Rightarrow> u32 list \<Rightarrow> bool" where
  "chain d t [] \<longleftrightarrow> t = 0"
| "chain d t (p # ps) \<longleftrightarrow>
     t = p \<and> p \<noteq> 0 \<and> unat p + 4 \<le> length d \<and> chain d (read32le d (unat p)) ps"

definition apart :: "u32 \<Rightarrow> u32 \<Rightarrow> bool" where
  "apart p q \<longleftrightarrow> unat p + 4 \<le> unat q \<or> unat q + 4 \<le> unat p"

abbreviation spaced :: "u32 list \<Rightarrow> bool" where "spaced \<equiv> sorted_wrt apart"

definition in_slots :: "u32 list \<Rightarrow> nat \<Rightarrow> bool" where
  "in_slots ps i \<longleftrightarrow> (\<exists>p\<in>set ps. unat p \<le> i \<and> i < unat p + 4)"

lemma apart_sym: "apart p q = apart q p"
  by (auto simp: apart_def)

lemma chain_inj: "chain d t ps \<Longrightarrow> chain d t qs \<Longrightarrow> ps = qs"
proof (induction ps arbitrary: t qs)
  case Nil
  then show ?case by (cases qs) auto
next
  case (Cons p ps)
  then show ?case by (cases qs) auto
qed

lemma chain_agree:
  assumes "chain d t ps" "length d \<le> length e" "\<forall>p\<in>set ps. read32le e (unat p) = read32le d (unat p)"
  shows "chain e t ps"
  using assms by (induction ps arbitrary: t) auto

lemma read32le_take: "p + 4 \<le> n \<Longrightarrow> n \<le> length d \<Longrightarrow> read32le (take n d) p = read32le d p"
  by (rule read32le_cong) simp_all

lemma read32le_append: "p + 4 \<le> length d \<Longrightarrow> read32le (d @ e) p = read32le d p"
  by (rule read32le_cong) (simp_all add: nth_append)

lemma chain_bound: "chain d t ps \<Longrightarrow> p \<in> set ps \<Longrightarrow> p \<noteq> 0 \<and> unat p + 4 \<le> length d"
  by (induction ps arbitrary: t) auto

lemma chain_append_code:
  assumes "chain d t ps"
  shows "chain (d @ e) t ps"
proof (rule chain_agree [OF assms])
  show "\<forall>p\<in>set ps. read32le (d @ e) (unat p) = read32le d (unat p)"
    using chain_bound [OF assms] by (blast intro: read32le_append)
qed simp

lemma chain_write_other:
  assumes "chain d t ps" "\<forall>p\<in>set ps. apart p q"
  shows "chain (write32le d (unat q) x) t ps"
  using assms
  by (intro chain_agree [OF assms(1)])
     (auto dest: chain_bound simp: apart_def intro!: read32le_write32le_other)

subsection \<open>Patching\<close>

definition disp :: "u32 \<Rightarrow> u32 \<Rightarrow> u32" where
  "disp a p = (if a <s 0 then - a else a - p - 4)"

lemma gsym_addr_chain:
  assumes "chain d t ps" "spaced ps"
  shows "\<exists>e. gsym_addr t a d = Some e \<and> length e = length d \<and>
           (\<forall>p\<in>set ps. read32le e (unat p) = disp a p) \<and>
           (\<forall>i. \<not> in_slots ps i \<longrightarrow> e ! i = d ! i)"
  using assms
proof (induction ps arbitrary: t d)
  case Nil
  then show ?case by (subst gsym_addr.simps) simp
next
  case (Cons p ps)
  let ?d = "write32le d (unat p) (disp a p)"
  have ap: "\<forall>q\<in>set ps. apart p q" and sp: "spaced ps" using Cons.prems(2) by auto
  have c: "chain ?d (read32le d (unat p)) ps"
    using Cons.prems(1) ap by (intro chain_write_other) (auto simp: apart_sym)
  obtain e where e: "gsym_addr (read32le d (unat p)) a ?d = Some e" "length e = length ?d"
      "\<forall>q\<in>set ps. read32le e (unat q) = disp a q" "\<forall>i. \<not> in_slots ps i \<longrightarrow> e ! i = ?d ! i"
    using Cons.IH [OF c sp] by blast
  have same: "e ! i = ?d ! i" if "unat p \<le> i" "i < unat p + 4" for i
  proof -
    have "\<not> in_slots ps i" using ap that by (fastforce simp: in_slots_def apart_def)
    with e(4) show ?thesis by blast
  qed
  have "read32le e (unat p) = read32le ?d (unat p)"
    by (intro read32le_cong same) simp_all
  then have "read32le e (unat p) = disp a p"
    using Cons.prems(1) by (simp add: read32le_write32le)
  moreover have "gsym_addr t a d = Some e"
    using Cons.prems(1) e(1)
    by (subst gsym_addr.simps) (cases "a <s 0"; simp add: Let_def disp_def)
  moreover have "e ! i = d ! i" if "\<not> in_slots (p # ps) i" for i
    using e(4) that by (auto simp: in_slots_def nth_write32le_other)
  ultimately show ?case using e(2,3) by auto
qed

text \<open>
  Note: gsym_addr returns on every list of forward jumps in the code, whatever its length, and
  resolves it: the displacement of each jump of the list then leads from the end of its field to
  the target (modulo 2^32, as the processor adds), and no byte outside the displacement fields of
  the list changes.
\<close>

theorem gsym_addr_resolves:
  assumes "chain d t ps" "spaced ps" "\<not> a <s 0"
  shows "\<exists>e. gsym_addr t a d = Some e \<and> length e = length d \<and>
           (\<forall>p\<in>set ps. p + 4 + read32le e (unat p) = a) \<and>
           (\<forall>i. \<not> in_slots ps i \<longrightarrow> e ! i = d ! i)"
proof -
  obtain e where "gsym_addr t a d = Some e" "length e = length d"
      "\<forall>p\<in>set ps. read32le e (unat p) = disp a p" "\<forall>i. \<not> in_slots ps i \<longrightarrow> e ! i = d ! i"
    using gsym_addr_chain [OF assms(1,2)] by blast
  then show ?thesis using assms(3) by (auto simp: disp_def)
qed

theorem gsym_addr_resolves_witness:
  "\<exists>e. gsym_addr 7 20 (concat [[0], [0xe9, 0, 0, 0, 0], [0xe9, 2, 0, 0, 0], [0x90]]) = Some e \<and>
       2 + 4 + read32le e 2 = 20 \<and> 7 + 4 + read32le e 7 = 20"
proof -
  let ?d = "concat [[0], [0xe9, 0, 0, 0, 0], [0xe9, 2, 0, 0, 0], [0x90 :: u8]]"
  have "chain ?d 7 [7, 2]" by (simp add: read32le_def read16le_def)
  moreover have "spaced [7, 2 :: u32]" by (simp add: apart_def)
  moreover have "\<not> (20 :: u32) <s 0" by (simp add: word_sless_alt)
  ultimately show ?thesis using gsym_addr_resolves [of ?d 7 "[7, 2]" 20] by fastforce
qed

subsection \<open>Building\<close>

lemma read32le_le32: "read32le (d @ le32 v) (length d) = v"
proof (rule bit_word_eqI)
  fix n assume "n < LENGTH(32)"
  then consider "n < 8" | "8 \<le> n" "n < 16" | "16 \<le> n" "n < 24" | "24 \<le> n" "n < 32"
    by fastforce
  then show "bit (read32le (d @ le32 v) (length d)) n = bit v n"
    by cases (auto simp: read32le_def read16le_def le32_def nth_append bit_simps)
qed

lemma oad_code:
  assumes "emitting s"
  shows "emitting (snd (oad c v s))" "code (snd (oad c v s)) = code s @ o_bytes c @ le32 v"
    "fst (oad c v s) = of_nat (ind s + length (o_bytes c))"
  using emit_code [OF assms] emit_code [OF emit_code(1) [OF assms]] assms
  by (simp_all add: oad_def emitting_def emit_simps Let_def)

lemma length_code: "emitting s \<Longrightarrow> length (code s) = ind s"
  by (simp add: code_def emitting_def)

lemma length_o_bytes_less: "unat c < 256 ^ k \<Longrightarrow> length (o_bytes c) \<le> k"
proof (induction k arbitrary: c)
  case 0
  then have "c = 0" by (simp add: unat_eq_zero)
  then show ?case by (subst o_bytes.simps) simp
next
  case (Suc k)
  have "unat (drop_bit 8 c) = unat c div 2 ^ 8"
    by (subst unat_drop_bit_eq) (rule drop_bit_eq_div)
  with Suc.prems have "unat (drop_bit 8 c) < 256 ^ k" by (simp add: less_mult_imp_div_less mult.commute)
  from Suc.IH [OF this] show ?case by (subst o_bytes.simps) auto
qed

lemma length_o_bytes: "length (o_bytes c) \<le> 4 \<and> (c \<noteq> 0 \<longrightarrow> o_bytes c \<noteq> [])"
proof
  show "length (o_bytes c) \<le> 4"
    using unat_u32_less [of c] by (intro length_o_bytes_less) simp
  show "c \<noteq> 0 \<longrightarrow> o_bytes c \<noteq> []" by (subst o_bytes.simps) simp
qed

lemma chain_oad:
  assumes s: "emitting s" and c: "chain (code s) t ps" "spaced ps" and c0: "c \<noteq> 0 \<or> 0 < ind s"
    and small: "ind s + 8 < 2 ^ 32"
    and r: "oad c t s = (t', s')"
  shows "chain (code s') t' (t' # ps)" "spaced (t' # ps)" "emitting s'"
    "unat t' = ind s + length (o_bytes c)"
proof -
  have lo: "length (o_bytes c) \<le> 4" "0 < ind s + length (o_bytes c)"
    using length_o_bytes [of c] c0 by auto
  show e: "emitting s'" using oad_code [OF s, of c t] r by simp
  have code': "code s' = (code s @ o_bytes c) @ le32 t" and t': "t' = of_nat (ind s + length (o_bytes c))"
    using oad_code [OF s, of c t] r by simp_all
  show u: "unat t' = ind s + length (o_bytes c)"
    using small lo unfolding t' by (subst unat_of_nat) simp
  have len: "length (code s @ o_bytes c) = unat t'" using u length_code [OF s] by simp
  have "read32le (code s') (unat t') = t"
    using read32le_le32 [of "code s @ o_bytes c" t] unfolding code' len .
  moreover have "chain (code s') t ps" unfolding code' append_assoc by (rule chain_append_code [OF c(1)])
  moreover have "t' \<noteq> 0" using u lo by auto
  moreover have "unat t' + 4 \<le> length (code s')" unfolding code' using len by (simp add: le32_def)
  ultimately show "chain (code s') t' (t' # ps)" by simp
  have "apart t' p" if "p \<in> set ps" for p
    using chain_bound [OF c(1) that] u lo length_code [OF s] by (simp add: apart_def)
  with c(2) show "spaced (t' # ps)" by simp
qed

lemma append_loop_chain:
  assumes "chain d n ps" "ps \<noteq> []"
  shows "append_loop n d = Some (last ps)"
  using assms
proof (induction ps arbitrary: n)
  case (Cons p ps)
  show ?case
  proof (cases ps)
    case Nil
    with Cons.prems show ?thesis by (subst append_loop.simps) simp
  next
    case (Cons q qs)
    with Cons.prems Cons.IH [of "read32le d (unat p)"] show ?thesis
      by (subst append_loop.simps) (auto simp: Let_def)
  qed
qed simp

lemma chain_link:
  assumes "chain d n (ps @ [p])" "chain d t qs" "spaced (ps @ p # qs)"
  shows "chain (write32le d (unat p) t) n (ps @ p # qs)"
  using assms
proof (induction ps arbitrary: n)
  case Nil
  then have "chain (write32le d (unat p) t) t qs"
    by (intro chain_write_other) (auto simp: apart_sym)
  with Nil show ?case by (auto simp: read32le_write32le)
next
  case (Cons r ps)
  have "apart r p" using Cons.prems(3) by simp
  then have "read32le (write32le d (unat p) t) (unat r) = read32le d (unat r)"
    by (auto simp: apart_def intro!: read32le_write32le_other)
  with Cons show ?case by simp
qed

text \<open>
  Note: gjmp_append returns and joins two lists of pending jumps into one: first the jumps of the
  first list, then those of the second, and only displacement fields of the first change.
\<close>

theorem gjmp_append_joins:
  assumes "chain d n ps" "chain d t qs" "spaced (ps @ qs)"
  shows "\<exists>t' e. gjmp_append n t d = Some (t', e) \<and> chain e t' (ps @ qs) \<and>
           length e = length d \<and> (\<forall>i. \<not> in_slots ps i \<longrightarrow> e ! i = d ! i)"
proof (cases ps rule: rev_cases)
  case Nil
  with assms show ?thesis by (simp add: gjmp_append_def)
next
  case (snoc rs p)
  have n: "n \<noteq> 0" using assms(1) snoc by (cases rs) auto
  have "append_loop n d = Some p" using append_loop_chain [OF assms(1)] snoc by simp
  with n have "gjmp_append n t d = Some (n, write32le d (unat p) t)"
    by (simp add: gjmp_append_def)
  moreover have "chain (write32le d (unat p) t) n (rs @ p # qs)"
    using assms snoc by (intro chain_link) auto
  moreover have "write32le d (unat p) t ! i = d ! i" if "\<not> in_slots ps i" for i
    using that snoc by (auto simp: in_slots_def nth_write32le_other)
  ultimately show ?thesis using snoc by simp
qed

theorem gjmp_append_joins_witness:
  "\<exists>t' e. gjmp_append 2 7 (concat [[0], [0xe9, 0, 0, 0, 0], [0xe9, 0, 0, 0, 0]]) = Some (t', e) \<and>
          chain e t' [2, 7]"
proof -
  let ?d = "concat [[0], [0xe9, 0, 0, 0, 0], [0xe9, 0, 0, 0, 0 :: u8]]"
  have "chain ?d 2 [2]" "chain ?d 7 [7]" by (simp_all add: read32le_def read16le_def)
  moreover have "spaced ([2] @ [7 :: u32])" by (simp add: apart_def)
  ultimately show ?thesis using gjmp_append_joins [of ?d 2 "[2]" 7 "[7]"] by fastforce
qed

subsection \<open>A label\<close>

text \<open>
  What the code generator does for a forward label: other code, jumps and conditional jumps to
  the label in any order (each takes and returns the list \<open>t\<close>), and gsym at the place of the
  label.
\<close>

datatype jop = Emit "u8 list" | Jmp | Jcc u32 u32

fun run_jumps :: "jop list \<Rightarrow> u32 \<times> cgen \<Rightarrow> u32 \<times> cgen" where
  "run_jumps [] ts = ts"
| "run_jumps (Emit bs # js) (t, s) = run_jumps js (t, emit bs s)"
| "run_jumps (Jmp # js) (t, s) = run_jumps js (gjmp t s)"
| "run_jumps (Jcc cmp_r opr # js) (t, s) = run_jumps js (gjmp_cond cmp_r opr t s)"

definition jump_target :: "u8 list \<Rightarrow> u32 \<Rightarrow> u32" where
  "jump_target d p = p + 4 + read32le d (unat p)"

definition pending :: "u32 \<times> cgen \<Rightarrow> u32 list \<Rightarrow> bool" where
  "pending ts ps \<longleftrightarrow> emitting (snd ts) \<and> chain (code (snd ts)) (fst ts) ps \<and> spaced ps"

lemma pending_emit: "pending (t, s) ps \<Longrightarrow> pending (t, emit bs s) ps"
  by (simp add: pending_def emit_code chain_append_code)

lemma pending_emit_g: "pending (t, s) ps \<Longrightarrow> pending (t, emit_g c s) ps"
  unfolding emit_g_emit by (rule pending_emit)

lemma pending_oad:
  assumes "pending (t, s) ps" "c \<noteq> 0 \<or> 0 < ind s" "ind s + 8 < 2 ^ 32"
  shows "pending (oad c t s) (fst (oad c t s) # ps)"
proof -
  obtain t' s' where r: "oad c t s = (t', s')" by fastforce
  show ?thesis
    using chain_oad [OF _ _ _ assms(2,3) r, of ps] assms(1) unfolding r pending_def by simp
qed

lemma ind_oad: "emitting s \<Longrightarrow> ind (snd (oad c v s)) = ind s + length (o_bytes c) + 4"
  using emit_code(3) [of s "o_bytes c"] emit_code(3) [OF emit_code(1), of s "le32 v" "o_bytes c"]
  by (simp add: oad_def emitting_def emit_simps Let_def le32_def)

lemma gjmp_cond_pending:
  assumes p: "pending (t, s) ps" and small: "ind s + 24 < 2 ^ 32"
  shows "\<exists>qs. pending (gjmp_cond cmp_r opr t s) (qs @ ps) \<and> 0 < length qs \<and>
           ind s \<le> ind (snd (gjmp_cond cmp_r opr t s)) \<and>
           ind (snd (gjmp_cond cmp_r opr t s)) \<le> ind s + 18"
proof -
  have last: "\<exists>qs. pending (oad c t s2) (qs @ ps) \<and> 0 < length qs \<and>
      ind s \<le> ind (snd (oad c t s2)) \<and> ind (snd (oad c t s2)) \<le> ind s + 18"
    if q: "pending (t, s2) (qs @ ps)" and "ind s < ind s2" "ind s2 \<le> ind s + 10" for t s2 qs c
  proof -
    have "ind (snd (oad c t s2)) = ind s2 + length (o_bytes c) + 4"
      using q ind_oad by (simp add: pending_def)
    then show ?thesis
      using pending_oad [OF q, of c] that(2,3) small length_o_bytes [of c]
      by (intro exI [of _ "fst (oad c t s2) # qs"]) auto
  qed
  have em: "emitting s" using p by (simp add: pending_def)
  consider (plain) "opr AND 0x100 = 0"
    | (skip) "opr AND 0x100 \<noteq> 0" "(opr AND NOT 0x100) XOR cmp_r XOR (if cmp_r \<noteq> 0x95 then 1 else 0) \<noteq> 0"
    | (both) "opr AND 0x100 \<noteq> 0" "(opr AND NOT 0x100) XOR cmp_r XOR (if cmp_r \<noteq> 0x95 then 1 else 0) = 0"
    by blast
  then show ?thesis
  proof cases
    case plain
    then have "gjmp_cond cmp_r opr t s = oad (opr - 16) t (emit_g 0x0f s)"
      by (simp add: gjmp_cond_def Let_def)
    moreover have "pending (t, emit_g 0x0f s) ([] @ ps)" using pending_emit_g [OF p] by simp
    ultimately show ?thesis using last [of t "emit_g 0x0f s" "[]"] emit_g_code(3) [OF em] by simp
  next
    case skip
    let ?s = "emit_g 0x0f (emit_o 0x067a s)"
    have g: "gjmp_cond cmp_r opr t s = oad ((opr AND NOT 0x100) - 16) t ?s"
      using skip by (simp only: gjmp_cond_def Let_def prod.case if_True simp_thms)
    have "pending (t, ?s) ([] @ ps)"
      unfolding emit_simps using pending_emit_g pending_emit [OF p] by simp
    moreover have "ind ?s = ind s + length (o_bytes 0x067a) + 1"
      unfolding emit_simps using emit_code [OF em] emit_g_code(3) by simp
    ultimately show ?thesis
      unfolding g using last [of t ?s "[]"] length_o_bytes [of "0x067a"] by simp
  next
    case both
    let ?s1 = "emit_g 0x0f s"
    let ?s = "emit_g 0x0f (snd (oad 0x8a t ?s1))" and ?t = "fst (oad 0x8a t ?s1)"
    have g: "gjmp_cond cmp_r opr t s = oad ((opr AND NOT 0x100) - 16) ?t ?s"
      using both by (simp only: gjmp_cond_def Let_def prod.case if_True simp_thms case_prod_beta fst_conv snd_conv split: if_split)
    have p1: "pending (t, ?s1) ps" using pending_emit_g [OF p] .
    have i1: "ind ?s1 = ind s + 1" using emit_g_code(3) [OF em] .
    have p2: "pending (oad 0x8a t ?s1) (?t # ps)" using pending_oad [OF p1] i1 small by simp
    then have "pending (?t, ?s) ([?t] @ ps)" using pending_emit_g [of ?t "snd (oad 0x8a t ?s1)"] by simp
    moreover have "ind ?s = ind s + 1 + length (o_bytes 0x8a) + 4 + 1"
      using emit_g_code(3) [of "snd (oad 0x8a t ?s1)"] ind_oad [of ?s1 "0x8a" t] p1 p2 i1
      by (simp add: pending_def)
    ultimately show ?thesis
      unfolding g using last [of ?t ?s "[?t]"] length_o_bytes [of "0x8a"] by simp
  qed
qed

text \<open>An upper bound of the bytes a sequence emits, and the number of its jumps.\<close>

fun jsize :: "jop list \<Rightarrow> nat" where
  "jsize [] = 0"
| "jsize (Emit bs # js) = length bs + jsize js"
| "jsize (Jmp # js) = 8 + jsize js"
| "jsize (Jcc cmp_r opr # js) = 18 + jsize js"

definition is_jump :: "jop \<Rightarrow> bool" where
  "is_jump j \<longleftrightarrow> (case j of Emit bs \<Rightarrow> False | _ \<Rightarrow> True)"

lemma run_jumps_pending:
  assumes "pending (t, s) ps" "ind s + jsize js + 24 < 2 ^ 31"
  shows "\<exists>qs. pending (run_jumps js (t, s)) (qs @ ps) \<and> length (filter is_jump js) \<le> length qs \<and>
           ind (snd (run_jumps js (t, s))) \<le> ind s + jsize js"
  using assms
proof (induction js arbitrary: t s ps)
  case Nil
  then show ?case by (auto intro: exI [of _ "[]"])
next
  case (Cons j js)
  have em: "emitting s" using Cons.prems(1) by (simp add: pending_def)
  have step: ?case
    if "run_jumps (j # js) (t, s) = run_jumps js (t2, s2)" "pending (t2, s2) (qs @ ps)"
      "ind s2 + jsize js \<le> ind s + jsize (j # js)" "(if is_jump j then 1 else 0) \<le> length qs"
    for t2 s2 qs
  proof -
    note st = that
    obtain rs where "pending (run_jumps js (t2, s2)) (rs @ qs @ ps)"
        "length (filter is_jump js) \<le> length rs" "ind (snd (run_jumps js (t2, s2))) \<le> ind s2 + jsize js"
      using Cons.IH [OF st(2)] Cons.prems(2) st(3) by fastforce
    then show ?thesis
      using st by (intro exI [of _ "rs @ qs"]) auto
  qed
  show ?case
  proof (cases j)
    case (Emit bs)
    then show ?thesis
      using step [of t "emit bs s" "[]"] pending_emit [OF Cons.prems(1)] emit_code(3) [OF em]
      by (simp add: is_jump_def)
  next
    case Jmp
    then show ?thesis
      using step [of "fst (gjmp t s)" "snd (gjmp t s)" "[fst (gjmp t s)]"] Cons.prems
        pending_oad [OF Cons.prems(1), of "0xe9"] ind_oad [OF em, of "0xe9" t] length_o_bytes [of "0xe9"]
      by (simp add: is_jump_def gjmp_def)
  next
    case (Jcc r opr)
    obtain qs where "pending (gjmp_cond r opr t s) (qs @ ps)" "0 < length qs"
        "ind (snd (gjmp_cond r opr t s)) \<le> ind s + 18"
      using gjmp_cond_pending [OF Cons.prems(1), of r opr] Cons.prems(2) by auto
    then show ?thesis
      using Jcc step [of "fst (gjmp_cond r opr t s)" "snd (gjmp_cond r opr t s)" qs]
      by (simp add: is_jump_def Suc_le_eq)
  qed
qed

text \<open>
  C14: forward labels work: after any sequence of code, jumps and conditional jumps to a label
  that is below 2 GB, gsym at the current position returns and makes every pending jump, those of
  the sequence and those pending before it, lead to that position; it changes nothing but the
  displacement fields, so in particular no emitted code.
\<close>

theorem forward_label:
  assumes "pending (t, s) ps" "ind s + jsize js + 24 < 2 ^ 31" "run_jumps js (t, s) = (t', s')"
    and "t' \<noteq> 0"
  shows "\<exists>qs s''. length (filter is_jump js) \<le> length qs \<and> chain (code s') t' (qs @ ps) \<and>
           gsym t' s' = Some s'' \<and> ind s'' = ind s' \<and> length (text_data s'') = length (text_data s') \<and>
           (\<forall>p\<in>set (qs @ ps). jump_target (text_data s'') p = of_nat (ind s')) \<and>
           (\<forall>i. \<not> in_slots (qs @ ps) i \<longrightarrow> text_data s'' ! i = text_data s' ! i)"
proof -
  obtain qs where q: "pending (t', s') (qs @ ps)" "length (filter is_jump js) \<le> length qs"
      "ind s' \<le> ind s + jsize js"
    using run_jumps_pending [OF assms(1,2)] assms(3) by auto
  have c: "chain (text_data s') t' (qs @ ps)"
  proof -
    have "text_data s' = code s' @ drop (ind s') (text_data s')" by (simp add: code_def)
    then show ?thesis using q(1) chain_append_code by (metis pending_def fst_conv snd_conv)
  qed
  have u: "unat (of_nat (ind s') :: u32) = ind s'"
    using q(3) assms(2) by (subst unat_of_nat) simp
  then have "sint (of_nat (ind s') :: u32) = int (ind s')"
    using q(3) assms(2) sint_small [of "of_nat (ind s')"] by simp
  then have pos: "\<not> (of_nat (ind s') :: u32) <s 0" by (simp add: word_sless_alt)
  from gsym_addr_chain [OF c, of "of_nat (ind s')"] q(1) pos obtain e where
    e: "gsym_addr t' (of_nat (ind s')) (text_data s') = Some e" "length e = length (text_data s')"
      "\<forall>p\<in>set (qs @ ps). p + 4 + read32le e (unat p) = of_nat (ind s')"
      "\<forall>i. \<not> in_slots (qs @ ps) i \<longrightarrow> e ! i = text_data s' ! i"
    by (auto simp: pending_def disp_def)
  then show ?thesis
    using q assms(4) by (intro exI [of _ qs]) (auto simp: gsym_def pending_def jump_target_def)
qed

definition demo_gen :: cgen where
  "demo_gen = \<lparr>text_data = [0x55], ind = 1, nocode_wanted = 0, relas = []\<rparr>"

theorem forward_label_witness:
  "\<exists>t' s' qs s''. run_jumps [Jcc 0 0x94, Emit [0x90], Jmp] (0, demo_gen) = (t', s') \<and>
     2 \<le> length qs \<and> gsym t' s' = Some s'' \<and>
     (\<forall>p\<in>set qs. jump_target (text_data s'') p = of_nat (ind s'))"
proof -
  have p: "pending (0, demo_gen) []" by (simp add: pending_def emitting_def demo_gen_def)
  let ?js = "[Jcc 0 0x94, Emit [0x90], Jmp]"
  obtain t' s' where r: "run_jumps ?js (0, demo_gen) = (t', s')" by fastforce
  have l: "ind demo_gen + jsize ?js + 24 < 2 ^ 31" by (simp add: demo_gen_def)
  from run_jumps_pending [OF p l] obtain qs where "pending (t', s') qs" "2 \<le> length qs"
    unfolding r by (auto simp: is_jump_def)
  then have "t' \<noteq> 0" by (cases qs) (auto simp: pending_def)
  from forward_label [OF p l r this] obtain qs s'' where
    "length (filter is_jump ?js) \<le> length qs" "gsym t' s' = Some s''"
    "\<forall>p\<in>set qs. jump_target (text_data s'') p = of_nat (ind s')"
    by auto
  moreover have "length (filter is_jump ?js) = 2" by (simp add: is_jump_def)
  ultimately show ?thesis using r by auto
qed

end
