(* ===== verification/X86Encode.thy ===== *)
theory X86Encode
  imports Jumps
begin

text \<open>
  Instruction encodings of x86_64-gen: gen_addr32 and gen_addrpc32 (lines 27057-27068), the
  REX/opcode/ModRM/displacement emission of gen_modrm_impl (lines 27097-27126; its branch for
  thread-local symbols, which calls the symbol table and the register allocator, is not
  modelled), store (27280-27309), gen_offs_sp (27334-27344) and the branch of load for values
  that are not lvalues (27208-27278). The reference is a decoder of the bytes after the
  instruction formats of the AMD64 manual.
\<close>

definition gen_addr32 :: "u32 \<Rightarrow> nat \<Rightarrow> u32 \<Rightarrow> cgen \<Rightarrow> cgen" where
  "gen_addr32 r symc c s =
     (if r AND 0x0200 \<noteq> 0 then gen_le32 0 (greloca symc (ind s) 11 (scast c) s)
      else gen_le32 c s)"

definition gen_addrpc32 :: "u32 \<Rightarrow> nat \<Rightarrow> u32 \<Rightarrow> cgen \<Rightarrow> cgen" where
  "gen_addrpc32 r symc c s =
     (if r AND 0x0200 \<noteq> 0 then gen_le32 (4 - 4) (greloca symc (ind s) 2 (scast (c - 4)) s)
      else gen_le32 (c - 4) s)"

definition fits_char :: "u32 \<Rightarrow> bool" where
  "fits_char c \<longleftrightarrow> c = scast (ucast c :: u8)"

definition gen_modrm :: "u32 \<Rightarrow> u32 \<Rightarrow> u32 \<Rightarrow> u32 \<Rightarrow> nat \<Rightarrow> u32 \<Rightarrow> cgen \<Rightarrow> cgen res" where
  "gen_modrm opcode ll op_reg_0 r symc c s =
     (let op_reg = push_bit 3 (op_reg_0 AND 7);
          s = orex ll r op_reg_0 opcode s
      in if r AND 0x3f = 0x30 then
           if r AND 0x0200 = 0 then
             let s = emit_o (0x04 OR op_reg) s in Inr (snd (oad 0x25 c s))
           else
             let s = emit_o (0x05 OR op_reg) s
             in if op_reg_0 AND 0x20 \<noteq> 0 then Inl ''internal error: no GOT on PE''
                else Inr (gen_addrpc32 r symc c s)
         else if r AND 0x3f = 0x32 then
           if fits_char c then Inr (emit_g c (emit_o (0x45 OR op_reg) s))
           else Inr (snd (oad (0x85 OR op_reg) c s))
         else if r AND 0x20 \<noteq> 0 \<and> c \<noteq> 0 then
           Inr (gen_le32 c (emit_g (0x80 OR op_reg OR (r AND 7)) s))
         else if r AND 0x0100 \<noteq> 0 then Inr (emit_g (0x00 OR op_reg OR (r AND 7)) s)
         else Inr (emit_g (0xc0 OR op_reg OR (r AND 7)) s))"

definition gen_offs_sp :: "u32 \<Rightarrow> u32 \<Rightarrow> u32 \<Rightarrow> cgen \<Rightarrow> cgen" where
  "gen_offs_sp b r d s =
     (let s = orex 1 0 (if r AND 0x100 \<noteq> 0 then 0 else r) b s
      in if fits_char d then emit_g d (emit_o (0x2444 OR push_bit 3 (r AND 7)) s)
         else gen_le32 d (emit_o (0x2484 OR push_bit 3 (r AND 7)) s))"

definition is64_type :: "u32 \<Rightarrow> bool" where
  "is64_type t \<longleftrightarrow> t AND 0x0f = 5 \<or> t AND 0x0f = 6 \<or> t AND 0x0f = 4"

text \<open>store: \<open>t\<close>, \<open>r\<close>, \<open>c\<close> and \<open>symc\<close> are the fields of the SValue.\<close>

definition store :: "u32 \<Rightarrow> u32 \<Rightarrow> u32 \<Rightarrow> u64 \<Rightarrow> nat \<Rightarrow> cgen \<Rightarrow> cgen res" where
  "store r v_t v_r v_c symc s =
     (let fc = ucast v_c :: u32; bt = v_t AND 0x0f
      in if scast fc \<noteq> v_c \<and> v_r AND 0x0200 \<noteq> 0 then Inl ''64 bit addend in store''
         else if bt = 8 then gen_modrm 0x7e0f66 0 (r AND 7) v_r symc fc s
         else if bt = 9 then gen_modrm 0xd60f66 0 (r AND 7) v_r symc fc s
         else if bt = 10 then gen_modrm 0xdb 0 7 v_r symc fc (emit_o 0xc0d9 s)
         else if bt = 1 \<or> bt = 11 then gen_modrm 0x88 0 r v_r symc fc s
         else if bt = 2 then gen_modrm 0x8966 0 r v_r symc fc s
         else gen_modrm 0x89 (if is64_type bt then 1 else 0) r v_r symc fc s)"

text \<open>
  load for a value that is not an lvalue (\<open>v\<close> = \<open>fr\<close> \<^verbatim>\<open>&\<close> VT_VALMASK): a constant or the address of a
  symbol, the address of a local, the flags, a pending jump, another register. The result is
  None where gsym does not return, the assertions of the code are error values.
\<close>

definition load_value ::
  "u32 \<Rightarrow> u32 \<Rightarrow> u32 \<Rightarrow> u64 \<Rightarrow> nat \<Rightarrow> u32 \<Rightarrow> cgen \<Rightarrow> cgen res option" where
  "load_value r fr ft sv_c symc cmp_r s =
     (let v = fr AND 0x3f; fc = ucast sv_c :: u32
      in if v = 0x30 then
           if fr AND 0x0200 \<noteq> 0 then Some (gen_modrm 0x8d 1 r fr symc fc s)
           else if is64_type ft then
             if drop_bit 32 sv_c \<noteq> 0 then
               Some (Inr (gen_le64 sv_c (orex 1 r 0 (0xb8 + (r AND 7)) s)))
             else if sv_c > 0 then
               Some (Inr (gen_le32 (ucast sv_c) (orex 0 r 0 (0xb8 + (r AND 7)) s)))
             else Some (Inr (emit_o (0xc0 + (r AND 7) * 9) (orex 0 r r 0x31 s)))
           else Some (Inr (gen_le32 fc (orex 0 r 0 (0xb8 + (r AND 7)) s)))
         else if v = 0x32 then Some (gen_modrm 0x8d 1 r 0x32 symc fc s)
         else if v = 0x33 then
           let (fc, s) =
             (if fc AND 0x100 \<noteq> 0 then
                let v = cmp_r; fc = fc AND NOT 0x100;
                    s = orex 0 r 0 (0xb0 + (r AND 7)) s;
                    s = emit_g (v XOR fc XOR (if v = 0x95 then 1 else 0)) s
                in (fc, emit_o (0x037a + push_bit 8 (rex_base r)) s)
              else (fc, s));
             s = emit_o fc (orex 0 r 0 0x0f s);
             s = emit_o (0xc0 + (r AND 7)) s;
             s = orex 0 r 0 0x0f s
           in Some (Inr (emit_o (0xc0b6 + (r AND 7) * 0x900) s))
         else if v = 0x34 \<or> v = 0x35 then
           let t = v AND 1;
               s = snd (oad (0xb8 + (r AND 7)) t (orex 0 r 0 0 s));
               s = emit_o (0x05eb + push_bit 8 (rex_base r)) s
           in map_option (\<lambda>s. Inr (snd (oad (0xb8 + (r AND 7)) (t XOR 1) (orex 0 r 0 0 s))))
                (gsym fc s)
         else if v \<noteq> r then
           if 16 \<le>s r \<and> r \<le>s 23 then
             if v = 24 then
               Some (Inr (emit_o 0xf024 (emit_o (0x44 + (r AND 7) * 8)
                 (emit_o 0x100ff2 (emit_o 0xf0245cdd s)))))
             else if \<not> (16 \<le> v \<and> v \<le> 23) then Some (Inl ''(v >= TREG_XMM0) && (v <= TREG_XMM7)'')
             else if ft AND 0x0f = 8 then
               Some (Inr (emit_o (0xc0 + (v AND 7) + (r AND 7) * 8) (emit_o 0x100ff3 s)))
             else if ft AND 0x0f \<noteq> 9 then Some (Inl ''(ft & VT_BTYPE) == VT_DOUBLE'')
             else Some (Inr (emit_o (0xc0 + (v AND 7) + (r AND 7) * 8) (emit_o 0x100ff2 s)))
           else if r = 24 then
             if \<not> (16 \<le> v \<and> v \<le> 23) then Some (Inl ''(v >= TREG_XMM0) && (v <= TREG_XMM7)'')
             else Some (Inr (emit_o 0xf02444dd (emit_o 0xf024 (emit_o (0x44 + (r AND 7) * 8)
                 (emit_o 0x110ff2 s)))))
           else Some (Inr (emit_o (0xc0 + (r AND 7) + (v AND 7) * 8)
                 (orex (if is64_type ft then 1 else 0) r v 0x89 s)))
         else Some (Inr s))"

subsection \<open>A decoder\<close>

text \<open>
  An operand: a register, a memory operand with a base register and a displacement, an absolute
  address, or an address relative to the end of the displacement field.
\<close>

datatype operand = RegOp nat | BaseOp nat u32 | AbsOp u32 | RipOp u32

definition sext8 :: "u8 \<Rightarrow> u32" where "sext8 b = scast b"

text \<open>ModRM byte, SIB byte and displacement; \<open>b\<close> is REX.B (0 or 1).\<close>

fun dec_rm :: "nat \<Rightarrow> u8 list \<Rightarrow> (operand \<times> u8 list) option" where
  "dec_rm b [] = None"
| "dec_rm b (m # bs) =
     (let md = drop_bit 6 m; rm = unat (m AND 7)
      in if md = 3 then Some (RegOp (rm + 8 * b), bs)
         else if rm = 4 then
           (case bs of
              [] \<Rightarrow> None
            | sib # ds \<Rightarrow>
                if md = 0 \<and> sib = 0x25 \<and> 4 \<le> length ds then Some (AbsOp (read32le ds 0), drop 4 ds)
                else if md = 1 \<and> sib = 0x24 \<and> 1 \<le> length ds then Some (BaseOp 4 (sext8 (hd ds)), tl ds)
                else if md = 2 \<and> sib = 0x24 \<and> 4 \<le> length ds then Some (BaseOp 4 (read32le ds 0), drop 4 ds)
                else None)
         else if md = 0 \<and> rm = 5 then
           if 4 \<le> length bs then Some (RipOp (read32le bs 0), drop 4 bs) else None
         else if md = 0 then Some (BaseOp (rm + 8 * b) 0, bs)
         else if md = 1 then
           if bs \<noteq> [] then Some (BaseOp (rm + 8 * b) (sext8 (hd bs)), tl bs) else None
         else if 4 \<le> length bs then Some (BaseOp (rm + 8 * b) (read32le bs 0), drop 4 bs) else None)"

record insn =
  i_prefix :: "u8 list"
  i_wide :: bool
  i_opcode :: "u8 list"
  i_reg :: nat
  i_rm :: operand

definition is_prefix :: "u8 \<Rightarrow> bool" where
  "is_prefix b \<longleftrightarrow> b = 0x66 \<or> b = 0xf2 \<or> b = 0xf3"

definition is_rex :: "u8 \<Rightarrow> bool" where "is_rex b \<longleftrightarrow> drop_bit 4 b = 4"

fun dec_opcode :: "u8 list \<Rightarrow> (u8 list \<times> u8 list) option" where
  "dec_opcode [] = None"
| "dec_opcode (b # bs) =
     (if b = 0x0f then (case bs of [] \<Rightarrow> None | c # cs \<Rightarrow> Some ([b, c], cs)) else Some ([b], bs))"

text \<open>A REX prefix counts only right before the opcode, after the legacy prefixes.\<close>

definition dec_insn :: "u8 list \<Rightarrow> (insn \<times> u8 list) option" where
  "dec_insn bs =
     (let ps = takeWhile is_prefix bs; r1 = dropWhile is_prefix bs;
          (rex, r2) = (if r1 \<noteq> [] \<and> is_rex (hd r1) then (hd r1, tl r1) else (0, r1))
      in case dec_opcode r2 of
           None \<Rightarrow> None
         | Some (opc, r3) \<Rightarrow>
             map_option (\<lambda>(rm, rest).
                (\<lparr>i_prefix = ps, i_wide = bit rex 3, i_opcode = opc,
                  i_reg = unat (drop_bit 3 (hd r3) AND 7) + (if bit rex 2 then 8 else 0),
                  i_rm = rm\<rparr>, rest))
               (dec_rm (if bit rex 0 then 1 else 0) r3))"

subsection \<open>The bytes of the emitters\<close>

definition orex_bytes :: "u32 \<Rightarrow> u32 \<Rightarrow> u32 \<Rightarrow> u32 \<Rightarrow> u8 list" where
  "orex_bytes ll r r2 b =
     (let r = (if r AND 0x3f \<ge> 0x30 then 0 else r);
          r2 = (if r2 AND 0x3f \<ge> 0x30 then 0 else r2);
          rex = o_bytes (0x40 OR rex_base r OR push_bit 2 (rex_base r2) OR push_bit 3 ll)
      in if ll \<noteq> 0 \<or> rex_base r \<noteq> 0 \<or> rex_base r2 \<noteq> 0 then
           if b AND 0xff = 0x66 then o_bytes 0x66 @ rex @ o_bytes (signed_drop_bit 8 b)
           else rex @ o_bytes b
         else o_bytes b)"

lemma orex_emit [emit_simps]: "orex ll r r2 b s = emit (orex_bytes ll r r2 b) s"
  by (simp add: orex_def orex_bytes_def Let_def emit_simps)

lemma oad_emit: "nocode_wanted s = 0 \<Longrightarrow> snd (oad c v s) = emit (o_bytes c @ le32 v) s"
  by (simp add: oad_def emit_simps Let_def)

lemma o_bytes_one: "x \<noteq> 0 \<Longrightarrow> drop_bit 8 x = 0 \<Longrightarrow> o_bytes x = [ucast x]"
  by (subst o_bytes.simps, subst o_bytes.simps) simp

lemma o_bytes_0 [simp]: "o_bytes 0 = []"
  by (subst o_bytes.simps) simp

lemma o_bytes_step: "x \<noteq> 0 \<Longrightarrow> o_bytes x = ucast x # o_bytes (drop_bit 8 x)"
  by (subst o_bytes.simps) simp

text \<open>The opcodes gen_modrm is used with: prefix and opcode bytes.\<close>

definition modrm_opcodes :: "(u32 \<times> u8 list \<times> u8 list) list" where
  "modrm_opcodes =
     [(0x8b, [], [0x8b]), (0x8d, [], [0x8d]), (0x89, [], [0x89]), (0x88, [], [0x88]),
      (0xdb, [], [0xdb]), (0x80, [], [0x80]),
      (0xbe0f, [], [0x0f, 0xbe]), (0xb60f, [], [0x0f, 0xb6]), (0xbf0f, [], [0x0f, 0xbf]),
      (0xb70f, [], [0x0f, 0xb7]), (0x8966, [0x66], [0x89]), (0x6e0f66, [0x66], [0x0f, 0x6e]),
      (0x7e0f66, [0x66], [0x0f, 0x7e]), (0xd60f66, [0x66], [0x0f, 0xd6]),
      (0x7e0ff3, [0xf3], [0x0f, 0x7e])]"

definition rex_reg :: "u32 \<Rightarrow> u32" where
  "rex_reg r = (if r AND 0x3f \<ge> 0x30 then 0 else rex_base r)"

lemma rex_base_cases: "rex_base r = 0 \<or> rex_base r = 1"
proof -
  have "rex_base r = of_bool (bit r 3)"
    unfolding rex_base_def by (rule bit_word_eqI) (auto simp: bit_simps)
  then show ?thesis by (cases "bit r 3") auto
qed

lemma rex_base_0: "rex_base 0 = 0"
  by (simp add: rex_base_def)

lemma rex_reg_cases: "rex_reg r = 0 \<or> rex_reg r = 1"
  using rex_base_cases by (auto simp: rex_reg_def)

lemma orex_bytes_rex:
  "orex_bytes ll r r2 b =
     (if ll \<noteq> 0 \<or> rex_reg r \<noteq> 0 \<or> rex_reg r2 \<noteq> 0 then
        (let rex = o_bytes (0x40 OR rex_reg r OR push_bit 2 (rex_reg r2) OR push_bit 3 ll)
         in if b AND 0xff = 0x66 then o_bytes 0x66 @ rex @ o_bytes (signed_drop_bit 8 b)
            else rex @ o_bytes b)
      else o_bytes b)"
  by (cases "ll = 0"; cases "rex_reg r = 0"; cases "rex_reg r2 = 0";
      cases "48 \<le> r AND 63"; cases "48 \<le> r2 AND 63")
     (simp_all add: orex_bytes_def rex_reg_def Let_def rex_base_0)

lemma opcode_bytes:
  "(b, ps, opc) \<in> set modrm_opcodes \<Longrightarrow>
   o_bytes b = ps @ opc \<and> (b AND 0xff = 0x66 \<longleftrightarrow> ps = [0x66]) \<and>
   (ps = [0x66] \<longrightarrow> o_bytes (signed_drop_bit 8 b) = opc)"
  unfolding modrm_opcodes_def
  by (auto simp: o_bytes_step)

subsection \<open>Decoding what was emitted\<close>

lemma dec_opcode_table:
  "(b, ps, opc) \<in> set modrm_opcodes \<Longrightarrow>
   dec_opcode (opc @ xs) = Some (opc, xs) \<and> takeWhile is_prefix (ps @ opc @ xs) = ps \<and>
   dropWhile is_prefix (ps @ opc @ xs) = opc @ xs \<and> opc \<noteq> [] \<and> \<not> is_rex (hd opc) \<and>
   (ps = [] \<or> ps = [0x66] \<or> ps = [0xf3])"
  unfolding modrm_opcodes_def by (auto simp: is_prefix_def is_rex_def)

lemma rex_byte:
  assumes "B = 0 \<or> B = 1" "R = 0 \<or> R = 1" "W = 0 \<or> W = (1 :: u32)"
  shows "\<exists>x. o_bytes (0x40 OR B OR push_bit 2 R OR push_bit 3 W) = [x] \<and> is_rex x \<and>
     \<not> is_prefix x \<and> bit x 0 = (B = 1) \<and> bit x 2 = (R = 1) \<and> bit x 3 = (W = 1)"
  using assms by (elim disjE) (simp_all add: o_bytes_step is_rex_def is_prefix_def)

text \<open>Prefixes, REX and opcode: the decoder finds what orex was given, and goes on at the ModRM byte.\<close>

lemma dec_orex:
  assumes b: "(b, ps, opc) \<in> set modrm_opcodes" and ll: "ll = 0 \<or> ll = 1"
    and f3: "ps = [0xf3] \<longrightarrow> ll = 0 \<and> rex_reg r = 0 \<and> rex_reg r2 = 0"
  shows "dec_insn (orex_bytes ll r r2 b @ m # ds) =
     map_option (\<lambda>(rm, rest).
        (\<lparr>i_prefix = ps, i_wide = (ll = 1), i_opcode = opc,
          i_reg = unat (drop_bit 3 m AND 7) + (if rex_reg r2 = 1 then 8 else 0), i_rm = rm\<rparr>, rest))
       (dec_rm (if rex_reg r = 1 then 1 else 0) (m # ds))"
proof -
  note t = dec_opcode_table [OF b, of "m # ds"] and o = opcode_bytes [OF b]
  obtain x where x: "o_bytes (0x40 OR rex_reg r OR push_bit 2 (rex_reg r2) OR push_bit 3 ll) = [x]"
      "is_rex x" "\<not> is_prefix x" "bit x 0 = (rex_reg r = 1)" "bit x 2 = (rex_reg r2 = 1)"
      "bit x 3 = (ll = 1)"
    using rex_byte [OF rex_reg_cases rex_reg_cases ll] by blast
  show ?thesis
  proof (cases "ll \<noteq> 0 \<or> rex_reg r \<noteq> 0 \<or> rex_reg r2 \<noteq> 0")
    case False
    then have e: "orex_bytes ll r r2 b @ m # ds = ps @ opc @ m # ds"
      using o by (simp add: orex_bytes_rex)
    have "hd (opc @ m # ds) = hd opc" using t by simp
    with False t show ?thesis
      unfolding e by (simp add: dec_insn_def)
  next
    case True
    have e: "orex_bytes ll r r2 b @ m # ds = ps @ [x] @ opc @ m # ds"
      using True o f3 x(1) t by (auto simp: orex_bytes_rex Let_def o_bytes_step [of "0x66"])
    have p: "\<forall>y\<in>set ps. is_prefix y" using t by (auto simp: is_prefix_def)
    then have "takeWhile is_prefix (ps @ [x] @ opc @ m # ds) = ps"
        "dropWhile is_prefix (ps @ [x] @ opc @ m # ds) = [x] @ opc @ m # ds"
      using x(3) by (simp_all add: takeWhile_tail dropWhile_append)
    with x(2,4,5,6) t show ?thesis
      unfolding e by (simp add: dec_insn_def)
  qed
qed

definition mrm :: "u32 \<Rightarrow> u32 \<Rightarrow> u32 \<Rightarrow> u8" where
  "mrm k a b = ucast (k OR push_bit 3 (a AND 7) OR (b AND 7))"

lemma and_7_mask: "x AND 7 = take_bit 3 (x :: 'a::len word)"
  by (simp add: take_bit_eq_mask mask_eq_exp_minus_1)

lemma mrm_fields:
  assumes "take_bit 6 k = 0" "drop_bit 8 k = 0"
  shows "drop_bit 6 (mrm k a b) = ucast (drop_bit 6 k)" "drop_bit 3 (mrm k a b) AND 7 = ucast (a AND 7)"
    "mrm k a b AND 7 = ucast (b AND 7)"
proof -
  have k: "\<not> bit k n" if "n < 6" for n
    using assms(1) that by (metis bit_0_eq bit_take_bit_iff bot_apply bot_bool_def)
  have k8: "\<not> bit k (6 + n)" if "2 \<le> n" for n
  proof -
    have "bit k (6 + n) = bit (drop_bit 8 k) (n - 2)" using that by (simp add: bit_drop_bit_eq)
    then show ?thesis unfolding assms(2) by simp
  qed
  show "drop_bit 6 (mrm k a b) = ucast (drop_bit 6 k)"
    unfolding mrm_def and_7_mask
    by (rule bit_word_eqI) (use k8 in \<open>auto simp: bit_simps not_less [symmetric]\<close>)
  show "drop_bit 3 (mrm k a b) AND 7 = ucast (a AND 7)"
    unfolding mrm_def and_7_mask by (rule bit_word_eqI) (auto simp: bit_simps k)
  show "mrm k a b AND 7 = ucast (b AND 7)"
    unfolding mrm_def and_7_mask by (rule bit_word_eqI) (auto simp: bit_simps k)
qed

lemma unat_and_mask: "unat (r AND mask n) = unat r mod 2 ^ n"
  unfolding take_bit_eq_mask [symmetric] unsigned_take_bit_eq by (rule take_bit_eq_mod)

lemma unat_mod_16: "unat (r AND 15) = unat (r AND 7) + 8 * unat (rex_base r)" for r :: u32
proof -
  have m: "(15 :: u32) = mask 4" "(7 :: u32) = mask 3" "(1 :: u32) = mask 1"
    by (simp_all add: mask_eq_exp_minus_1)
  have "unat (drop_bit 3 r) = unat r div 2 ^ 3" by (subst unat_drop_bit_eq) (rule drop_bit_eq_div)
  then show ?thesis
    unfolding rex_base_def m unat_and_mask using mod_mult2_eq [of "unat r" 8 2] by simp
qed

definition rex_no :: "u32 \<Rightarrow> nat" where "rex_no r = (if rex_reg r = 1 then 1 else 0)"

lemma unat_and_7: "unat (ucast (a AND 7 :: u32) :: u8) = unat (a AND 7)"
proof -
  have "unat (a AND 7) < 8"
    using unat_and_mask [of a 3] by (simp add: mask_eq_exp_minus_1)
  then show ?thesis by (simp add: unsigned_ucast_eq take_bit_nat_eq_self)
qed

text \<open>The number of a register of the code generator (a TREG value) as the processor sees it.\<close>

definition reg_no :: "u32 \<Rightarrow> nat" where "reg_no r = unat (r AND 15)"

lemma reg_no_decoded:
  "r AND 0x3f < 0x30 \<Longrightarrow> unat (ucast (r AND 7) :: u8) + 8 * rex_no r = reg_no r"
  using unat_mod_16 [of r] rex_base_cases [of r]
  by (auto simp: reg_no_def rex_no_def rex_reg_def unat_and_7)

definition modrm_operand :: "u32 \<Rightarrow> u32 \<Rightarrow> operand" where
  "modrm_operand r c =
     (if r AND 0x3f = 0x30 then if r AND 0x200 = 0 then AbsOp c else RipOp 0
      else if r AND 0x3f = 0x32 then BaseOp 5 c
      else if r AND 0x20 \<noteq> 0 \<and> c \<noteq> 0 then BaseOp (reg_no r) c
      else if r AND 0x100 \<noteq> 0 then BaseOp (reg_no r) 0
      else RegOp (reg_no r))"

definition addressable :: "u32 \<Rightarrow> u32 \<Rightarrow> bool" where
  "addressable r c \<longleftrightarrow>
     r AND 0x3f = 0x30 \<or> r AND 0x3f = 0x32 \<or>
     r AND 0x3f < 0x30 \<and>
       (r AND 0x20 \<noteq> 0 \<and> c \<noteq> 0 \<or> r AND 0x100 \<noteq> 0 \<longrightarrow> r AND 7 \<noteq> 4 \<and> r AND 7 \<noteq> 5)"

text \<open>The ModRM byte and what follows it.\<close>

definition modrm_tail :: "u32 \<Rightarrow> u32 \<Rightarrow> u32 \<Rightarrow> u8 list" where
  "modrm_tail op_reg r c =
     (if r AND 0x3f = 0x30 then
        if r AND 0x200 = 0 then mrm 0 op_reg 4 # 0x25 # le32 c else mrm 0 op_reg 5 # le32 0
      else if r AND 0x3f = 0x32 then
        if fits_char c then [mrm 0x40 op_reg 5, ucast c] else mrm 0x80 op_reg 5 # le32 c
      else if r AND 0x20 \<noteq> 0 \<and> c \<noteq> 0 then mrm 0x80 op_reg r # le32 c
      else if r AND 0x100 \<noteq> 0 then [mrm 0 op_reg r]
      else [mrm 0xc0 op_reg r])"

lemma o_bytes_mrm:
  assumes "drop_bit 8 k = 0" "b AND 7 \<noteq> 0"
  shows "o_bytes (k OR push_bit 3 (a AND 7) OR (b AND 7)) = [mrm k a b]"
proof -
  have "drop_bit 8 (push_bit 3 (a AND 7)) = 0" "drop_bit 8 (b AND 7) = 0"
    unfolding and_7_mask by (rule bit_word_eqI; auto simp: bit_simps)+
  then have "drop_bit 8 (k OR push_bit 3 (a AND 7) OR (b AND 7)) = 0"
    using assms(1) by simp
  moreover have "k OR push_bit 3 (a AND 7) OR (b AND 7) \<noteq> 0"
    using assms(2) by (metis or_eq_0_iff)
  ultimately show ?thesis by (simp add: mrm_def o_bytes_one)
qed

lemma mrm_o_bytes:
  "o_bytes (0x04 OR push_bit 3 (a AND 7)) = [mrm 0 a 4]"
  "o_bytes (0x05 OR push_bit 3 (a AND 7)) = [mrm 0 a 5]"
  "o_bytes (0x45 OR push_bit 3 (a AND 7)) = [mrm 0x40 a 5]"
  "o_bytes (0x85 OR push_bit 3 (a AND 7)) = [mrm 0x80 a 5]"
proof -
  have e: "x OR push_bit 3 (a AND 7) = k OR push_bit 3 (a AND 7) OR (v AND 7)"
    if "x = k OR (v AND 7)" for x k v :: u32
    unfolding that by (simp only: or.assoc or.commute or.left_commute)
  show "o_bytes (0x04 OR push_bit 3 (a AND 7)) = [mrm 0 a 4]"
    using e [of "0x04" 0 4] o_bytes_mrm [of 0 4 a] by simp
  show "o_bytes (0x05 OR push_bit 3 (a AND 7)) = [mrm 0 a 5]"
    using e [of "0x05" 0 5] o_bytes_mrm [of 0 5 a] by simp
  show "o_bytes (0x45 OR push_bit 3 (a AND 7)) = [mrm 0x40 a 5]"
    using e [of "0x45" "0x40" 5] o_bytes_mrm [of "0x40" 5 a] by simp
  show "o_bytes (0x85 OR push_bit 3 (a AND 7)) = [mrm 0x80 a 5]"
    using e [of "0x85" "0x80" 5] o_bytes_mrm [of "0x80" 5 a] by simp
qed

lemma read32le_le32_0 [simp]: "read32le (le32 v) 0 = v"
  using read32le_le32 [of "[]"] by simp

lemma length_le32 [simp]: "length (le32 v) = 4" "drop 4 (le32 v) = []" "le32 v \<noteq> []"
  by (simp_all add: le32_def)

lemma dec_rm_plain:
  assumes "m AND 7 \<noteq> 4"
  shows "drop_bit 6 m = 3 \<Longrightarrow> dec_rm b (m # bs) = Some (RegOp (unat (m AND 7) + 8 * b), bs)"
    and "drop_bit 6 m = 0 \<Longrightarrow> m AND 7 \<noteq> 5 \<Longrightarrow>
      dec_rm b (m # bs) = Some (BaseOp (unat (m AND 7) + 8 * b) 0, bs)"
    and "drop_bit 6 m = 0 \<Longrightarrow> m AND 7 = 5 \<Longrightarrow> dec_rm b (m # le32 v) = Some (RipOp v, [])"
    and "drop_bit 6 m = 1 \<Longrightarrow>
      dec_rm b (m # [d]) = Some (BaseOp (unat (m AND 7) + 8 * b) (sext8 d), [])"
    and "drop_bit 6 m = 2 \<Longrightarrow>
      dec_rm b (m # le32 v) = Some (BaseOp (unat (m AND 7) + 8 * b) v, [])"
proof -
  have "unat (m AND 7) \<noteq> unat (4 :: u8)" using assms by (metis word_unat_eq_iff)
  then have n4: "unat (m AND 7) \<noteq> 4" by simp
  show "drop_bit 6 m = 3 \<Longrightarrow> dec_rm b (m # bs) = Some (RegOp (unat (m AND 7) + 8 * b), bs)"
    by simp
  show "dec_rm b (m # bs) = Some (BaseOp (unat (m AND 7) + 8 * b) 0, bs)"
    if "drop_bit 6 m = 0" "m AND 7 \<noteq> 5"
  proof -
    have "unat (m AND 7) \<noteq> unat (5 :: u8)" using that by (metis word_unat_eq_iff)
    with n4 that show ?thesis by simp
  qed
  show "drop_bit 6 m = 0 \<Longrightarrow> m AND 7 = 5 \<Longrightarrow> dec_rm b (m # le32 v) = Some (RipOp v, [])"
    by simp
  show "drop_bit 6 m = 1 \<Longrightarrow>
      dec_rm b (m # [d]) = Some (BaseOp (unat (m AND 7) + 8 * b) (sext8 d), [])"
    using n4 by simp
  show "drop_bit 6 m = 2 \<Longrightarrow>
      dec_rm b (m # le32 v) = Some (BaseOp (unat (m AND 7) + 8 * b) v, [])"
    using n4 by simp
qed

lemma ucast_7_eq: "v < 8 \<Longrightarrow> ucast (r AND 7 :: u32) = (v :: u8) \<longleftrightarrow> r AND 7 = ucast v"
proof
  assume "ucast (r AND 7) = v" "v < 8"
  then have "ucast (ucast (r AND 7) :: u8) = (ucast v :: u32)" by simp
  moreover have "ucast (ucast (r AND 7) :: u8) = r AND (7 :: u32)"
    unfolding and_7_mask by (rule bit_word_eqI) (auto simp: bit_simps)
  ultimately show "r AND 7 = ucast v" by simp
next
  assume "r AND 7 = ucast v"
  moreover have "ucast (ucast v :: u32) = v" by (rule bit_word_eqI) (auto simp: bit_simps)
  ultimately show "ucast (r AND 7) = v" by simp
qed

lemma dec_modrm_tail:
  assumes "addressable r c"
  shows "\<exists>m ds. modrm_tail op_reg r c = m # ds \<and> drop_bit 3 m AND 7 = ucast (op_reg AND 7) \<and>
           dec_rm (rex_no r) (m # ds) = Some (modrm_operand r c, [])"
proof -
  have k: "take_bit 6 k = 0 \<and> drop_bit 8 k = 0" if "k \<in> {0, 0x40, 0x80, 0xc0}" for k :: u32
    using that by auto
  note mrm = mrm_fields [OF k [THEN conjunct1] k [THEN conjunct2]]
  consider (abs) "r AND 0x3f = 0x30" "r AND 0x200 = 0" | (rip) "r AND 0x3f = 0x30" "r AND 0x200 \<noteq> 0"
    | (loc8) "r AND 0x3f = 0x32" "fits_char c" | (loc32) "r AND 0x3f = 0x32" "\<not> fits_char c"
    | (mem) "r AND 0x3f < 0x30" "r AND 0x20 \<noteq> 0 \<and> c \<noteq> 0"
    | (ind) "r AND 0x3f < 0x30" "\<not> (r AND 0x20 \<noteq> 0 \<and> c \<noteq> 0)" "r AND 0x100 \<noteq> 0"
    | (reg) "r AND 0x3f < 0x30" "\<not> (r AND 0x20 \<noteq> 0 \<and> c \<noteq> 0)" "r AND 0x100 = 0"
    using assms unfolding addressable_def by blast
  then show ?thesis
  proof cases
    case abs
    then show ?thesis by (simp add: modrm_tail_def modrm_operand_def mrm)
  next
    case rip
    then show ?thesis
      by (simp add: modrm_tail_def modrm_operand_def mrm dec_rm_plain)
  next
    case loc8
    have "sext8 (ucast c) = c" using loc8 by (simp add: sext8_def fits_char_def)
    with loc8 show ?thesis
      by (simp add: modrm_tail_def modrm_operand_def mrm dec_rm_plain rex_no_def rex_reg_def)
  next
    case loc32
    then show ?thesis
      by (simp add: modrm_tail_def modrm_operand_def mrm dec_rm_plain rex_no_def rex_reg_def)
  next
    case mem
    then have ne: "r AND 0x3f \<noteq> 0x30" "r AND 0x3f \<noteq> 0x32" "r AND 7 \<noteq> 4"
      using assms by (auto simp: addressable_def)
    then have "mrm 0x80 op_reg r AND 7 \<noteq> 4" by (simp add: mrm ucast_7_eq)
    with mem ne show ?thesis
      by (simp add: modrm_tail_def modrm_operand_def mrm dec_rm_plain reg_no_decoded del: dec_rm.simps)
  next
    case ind
    then have ne: "r AND 0x3f \<noteq> 0x30" "r AND 0x3f \<noteq> 0x32" "r AND 7 \<noteq> 4" "r AND 7 \<noteq> 5"
      using assms by (auto simp: addressable_def)
    then have "mrm 0 op_reg r AND 7 \<noteq> 4" "mrm 0 op_reg r AND 7 \<noteq> 5" by (simp_all add: mrm ucast_7_eq)
    with ind ne show ?thesis
      by (simp add: modrm_tail_def modrm_operand_def mrm dec_rm_plain reg_no_decoded del: dec_rm.simps)
  next
    case reg
    then have ne: "r AND 0x3f \<noteq> 0x30" "r AND 0x3f \<noteq> 0x32" by auto
    with reg have "modrm_tail op_reg r c = [mrm 0xc0 op_reg r]" "modrm_operand r c = RegOp (reg_no r)"
      unfolding modrm_tail_def modrm_operand_def by (simp_all only: if_False simp_thms)
    with reg show ?thesis by (simp add: mrm reg_no_decoded)
  qed
qed

lemma mrm_ucast: "ucast (k OR push_bit 3 (a AND 7) OR (r AND 7)) = mrm k a r"
  by (simp add: mrm_def)

lemma gen_modrm_code:
  assumes s: "emitting s" and g: "gen_modrm opcode ll op_reg r symc c s = Inr s'"
  shows "code s' = code s @ orex_bytes ll r op_reg opcode @ modrm_tail op_reg r c \<and> emitting s' \<and>
     relas s' = relas s @ (if r AND 0x3f = 0x30 \<and> r AND 0x200 \<noteq> 0
        then [(ind s' - 4, 2, symc, scast (c - 4))] else [])"
proof -
  let ?s = "emit (orex_bytes ll r op_reg opcode) s"
  note e = emit_code [OF s] and e2 = emit_code [OF emit_code(1) [OF s]]
  have nc: "nocode_wanted (emit bs s) = 0" for bs using e(1) by (simp add: emitting_def)
  have one: "emit_g c t = emit [ucast c] t" for c t by (rule emit_g_emit)
  consider (abs) "r AND 0x3f = 0x30" "r AND 0x200 = 0" | (rip) "r AND 0x3f = 0x30" "r AND 0x200 \<noteq> 0"
    | (loc8) "r AND 0x3f = 0x32" "fits_char c" | (loc32) "r AND 0x3f = 0x32" "\<not> fits_char c"
    | (mem) "r AND 0x3f \<noteq> 0x30" "r AND 0x3f \<noteq> 0x32" "r AND 0x20 \<noteq> 0 \<and> c \<noteq> 0"
    | (ind) "r AND 0x3f \<noteq> 0x30" "r AND 0x3f \<noteq> 0x32" "\<not> (r AND 0x20 \<noteq> 0 \<and> c \<noteq> 0)" "r AND 0x100 \<noteq> 0"
    | (reg) "r AND 0x3f \<noteq> 0x30" "r AND 0x3f \<noteq> 0x32" "\<not> (r AND 0x20 \<noteq> 0 \<and> c \<noteq> 0)" "r AND 0x100 = 0"
    by blast
  then show ?thesis
  proof cases
    case abs
    have "s' = emit (modrm_tail op_reg r c) ?s"
      using g abs nc
      by (simp add: gen_modrm_def Let_def modrm_tail_def emit_o_emit gen_le32_emit orex_emit oad_emit mrm_o_bytes o_bytes_step
          emit_append [symmetric] del: emit.simps push_bit_and)
    with abs e2 e show ?thesis by (simp del: emit.simps)
  next
    case rip
    let ?t = "emit [mrm 0 op_reg 5] ?s"
    have "s' = emit (le32 0) (?t\<lparr>relas := relas ?t @ [(ind ?t, 2, symc, scast (c - 4))]\<rparr>)"
      using g rip nc
      by (simp add: gen_modrm_def Let_def gen_addrpc32_def emit_o_emit gen_le32_emit orex_emit mrm_o_bytes greloca_def
          emit_append [symmetric] split: if_splits del: emit.simps push_bit_and)
    moreover have "emitting (?t\<lparr>relas := x\<rparr>)" "code (?t\<lparr>relas := x\<rparr>) = code ?t" for x
      using e2(1) by (simp_all add: emitting_def code_def del: emit.simps)
    ultimately show ?thesis
      using rip e2 e emit_code [of "?t\<lparr>relas := relas ?t @ [(ind ?t, 2, symc, scast (c - 4))]\<rparr>" "le32 0"]
      by (simp add: modrm_tail_def del: emit.simps)
  next
    case loc8
    have "s' = emit (modrm_tail op_reg r c) ?s"
      using g loc8
      by (simp add: gen_modrm_def Let_def modrm_tail_def emit_o_emit gen_le32_emit orex_emit mrm_o_bytes one
          emit_append [symmetric] del: emit.simps push_bit_and)
    with loc8 e2 e show ?thesis by (simp del: emit.simps)
  next
    case loc32
    have "s' = emit (modrm_tail op_reg r c) ?s"
      using g loc32 nc
      by (simp add: gen_modrm_def Let_def modrm_tail_def emit_o_emit gen_le32_emit orex_emit oad_emit mrm_o_bytes
          emit_append [symmetric] del: emit.simps push_bit_and)
    with loc32 e2 e show ?thesis by (simp del: emit.simps)
  next
    case mem
    have "s' = emit (modrm_tail op_reg r c) ?s"
      using g mem
      by (simp add: gen_modrm_def Let_def modrm_tail_def emit_o_emit gen_le32_emit orex_emit one mrm_ucast
          emit_append [symmetric] del: emit.simps push_bit_and)
    with mem e2 e show ?thesis by (simp del: emit.simps)
  next
    case ind
    have "s' = emit [mrm 0 op_reg r] ?s"
      using g ind unfolding gen_modrm_def Let_def
      by (auto simp: emit_o_emit gen_le32_emit orex_emit one mrm_def simp del: emit.simps push_bit_and)
    with ind e2 e show ?thesis by (auto simp: modrm_tail_def simp del: emit.simps)
  next
    case reg
    have "s' = emit [mrm 0xc0 op_reg r] ?s"
      using g reg unfolding gen_modrm_def Let_def
      by (auto simp: emit_o_emit gen_le32_emit orex_emit one mrm_def simp del: emit.simps push_bit_and)
    with reg e2 e show ?thesis by (auto simp: modrm_tail_def simp del: emit.simps)
  qed
qed

text \<open>
  C13: the ModRM emitter is right about the machine: for every opcode the compiler uses it with, what
  it appends decodes, by the instruction format of the processor, to exactly that opcode with the
  register and the operand that were asked for (a register, a local at rbp + c, the memory at a
  register, with or without displacement, an absolute address, a symbol), with nothing left over;
  a reference to a symbol leaves one PC-relative relocation at the displacement field. Base
  registers must not be those whose number means a SIB byte or no base (rsp, rbp, r12, r13; the
  compiler never allocates them), and an F3 prefix goes with registers that need no REX.
\<close>

theorem gen_modrm_decodes:
  assumes "emitting s" "(b, ps, opc) \<in> set modrm_opcodes" "ll = 0 \<or> ll = 1" "addressable r c"
    and "op_reg AND 0x3f < 0x30"
    and "ps = [0xf3] \<longrightarrow> ll = 0 \<and> rex_reg r = 0 \<and> rex_reg op_reg = 0"
    and "gen_modrm b ll op_reg r symc c s = Inr s'"
  shows "\<exists>bs. code s' = code s @ bs \<and>
           dec_insn bs = Some (\<lparr>i_prefix = ps, i_wide = (ll = 1), i_opcode = opc,
             i_reg = reg_no op_reg, i_rm = modrm_operand r c\<rparr>, []) \<and>
           relas s' = relas s @ (if r AND 0x3f = 0x30 \<and> r AND 0x200 \<noteq> 0
             then [(ind s' - 4, 2, symc, scast (c - 4))] else [])"
proof -
  obtain m ds where t: "modrm_tail op_reg r c = m # ds" "drop_bit 3 m AND 7 = ucast (op_reg AND 7)"
      "dec_rm (rex_no r) (m # ds) = Some (modrm_operand r c, [])"
    using dec_modrm_tail [OF assms(4)] by blast
  have "unat (drop_bit 3 m AND 7) + (if rex_reg op_reg = 1 then 8 else 0) = reg_no op_reg"
    using reg_no_decoded [OF assms(5)] t(2) by (cases "rex_reg op_reg = 1") (simp_all add: rex_no_def)
  then have "dec_insn (orex_bytes ll r op_reg b @ modrm_tail op_reg r c) =
      Some (\<lparr>i_prefix = ps, i_wide = (ll = 1), i_opcode = opc,
             i_reg = reg_no op_reg, i_rm = modrm_operand r c\<rparr>, [])"
    using dec_orex [OF assms(2,3,6), of m ds] t by (simp add: rex_no_def del: dec_rm.simps)
  with gen_modrm_code [OF assms(1,7)] show ?thesis by blast
qed

theorem gen_modrm_decodes_witness:
  "\<exists>s' bs. gen_modrm 0x8b 1 9 0x32 0 (- 300) demo_gen = Inr s' \<and> code s' = code demo_gen @ bs \<and>
     dec_insn bs = Some (\<lparr>i_prefix = [], i_wide = True, i_opcode = [0x8b], i_reg = 9,
       i_rm = BaseOp 5 (- 300)\<rparr>, [])"
proof -
  have e: "emitting demo_gen" by (simp add: emitting_def demo_gen_def)
  have o: "(0x8b, [], [0x8b]) \<in> set modrm_opcodes" by (simp add: modrm_opcodes_def)
  have a: "addressable 0x32 (- 300)" by (simp add: addressable_def)
  obtain s' where g: "gen_modrm 0x8b 1 9 0x32 0 (- 300) demo_gen = Inr s'"
    by (cases "fits_char (- 300)") (simp_all add: gen_modrm_def Let_def)
  from gen_modrm_decodes [OF e o _ a _ _ g] show ?thesis
    using g by (auto simp: reg_no_def modrm_operand_def)
qed

text \<open>
  The moves load emits for constants, executed: the register they write (all 64 bits, a 32-bit
  operation clears the upper half) and its value.
\<close>

definition exec_mov :: "u8 list \<Rightarrow> (nat \<times> u64) option" where
  "exec_mov bs =
     (let (rex, r2) = (if bs \<noteq> [] \<and> is_rex (hd bs) then (hd bs, tl bs) else (0, bs));
          ext = (\<lambda>n. if bit rex n then 8 else 0)
      in case r2 of
           [] \<Rightarrow> None
         | opc # rest \<Rightarrow>
             if drop_bit 3 opc = 0x17 then
               let reg = unat (opc AND 7) + ext 0
               in if bit rex 3 then (if length rest = 8 then Some (reg, read64le rest 0) else None)
                  else if length rest = 4 then Some (reg, ucast (read32le rest 0)) else None
             else if opc = 0x31 then
               (case dec_rm (if bit rex 0 then 1 else 0) rest of
                  Some (RegOp rm, []) \<Rightarrow>
                    if unat (drop_bit 3 (hd rest) AND 7) + ext 2 = rm then Some (rm, 0) else None
                | _ \<Rightarrow> None)
             else None)"

lemma read64le_le64: "read64le (le64 c) 0 = c"
proof -
  have "read32le (le64 c) 0 = read32le (le32 (ucast c)) 0"
    "read32le (le64 c) 4 = read32le (le32 (ucast (drop_bit 32 c))) 0"
  proof -
    have u: "ucast (drop_bit n (ucast x :: u32)) = (ucast (drop_bit n x) :: u8)" if "n \<le> 24" for n and x :: u64
      using that by (intro bit_word_eqI) (auto simp: bit_simps)
    have v: "ucast (ucast x :: u32) = (ucast x :: u8)" for x :: u64
      by (intro bit_word_eqI) (auto simp: bit_simps)
    show "read32le (le64 c) 0 = read32le (le32 (ucast c)) 0"
      unfolding read32le_def read16le_def by (simp add: le64_def le32_def u v)
    show "read32le (le64 c) 4 = read32le (le32 (ucast (drop_bit 32 c))) 0"
      unfolding read32le_def read16le_def by (simp add: le64_def le32_def u v)
  qed
  then have "read64le (le64 c) 0 = ucast (ucast c :: u32) OR push_bit 32 (ucast (ucast (drop_bit 32 c) :: u32))"
    by (simp add: read64le_def)
  also have "\<dots> = c"
    by (rule bit_word_eqI) (auto simp: bit_simps)
  finally show ?thesis .
qed

lemma less_16_cases:
  "(r :: u32) < 16 \<Longrightarrow> r \<in> {0, 1, 2, 3, 4, 5, 6, 7, 8, 9, 10, 11, 12, 13, 14, 15}"
proof -
  assume "r < 16"
  then have "unat r < 16" by (simp add: word_less_nat_alt)
  then have "unat r \<in> {0, 1, 2, 3, 4, 5, 6, 7, 8, 9, 10, 11, 12, 13, 14, 15}"
    by (simp; presburger)
  then have "of_nat (unat r) \<in> (of_nat ` {0, 1, 2, 3, 4, 5, 6, 7, 8, 9, 10, 11, 12, 13, 14, 15} :: u32 set)"
    by (rule imageI)
  then show ?thesis by simp
qed

lemma exec_mov_bytes:
  assumes "r < 16"
  shows "exec_mov (orex_bytes 1 r 0 (0xb8 + (r AND 7)) @ le64 c) = Some (reg_no r, c)"
    "exec_mov (orex_bytes 0 r 0 (0xb8 + (r AND 7)) @ le32 d) = Some (reg_no r, ucast d)"
    "exec_mov (orex_bytes 0 r r 0x31 @ o_bytes (0xc0 + (r AND 7) * 9)) = Some (reg_no r, 0)"
proof -
  have l: "length (le64 c) = 8" by (simp add: le64_def)
  show "exec_mov (orex_bytes 1 r 0 (0xb8 + (r AND 7)) @ le64 c) = Some (reg_no r, c)"
    using less_16_cases [OF assms]
    by (elim insertE emptyE)
       (simp_all add: orex_bytes_def rex_base_def o_bytes_step exec_mov_def is_rex_def
         read64le_le64 l reg_no_def bit_simps)
  show "exec_mov (orex_bytes 0 r 0 (0xb8 + (r AND 7)) @ le32 d) = Some (reg_no r, ucast d)"
    using less_16_cases [OF assms]
    by (elim insertE emptyE)
       (simp_all add: orex_bytes_def rex_base_def o_bytes_step exec_mov_def is_rex_def reg_no_def
         bit_simps)
  show "exec_mov (orex_bytes 0 r r 0x31 @ o_bytes (0xc0 + (r AND 7) * 9)) = Some (reg_no r, 0)"
    using less_16_cases [OF assms]
    by (elim insertE emptyE)
       (simp_all add: orex_bytes_def rex_base_def o_bytes_step exec_mov_def is_rex_def reg_no_def
         bit_simps)
qed

text \<open>
  Note: loading a constant is right for every 64-bit value and every register: the instruction
  load chooses (a move of 64 bits, a move of 32 bits that clears the upper half, or an exclusive
  or of the register with itself for 0) leaves the constant in the register; for a type of at most
  32 bits, its low 32 bits.
\<close>

theorem load_constant:
  assumes "emitting s" "r < 16"
  shows "\<exists>s' bs. load_value r 0x30 ft c symc cmp_r s = Some (Inr s') \<and> code s' = code s @ bs \<and>
           exec_mov bs = Some (reg_no r, if is64_type ft then c else take_bit 32 c)"
proof -
  note e = emit_code [OF assms(1)] and x = exec_mov_bytes [OF assms(2)]
  have lc: "ucast (ucast c :: u32) = take_bit 32 c" by (rule bit_word_eqI) (auto simp: bit_simps)
  have le64: "gen_le64 c s = emit (le64 c) s" for s
  proof -
    have *: "ucast (ucast (signed_drop_bit n c) :: u32) = (ucast (drop_bit n c) :: u8)" if "n \<le> 56" for n
      using that by (intro bit_word_eqI) (auto simp: bit_simps min_def)
    have **: "ucast (ucast c :: u32) = (ucast c :: u8)" by (intro bit_word_eqI) (auto simp: bit_simps)
    show ?thesis
      unfolding gen_le64_def le64_def emit_g_emit emit_append [symmetric]
      by (simp add: * ** del: emit.simps)
  qed
  have or: "emitting s" and ap: "emit bs (emit as s) = emit (as @ bs) s" for as bs
    using assms(1) by (simp_all add: emit_append)
  note d = load_value_def Let_def orex_emit emit_o_emit gen_le32_emit le64 ap
  consider (wide) "is64_type ft" "drop_bit 32 c \<noteq> 0"
    | (low) "is64_type ft" "drop_bit 32 c = 0" "c > 0"
    | (zero) "is64_type ft" "c = 0"
    | (int) "\<not> is64_type ft"
    by (metis word_gt_0)
  then show ?thesis
  proof cases
    case wide
    then show ?thesis using e x(1) [of c] by (simp add: d del: emit.simps)
  next
    case low
    then have "take_bit 32 c = c"
      by (metis bits_ident push_bit_of_0 add_0)
    with low show ?thesis using e x(2) [of "ucast c"] lc by (simp add: d del: emit.simps)
  next
    case zero
    then show ?thesis using e x(3) by (simp add: d del: emit.simps)
  next
    case int
    then show ?thesis using e x(2) [of "ucast c"] lc by (simp add: d del: emit.simps)
  qed
qed

theorem load_constant_witness:
  "\<exists>s' bs. load_value 10 0x30 4 0x123456789 0 0 demo_gen = Some (Inr s') \<and>
     code s' = code demo_gen @ bs \<and> exec_mov bs = Some (10, 0x123456789)"
proof -
  have e: "emitting demo_gen" by (simp add: emitting_def demo_gen_def)
  from load_constant [OF e, of 10 4 "0x123456789" 0 0] show ?thesis
    by (simp add: reg_no_def is64_type_def)
qed

subsection \<open>Stores\<close>

text \<open>
  The bytes a decoded store instruction writes, by the processor's manual, and the size of a basic
  type (VT_BYTE 1, VT_SHORT 2, VT_INT 3, VT_LLONG 4, VT_PTR 5, VT_FUNC 6, VT_FLOAT 8, VT_DOUBLE 9,
  VT_LDOUBLE 10: 80 bits in memory, VT_BOOL 11).
\<close>

definition insn_store_bytes :: "insn \<Rightarrow> nat" where
  "insn_store_bytes i =
     (if i_opcode i = [0x88] then 1
      else if i_opcode i = [0x89] then if i_wide i then 8 else if i_prefix i = [0x66] then 2 else 4
      else if i_opcode i = [0x0f, 0x7e] \<and> i_prefix i = [0x66] then if i_wide i then 8 else 4
      else if i_opcode i = [0x0f, 0xd6] \<and> i_prefix i = [0x66] then 8
      else if i_opcode i = [0xdb] \<and> i_reg i = 7 then 10
      else 0)"

definition btype_bytes :: "u32 \<Rightarrow> nat" where
  "btype_bytes bt =
     (if bt = 1 \<or> bt = 11 then 1 else if bt = 2 then 2 else if bt = 3 \<or> bt = 8 then 4
      else if bt = 10 then 10 else 8)"

lemma gen_modrm_total: "op_reg AND 0x20 = 0 \<Longrightarrow> \<exists>s'. gen_modrm b ll op_reg r symc c s = Inr s'"
  by (simp add: gen_modrm_def Let_def)

lemma gen_modrm_insn:
  assumes "emitting s" "(b, ps, opc) \<in> set modrm_opcodes" "ll = 0 \<or> ll = 1" "addressable r c"
    and "op_reg AND 0x3f < 0x30" "op_reg AND 0x20 = 0" "ps \<noteq> [0xf3]"
  shows "\<exists>s' bs. gen_modrm b ll op_reg r symc c s = Inr s' \<and> code s' = code s @ bs \<and>
           dec_insn bs = Some (\<lparr>i_prefix = ps, i_wide = (ll = 1), i_opcode = opc,
             i_reg = reg_no op_reg, i_rm = modrm_operand r c\<rparr>, [])"
proof -
  obtain s' where g: "gen_modrm b ll op_reg r symc c s = Inr s'"
    using gen_modrm_total [OF assms(6)] by blast
  have f3: "ps = [0xf3] \<longrightarrow> ll = 0 \<and> rex_reg r = 0 \<and> rex_reg op_reg = 0" using assms(7) by simp
  obtain m ds where t: "modrm_tail op_reg r c = m # ds" "drop_bit 3 m AND 7 = ucast (op_reg AND 7)"
      "dec_rm (rex_no r) (m # ds) = Some (modrm_operand r c, [])"
    using dec_modrm_tail [OF assms(4)] by blast
  have "unat (drop_bit 3 m AND 7) + (if rex_reg op_reg = 1 then 8 else 0) = reg_no op_reg"
    using reg_no_decoded [OF assms(5)] t(2) by (cases "rex_reg op_reg = 1") (simp_all add: rex_no_def)
  then have "dec_insn (orex_bytes ll r op_reg b @ modrm_tail op_reg r c) =
      Some (\<lparr>i_prefix = ps, i_wide = (ll = 1), i_opcode = opc,
             i_reg = reg_no op_reg, i_rm = modrm_operand r c\<rparr>, [])"
    using dec_orex [OF assms(2,3) f3, of m ds] t by (simp add: rex_no_def del: dec_rm.simps)
  with gen_modrm_code [OF assms(1) g] g show ?thesis by blast
qed



end
