(* ===== verification/Structs.thy ===== *)
theory Structs
  imports Prelude
begin

text \<open>
  Types, their sizes, and the layout of structs (type_size, find_field, check_fields, struct_layout,
  lines 18345-18388 and 18869-19073). A CType is its code and the symbol it refers to; the list of a
  struct's fields, linked by next in C, is a list. Offsets and sizes are unbounded integers here: the
  32-bit arithmetic of the code is not modelled, so everything is about structs that fit. The codes:
  the low four bits of t are the basic type (7 struct, 5 pointer, 3 int, 4 long long ..), 0x80 marks a
  bit-field, whose position and width are in bits 20-25 and 26-31.
\<close>

datatype ctype = CType (ct_t: u32) (ct_ref: "csym option")
and csym = Sym (sv: u32) (sr: int) (sc: int) (stype: ctype) (snext: "csym list")
    (saligned: nat) (spacked: bool) (sauxtype: int)

section \<open>Sizes\<close>

text \<open>
  The size and the alignment. A struct or an enum always has its symbol; without one C would follow a
  null pointer, and the model gives the result of an incomplete type.
\<close>

definition enum_mask :: u32 where "enum_mask = push_bit 20 (push_bit 12 1 - 1) OR 0x0080"

definition is_enum :: "u32 \<Rightarrow> bool" where
  "is_enum t \<longleftrightarrow> t AND enum_mask = push_bit 20 2"

definition basic_size :: "u32 \<Rightarrow> int \<times> int" where
  "basic_size bt =
     (if bt = 10 then (16, 16)
      else if bt = 9 \<or> bt = 4 then (8, 8)
      else if bt = 3 \<or> bt = 8 then (4, 4)
      else if bt = 2 then (2, 2)
      else if bt = 13 \<or> bt = 14 then (16, 8)
      else (1, 1))"

fun type_size :: "ctype \<Rightarrow> int \<times> int" where
  "type_size (CType t None) =
     (let bt = t AND 0x000f in
      if bt = 7 \<or> (bt = 5 \<and> t AND 0x0040 \<noteq> 0) then (- 1, 0)
      else if bt = 5 then (8, 8) else basic_size bt)"
| "type_size (CType t (Some (Sym v r c ty fs al pk aux))) =
     (let bt = t AND 0x000f in
      if bt = 7 then (c, r)
      else if bt = 5 then
        (if t AND 0x0040 \<noteq> 0 then
           (case type_size ty of (ts, a) \<Rightarrow> if c < 0 then (c, a) else (ts * c, a))
         else (8, 8))
      else if is_enum t \<and> c < 0 then (- 1, 0)
      else basic_size bt)"

section \<open>Fields\<close>

definition SYM_FIELD :: u32 where "SYM_FIELD = 0x20000000"
definition SYM_FIRST_ANOM :: u32 where "SYM_FIRST_ANOM = 0x10000000"

definition fields_of :: "ctype \<Rightarrow> csym list" where
  "fields_of type = (case ct_ref type of None \<Rightarrow> [] | Some s \<Rightarrow> snext s)"

lemma fields_of_size: "size_list size (fields_of (stype f)) < size f"
proof -
  obtain v r c t ref fs al pk aux where f: "f = Sym v r c (CType t ref) fs al pk aux"
    by (metis csym.exhaust ctype.exhaust)
  show ?thesis
  proof (cases ref)
    case (Some s)
    then show ?thesis by (cases s) (simp add: f fields_of_def)
  qed (simp add: f fields_of_def)
qed

text \<open>
  The search of find_field below the top level: v carries SYM_FIELD, and a field of an anonymous
  struct is found through it. The result is the field and its offset.
\<close>

definition anonymous_struct :: "csym \<Rightarrow> bool" where
  "anonymous_struct f \<longleftrightarrow> ct_t (stype f) AND 0x000f = 7 \<and> SYM_FIRST_ANOM OR SYM_FIELD \<le>s sv f"

function find_in_list :: "u32 \<Rightarrow> csym list \<Rightarrow> (csym \<times> int) option" where
  "find_in_list v [] = None"
| "find_in_list v (f # fs) =
     (if sv f = v then Some (f, sc f)
      else if anonymous_struct f then
        (case find_in_list v (fields_of (stype f)) of
           Some (g, cumofs) \<Rightarrow> Some (g, cumofs + sc f)
         | None \<Rightarrow> find_in_list v fs)
      else find_in_list v fs)"
  by pat_completeness auto
termination
  by (relation "measure (\<lambda>(v, fs). size_list size fs)") (use fields_of_size in \<open>auto intro: less_SucI trans_less_add1\<close>)

text \<open>find_field as the parser calls it, with a plain name; TOK_DEFINE is the first name that is no keyword.\<close>

definition find_field :: "u32 \<Rightarrow> ctype \<Rightarrow> u32 \<Rightarrow> (csym \<times> int) res" where
  "find_field TOK_DEFINE type v =
     (if ct_t type AND 0x000f \<noteq> 7 then Inl ''%s expected''
      else if v <s TOK_DEFINE then Inl ''%s expected''
      else (case ct_ref type of
          None \<Rightarrow> Inl ''field not found: %s''
        | Some s \<Rightarrow>
            if sc s < 0 then Inl ''dereferencing incomplete type %s''
            else (case find_in_list (v OR SYM_FIELD) (snext s) of
                Some r \<Rightarrow> Inr r
              | None \<Rightarrow> Inl ''field not found: %s'')))"

text \<open>
  check_fields toggles a flag on the name of every field, those of anonymous structs included; fl is the
  set of the names that have it.
\<close>

function check_list :: "bool \<Rightarrow> csym list \<Rightarrow> u32 set \<Rightarrow> (u32 set) res" where
  "check_list chk [] fl = Inr fl"
| "check_list chk (f # fs) fl =
     (let v = sv f AND NOT SYM_FIELD in
      if v <s SYM_FIRST_ANOM then
        (if chk \<and> v \<in> fl then Inl ''duplicate member %s''
         else check_list chk fs (if v \<in> fl then fl - {v} else insert v fl))
      else if ct_t (stype f) AND 0x000f = 7 then
        ebind (check_list chk (fields_of (stype f)) fl) (\<lambda>fl. check_list chk fs fl)
      else check_list chk fs fl)"
  by pat_completeness auto
termination
  by (relation "measure (\<lambda>(c, fs, fl). size_list size fs)") (use fields_of_size in \<open>auto intro: less_SucI trans_less_add1\<close>)

definition check_fields :: "bool \<Rightarrow> ctype \<Rightarrow> u32 set \<Rightarrow> (u32 set) res" where
  "check_fields chk type fl = check_list chk (fields_of type) fl"

section \<open>The layout of a struct\<close>

text \<open>What struct_layout reads besides the fields: the bit-field mode, the packing in force, the attributes.\<close>

record layout_env =
  pcc :: bool
  pragma_pack :: int
  ad_aligned :: nat
  ad_packed :: bool
  is_union :: bool

text \<open>Its local variables.\<close>

record layout =
  maxalign :: int
  offset :: int
  csize :: int
  bit_pos :: int
  prevbt :: u32
  prev_bit_size :: int

definition layout_start :: layout where
  "layout_start = \<lparr>maxalign = 1, offset = 0, csize = 0, bit_pos = 0, prevbt = 7, prev_bit_size = 0\<rparr>"

definition is_bitfield :: "u32 \<Rightarrow> bool" where "is_bitfield t \<longleftrightarrow> t AND 0x0080 \<noteq> 0"
definition bf_width :: "u32 \<Rightarrow> int" where "bf_width t = uint (drop_bit 26 t AND 0x3f)"
definition bf_pos :: "u32 \<Rightarrow> int" where "bf_pos t = uint (drop_bit 20 t AND 0x3f)"

definition set_bf_pos :: "int \<Rightarrow> u32 \<Rightarrow> u32" where
  "set_bf_pos p t = (t AND NOT (push_bit 20 0x3f)) OR push_bit 20 (word_of_int p)"

definition align_up :: "int \<Rightarrow> int \<Rightarrow> int" where
  "align_up c align = (c + align - 1) AND - align"

text \<open>The alignment of a field after the attributes and packing, and whether it is packed.\<close>

definition field_align :: "layout_env \<Rightarrow> csym \<Rightarrow> int \<Rightarrow> int \<Rightarrow> int \<times> bool" where
  "field_align E f bit_size align =
     (let a = (if saligned f \<noteq> 0 then 2 ^ (saligned f - 1) else 0);
          (align, packed, a) =
            (if pcc E \<and> bit_size = 0 then (align, False, a)
             else
               (let (align, packed) = (if pcc E \<and> (spacked f \<or> ad_packed E) then (1, True) else (align, False)) in
                if pragma_pack E \<noteq> 0
                then (if pragma_pack E < align then pragma_pack E else align, True,
                      if pcc E \<and> pragma_pack E < a then 0 else a)
                else (align, packed, a)))
      in (if a \<noteq> 0 then a else align, packed))"

text \<open>while (bit_pos >= align * 8) c += align, bit_pos -= align * 8; align is positive.\<close>

function skip_units :: "int \<Rightarrow> int \<Rightarrow> int \<Rightarrow> int \<times> int" where
  "skip_units align c p =
     (if 0 < align \<and> align * 8 \<le> p then skip_units align (c + align) (p - align * 8) else (c, p))"
  by pat_completeness auto
termination by (relation "measure (\<lambda>(a, c, p). nat p)") auto

declare skip_units.simps [simp del]

definition set_type_code :: "u32 \<Rightarrow> csym \<Rightarrow> csym" where
  "set_type_code t f = (case f of Sym v r c ty fs al pk aux \<Rightarrow> Sym v r c (CType t (ct_ref ty)) fs al pk aux)"

definition place :: "int \<Rightarrow> csym \<Rightarrow> csym" where
  "place ofs f = (case f of Sym v r c ty fs al pk aux \<Rightarrow> Sym v 0 ofs ty fs al pk aux)"

text \<open>The three branches of the loop: they return the state, the alignment and the field.\<close>

definition layout_union :: "layout_env \<Rightarrow> csym \<Rightarrow> int \<Rightarrow> int \<Rightarrow> int \<Rightarrow> layout \<Rightarrow> layout" where
  "layout_union E f bit_size sz align L =
     (let sz = (if pcc E \<and> bit_size \<ge> 0 then (bit_size + 7) div 8 else sz) in
      L\<lparr>offset := 0, csize := (if sz > csize L then sz else csize L)\<rparr>)"

definition layout_plain :: "layout_env \<Rightarrow> csym \<Rightarrow> int \<Rightarrow> int \<Rightarrow> layout \<Rightarrow> layout" where
  "layout_plain E f sz align L =
     (let c = (if pcc E then csize L + (bit_pos L + 7) div 8 else csize L);
          c = align_up c align in
      L\<lparr>offset := c, csize := (if sz > 0 then c + sz else c), bit_pos := 0, prevbt := 7, prev_bit_size := 0\<rparr>)"

definition layout_pcc_bits :: "csym \<Rightarrow> int \<Rightarrow> int \<Rightarrow> int \<Rightarrow> bool \<Rightarrow> layout \<Rightarrow> layout \<times> int \<times> u32" where
  "layout_pcc_bits f bit_size sz align packed L =
     (let c = csize L; p = bit_pos L; a8 = align * 8;
          ofs = ((c * 8 + p) mod a8 + bit_size + a8 - 1) div a8;
          new_field = (bit_size = 0 \<or> saligned f \<noteq> 0 \<or> (\<not> packed \<and> ofs > sz div align));
          (c, p) = (if new_field then (align_up (c + (p + 7) div 8) align, 0) else (c, p));
          t = (if sz = 8 \<and> bit_size \<le> 32 then (ct_t (stype f) AND NOT 0x000f) OR 3 else ct_t (stype f));
          (c, p) = skip_units align c p in
      (L\<lparr>csize := c, bit_pos := p, offset := c\<rparr>,
       if sv f AND 0x10000000 \<noteq> 0 then 1 else align, t))"

definition layout_ms_bits :: "csym \<Rightarrow> int \<Rightarrow> int \<Rightarrow> int \<Rightarrow> layout \<Rightarrow> layout \<times> int \<times> u32" where
  "layout_ms_bits f bit_size sz align L =
     (let bt = ct_t (stype f) AND 0x000f;
          L1 = (if bit_pos L + bit_size > sz * 8 \<or> (bit_size > 0) = (bt \<noteq> prevbt L)
                then (let c = align_up (csize L) align in
                      L\<lparr>offset := c, bit_pos := 0,
                        csize := (if bit_size \<noteq> 0 \<or> prev_bit_size L \<noteq> 0 then c + sz else c)\<rparr>)
                else L) in
      (L1\<lparr>prevbt := bt, prev_bit_size := bit_size\<rparr>,
       if bit_size = 0 \<and> prevbt L \<noteq> bt then 1 else align, ct_t (stype f)))"

text \<open>bit_size: the width of a bit-field, -1 for any other field.\<close>

definition field_bits :: "csym \<Rightarrow> int" where
  "field_bits f = (if is_bitfield (ct_t (stype f)) then bf_width (ct_t (stype f)) else - 1)"

definition layout_field :: "layout_env \<Rightarrow> layout \<Rightarrow> csym \<Rightarrow> layout \<times> csym" where
  "layout_field E L f =
     (let bit_size = field_bits f;
          (sz, align) = type_size (stype f);
          (align, packed) = field_align E f bit_size align;
          (L, align, f) =
            (if is_union E then (layout_union E f bit_size sz align L, align, f)
             else if bit_size < 0 then (layout_plain E f sz align L, align, f)
             else
               (let (L, align, t) = (if pcc E then layout_pcc_bits f bit_size sz align packed L
                                     else layout_ms_bits f bit_size sz align L) in
                (L\<lparr>bit_pos := bit_pos L + bit_size\<rparr>, align, set_type_code (set_bf_pos (bit_pos L) t) f))) in
      (L\<lparr>maxalign := (if align > maxalign L then align else maxalign L)\<rparr>, place (offset L) f))"

fun layout_fields :: "layout_env \<Rightarrow> layout \<Rightarrow> csym list \<Rightarrow> layout \<times> csym list" where
  "layout_fields E L [] = (L, [])"
| "layout_fields E L (f # fs) =
     (let (L, f) = layout_field E L f; (L, fs) = layout_fields E L fs in (L, f # fs))"

text \<open>The size and the alignment of the whole, after the loop.\<close>

definition struct_size :: "layout_env \<Rightarrow> layout \<Rightarrow> int \<times> int" where
  "struct_size E L =
     (let c = (if pcc E then csize L + (bit_pos L + 7) div 8 else csize L);
          bt = (if ad_aligned E \<noteq> 0 then 2 ^ (ad_aligned E - 1) else 1);
          a = (if bt < maxalign L then maxalign L else bt);
          r = a;
          a = (if pragma_pack E \<noteq> 0 \<and> pragma_pack E < maxalign L \<and> \<not> pcc E
               then (if pragma_pack E < bt then bt else pragma_pack E) else a) in
      (align_up c a, r))"

text \<open>
  The second loop: a bit-field that its own type cannot load at its offset gets another access type. The
  search for it ends when the unit's position no longer changes; fuel 6 is enough, as shown below. The
  link from the field's type to the field itself, which type_size does not use, is left out.
\<close>

definition unit_type :: "int \<Rightarrow> u32" where
  "unit_type s = (if s > 4 then 4 else if s > 2 then 3 else if s > 1 then 2 else 1)"

fun find_unit :: "nat \<Rightarrow> int \<Rightarrow> int \<Rightarrow> int \<Rightarrow> int \<Rightarrow> int \<Rightarrow> u32 \<Rightarrow> (int \<times> int \<times> int \<times> u32) option" where
  "find_unit 0 pos bit_size align c0 s t = None"
| "find_unit (Suc n) pos bit_size align c0 s t =
     (let cx = (pos div 8) AND - align; px = pos - cx * 8 in
      if c0 = cx then Some (px, cx, s, t)
      else (let t = unit_type ((px + bit_size + 7) div 8); (s, align) = basic_size t in
            find_unit n pos bit_size align cx s t))"

definition set_auxtype :: "int \<Rightarrow> csym \<Rightarrow> csym" where
  "set_auxtype x f = (case f of Sym v r c ty fs al pk aux \<Rightarrow> Sym v r c ty fs al pk x)"

definition move_field :: "u32 \<Rightarrow> int \<Rightarrow> csym \<Rightarrow> csym" where
  "move_field t ofs f = (case set_type_code t f of Sym v r c' ty fs al pk aux \<Rightarrow> Sym v r ofs ty fs al pk aux)"

definition adjust_bitfield :: "int \<Rightarrow> csym \<Rightarrow> csym" where
  "adjust_bitfield c f =
     (let t = ct_t (stype f) in
      if \<not> is_bitfield t then f
      else
        (let f = set_auxtype (- 1) f; bit_size = bf_width t; bit_pos = bf_pos t in
         if bit_size = 0 then f
         else
           (let sz = fst (type_size (stype f)) in
            if bit_pos + bit_size \<le> sz * 8 \<and> sc f + sz \<le> c then f
            else
              (case find_unit 6 (sc f * 8 + bit_pos) bit_size 1 (- 1) 1 1 of
                 None \<Rightarrow> f
               | Some (px, cx, s, ut) \<Rightarrow>
                   if px + bit_size \<le> s * 8 \<and> cx + s \<le> c
                   then set_auxtype (if s \<noteq> sz then uint ut else - 1)
                          (move_field (set_bf_pos px t) cx f)
                   else set_auxtype 7 f))))"

definition struct_layout :: "layout_env \<Rightarrow> csym \<Rightarrow> csym" where
  "struct_layout E s =
     (let (L, fs) = layout_fields E layout_start (snext s); (c, r) = struct_size E L in
      case s of Sym v r' c' ty fs' al pk aux \<Rightarrow> Sym v r c ty (map (adjust_bitfield c) fs) al pk aux)"

section \<open>Arithmetic of offsets and type codes\<close>

definition pow2 :: "int \<Rightarrow> bool" where "pow2 a \<longleftrightarrow> (\<exists>k. a = 2 ^ k)"

lemma and_neg_pow2: "pow2 a \<Longrightarrow> x AND - a = x div a * a"
proof -
  assume "pow2 a"
  then obtain k where a: "a = 2 ^ k" by (auto simp: pow2_def)
  have "- a = NOT (mask k)" by (simp add: a minus_eq_not_minus_1 mask_eq_exp_minus_1)
  then have "x AND - a = push_bit k (drop_bit k x)" by (auto simp: bit_eq_iff bit_simps not_less)
  then show ?thesis by (simp add: a push_bit_eq_mult drop_bit_eq_div)
qed

lemma align_up_bounds:
  assumes "pow2 a"
  shows "c \<le> align_up c a" "align_up c a < c + a" "a dvd align_up c a"
proof -
  have p: "0 < a" using assms by (auto simp: pow2_def)
  have e: "align_up c a = (c + a - 1) div a * a" using and_neg_pow2 [OF assms] by (simp add: align_up_def)
  have "(c + a - 1) div a * a + (c + a - 1) mod a = c + a - 1" by simp
  moreover have "0 \<le> (c + a - 1) mod a" "(c + a - 1) mod a < a" using p by simp_all
  ultimately show "c \<le> align_up c a" "align_up c a < c + a" unfolding e by linarith+
  show "a dvd align_up c a" by (simp add: e)
qed

lemma skip_units:
  "0 < align \<Longrightarrow> 0 \<le> p \<Longrightarrow> skip_units align c p = (c', p') \<Longrightarrow>
   c' * 8 + p' = c * 8 + p \<and> 0 \<le> p' \<and> p' < align * 8 \<and> p' \<le> p"
proof (induction align c p rule: skip_units.induct)
  case (1 align c p)
  then show ?case by (subst (asm) (2) skip_units.simps) (auto split: if_splits)
qed

lemma bit_63: "bit (0x3f :: u32) n \<longleftrightarrow> n < 6"
  using bit_mask_iff [of 6 n, where ?'a = u32] by (auto simp: mask_eq_exp_minus_1)

lemma replace_bits:
  fixes t m q n7 nf :: u32
  assumes m: "\<And>n. bit m n \<longleftrightarrow> n < 6" and q: "\<And>n. bit q n \<Longrightarrow> n < 6"
    and low: "\<And>n. bit n7 n \<Longrightarrow> n < 20"
  shows "drop_bit 20 ((t AND NOT (push_bit 20 m)) OR push_bit 20 q) AND m = q"
    "drop_bit 26 ((t AND NOT (push_bit 20 m)) OR push_bit 20 q) AND m = drop_bit 26 t AND m"
    "((t AND NOT (push_bit 20 m)) OR push_bit 20 q) AND n7 = t AND n7"
  by (rule bit_word_eqI, auto simp: bit_simps m dest: q low)+

lemma bits_of_numerals:
  "bit (0x0080 :: u32) n \<longleftrightarrow> n = 7" "bit (0x000f :: u32) n \<longleftrightarrow> n < 4"
  using bit_exp_iff [of 7 n, where ?'a = u32] bit_mask_iff [of 4 n, where ?'a = u32] by (auto simp: mask_eq_exp_minus_1)

lemma set_bf_pos:
  assumes "0 \<le> p" "p < 64"
  shows "bf_pos (set_bf_pos p t) = p" "bf_width (set_bf_pos p t) = bf_width t"
    "is_bitfield (set_bf_pos p t) \<longleftrightarrow> is_bitfield t" "set_bf_pos p t AND 0x000f = t AND 0x000f"
proof -
  have "take_bit 6 p = p" using assms by (intro take_bit_int_eq_self) simp_all
  then have "bit p n \<Longrightarrow> n < 6" for n by (metis bit_take_bit_iff)
  then have q: "bit (word_of_int p :: u32) n \<Longrightarrow> n < 6" for n by (auto simp: bit_simps)
  have "drop_bit 20 (set_bf_pos p t) AND 0x3f = word_of_int p"
    unfolding set_bf_pos_def by (rule replace_bits(1) [OF bit_63 q, of _ 0]) simp_all
  moreover have "uint (word_of_int p :: u32) = p" using assms by (simp add: unsigned_of_int take_bit_int_eq_self)
  ultimately show "bf_pos (set_bf_pos p t) = p" by (simp only: bf_pos_def)
  have "drop_bit 26 (set_bf_pos p t) AND 0x3f = drop_bit 26 t AND 0x3f"
    unfolding set_bf_pos_def by (rule replace_bits(2) [OF bit_63 q, of _ 0]) simp_all
  then show "bf_width (set_bf_pos p t) = bf_width t" by (simp only: bf_width_def)
  have "set_bf_pos p t AND 0x0080 = t AND 0x0080"
    unfolding set_bf_pos_def by (rule replace_bits(3) [OF bit_63 q]) (simp_all only: bits_of_numerals)
  then show "is_bitfield (set_bf_pos p t) \<longleftrightarrow> is_bitfield t" by (simp only: is_bitfield_def)
  show "set_bf_pos p t AND 0x000f = t AND 0x000f"
    unfolding set_bf_pos_def by (rule replace_bits(3) [OF bit_63 q]) (simp_all only: bits_of_numerals)
qed

lemma low_code_bits:
  "bf_width ((t AND NOT 0x000f) OR 3) = bf_width t" "is_bitfield ((t AND NOT 0x000f) OR 3) \<longleftrightarrow> is_bitfield t"
  "((t AND NOT 0x000f) OR 3) AND 0x000f = 3"
proof -
  have three: "bit (3 :: u32) n \<Longrightarrow> n < 4" for n
    using bit_mask_iff [of 2 n, where ?'a = u32] by (simp add: mask_eq_exp_minus_1)
  have "drop_bit 26 ((t AND NOT m) OR q) = drop_bit 26 t \<and> ((t AND NOT m) OR q) AND n7 = t AND n7 \<and> ((t AND NOT m) OR q) AND m = q"
    if "\<And>n. bit m n \<longleftrightarrow> n < 4" "\<And>n. bit q n \<Longrightarrow> n < 4" "\<And>n. bit n7 n \<longleftrightarrow> n = 7" for m q n7 :: u32
    by (intro conjI bit_word_eqI) (auto simp: bit_simps that(1,3) dest: that(2) bit_imp_le_length)
  from this [of "0x000f" 3 "0x0080", OF bits_of_numerals(2) three bits_of_numerals(1)]
  show "bf_width ((t AND NOT 0x000f) OR 3) = bf_width t" "is_bitfield ((t AND NOT 0x000f) OR 3) \<longleftrightarrow> is_bitfield t"
      "((t AND NOT 0x000f) OR 3) AND 0x000f = 3"
    by (simp_all only: bf_width_def is_bitfield_def)
qed

section \<open>Where a field lies\<close>

text \<open>The first bit and the number of bits a field of a laid-out struct occupies.\<close>

definition first_bit :: "csym \<Rightarrow> int" where
  "first_bit f = (if is_bitfield (ct_t (stype f)) then sc f * 8 + bf_pos (ct_t (stype f)) else sc f * 8)"

definition bit_count :: "csym \<Rightarrow> int" where
  "bit_count f = (if is_bitfield (ct_t (stype f)) then bf_width (ct_t (stype f)) else 8 * max 0 (fst (type_size (stype f))))"

definition env_ok :: "layout_env \<Rightarrow> bool" where
  "env_ok E \<longleftrightarrow> pragma_pack E = 0 \<or> pow2 (pragma_pack E)"

text \<open>What the parser guarantees of a field: a power of two as its alignment; bit-fields of integer type.\<close>

definition field_ok :: "csym \<Rightarrow> bool" where
  "field_ok f \<longleftrightarrow>
     (if is_bitfield (ct_t (stype f)) then
        ct_t (stype f) AND 0x000f \<in> {1, 2, 3, 4, 11} \<and>
        bf_width (ct_t (stype f)) \<le> 8 * fst (type_size (stype f))
      else pow2 (snd (type_size (stype f))))"

lemma bitfield_not_enum: "is_bitfield t \<Longrightarrow> \<not> is_enum t"
proof
  assume a: "is_bitfield t" "is_enum t"
  have b: "bit enum_mask 7" by (simp add: enum_mask_def)
  have "bit t 7"
  proof (rule ccontr)
    assume "\<not> bit t 7"
    then have "\<not> bit (t AND 0x0080) n" for n using bits_of_numerals(1) [of n] by (auto simp only: bit_and_iff)
    then have "t AND 0x0080 = 0" by (intro bit_word_eqI) simp
    then show False using a(1) by (simp add: is_bitfield_def)
  qed
  then have "bit (t AND enum_mask) 7" using b by (simp add: bit_and_iff)
  then show False using a(2) by (simp add: is_enum_def)
qed

lemma bitfield_size:
  assumes "is_bitfield (ct_t ty)" "ct_t ty AND 0x000f \<in> {1, 2, 3, 4, 11}"
  shows "type_size ty = basic_size (ct_t ty AND 0x000f)"
proof -
  obtain t ref where ty: "ty = CType t ref" by (cases ty)
  show ?thesis
  proof (cases ref)
    case None
    then show ?thesis using assms(2) by (auto simp: ty)
  next
    case (Some s)
    then show ?thesis using assms bitfield_not_enum [of t] by (cases s) (auto simp: ty)
  qed
qed

lemma bitfield_sizes:
  assumes "field_ok f" "is_bitfield (ct_t (stype f))" "type_size (stype f) = (sz, al)"
  shows "sz = al" "sz \<in> {1, 2, 4, 8}" "0 \<le> bf_width (ct_t (stype f))" "bf_width (ct_t (stype f)) \<le> 8 * sz"
  using assms bitfield_size [of "stype f"]
  by (auto simp: field_ok_def basic_size_def bf_width_def)

lemma pow2_simps: "pow2 1" "pow2 2" "pow2 4" "pow2 8" "pow2 (2 ^ n)"
  unfolding pow2_def by (metis power_0) (metis power_one_right, rule exI [of _ 2], simp, rule exI [of _ 3], simp, blast)

lemma field_align:
  assumes "env_ok E" "pow2 al" "field_align E f w al = (al', pk)"
  shows "pow2 al'" "saligned f = 0 \<Longrightarrow> al' \<le> al"
proof -
  have one: "1 \<le> al" using assms(2) by (auto simp: pow2_def)
  then show "saligned f = 0 \<Longrightarrow> al' \<le> al"
    using assms(3) by (auto simp: field_align_def Let_def split: if_splits)
  show "pow2 al'"
    using assms pow2_simps(1,5) by (auto simp: field_align_def env_ok_def Let_def split: if_splits)
qed

lemma sym_simps [simp]:
  "stype (place o' f) = stype f" "sc (place o' f) = o'" "saligned (place o' f) = saligned f"
  "ct_t (stype (set_type_code t f)) = t" "sc (set_type_code t f) = sc f"
  "stype (set_auxtype x f) = stype f" "sc (set_auxtype x f) = sc f" "sauxtype (set_auxtype x f) = x"
  "set_auxtype x (set_auxtype y f) = set_auxtype x f"
  by (simp_all add: place_def set_type_code_def set_auxtype_def split: csym.splits)

text \<open>The position the layout has reached, in bits, and what holds between fields.\<close>

definition layout_pos :: "layout \<Rightarrow> int" where "layout_pos L = csize L * 8 + bit_pos L"

definition layout_ok :: "layout \<Rightarrow> bool" where "layout_ok L \<longleftrightarrow> 0 \<le> csize L \<and> 0 \<le> bit_pos L"

lemma pcc_bits:
  assumes "pow2 al" "layout_ok L" "saligned f = 0 \<Longrightarrow> al \<le> 8" "0 \<le> w"
    and "layout_pcc_bits f w sz al pk L = (L', al', t')"
  shows "layout_pos L \<le> layout_pos L' \<and> layout_ok L' \<and> bit_pos L' < 64 \<and> offset L' = csize L'"
proof -
  let ?c = "csize L" and ?p = "bit_pos L"
  have al: "0 < al" using assms(1) by (auto simp: pow2_def)
  have r: "?c * 8 + ?p \<le> align_up (?c + (?p + 7) div 8) al * 8"
    using align_up_bounds(1) [OF assms(1), of "?c + (?p + 7) div 8"] assms(2) by (auto simp: layout_ok_def)
  obtain c1 p1 where cp: "(if w = 0 \<or> saligned f \<noteq> 0 \<or> (\<not> pk \<and> ((?c * 8 + ?p) mod (al * 8) + w + al * 8 - 1) div (al * 8) > sz div al)
      then (align_up (?c + (?p + 7) div 8) al, 0) else (?c, ?p)) = (c1, p1)" by fastforce
  obtain c2 p2 where su: "skip_units al c1 p1 = (c2, p2)" by fastforce
  have p1: "0 \<le> p1" "?c * 8 + ?p \<le> c1 * 8 + p1" "saligned f \<noteq> 0 \<Longrightarrow> p1 = 0" "0 \<le> c1"
    using cp r assms(2) by (auto simp: layout_ok_def split: if_splits)
  note s = skip_units [OF al p1(1) su]
  have L': "csize L' = c2" "bit_pos L' = p2" "offset L' = c2"
    using assms(5) cp su by (auto simp: layout_pcc_bits_def Let_def split: prod.splits)
  have "p2 < 64"
  proof (cases "saligned f = 0")
    case True
    then show ?thesis using s assms(3) by linarith
  next
    case False
    then show ?thesis using p1(3) s by linarith
  qed
  moreover have "0 \<le> c2" using s p1 by linarith
  ultimately show ?thesis using L' s p1(2) by (auto simp: layout_pos_def layout_ok_def)
qed

lemma layout_pcc_type:
  assumes "layout_pcc_bits f w sz al pk L = (L', al', t')"
  shows "bf_width t' = bf_width (ct_t (stype f))" "is_bitfield t' \<longleftrightarrow> is_bitfield (ct_t (stype f))"
    "t' AND 0x000f \<in> {ct_t (stype f) AND 0x000f, 3}"
proof -
  have "t' = ct_t (stype f) \<or> t' = (ct_t (stype f) AND NOT 0x000f) OR 3"
    using assms by (auto simp: layout_pcc_bits_def Let_def split: prod.splits if_splits)
  then show "bf_width t' = bf_width (ct_t (stype f))" "is_bitfield t' \<longleftrightarrow> is_bitfield (ct_t (stype f))"
      "t' AND 0x000f \<in> {ct_t (stype f) AND 0x000f, 3}"
    using low_code_bits by auto
qed

text \<open>One field, in the mode that lays bit-fields out as gcc does.\<close>

lemma layout_field_step:
  assumes "pcc E" "\<not> is_union E" "env_ok E" "field_ok f" "layout_ok L" "layout_field E L f = (L', f')"
  shows "layout_ok L' \<and> layout_pos L \<le> first_bit f' \<and> first_bit f' + bit_count f' \<le> layout_pos L'
     \<and> 0 \<le> bit_count f' \<and> 0 \<le> sc f' \<and> (is_bitfield (ct_t (stype f')) \<longrightarrow> ct_t (stype f') AND 0x000f \<in> {1, 2, 3, 4, 11})"
proof -
  obtain sz al0 where ts: "type_size (stype f) = (sz, al0)" by fastforce
  define w where "w = field_bits f"
  obtain al pk where fa: "field_align E f w al0 = (al, pk)" by fastforce
  show ?thesis
  proof (cases "is_bitfield (ct_t (stype f))")
    case False
    then have p: "pow2 al" using field_align(1) [OF assms(3) _ fa] assms(4) ts by (simp add: field_ok_def)
    have w: "w = - 1" using False by (simp add: w_def field_bits_def)
    have "csize L * 8 + bit_pos L \<le> align_up (csize L + (bit_pos L + 7) div 8) al * 8"
      using align_up_bounds(1) [OF p, of "csize L + (bit_pos L + 7) div 8"] assms(5) by (auto simp: layout_ok_def)
    then show ?thesis
      using assms(1,2,5,6) False ts fa w w_def
      by (auto simp: layout_field_def layout_plain_def layout_ok_def layout_pos_def first_bit_def bit_count_def Let_def)
  next
    case True
    note b = bitfield_sizes [OF assms(4) True ts]
    have p0: "pow2 al0" using b(1,2) pow2_simps by auto
    have al: "pow2 al" "saligned f = 0 \<Longrightarrow> al \<le> 8"
      using field_align [OF assms(3) p0 fa] b(1,2) by auto
    obtain L1 al1 t1 where pb: "layout_pcc_bits f w sz al pk L = (L1, al1, t1)" by (metis prod_cases3)
    have w: "w = bf_width (ct_t (stype f))" "0 \<le> w" using True b(3) by (simp_all add: w_def field_bits_def)
    note s = pcc_bits [OF al(1) assms(5) al(2) w(2) pb] and t = layout_pcc_type [OF pb]
    have q: "0 \<le> bit_pos L1" "bit_pos L1 < 64" using s by (auto simp: layout_ok_def)
    have L': "csize L' = csize L1" "bit_pos L' = bit_pos L1 + w"
        and f': "ct_t (stype f') = set_bf_pos (bit_pos L1) t1" "sc f' = offset L1"
      using assms(1,2,6) True ts fa w pb by (auto simp: layout_field_def Let_def w_def)
    have "first_bit f' = layout_pos L1" "bit_count f' = w" "is_bitfield (ct_t (stype f'))"
      using f' t True s w set_bf_pos [OF q, of t1] by (simp_all add: first_bit_def bit_count_def layout_pos_def)
    moreover have "ct_t (stype f') AND 0x000f \<in> {1, 2, 3, 4, 11}"
      using f'(1) t(3) set_bf_pos(4) [OF q, of t1] assms(4) True by (auto simp: field_ok_def)
    ultimately show ?thesis using s L' f'(2) w by (auto simp: layout_ok_def layout_pos_def)
  qed
qed

lemma layout_fields_step:
  assumes "pcc E" "\<not> is_union E" "env_ok E" "\<forall>f\<in>set fs. field_ok f" "layout_ok L" "layout_fields E L fs = (L', fs')"
  shows "layout_ok L' \<and> layout_pos L \<le> layout_pos L' \<and> length fs' = length fs
     \<and> (\<forall>f\<in>set fs'. layout_pos L \<le> first_bit f \<and> first_bit f + bit_count f \<le> layout_pos L' \<and> 0 \<le> bit_count f \<and> 0 \<le> sc f
          \<and> (is_bitfield (ct_t (stype f)) \<longrightarrow> ct_t (stype f) AND 0x000f \<in> {1, 2, 3, 4, 11}))
     \<and> sorted_wrt (\<lambda>f g. first_bit f + bit_count f \<le> first_bit g) fs'"
  using assms(4-)
proof (induction fs arbitrary: L fs')
  case Nil
  then show ?case by simp
next
  case (Cons f fs)
  obtain L1 f1 where s1: "layout_field E L f = (L1, f1)" by fastforce
  obtain gs where s2: "layout_fields E L1 fs = (L', gs)" "fs' = f1 # gs"
    using Cons.prems(3) s1 by (auto split: prod.splits)
  have a: "layout_ok L1 \<and> layout_pos L \<le> first_bit f1 \<and> first_bit f1 + bit_count f1 \<le> layout_pos L1 \<and> 0 \<le> bit_count f1 \<and> 0 \<le> sc f1
     \<and> (is_bitfield (ct_t (stype f1)) \<longrightarrow> ct_t (stype f1) AND 0x000f \<in> {1, 2, 3, 4, 11})"
    using layout_field_step [OF assms(1-3) _ Cons.prems(2) s1] Cons.prems(1) by simp
  have b: "layout_ok L' \<and> layout_pos L1 \<le> layout_pos L' \<and> length gs = length fs
     \<and> (\<forall>f\<in>set gs. layout_pos L1 \<le> first_bit f \<and> first_bit f + bit_count f \<le> layout_pos L' \<and> 0 \<le> bit_count f \<and> 0 \<le> sc f
          \<and> (is_bitfield (ct_t (stype f)) \<longrightarrow> ct_t (stype f) AND 0x000f \<in> {1, 2, 3, 4, 11}))
     \<and> sorted_wrt (\<lambda>f g. first_bit f + bit_count f \<le> first_bit g) gs"
    by (rule Cons.IH [OF _ _ s2(1)]) (use Cons.prems(1) a in auto)
  show ?case using a b s2(2) by fastforce
qed

section \<open>The access unit of a bit-field\<close>

definition unit_start :: "int \<Rightarrow> int \<Rightarrow> int" where
  "unit_start pos a = (pos div 8) div a * a"

definition unit_code :: "int \<Rightarrow> int \<Rightarrow> int \<Rightarrow> u32" where
  "unit_code pos w a = unit_type ((pos - unit_start pos a * 8 + w + 7) div 8)"

definition next_unit :: "int \<Rightarrow> int \<Rightarrow> int \<Rightarrow> int" where
  "next_unit pos w a = snd (basic_size (unit_code pos w a))"

lemma basic_unit:
  "basic_size (unit_type n) = (let u = if n > 4 then 8 else if n > 2 then 4 else if n > 1 then 2 else 1 in (u, u))"
  by (simp add: unit_type_def basic_size_def)

lemma next_unit: "next_unit pos w a \<in> {1, 2, 4, 8}" "basic_size (unit_code pos w a) = (next_unit pos w a, next_unit pos w a)"
  by (auto simp: next_unit_def unit_code_def basic_unit Let_def)

lemma find_unit_Suc:
  assumes "a \<in> {1, 2, 4, 8}"
  shows "find_unit (Suc n) pos w a c0 s t =
    (if c0 = unit_start pos a then Some (pos - unit_start pos a * 8, unit_start pos a, s, t)
     else find_unit n pos w (next_unit pos w a) (unit_start pos a) (next_unit pos w a) (unit_code pos w a))"
proof -
  have "pow2 a" using assms pow2_simps by auto
  then have "(pos div 8) AND - a = unit_start pos a" by (simp add: and_neg_pow2 unit_start_def)
  then show ?thesis using next_unit(2) [of pos w a] by (simp add: Let_def unit_code_def)
qed

text \<open>A larger alignment starts the unit earlier, so the unit asked for next is not smaller.\<close>

lemma unit_start_mono:
  assumes "a \<in> {1, 2, 4, 8}" "b \<in> {1, 2, 4, 8}" "a \<le> b"
  shows "unit_start pos b \<le> unit_start pos a"
proof -
  have "a dvd b" using assms by auto
  then obtain k where k: "b = a * k" by (elim dvdE)
  have a: "0 < a" "0 < b" using assms by auto
  then have "0 < k" using k by (simp add: zero_less_mult_iff)
  have "(pos div 8) div b * b = (pos div 8) div a div k * k * a" 
    using zdiv_zmult2_eq [of k "pos div 8" a] \<open>0 < k\<close> k by (simp add: mult.assoc mult.commute)
  also have "\<dots> \<le> (pos div 8) div a * a"
  proof -
    have "(pos div 8) div a div k * k \<le> (pos div 8) div a"
      using \<open>0 < k\<close> div_mult_mod_eq [of "(pos div 8) div a" k] pos_mod_sign [of k "(pos div 8) div a"] by linarith
    then show ?thesis using a by (simp add: mult_right_mono)
  qed
  finally show ?thesis by (simp add: unit_start_def)
qed

lemma next_unit_mono:
  assumes "a \<in> {1, 2, 4, 8}" "b \<in> {1, 2, 4, 8}" "a \<le> b"
  shows "next_unit pos w a \<le> next_unit pos w b"
proof -
  have "(pos - unit_start pos a * 8 + w + 7) div 8 \<le> (pos - unit_start pos b * 8 + w + 7) div 8"
    using unit_start_mono [OF assms, of pos] by (intro zdiv_mono1) auto
  then show ?thesis by (simp add: next_unit_def unit_code_def basic_unit Let_def)
qed

lemma next_unit_same: "unit_start pos a = unit_start pos b \<Longrightarrow> next_unit pos w a = next_unit pos w b"
  by (simp add: next_unit_def unit_code_def)

definition unit_rank :: "int \<Rightarrow> nat" where
  "unit_rank a = (if a = 1 then 3 else if a = 2 then 2 else if a = 4 then 1 else 0)"

lemma find_unit_stops:
  assumes "a \<in> {1, 2, 4, 8}" "a \<le> next_unit pos w a" "unit_rank a + 2 \<le> n"
  shows "find_unit n pos w a c0 s t \<noteq> None"
  using assms
proof (induction n arbitrary: a c0 s t)
  case 0
  then show ?case by simp
next
  case (Suc n)
  let ?b = "next_unit pos w a"
  have b: "?b \<in> {1, 2, 4, 8}" using next_unit(1) .
  obtain m where n: "n = Suc m" using Suc.prems(3) by (cases n) auto
  show ?case
  proof (cases "?b = a")
    case True
    then show ?thesis using find_unit_Suc [OF Suc.prems(1)] find_unit_Suc [OF b, of m] n by simp
  next
    case False
    then have "unit_rank ?b + 2 \<le> n"
      using Suc.prems b by (auto simp: unit_rank_def)
    then have "find_unit n pos w ?b (unit_start pos a) ?b (unit_code pos w a) \<noteq> None"
      using Suc.IH [OF b] next_unit_mono [OF Suc.prems(1) b] Suc.prems(2) by blast
    then show ?thesis using find_unit_Suc [OF Suc.prems(1)] by simp
  qed
qed

lemma find_unit_result:
  assumes "a \<in> {1, 2, 4, 8}" "0 \<le> pos" "c0 < 0 \<or> basic_size t = (s, s) \<and> t \<in> {1, 2, 3, 4}"
    and "find_unit n pos w a c0 s t = Some (px, cx, s', t')"
  shows "px + cx * 8 = pos \<and> 0 \<le> px \<and> px < 64 \<and> 0 \<le> cx \<and> basic_size t' = (s', s') \<and> t' \<in> {1, 2, 3, 4}"
  using assms
proof (induction n arbitrary: a c0 s t)
  case 0
  then show ?case by simp
next
  case (Suc n)
  have a: "0 < a" "a \<le> 8" using Suc.prems(1) by auto
  have st: "0 \<le> unit_start pos a" using a Suc.prems(2) by (simp add: unit_start_def pos_imp_zdiv_nonneg_iff)
  have "unit_start pos a = pos div 8 - pos div 8 mod a"
    by (simp add: unit_start_def minus_mod_eq_div_mult)
  moreover have "0 \<le> pos div 8 mod a" "pos div 8 mod a < a" using a by simp_all
  ultimately have px: "0 \<le> pos - unit_start pos a * 8" "pos - unit_start pos a * 8 < 64"
    using a div_mult_mod_eq [of pos 8] pos_mod_bound [of 8 pos] pos_mod_sign [of 8 pos] by linarith+
  show ?case
  proof (cases "c0 = unit_start pos a")
    case True
    then show ?thesis using Suc.prems st px find_unit_Suc [OF Suc.prems(1)] by auto
  next
    case False
    have c: "unit_code pos w a \<in> {1, 2, 3, 4}" by (simp add: unit_code_def unit_type_def)
    have f: "find_unit n pos w (next_unit pos w a) (unit_start pos a) (next_unit pos w a) (unit_code pos w a) = Some (px, cx, s', t')"
      using Suc.prems(4) False unfolding find_unit_Suc [OF Suc.prems(1)] by simp
    show ?thesis by (rule Suc.IH [OF next_unit(1) Suc.prems(2) _ f]) (use c next_unit(2) [of pos w a] in blast)
  qed
qed

lemma find_unit_6:
  assumes "0 \<le> pos"
  obtains px cx s t where "find_unit 6 pos w 1 (- 1) 1 1 = Some (px, cx, s, t)"
    "px + cx * 8 = pos" "0 \<le> px" "px < 64" "0 \<le> cx" "basic_size t = (s, s)" "t \<in> {1, 2, 3, 4}"
proof -
  have "1 \<le> next_unit pos w 1" using next_unit(1) [of pos w 1] by auto
  then have "find_unit 6 pos w 1 (- 1) 1 1 \<noteq> None" by (intro find_unit_stops) (auto simp: unit_rank_def)
  then obtain px cx s t where "find_unit 6 pos w 1 (- 1) 1 1 = Some (px, cx, s, t)" by auto
  then show ?thesis using that find_unit_result [of 1 pos "- 1" 1 1 6 w px cx s t] assms by auto
qed

lemma first_unit_simps [simp]: "first_bit (set_auxtype x f) = first_bit f" "bit_count (set_auxtype x f) = bit_count f"
  by (simp_all add: first_bit_def bit_count_def)

lemma move_field_simps [simp]: "ct_t (stype (move_field t ofs f)) = t" "sc (move_field t ofs f) = ofs"
  by (simp_all add: move_field_def set_type_code_def split: csym.splits)

text \<open>The size of the unit a bit-field is loaded and stored through, if it is not done byte by byte.\<close>

definition access_size :: "csym \<Rightarrow> int" where
  "access_size f = (if sauxtype f = - 1 then fst (type_size (stype f)) else fst (basic_size (word_of_int (sauxtype f))))"

lemma adjust_bitfield:
  assumes "0 \<le> sc f" "is_bitfield (ct_t (stype f))" "0 < bf_width (ct_t (stype f))" "bf_pos (ct_t (stype f)) \<ge> 0"
    and ty: "ct_t (stype f) AND 0x000f \<in> {1, 2, 3, 4, 11}"
  shows "first_bit (adjust_bitfield c f) = first_bit f \<and> bit_count (adjust_bitfield c f) = bit_count f
    \<and> is_bitfield (ct_t (stype (adjust_bitfield c f)))
    \<and> (sauxtype (adjust_bitfield c f) = 7 \<or>
        0 \<le> sc (adjust_bitfield c f)
        \<and> bf_pos (ct_t (stype (adjust_bitfield c f))) + bf_width (ct_t (stype (adjust_bitfield c f))) \<le> 8 * access_size (adjust_bitfield c f)
        \<and> sc (adjust_bitfield c f) + access_size (adjust_bitfield c f) \<le> c)"
proof -
  let ?t = "ct_t (stype f)"
  have "0 \<le> sc f * 8 + bf_pos ?t" using assms(1,4) by simp
  from find_unit_6 [OF this, of "bf_width ?t"] obtain px cx s ut where
    u: "find_unit 6 (sc f * 8 + bf_pos ?t) (bf_width ?t) 1 (- 1) 1 1 = Some (px, cx, s, ut)"
      "px + cx * 8 = sc f * 8 + bf_pos ?t" "0 \<le> px" "px < 64" "0 \<le> cx" "basic_size ut = (s, s)" "ut \<in> {1, 2, 3, 4}"
    by metis
  note b = set_bf_pos [OF u(3,4), of ?t]
  have ts: "type_size (stype (move_field (set_bf_pos px ?t) cx (set_auxtype (- 1) f))) = type_size (stype f)"
    using b ty assms(2) bitfield_size by simp
  have aux: "word_of_int (uint ut) = ut" by simp
  show ?thesis
  proof (cases "bf_pos ?t + bf_width ?t \<le> fst (type_size (stype f)) * 8 \<and> sc f + fst (type_size (stype f)) \<le> c")
    case True
    then show ?thesis using assms by (auto simp: adjust_bitfield_def Let_def access_size_def)
  next
    case False
    let ?g = "set_auxtype (if s \<noteq> fst (type_size (stype f)) then uint ut else - 1) (move_field (set_bf_pos px ?t) cx (set_auxtype (- 1) f))"
    have e: "adjust_bitfield c f = (if px + bf_width ?t \<le> s * 8 \<and> cx + s \<le> c then ?g else set_auxtype 7 f)"
      using assms(2,3) False u(1) by (auto simp: adjust_bitfield_def Let_def)
    have "uint ut \<noteq> - 1" using uint_nonnegative [of ut] by linarith
    then have "access_size ?g = s" using ts u(6) by (simp add: access_size_def)
    moreover have "first_bit ?g = first_bit f" "bit_count ?g = bit_count f"
      using b u(2) assms(2) by (simp_all add: first_bit_def bit_count_def)
    ultimately show ?thesis using assms(1,2) u b unfolding e by auto
  qed
qed

lemma access_byte_bits:
  fixes p w c :: int
  assumes "0 \<le> p" "0 \<le> w" "p + w \<le> 8 * c"
  shows "(p + w + 7) div 8 \<le> c"
  using assms by linarith

lemma bf_width_nonneg: "\<not> bf_width t < 0"
  by (simp add: bf_width_def)

lemma bf_pos_nonneg: "0 \<le> bf_pos t" "0 \<le> bf_width t"
  by (simp_all add: bf_pos_def bf_width_def)

lemma adjusted_bits:
  assumes "0 \<le> sc f" "is_bitfield (ct_t (stype f)) \<Longrightarrow> ct_t (stype f) AND 0x000f \<in> {1, 2, 3, 4, 11}"
  shows "first_bit (adjust_bitfield c f) = first_bit f \<and> bit_count (adjust_bitfield c f) = bit_count f"
proof (cases "is_bitfield (ct_t (stype f)) \<and> bf_width (ct_t (stype f)) \<noteq> 0")
  case True
  then show ?thesis using adjust_bitfield [of f c] assms bf_pos_nonneg [of "ct_t (stype f)"] by simp
next
  case False
  then show ?thesis by (auto simp: adjust_bitfield_def Let_def)
qed

text \<open>The alignment of the whole stays a power of two, and every alignment divides it.\<close>

lemma pow2_dvd: "pow2 a \<Longrightarrow> pow2 b \<Longrightarrow> a \<le> b \<Longrightarrow> a dvd b"
  unfolding pow2_def by (auto simp: le_imp_power_dvd)

lemma pow2_max: "pow2 a \<Longrightarrow> pow2 b \<Longrightarrow> pow2 (if a > b then a else b) \<and> a dvd (if a > b then a else b) \<and> b dvd (if a > b then a else b)"
  using pow2_dvd [of a b] pow2_dvd [of b a] by auto

definition plain_align :: "layout_env \<Rightarrow> csym \<Rightarrow> int" where
  "plain_align E f = fst (field_align E f (- 1) (snd (type_size (stype f))))"

lemma branch_simps [simp]:
  "offset (layout_union E f w sz al L) = 0" "maxalign (layout_union E f w sz al L) = maxalign L"
  "maxalign (layout_plain E f sz al L) = maxalign L"
  by (simp_all add: layout_union_def layout_plain_def Let_def)

lemma layout_field_branches:
  assumes "type_size (stype f) = (sz, al0)" "field_align E f (field_bits f) al0 = (al, pk)"
  shows "is_union E \<Longrightarrow> layout_field E L f =
      ((layout_union E f (field_bits f) sz al L)\<lparr>maxalign := (if al > maxalign L then al else maxalign L)\<rparr>, place 0 f)"
    and "\<not> is_union E \<Longrightarrow> field_bits f < 0 \<Longrightarrow> layout_field E L f =
      ((layout_plain E f sz al L)\<lparr>maxalign := (if al > maxalign L then al else maxalign L)\<rparr>,
       place (offset (layout_plain E f sz al L)) f)"
    and "\<not> is_union E \<Longrightarrow> \<not> field_bits f < 0 \<Longrightarrow>
      (if pcc E then layout_pcc_bits f (field_bits f) sz al pk L else layout_ms_bits f (field_bits f) sz al L) = (L1, al1, t1) \<Longrightarrow>
      layout_field E L f = (L1\<lparr>bit_pos := bit_pos L1 + field_bits f, maxalign := (if al1 > maxalign L1 then al1 else maxalign L1)\<rparr>,
       place (offset L1) (set_type_code (set_bf_pos (bit_pos L1) t1) f))"
  by (simp_all add: layout_field_def assms Let_def cong: if_cong split del: if_split)

lemma bits_maxalign:
  "layout_pcc_bits f w sz al pk L = (L1, al1, t1) \<Longrightarrow> maxalign L1 = maxalign L \<and> (al1 = 1 \<or> al1 = al)"
  "layout_ms_bits f w sz al L = (L1, al1, t1) \<Longrightarrow> maxalign L1 = maxalign L \<and> (al1 = 1 \<or> al1 = al)"
  by (auto simp: layout_pcc_bits_def Let_def case_prod_beta) (auto simp: layout_ms_bits_def Let_def)

lemma layout_field_align:
  assumes "env_ok E" "field_ok f" "pow2 (maxalign L)" "layout_field E L f = (L', f')"
  shows "pow2 (maxalign L') \<and> maxalign L dvd maxalign L'
    \<and> (\<not> is_bitfield (ct_t (stype f)) \<longrightarrow> stype f' = stype f \<and> (\<not> is_union E \<longrightarrow> plain_align E f dvd sc f') \<and> plain_align E f dvd maxalign L')"
proof -
  obtain sz al0 where ts: "type_size (stype f) = (sz, al0)" by fastforce
  obtain al pk where fa: "field_align E f (field_bits f) al0 = (al, pk)" by fastforce
  note e = layout_field_branches [OF ts fa]
  have "pow2 al0"
  proof (cases "is_bitfield (ct_t (stype f))")
    case True
    then show ?thesis using bitfield_sizes(1,2) [OF assms(2) True ts] pow2_simps by auto
  qed (use assms(2) ts in \<open>simp add: field_ok_def\<close>)
  then have al: "pow2 al" by (rule field_align(1) [OF assms(1) _ fa])
  note m = pow2_max [OF al assms(3)]
  have plain: "\<not> is_bitfield (ct_t (stype f)) \<Longrightarrow> plain_align E f = al"
    using ts fa by (simp add: plain_align_def field_bits_def)
  consider "is_union E" | "\<not> is_union E" "field_bits f < 0" | "\<not> is_union E" "\<not> field_bits f < 0" by blast
  then show ?thesis
  proof cases
    case 1
    then show ?thesis using e(1) [of L] assms(4) plain m by auto
  next
    case 2
    have "al dvd offset (layout_plain E f sz al L)"
      using align_up_bounds(3) [OF al] by (simp add: layout_plain_def Let_def)
    then show ?thesis using 2 e(2) [of L] assms(4) plain m by auto
  next
    case 3
    obtain L1 al1 t1 where b: "(if pcc E then layout_pcc_bits f (field_bits f) sz al pk L
        else layout_ms_bits f (field_bits f) sz al L) = (L1, al1, t1)" by (metis prod_cases3)
    have a: "maxalign L1 = maxalign L" "pow2 al1"
      using b al pow2_simps(1) bits_maxalign by (metis, metis)
    have "is_bitfield (ct_t (stype f))" using 3(2) by (simp add: field_bits_def split: if_splits)
    moreover have "maxalign L' = (if al1 > maxalign L then al1 else maxalign L)"
      using e(3) [OF 3 b] assms(4) a(1) by (simp split del: if_split) auto
    ultimately show ?thesis using pow2_max [OF a(2) assms(3)] by (simp only: simp_thms)
  qed
qed

lemma layout_fields_align:
  assumes "env_ok E" "\<forall>f\<in>set fs. field_ok f" "pow2 (maxalign L)" "layout_fields E L fs = (L', fs')"
  shows "pow2 (maxalign L') \<and> maxalign L dvd maxalign L' \<and> length fs' = length fs
    \<and> list_all2 (\<lambda>f f'. \<not> is_bitfield (ct_t (stype f)) \<longrightarrow> stype f' = stype f \<and> (\<not> is_union E \<longrightarrow> plain_align E f dvd sc f') \<and> plain_align E f dvd maxalign L') fs fs'"
  using assms(2-)
proof (induction fs arbitrary: L fs')
  case Nil
  then show ?case by simp
next
  case (Cons f fs)
  obtain L1 f1 where s1: "layout_field E L f = (L1, f1)" by fastforce
  obtain gs where s2: "layout_fields E L1 fs = (L', gs)" "fs' = f1 # gs"
    using Cons.prems(3) s1 by (auto split: prod.splits)
  have a: "field_ok f" using Cons.prems(1) by simp
  note b = layout_field_align [OF assms(1) a Cons.prems(2) s1]
  have c: "pow2 (maxalign L1)" "\<forall>f\<in>set fs. field_ok f" using b Cons.prems(1) by auto
  note d = Cons.IH [OF c(2,1) s2(1)]
  show ?case using b d s2(2) by (auto intro: dvd_trans)
qed

lemma struct_size:
  assumes "env_ok E" "pow2 (maxalign L)" "struct_size E L = (c, r)" "pcc E"
  shows "csize L + (bit_pos L + 7) div 8 \<le> c" "r dvd c" "maxalign L dvd r" "pow2 r"
proof -
  let ?b = "if ad_aligned E \<noteq> 0 then 2 ^ (ad_aligned E - 1) else 1 :: int"
  have b: "pow2 ?b" using pow2_simps(1,5) by simp
  have r: "r = (if maxalign L > ?b then maxalign L else ?b)" "c = align_up (csize L + (bit_pos L + 7) div 8) r"
    using assms(3,4) by (auto simp: struct_size_def Let_def)
  show "maxalign L dvd r" "pow2 r" using pow2_max [OF assms(2) b] r(1) by simp_all
  then show "csize L + (bit_pos L + 7) div 8 \<le> c" "r dvd c" using align_up_bounds r(2) by simp_all
qed

lemma struct_layout_parts:
  assumes "layout_fields E layout_start (snext s) = (L, fs)" "struct_size E L = (c, r)"
  shows "snext (struct_layout E s) = map (adjust_bitfield c) fs" "sc (struct_layout E s) = c" "sr (struct_layout E s) = r"
  using assms by (simp_all add: struct_layout_def split: csym.splits)

lemma start_ok: "layout_ok layout_start" "layout_pos layout_start = 0" "pow2 (maxalign layout_start)"
  using pow2_simps(1) by (simp_all add: layout_start_def layout_ok_def layout_pos_def)

lemma struct_bits:
  assumes "pcc E" "\<not> is_union E" "env_ok E" "\<forall>f\<in>set (snext s). field_ok f"
    and "layout_fields E layout_start (snext s) = (L, fs)" "struct_size E L = (c, r)"
  shows "length fs = length (snext s) \<and> sorted_wrt (\<lambda>f g. first_bit f + bit_count f \<le> first_bit g) fs
    \<and> (\<forall>f\<in>set fs. 0 \<le> first_bit f \<and> first_bit f + bit_count f \<le> 8 * c \<and> 0 \<le> sc f
        \<and> (is_bitfield (ct_t (stype f)) \<longrightarrow> ct_t (stype f) AND 0x000f \<in> {1, 2, 3, 4, 11}))"
proof -
  note s = layout_fields_step [OF assms(1-4) start_ok(1) assms(5)]
  note a = layout_fields_align [OF assms(3,4) start_ok(3) assms(5)]
  have "csize L + (bit_pos L + 7) div 8 \<le> c" using struct_size(1) [OF assms(3) _ assms(6,1)] a by simp
  then have "layout_pos L \<le> 8 * c" by (simp add: layout_pos_def)
  then show ?thesis using s start_ok(2) by fastforce
qed

section \<open>The members of a struct\<close>

text \<open>
  All the fields of a struct with their offsets in it, those of anonymous structs after the anonymous
  field itself; and the names among them that a program can write.
\<close>

function flat_fields :: "int \<Rightarrow> csym list \<Rightarrow> (csym \<times> int) list" where
  "flat_fields ofs [] = []"
| "flat_fields ofs (f # fs) =
     (f, ofs + sc f) # (if anonymous_struct f then flat_fields (ofs + sc f) (fields_of (stype f)) else []) @ flat_fields ofs fs"
  by pat_completeness auto
termination
  by (relation "measure (\<lambda>(v, fs). size_list size fs)") (use fields_of_size in \<open>auto intro: less_SucI trans_less_add1\<close>)

definition field_name :: "csym \<Rightarrow> u32" where "field_name f = sv f AND NOT SYM_FIELD"
definition named :: "csym \<Rightarrow> bool" where "named f \<longleftrightarrow> field_name f <s SYM_FIRST_ANOM"

definition member_names :: "(csym \<times> int) list \<Rightarrow> u32 list" where
  "member_names l = map (\<lambda>(f, ofs). field_name f) (filter (\<lambda>(f, ofs). named f) l)"

text \<open>The parser marks the name of every field; names and anonymous numbers are below the mark.\<close>

definition well_named :: "csym \<Rightarrow> bool" where
  "well_named f \<longleftrightarrow> drop_bit 29 (sv f) = 1"

lemma find_in_list_flat:
  "map_option (\<lambda>(g, p). (g, p + ofs)) (find_in_list v fs) = find (\<lambda>(g, p). sv g = v) (flat_fields ofs fs)"
proof (induction v fs arbitrary: ofs rule: find_in_list.induct)
  case (1 v)
  then show ?case by simp
next
  case (2 v f fs)
  have split: "find P (xs @ ys) = (case find P xs of None \<Rightarrow> find P ys | Some y \<Rightarrow> Some y)"
    for P :: "csym \<times> int \<Rightarrow> bool" and xs ys
    by (induction xs) auto
  show ?case
  proof (cases "sv f = v \<or> \<not> anonymous_struct f")
    case True
    then show ?thesis using 2(3) [of ofs] by (cases "sv f = v") simp_all
  next
    case False
    note a = 2(1) [of "ofs + sc f", OF False [simplified, THEN conjunct1] False [simplified, THEN conjunct2]]
    show ?thesis
    proof (cases "find_in_list v (fields_of (stype f))")
      case None
      then show ?thesis using False a 2(2) [OF _ _ None] by (simp add: split flip: a)
    next
      case (Some gp)
      then show ?thesis using False by (cases gp) (simp add: split ac_simps flip: a)
    qed
  qed
qed

lemma marked_word:
  fixes w :: u32
  assumes "drop_bit 29 w = 1"
  shows "w AND NOT SYM_FIELD = take_bit 29 w" "unat w = unat (take_bit 29 w) + 2 ^ 29"
    "take_bit 29 w OR SYM_FIELD = w"
proof -
  have "SYM_FIELD = 2 ^ 29" by (simp add: SYM_FIELD_def)
  then have f: "bit SYM_FIELD n \<longleftrightarrow> n = 29" for n using bit_exp_iff [of 29 n, where ?'a = u32] by auto
  have hi: "bit w (29 + n) \<longleftrightarrow> n = 0" for n
    using arg_cong [OF assms, of "\<lambda>x. bit x n"] by (simp add: bit_drop_bit_eq bit_1_iff)
  have b: "bit w n \<longleftrightarrow> n < 29 \<and> bit w n \<or> n = 29" for n
    using hi [of "n - 29"] by (cases "n < 29") auto
  show "w AND NOT SYM_FIELD = take_bit 29 w"
    by (rule bit_word_eqI) (use b in \<open>auto simp: f bit_simps\<close>)
  show "take_bit 29 w OR SYM_FIELD = w"
    by (rule bit_word_eqI) (use b in \<open>auto simp: f bit_simps\<close>)
  have "unat (drop_bit 29 w) = 1" using assms by simp
  then have "drop_bit 29 (unat w) = 1" by (simp only: unat_drop_bit_eq)
  then have "unat w div 2 ^ 29 = 1" by (simp only: drop_bit_eq_div)
  moreover have "unat (take_bit 29 w) = unat w mod 2 ^ 29"
    unfolding unsigned_take_bit_eq [where ?'a = nat] by (rule take_bit_eq_mod)
  ultimately show "unat w = unat (take_bit 29 w) + 2 ^ 29" using div_mult_mod_eq [of "unat w" "2 ^ 29"] by simp
qed

lemma named_iff:
  assumes "well_named f"
  shows "named f \<longleftrightarrow> unat (take_bit 29 (sv f)) < 2 ^ 28" "anonymous_struct f \<longleftrightarrow> \<not> named f \<and> ct_t (stype f) AND 0x000f = 7"
proof -
  let ?x = "take_bit 29 (sv f)"
  note w = marked_word [OF assms [unfolded well_named_def]]
  have x: "unat ?x < 2 ^ 29" unfolding unsigned_take_bit_eq [where ?'a = nat] by (rule take_bit_nat_less_exp)
  have s: "sint ?x = int (unat ?x)" "sint (sv f) = int (unat ?x) + 2 ^ 29"
    using x w(2) sint_small [of ?x] sint_small [of "sv f"] by simp_all
  show n: "named f \<longleftrightarrow> unat ?x < 2 ^ 28"
    by (simp add: named_def field_name_def w(1) word_sless_alt s(1) SYM_FIRST_ANOM_def flip: of_nat_less_iff [where ?'a = int])
  have "SYM_FIRST_ANOM OR SYM_FIELD \<le>s sv f \<longleftrightarrow> \<not> unat ?x < 2 ^ 28"
    by (simp add: word_sle_eq s(2) SYM_FIRST_ANOM_def SYM_FIELD_def not_less flip: of_nat_less_iff [where ?'a = int])
  then show "anonymous_struct f \<longleftrightarrow> \<not> named f \<and> ct_t (stype f) AND 0x000f = 7"
    using n by (auto simp: anonymous_struct_def)
qed

lemma member_names_simps [simp]:
  "member_names [] = []" "member_names (xs @ ys) = member_names xs @ member_names ys"
  "member_names ((f, p) # xs) = (if named f then field_name f # member_names xs else member_names xs)"
  by (simp_all add: member_names_def)

text \<open>check_fields seen from the list of the members: it toggles their names one by one.\<close>

fun toggle_all :: "bool \<Rightarrow> u32 list \<Rightarrow> u32 set \<Rightarrow> (u32 set) res" where
  "toggle_all chk [] fl = Inr fl"
| "toggle_all chk (v # vs) fl =
     (if chk \<and> v \<in> fl then Inl ''duplicate member %s'' else toggle_all chk vs (if v \<in> fl then fl - {v} else insert v fl))"

lemma toggle_all_append: "toggle_all chk (xs @ ys) fl = ebind (toggle_all chk xs fl) (toggle_all chk ys)"
  by (induction xs arbitrary: fl) auto

lemma check_list_toggle:
  "\<forall>(f, p)\<in>set (flat_fields ofs fs). well_named f \<Longrightarrow> check_list chk fs fl = toggle_all chk (member_names (flat_fields ofs fs)) fl"
proof (induction ofs fs arbitrary: fl rule: flat_fields.induct)
  case (1 ofs)
  then show ?case by simp
next
  case (2 ofs f fs)
  have wf: "well_named f" and rest: "\<forall>(f, p)\<in>set (flat_fields ofs fs). well_named f"
    using 2(3) by auto
  have v: "sv f AND NOT SYM_FIELD = field_name f" "field_name f <s SYM_FIRST_ANOM \<longleftrightarrow> named f"
    by (simp_all add: field_name_def named_def)
  note a = named_iff(2) [OF wf] and ih = 2(2) [OF rest]
  consider "named f" "\<not> anonymous_struct f" | "anonymous_struct f" "\<not> named f" | "\<not> anonymous_struct f" "\<not> named f"
    using a by auto
  then show ?case
  proof cases
    case 1
    then show ?thesis using ih v by (simp add: Let_def)
  next
    case anon: 2
    then have "check_list chk (fields_of (stype f)) fl = toggle_all chk (member_names (flat_fields (ofs + sc f) (fields_of (stype f)))) fl" for fl
      using 2(1) [OF anon(1)] 2(3) by auto
    moreover have "check_list chk fs = toggle_all chk (member_names (flat_fields ofs fs))" using ih by blast
    ultimately show ?thesis using anon a v by (simp add: Let_def toggle_all_append)
  next
    case 3
    then show ?thesis using a ih v by (simp add: Let_def)
  qed
qed

lemma toggle_all_check:
  "toggle_all True vs fl = (if distinct vs \<and> set vs \<inter> fl = {} then Inr (fl \<union> set vs) else Inl ''duplicate member %s'')"
proof (induction vs arbitrary: fl)
  case (Cons v vs)
  show ?case
  proof (cases "v \<in> fl")
    case False
    then show ?thesis using Cons.IH [of "insert v fl"] by (cases "v \<in> set vs") simp_all
  qed simp
qed simp

lemma toggle_all_back:
  "distinct vs \<Longrightarrow> set vs \<subseteq> fl \<Longrightarrow> toggle_all False vs fl = Inr (fl - set vs)"
proof (induction vs arbitrary: fl)
  case (Cons v vs)
  then have "toggle_all False vs (fl - {v}) = Inr (fl - {v} - set vs)" by (intro Cons.IH) auto
  moreover have "fl - {v} - set vs = fl - set (v # vs)" by auto
  ultimately show ?case using Cons.prems by simp
qed simp

text \<open>A marked name among fields with distinct names is found at the first, hence the only, such field.\<close>

lemma find_member:
  assumes "\<forall>(f, p)\<in>set l. well_named f" "distinct (member_names l)" "(g, ofs) \<in> set l" "named g"
  shows "find (\<lambda>(f, p). sv f = sv g) l = Some (g, ofs)"
  using assms
proof (induction l)
  case Nil
  then show ?case by simp
next
  case (Cons h l)
  obtain f p where h: "h = (f, p)" by fastforce
  show ?case
  proof (cases "sv f = sv g")
    case True
    then have n: "named f" "field_name f = field_name g" using Cons.prems(4) by (simp_all add: named_def field_name_def)
    have "(g, ofs) \<notin> set l"
    proof
      assume "(g, ofs) \<in> set l"
      then have "field_name g \<in> set (member_names l)" using Cons.prems(4) by (force simp: member_names_def)
      then show False using Cons.prems(2) n h by simp
    qed
    then show ?thesis using Cons.prems(3) True h by auto
  next
    case False
    then have "(g, ofs) \<in> set l" using Cons.prems(3) h by auto
    moreover have "distinct (member_names l)" using Cons.prems(2) h by (auto split: if_splits)
    ultimately show ?thesis using Cons.IH Cons.prems(1,4) False h by simp
  qed
qed

section \<open>A packed struct as an example\<close>

text \<open>struct { char a; int b:3; int c:30; short d; }, packed: c ends in the fifth byte and is accessed as a
  long long over the whole struct.\<close>

definition plain_field :: "u32 \<Rightarrow> u32 \<Rightarrow> csym" where
  "plain_field n t = Sym (SYM_FIELD OR n) 0 0 (CType t None) [] 0 False 0"

definition example_struct :: csym where
  "example_struct = Sym 0x40000101 0 0 (CType 7 None)
     [plain_field 300 1, plain_field 301 0x0c000083, plain_field 302 0x78000083, plain_field 303 2] 0 False 0"

definition example_laid :: csym where
  "example_laid = Sym 0x40000101 1 8 (CType 7 None)
     [Sym 0x2000012c 0 0 (CType 1 None) [] 0 False 0, Sym 0x2000012d 0 1 (CType 0x0c000083 None) [] 0 False (- 1),
      Sym 0x2000012e 0 0 (CType 0x78b00083 None) [] 0 False 4, Sym 0x2000012f 0 6 (CType 2 None) [] 0 False 0] 0 False 0"

definition packed_env :: layout_env where
  "packed_env = \<lparr>pcc = True, pragma_pack = 0, ad_aligned = 0, ad_packed = True, is_union = False\<rparr>"

lemma example_layout: "struct_layout packed_env example_struct = example_laid"
  by code_simp

lemma example_ok:
  "pcc packed_env" "\<not> is_union packed_env" "env_ok packed_env" "\<forall>f\<in>set (snext example_struct). field_ok f"
proof -
  have "pow2 1" "pow2 2" using pow2_simps by auto
  then show "\<forall>f\<in>set (snext example_struct). field_ok f"
    by (simp add: example_struct_def plain_field_def field_ok_def is_bitfield_def bf_width_def basic_size_def is_enum_def)
qed (simp_all add: packed_env_def env_ok_def)

text \<open>struct { int a:4; int :0; int :0; int b:4; int d; } with ms_bitfields: the second zero-width bit-field
  starts a unit that is never reserved, and b and d share it.\<close>

definition ms_struct :: csym where
  "ms_struct = Sym 0x40000101 0 0 (CType 7 None)
     [plain_field 300 0x10000083, plain_field 0x10000001 0x83, plain_field 0x10000002 0x83,
      plain_field 301 0x10000083, plain_field 302 3] 0 False 0"

lemma ms_bitfields_overlap:
  "map (\<lambda>f. (first_bit f, bit_count f)) (snext (struct_layout (packed_env\<lparr>pcc := False, ad_packed := False\<rparr>) ms_struct)) =
   [(0, 4), (32, 0), (64, 0), (64, 4), (64, 32)]"
  by code_simp

lemma layout_union_step:
  assumes "is_union E" "field_ok f" "bf_pos (ct_t (stype f)) = 0" "layout_field E L f = (L', f')" "0 \<le> csize L"
  shows "bit_pos L' = bit_pos L \<and> csize L \<le> csize L' \<and> stype f' = stype f \<and> sc f' = 0 \<and> 0 \<le> csize L'
    \<and> first_bit f' = 0 \<and> bit_count f' \<le> 8 * csize L'"
proof -
  obtain sz al0 where ts: "type_size (stype f) = (sz, al0)" by fastforce
  obtain al pk where fa: "field_align E f (field_bits f) al0 = (al, pk)" by fastforce
  have L: "L' = (layout_union E f (field_bits f) sz al L)\<lparr>maxalign := (if al > maxalign L then al else maxalign L)\<rparr>"
      "f' = place 0 f"
    using layout_field_branches(1) [OF ts fa assms(1), of L] assms(4) by auto
  have c: "csize L' = (let sz = (if pcc E \<and> field_bits f \<ge> 0 then (field_bits f + 7) div 8 else sz) in if sz > csize L then sz else csize L)"
    by (simp add: L layout_union_def Let_def)
  have b: "bit_count f' = (if is_bitfield (ct_t (stype f)) then field_bits f else 8 * max 0 sz)" "first_bit f' = 0"
    using assms(3) ts by (simp_all add: L(2) bit_count_def first_bit_def field_bits_def)
  have "bit_count f' \<le> 8 * csize L'"
  proof (cases "is_bitfield (ct_t (stype f))")
    case True
    note w = bitfield_sizes(4) [OF assms(2) True ts] 
    have "field_bits f = bf_width (ct_t (stype f))" using True by (simp add: field_bits_def)
    then show ?thesis using True b(1) c w bf_pos_nonneg(2) [of "ct_t (stype f)"] by (auto simp: Let_def)
  next
    case False
    then have "field_bits f < 0" by (simp add: field_bits_def)
    then show ?thesis using False b(1) c assms(5) by (auto simp: Let_def)
  qed
  then show ?thesis using L b c assms(5) by (auto simp: layout_union_def Let_def)
qed

lemma layout_union_steps:
  assumes "is_union E" "\<forall>f\<in>set fs. field_ok f \<and> bf_pos (ct_t (stype f)) = 0" "layout_fields E L fs = (L', fs')" "0 \<le> csize L"
  shows "bit_pos L' = bit_pos L \<and> csize L \<le> csize L' \<and> list_all2 (\<lambda>f f'. stype f' = stype f \<and> sc f' = 0) fs fs'
    \<and> (\<forall>f\<in>set fs'. first_bit f = 0 \<and> bit_count f \<le> 8 * csize L')"
  using assms(2-)
proof (induction fs arbitrary: L fs')
  case Nil
  then show ?case by simp
next
  case (Cons f fs)
  obtain L1 f1 where s1: "layout_field E L f = (L1, f1)" by fastforce
  obtain gs where s2: "layout_fields E L1 fs = (L', gs)" "fs' = f1 # gs"
    using Cons.prems(2) s1 by (auto split: prod.splits)
  note a = layout_union_step [OF assms(1) _ _ s1 Cons.prems(3)]
  have b: "field_ok f" "bf_pos (ct_t (stype f)) = 0" "\<forall>f\<in>set fs. field_ok f \<and> bf_pos (ct_t (stype f)) = 0"
    using Cons.prems(1) by auto
  note a = a [OF b(1,2)]
  then have "0 \<le> csize L1" by blast
  note c = Cons.IH [OF b(3) s2(1) this]
  show ?case using a c s2(2) by auto
qed

lemma struct_size_ge:
  assumes "env_ok E" "pow2 (maxalign L)" "0 \<le> bit_pos L"
  shows "csize L \<le> fst (struct_size E L)"
proof -
  let ?b = "if ad_aligned E \<noteq> 0 then 2 ^ (ad_aligned E - 1) else 1 :: int"
  have b: "pow2 ?b" using pow2_simps(1,5) by simp
  define a where "a = (if ?b < maxalign L then maxalign L else ?b)"
  define a' where "a' = (if pragma_pack E \<noteq> 0 \<and> pragma_pack E < maxalign L \<and> \<not> pcc E
               then (if pragma_pack E < ?b then ?b else pragma_pack E) else a)"
  have a: "pow2 a" using b assms(2) by (simp add: a_def)
  have "pow2 (pragma_pack E)" if "pragma_pack E \<noteq> 0" using assms(1) that by (auto simp: env_ok_def)
  then have "pow2 a'" unfolding a'_def using a b by presburger
  then have "c \<le> align_up c a'" for c by (rule align_up_bounds)
  moreover have "csize L \<le> (if pcc E then csize L + (bit_pos L + 7) div 8 else csize L)" using assms(3) by auto
  moreover have "fst (struct_size E L) = align_up (if pcc E then csize L + (bit_pos L + 7) div 8 else csize L) a'"
    unfolding struct_size_def Let_def a_def [symmetric] a'_def [symmetric] by (rule fst_conv)
  ultimately show ?thesis by (metis order_trans)
qed

section \<open>Properties\<close>

text \<open>
  C20: Laid out as gcc does it, the fields of a struct, bit-fields included, occupy bit ranges that follow
  one another without overlap, each within the struct's size; the second pass moves no bit.
\<close>

theorem struct_fields_disjoint:
  assumes "pcc E" "\<not> is_union E" "env_ok E" "\<forall>f\<in>set (snext s). field_ok f"
  shows "length (snext (struct_layout E s)) = length (snext s)
    \<and> sorted_wrt (\<lambda>f g. first_bit f + bit_count f \<le> first_bit g) (snext (struct_layout E s))
    \<and> (\<forall>f\<in>set (snext (struct_layout E s)). 0 \<le> first_bit f \<and> first_bit f + bit_count f \<le> 8 * sc (struct_layout E s))"
proof -
  obtain L fs where l: "layout_fields E layout_start (snext s) = (L, fs)" by fastforce
  obtain c r where z: "struct_size E L = (c, r)" by fastforce
  note b = struct_bits [OF assms l z]
  then have "\<forall>f\<in>set fs. first_bit (adjust_bitfield c f) = first_bit f \<and> bit_count (adjust_bitfield c f) = bit_count f"
    using adjusted_bits by blast
  then show ?thesis
    using b by (auto simp: struct_layout_parts [OF l z] sorted_wrt_map elim!: sorted_wrt_mono_rel [rotated])
qed

theorem struct_fields_disjoint_witness:
  "length (snext example_laid) = 4
    \<and> sorted_wrt (\<lambda>f g. first_bit f + bit_count f \<le> first_bit g) (snext example_laid)
    \<and> map first_bit (snext example_laid) = [0, 8, 11, 48]"
proof -
  have "map first_bit (snext example_laid) = [0, 8, 11, 48]" by code_simp
  moreover have "length (snext example_struct) = 4" by (simp add: example_struct_def)
  ultimately show ?thesis using struct_fields_disjoint [OF example_ok] unfolding example_layout by simp
qed



text \<open>
  Note: The struct's size is a multiple of its alignment, and every field that is no bit-field lies at a
  multiple of its own alignment, which divides that of the struct.
\<close>

theorem struct_layout_aligned:
  assumes "pcc E" "\<not> is_union E" "env_ok E" "\<forall>f\<in>set (snext s). field_ok f"
  shows "sr (struct_layout E s) dvd sc (struct_layout E s)
    \<and> list_all2 (\<lambda>f f'. is_bitfield (ct_t (stype f)) \<or>
        (stype f' = stype f \<and> plain_align E f dvd sc f' \<and> plain_align E f dvd sr (struct_layout E s)))
      (snext s) (snext (struct_layout E s))"
proof -
  obtain L fs where l: "layout_fields E layout_start (snext s) = (L, fs)" by fastforce
  obtain c r where z: "struct_size E L = (c, r)" by fastforce
  note a = layout_fields_align [OF assms(3,4) start_ok(3) l]
  have m: "pow2 (maxalign L)" using a by blast
  note b = struct_size(2,3) [OF assms(3) m z assms(1)]
  have same: "\<not> is_bitfield (ct_t (stype f)) \<Longrightarrow> adjust_bitfield c f = f" for f by (simp add: adjust_bitfield_def)
  have "list_all2 (\<lambda>f f'. is_bitfield (ct_t (stype f)) \<or>
        (stype f' = stype f \<and> plain_align E f dvd sc f' \<and> plain_align E f dvd r)) (snext s) (map (adjust_bitfield c) fs)"
    unfolding list_all2_map2
    by (rule list_all2_mono [OF conjunct2 [OF conjunct2 [OF conjunct2 [OF a]]]]) (use same assms(2) b(2) in \<open>auto intro: dvd_trans\<close>)
  then show ?thesis using b(1) by (simp add: struct_layout_parts [OF l z])
qed

theorem struct_layout_aligned_witness:
  "sr (struct_layout packed_env example_struct) dvd 8
    \<and> plain_align packed_env (snext example_struct ! 3) dvd sc (snext example_laid ! 3)"
proof -
  note t = struct_layout_aligned [OF example_ok, unfolded example_layout]
  have "\<not> is_bitfield (ct_t (stype (snext example_struct ! 3)))" "length (snext example_struct) = 4" "sc example_laid = 8"
    by (simp_all add: example_struct_def example_laid_def plain_field_def is_bitfield_def)
  then show ?thesis using t list_all2_nthD [OF conjunct2 [OF t], of 3] unfolding example_layout by auto
qed

text \<open>
  C37: check_fields accepts a struct exactly when the names of its members, those of anonymous structs
  included, are distinct, and a second pass without the check leaves every flag as it was.
\<close>

theorem check_fields_distinct:
  assumes "\<forall>(f, p)\<in>set (flat_fields 0 (fields_of type)). well_named f"
  shows "case check_fields True type {} of
      Inl e \<Rightarrow> e = ''duplicate member %s'' \<and> \<not> distinct (member_names (flat_fields 0 (fields_of type)))
    | Inr fl \<Rightarrow> distinct (member_names (flat_fields 0 (fields_of type))) \<and> check_fields False type fl = Inr {}"
  using toggle_all_back [of "member_names (flat_fields 0 (fields_of type))"]
  by (auto simp: check_fields_def check_list_toggle [OF assms] toggle_all_check split: if_splits sum.splits)

theorem check_fields_distinct_witness:
  "case check_fields True (CType 7 (Some example_struct)) {} of
      Inl e \<Rightarrow> False
    | Inr fl \<Rightarrow> distinct (member_names (flat_fields 0 (snext example_struct)))
        \<and> check_fields False (CType 7 (Some example_struct)) fl = Inr {}"
proof -
  have n: "check_fields True (CType 7 (Some example_struct)) {} \<noteq> Inl ''duplicate member %s''" by code_simp
  have "list_all (\<lambda>(f, p). well_named f) (flat_fields 0 (fields_of (CType 7 (Some example_struct))))" by code_simp
  then have "\<forall>(f, p)\<in>set (flat_fields 0 (fields_of (CType 7 (Some example_struct)))). well_named f"
    by (simp add: list_all_iff)
  from check_fields_distinct [OF this] n show ?thesis
    by (auto simp: fields_of_def split: sum.splits)
qed

text \<open>
  Note: In a struct that check_fields accepts, find_field finds every member by its name, with the sum of
  the offsets of the anonymous structs around it and its own.
\<close>

theorem find_field_member:
  assumes "\<forall>(f, p)\<in>set (flat_fields 0 (fields_of type)). well_named f" "check_fields True type {} = Inr fl"
    and "ct_t type AND 0x000f = 7" "ct_ref type = Some s" "0 \<le> sc s"
    and "(g, ofs) \<in> set (flat_fields 0 (fields_of type))" "named g" "\<not> field_name g <s TOK_DEFINE"
  shows "find_field TOK_DEFINE type (field_name g) = Inr (g, ofs)"
proof -
  let ?l = "flat_fields 0 (fields_of type)"
  have d: "distinct (member_names ?l)"
    using assms(2) by (auto simp: check_fields_def check_list_toggle [OF assms(1)] toggle_all_check split: if_splits)
  have "well_named g" using assms(1,6) by auto
  then have n: "field_name g OR SYM_FIELD = sv g"
    using marked_word(1,3) [of "sv g"] by (simp add: well_named_def field_name_def)
  have "find (\<lambda>(f, p). sv f = sv g) ?l = Some (g, ofs)" by (rule find_member [OF assms(1) d assms(6,7)])
  then have "find_in_list (sv g) (fields_of type) = Some (g, ofs)"
    using find_in_list_flat [of 0 "sv g" "fields_of type"] by (auto split: prod.splits)
  then show ?thesis using assms(3,4,5,8) n by (simp add: find_field_def fields_of_def)
qed

theorem find_field_member_witness:
  "find_field 290 (CType 7 (Some (Sym 0x40000102 8 16 (CType 7 None)
       [Sym 0x2000012b 0 0 (CType 4 None) [] 0 False 0,
        Sym 0x30000001 0 8 (CType 7 (Some example_laid)) [] 0 False 0] 0 False 0))) 303
   = Inr (snext example_laid ! 3, 14)"
proof -
  let ?s = "Sym 0x40000102 8 16 (CType 7 None) [Sym 0x2000012b 0 0 (CType 4 None) [] 0 False 0,
        Sym 0x30000001 0 8 (CType 7 (Some example_laid)) [] 0 False 0] 0 False 0"
  let ?t = "CType 7 (Some ?s)"
  have "list_all (\<lambda>(f, p). well_named f) (flat_fields 0 (fields_of ?t))" by code_simp
  then have l: "\<forall>(f, p)\<in>set (flat_fields 0 (fields_of ?t)). well_named f" unfolding list_all_iff .
  have a: "flat_fields 0 (fields_of ?t) ! 5 = (snext example_laid ! 3, 14)" by code_simp
  have "length (flat_fields 0 (fields_of ?t)) = 6" by code_simp
  then have m: "(snext example_laid ! 3, 14) \<in> set (flat_fields 0 (fields_of ?t))"
    unfolding a [symmetric] by (intro nth_mem) linarith
  have c: "check_fields True ?t {} = Inr {299, 300, 301, 302, 303}" by code_simp
  have n: "named (snext example_laid ! 3)" "field_name (snext example_laid ! 3) = 303" by code_simp+
  have "find_field 290 ?t (field_name (snext example_laid ! 3)) = Inr (snext example_laid ! 3, 14)"
    by (rule find_field_member [where s = ?s, OF l c _ _ _ m n(1)]) (simp_all add: n(2) word_sless_alt)
  then show ?thesis unfolding n(2) .
qed

text \<open>
  Note: In a union every field is at offset 0, bit 0, and fits: the size is at least that of each field,
  counted in bits for a bit-field.
\<close>

theorem union_layout:
  assumes "is_union E" "env_ok E" "\<forall>f\<in>set (snext s). field_ok f \<and> bf_pos (ct_t (stype f)) = 0"
    and "f \<in> set (snext (struct_layout E s))"
  shows "first_bit f = 0 \<and> bit_count f \<le> 8 * sc (struct_layout E s)"
proof -
  obtain L fs where l: "layout_fields E layout_start (snext s) = (L, fs)" by fastforce
  obtain c r where z: "struct_size E L = (c, r)" by fastforce
  have st: "csize layout_start = 0" "bit_pos layout_start = 0" by (simp_all add: layout_start_def)
  have u: "bit_pos L = 0" "list_all2 (\<lambda>f f'. stype f' = stype f \<and> sc f' = 0) (snext s) fs"
      "\<forall>f\<in>set fs. first_bit f = 0 \<and> bit_count f \<le> 8 * csize L"
    using layout_union_steps [OF assms(1,3) l] st by simp_all
  have m: "pow2 (maxalign L)" using layout_fields_align [OF assms(2) _ start_ok(3) l] assms(3) by blast
  have c: "csize L \<le> c" using struct_size_ge [OF assms(2) m] u(1) z by simp
  obtain g where g: "g \<in> set fs" "f = adjust_bitfield c g"
    using assms(4) by (auto simp: struct_layout_parts [OF l z])
  obtain h where h: "h \<in> set (snext s)" "stype g = stype h" "sc g = 0"
  proof -
    obtain i where i: "i < length fs" "fs ! i = g" using g(1) by (auto simp: in_set_conv_nth)
    then have "snext s ! i \<in> set (snext s)" using list_all2_lengthD [OF u(2)] by simp
    then show thesis using that list_all2_nthD2 [OF u(2) i(1)] i(2) by simp
  qed
  have "first_bit f = first_bit g \<and> bit_count f = bit_count g"
    unfolding g(2) by (rule adjusted_bits) (use h assms(3) in \<open>auto simp: field_ok_def\<close>)
  then show ?thesis using u(3) g(1) c by (auto simp: struct_layout_parts [OF l z])
qed

theorem union_layout_witness:
  "sc (struct_layout (packed_env\<lparr>is_union := True\<rparr>) example_struct) = 4
   \<and> first_bit (snext (struct_layout (packed_env\<lparr>is_union := True\<rparr>) example_struct) ! 2) = 0
   \<and> 30 \<le> 8 * sc (struct_layout (packed_env\<lparr>is_union := True\<rparr>) example_struct)"
proof -
  let ?E = "packed_env\<lparr>is_union := True\<rparr>"
  let ?f = "snext (struct_layout ?E example_struct) ! 2"
  have e: "sc (struct_layout ?E example_struct) = 4" "bit_count ?f = 30" "length (snext (struct_layout ?E example_struct)) = 4"
    by code_simp+
  have "\<forall>f\<in>set (snext example_struct). bf_pos (ct_t (stype f)) = 0"
    by (simp add: example_struct_def plain_field_def bf_pos_def)
  then have "first_bit ?f = 0 \<and> bit_count ?f \<le> 8 * sc (struct_layout ?E example_struct)"
    by (intro union_layout) (use example_ok(3,4) e(3) in \<open>auto simp: env_ok_def packed_env_def\<close>)
  then show ?thesis using e by simp
qed

end
