(* ===== verification/ConstFold.thy ===== *)
theory ConstFold
  imports Jumps "HOL-Library.Signed_Division"
begin

text \<open>
  Constant folding and algebraic simplification of integer operations: value64, gen_opic_sdiv,
  gen_opic_lt and gen_opic (lines 17445-17594), with vswap and vpop (16697-16716) on the value
  stack. The stack is a list with vtop first. Operators are the token values of the code:
  the ASCII codes of \<^verbatim>\<open>+ - & ^ | * / %\<close>, 0x3c and 0x3e for shift left and arithmetic
  shift right, 0x8b for logical shift right, 0x83 and 0x84 for unsigned division and remainder, 0x85 for
  the exact division of pointer differences, 0x92 .. 0x9f for comparisons, 0x90 and 0x91 for
  \<^verbatim>\<open>&& ||\<close>.
\<close>

record svalue =
  sv_t :: u32
  sv_r :: u16
  sv_c :: u64
  sv_sym :: nat

definition bool64 :: "bool \<Rightarrow> u64" where "bool64 b = (if b then 1 else 0)"

definition value64 :: "u64 \<Rightarrow> u32 \<Rightarrow> u64" where
  "value64 l1 t =
     (if t AND 0x0f = 4 \<or> t AND 0x0f = 5 then l1
      else if t AND 0x10 \<noteq> 0 then ucast (ucast l1 :: u32)
      else ucast (ucast l1 :: u32) OR - (l1 AND 0x80000000))"

definition gen_opic_sdiv :: "u64 \<Rightarrow> u64 \<Rightarrow> u64" where
  "gen_opic_sdiv a b =
     (let x = (if drop_bit 63 a \<noteq> 0 then - a else a) div (if drop_bit 63 b \<noteq> 0 then - b else b)
      in if drop_bit 63 (a XOR b) \<noteq> 0 then - x else x)"

definition gen_opic_lt :: "u64 \<Rightarrow> u64 \<Rightarrow> bool" where
  "gen_opic_lt a b \<longleftrightarrow> (a XOR push_bit 63 1) < (b XOR push_bit 63 1)"

text \<open>The inner switches of the case of two constants; None is the default label.\<close>

definition is_div :: "u32 \<Rightarrow> bool" where
  "is_div opr \<longleftrightarrow> opr = 0x85 \<or> opr = 0x2f \<or> opr = 0x25 \<or> opr = 0x83 \<or> opr = 0x84"

definition fold_div :: "u32 \<Rightarrow> u64 \<Rightarrow> u64 \<Rightarrow> u64" where
  "fold_div opr l1 l2 =
     (if opr = 0x25 then l1 - l2 * gen_opic_sdiv l1 l2
      else if opr = 0x83 then l1 div l2
      else if opr = 0x84 then l1 mod l2
      else gen_opic_sdiv l1 l2)"

definition fold_op :: "u32 \<Rightarrow> u64 \<Rightarrow> u64 \<Rightarrow> u64 \<Rightarrow> u64 option" where
  "fold_op opr l1 l2 shm =
     (if opr = 0x2b then Some (l1 + l2)
      else if opr = 0x2d then Some (l1 - l2)
      else if opr = 0x26 then Some (l1 AND l2)
      else if opr = 0x5e then Some (l1 XOR l2)
      else if opr = 0x7c then Some (l1 OR l2)
      else if opr = 0x2a then Some (l1 * l2)
      else if is_div opr then Some (fold_div opr l1 l2)
      else if opr = 0x3c then Some (push_bit (unat (l2 AND shm)) l1)
      else if opr = 0x8b then Some (drop_bit (unat (l2 AND shm)) l1)
      else if opr = 0x3e then
        Some (if drop_bit 63 l1 \<noteq> 0 then NOT (drop_bit (unat (l2 AND shm)) (NOT l1))
              else drop_bit (unat (l2 AND shm)) l1)
      else if opr = 0x92 then Some (bool64 (l1 < l2))
      else if opr = 0x93 then Some (bool64 (l1 \<ge> l2))
      else if opr = 0x94 then Some (bool64 (l1 = l2))
      else if opr = 0x95 then Some (bool64 (l1 \<noteq> l2))
      else if opr = 0x96 then Some (bool64 (l1 \<le> l2))
      else if opr = 0x97 then Some (bool64 (l1 > l2))
      else if opr = 0x9c then Some (bool64 (gen_opic_lt l1 l2))
      else if opr = 0x9d then Some (bool64 (\<not> gen_opic_lt l1 l2))
      else if opr = 0x9e then Some (bool64 (\<not> gen_opic_lt l2 l1))
      else if opr = 0x9f then Some (bool64 (gen_opic_lt l2 l1))
      else if opr = 0x90 then Some (bool64 (l1 \<noteq> 0 \<and> l2 \<noteq> 0))
      else if opr = 0x91 then Some (bool64 (l1 \<noteq> 0 \<or> l2 \<noteq> 0))
      else None)"

text \<open>
  How a step ends: with a new stack; by calling gen_opl (True) or gen_opi on the operator and the
  stack; by a call of gv for a comparison result that is to be moved (the register allocator is not
  modelled); with an error.
\<close>

datatype opic =
    Done "svalue list" cgen
  | Call bool u32 "svalue list" cgen
  | Gv "svalue list" cgen
  | Fail string

definition is_const :: "svalue \<Rightarrow> bool" where
  "is_const v \<longleftrightarrow> sv_r v AND (0x3f OR 0x0100 OR 0x0200) = 0x30"

definition vcheck_cmp :: "svalue \<Rightarrow> cgen \<Rightarrow> bool" where
  "vcheck_cmp v s \<longleftrightarrow> sv_r v = 0x33 \<and> nocode_wanted s AND NOT 0x20000000 = 0"

text \<open>vswap; None when the top is a pending comparison that gv has to load first.\<close>

definition vswap :: "svalue list \<Rightarrow> cgen \<Rightarrow> svalue list option" where
  "vswap st s =
     (case st of
        v2 # v1 # rest \<Rightarrow> if vcheck_cmp v2 s then None else Some (v1 # v2 # rest)
      | _ \<Rightarrow> None)"

text \<open>vpop: jtrue and jfalse of a comparison share the storage of the constant.\<close>

definition vpop :: "svalue list \<Rightarrow> cgen \<Rightarrow> (svalue list \<times> cgen) option" where
  "vpop st s =
     (let v = sv_r (hd st) AND 0x3f
      in if v = 24 then Some (tl st, emit_o 0xd8dd s)
         else if v = 0x33 then
           map_option (\<lambda>s. (tl st, s))
             (Option.bind (gsym (ucast (sv_c (hd st))) s) (gsym (ucast (drop_bit 32 (sv_c (hd st))))))
         else Some (tl st, s))"

text \<open>The loop that counts the bits of a power of two (n starts at -1).\<close>

lemma drop_bit_1_less: "c \<noteq> 0 \<Longrightarrow> unat (drop_bit 1 c :: u64) < unat c"
proof -
  assume "c \<noteq> 0"
  then have "0 < unat c" by (simp add: unat_gt_0)
  then have "unat c div 2 < unat c" by simp
  moreover have "unat (drop_bit 1 c) = unat c div 2 ^ 1"
    by (subst unat_drop_bit_eq) (rule drop_bit_eq_div)
  ultimately show ?thesis by simp
qed

function log2_loop :: "u64 \<Rightarrow> u64 \<Rightarrow> u64" where
  "log2_loop l2 n = (if l2 \<noteq> 0 then log2_loop (drop_bit 1 l2) (n + 1) else n)"
  by auto

termination by (relation "measure (\<lambda>(l2, n). unat l2)") (auto simp: drop_bit_1_less [simplified])

declare log2_loop.simps [simp del]

definition general_case :: "u32 \<Rightarrow> u32 \<Rightarrow> u32 \<Rightarrow> svalue list \<Rightarrow> cgen \<Rightarrow> opic" where
  "general_case t1 t2 opr st s = Call (t1 = 4 \<or> t2 = 4 \<or> t1 = 5 \<or> t2 = 5) opr st s"

text \<open>After a simplification a plain constant on top is marked as not constant (VT_NONCONST).\<close>

definition mark_nonconst :: "svalue list \<Rightarrow> svalue list" where
  "mark_nonconst st =
     (case st of [] \<Rightarrow> [] | v # rest \<Rightarrow>
        (if sv_r v = 0x30 then v\<lparr>sv_r := sv_r v OR 0x1000\<rparr> else v) # rest)"

definition set_c :: "u64 \<Rightarrow> svalue list \<Rightarrow> svalue list" where
  "set_c x st = (case st of [] \<Rightarrow> [] | v # rest \<Rightarrow> v\<lparr>sv_c := x\<rparr> # rest)"

definition drops_other :: "u32 \<Rightarrow> u64 \<Rightarrow> u32 \<Rightarrow> bool" where
  "drops_other opr l2 t2 \<longleftrightarrow>
     l2 = 0 \<and> (opr = 0x26 \<or> opr = 0x2a) \<or>
     opr = 0x7c \<and> (l2 = - 1 \<or> l2 = 0xFFFFFFFF \<and> t2 \<noteq> 4) \<or>
     l2 = 1 \<and> (opr = 0x25 \<or> opr = 0x84)"

definition is_neutral :: "u32 \<Rightarrow> u64 \<Rightarrow> u32 \<Rightarrow> bool" where
  "is_neutral opr l2 t2 \<longleftrightarrow>
     (opr = 0x2a \<or> opr = 0x2f \<or> opr = 0x83 \<or> opr = 0x85) \<and> l2 = 1 \<or>
     (opr = 0x2b \<or> opr = 0x2d \<or> opr = 0x7c \<or> opr = 0x5e \<or> opr = 0x3c \<or> opr = 0x8b \<or> opr = 0x3e) \<and> l2 = 0 \<or>
     opr = 0x26 \<and> (l2 = - 1 \<or> l2 = 0xFFFFFFFF \<and> t2 \<noteq> 4)"

definition gen_opic_simplify ::
  "u32 \<Rightarrow> bool \<Rightarrow> u64 \<Rightarrow> bool \<Rightarrow> u64 \<Rightarrow> u32 \<Rightarrow> u32 \<Rightarrow> svalue list \<Rightarrow> cgen \<Rightarrow> opic option" where
  "gen_opic_simplify opr c1 l1 c2 l2 t1 t2 st s =
     (if c1 \<and> (l1 = 0 \<and> (opr = 0x3c \<or> opr = 0x8b \<or> opr = 0x3e) \<or> l1 = - 1 \<and> opr = 0x3e) then
        map_option (\<lambda>(st, s). Done (mark_nonconst st) s) (vpop st s)
      else if c2 \<and> drops_other opr l2 t2 then
        let st = (if l2 = 1 then set_c 0 st else st)
        in (case vswap st s of
              None \<Rightarrow> Some (Gv st s)
            | Some st \<Rightarrow> Some (Done (mark_nonconst (tl st)) s))
      else if c2 \<and> is_neutral opr l2 t2 then Some (Done (mark_nonconst (tl st)) s)
      else if c2 \<and> (opr = 0x2a \<or> opr = 0x85 \<or> opr = 0x83 \<or> opr = 0x84) then
        if l2 > 0 \<and> l2 AND (l2 - 1) = 0 then
          if opr = 0x84 then Some (general_case t1 t2 0x26 (set_c (l2 - 1) st) s)
          else Some (general_case t1 t2 (if opr = 0x2a then 0x3c else if opr = 0x85 then 0x3e else 0x8b)
                 (set_c (log2_loop l2 (- 1)) st) s)
        else Some (general_case t1 t2 opr st s)
      else if c2 \<and> (opr = 0x2b \<or> opr = 0x2d) \<and>
              (let r = sv_r (hd (tl st)) AND (0x3f OR 0x0100 OR 0x0200)
               in r = (0x30 OR 0x0200) \<or> r = 0x32) then
        let l2 = (if opr = 0x2d then - l2 else l2); l2 = l2 + sv_c (hd (tl st))
        in if scast (ucast l2 :: u32) \<noteq> l2 then Some (general_case t1 t2 opr st s)
           else Some (Done (mark_nonconst (set_c l2 (tl st))) s)
      else Some (general_case t1 t2 opr st s))"

definition gen_opic :: "u32 \<Rightarrow> svalue list \<Rightarrow> cgen \<Rightarrow> opic option" where
  "gen_opic opr st s =
     (let v1 = hd (tl st); v2 = hd st;
          t1 = sv_t v1 AND 0x0f; t2 = sv_t v2 AND 0x0f;
          c1 = is_const v1; c2 = is_const v2;
          l1 = (if c1 then value64 (sv_c v1) (sv_t v1) else 0);
          l2 = (if c2 then value64 (sv_c v2) (sv_t v2) else 0);
          shm = (if t1 = 4 then 63 else 31)
      in if c1 \<and> c2 then
           if is_div opr \<and> l2 = 0 then
             if nocode_wanted s AND 0x0FFF0000 \<noteq> 0 \<and> nocode_wanted s AND 0x0000FFFF = 0
             then Some (Fail ''division by zero in constant'')
             else Some (general_case t1 t2 opr st s)
           else (case fold_op opr l1 l2 shm of
                   None \<Rightarrow> Some (general_case t1 t2 opr st s)
                 | Some l1 \<Rightarrow> Some (Done (v1\<lparr>sv_c := value64 l1 (sv_t v1),
                      sv_r := sv_r v1 OR (sv_r v2 AND 0x1000)\<rparr> # tl (tl st)) s))
         else if c1 \<and> (opr = 0x2b \<or> opr = 0x26 \<or> opr = 0x5e \<or> opr = 0x7c \<or> opr = 0x2a \<or>
                       opr = 0x94 \<or> opr = 0x95) then
           (case vswap st s of
              None \<Rightarrow> Some (Gv st s)
            | Some st \<Rightarrow> gen_opic_simplify opr c1 l1 c1 l1 t1 t2 st s)
         else gen_opic_simplify opr c1 l1 c2 l2 t1 t2 st s)"

subsection \<open>The C meaning of integer operations\<close>

text \<open>
  The value of a constant of a type (VT_INT or VT_LLONG, signed or VT_UNSIGNED), reduction of a
  mathematical integer to the type, and the operators on mathematical integers; None is undefined
  in C (division by zero, an exact division that is not exact).
\<close>

definition arith :: "u32 \<Rightarrow> bool" where
  "arith t \<longleftrightarrow> t AND 0x0f = 3 \<or> t AND 0x0f = 4"

definition is_uns :: "u32 \<Rightarrow> bool" where "is_uns t \<longleftrightarrow> t AND 0x10 \<noteq> 0"

definition width :: "u32 \<Rightarrow> nat" where "width t = (if t AND 0x0f = 4 then 64 else 32)"

definition cwrap :: "u32 \<Rightarrow> int \<Rightarrow> int" where
  "cwrap t i = (if is_uns t then take_bit (width t) i else signed_take_bit (width t - 1) i)"

definition cval :: "u32 \<Rightarrow> u64 \<Rightarrow> int" where "cval t x = cwrap t (uint x)"

definition of_bool_int :: "bool \<Rightarrow> int" where "of_bool_int b = (if b then 1 else 0)"

definition c_op :: "u32 \<Rightarrow> u32 \<Rightarrow> int \<Rightarrow> int \<Rightarrow> int option" where
  "c_op t opr a b =
     (if opr = 0x2b then Some (a + b)
      else if opr = 0x2d then Some (a - b)
      else if opr = 0x2a then Some (a * b)
      else if opr = 0x26 then Some (a AND b)
      else if opr = 0x5e then Some (a XOR b)
      else if opr = 0x7c then Some (a OR b)
      else if opr = 0x2f then if b = 0 then None else Some (a sdiv b)
      else if opr = 0x25 then if b = 0 then None else Some (a smod b)
      else if opr = 0x85 then if 0 < b \<and> b dvd a then Some (a div b) else None
      else if opr = 0x83 then if b = 0 then None else Some (a div b)
      else if opr = 0x84 then if b = 0 then None else Some (a mod b)
      else if opr = 0x3c then Some (a * 2 ^ nat (b mod int (width t)))
      else if opr = 0x8b \<or> opr = 0x3e then Some (a div 2 ^ nat (b mod int (width t)))
      else if opr = 0x92 \<or> opr = 0x9c then Some (of_bool_int (a < b))
      else if opr = 0x93 \<or> opr = 0x9d then Some (of_bool_int (a \<ge> b))
      else if opr = 0x94 then Some (of_bool_int (a = b))
      else if opr = 0x95 then Some (of_bool_int (a \<noteq> b))
      else if opr = 0x96 \<or> opr = 0x9e then Some (of_bool_int (a \<le> b))
      else if opr = 0x97 \<or> opr = 0x9f then Some (of_bool_int (a > b))
      else if opr = 0x90 then Some (of_bool_int (a \<noteq> 0 \<and> b \<noteq> 0))
      else if opr = 0x91 then Some (of_bool_int (a \<noteq> 0 \<or> b \<noteq> 0))
      else None)"

text \<open>The operators gen_op produces for a type: it picks the signed or the unsigned variant.\<close>

definition op_for :: "u32 \<Rightarrow> u32 \<Rightarrow> bool" where
  "op_for t opr \<longleftrightarrow>
     (if is_uns t then opr \<notin> {0x2f, 0x25, 0x85, 0x3e, 0x9c, 0x9d, 0x9e, 0x9f}
      else opr \<notin> {0x83, 0x84, 0x8b, 0x92, 0x93, 0x96, 0x97})"

subsection \<open>Words and integers\<close>

lemma cwrap_word: "cwrap t (uint (word_of_int i :: u64)) = cwrap t i"
proof -
  have "uint (word_of_int i :: u64) = take_bit 64 i" by (simp add: take_bit_word_eq_self unsigned_of_int)
  then show ?thesis by (simp add: cwrap_def width_def signed_take_bit_take_bit min_def)
qed

lemma value64_int:
  assumes "t AND 0x0f = 3"
  shows "value64 x t = (if is_uns t then ucast (ucast x :: u32) else scast (ucast x :: u32))"
proof -
  have b: "bit (0x80000000 :: u64) n \<longleftrightarrow> n = 31" for n
    using bit_exp_iff [where ?'a = u64, of 31 n] by auto
  have m: "x AND 0x80000000 = (if bit x 31 then push_bit 31 1 else 0)"
  proof (cases "bit x 31")
    case True
    then show ?thesis
      by (simp only: if_True) (rule bit_word_eqI, simp only: bit_and_iff b bit_push_bit_iff bit_1_iff, auto)
  next
    case False
    then show ?thesis
      by (simp only: if_False) (rule bit_word_eqI, simp only: bit_and_iff b bit_0_eq, auto)
  qed
  have n: "- (push_bit 31 1 :: u64) = NOT (mask 31)"
    by (simp only: minus_eq_not_minus_1 mask_eq_exp_minus_1 push_bit_eq_mult mult_1)
  have bn: "bit (- (x AND 0x80000000)) k \<longleftrightarrow> bit x 31 \<and> 31 \<le> k \<and> k < 64" for k
  proof (cases "bit x 31")
    case True
    have "- (x AND 0x80000000) = NOT (mask 31)" unfolding m if_P [OF True] by (rule n)
    with True show ?thesis by (simp only: bit_not_iff bit_mask_iff) auto
  next
    case False
    then show ?thesis unfolding m by simp
  qed
  have "ucast (ucast x :: u32) OR - (x AND 0x80000000) = (scast (ucast x :: u32) :: u64)"
  proof (rule bit_word_eqI)
    fix k assume "k < LENGTH(64)"
    then show "bit (ucast (ucast x :: u32) OR - (x AND 0x80000000)) k = bit (scast (ucast x :: u32) :: u64) k"
      unfolding bit_or_iff bn bit_unsigned_iff bit_signed_iff
      by (cases "k = 31"; cases "k < 31") (auto simp: min_def)
  qed
  with assms show ?thesis by (simp add: value64_def is_uns_def)
qed

lemma value64_llong: "t AND 0x0f = 4 \<Longrightarrow> value64 x t = x"
  by (simp add: value64_def)

lemma uint_ucast_32: "uint (ucast (x :: u64) :: u32) = take_bit 32 (uint x)"
  by (simp add: unsigned_ucast_eq unsigned_take_bit_eq)

lemma cval_value64:
  assumes "arith t"
  shows "cval t x = (if is_uns t then uint (value64 x t) else sint (value64 x t))"
proof -
  consider "t AND 0x0f = 4" | "t AND 0x0f = 3" using assms by (auto simp: arith_def)
  then show ?thesis
  proof cases
    case 1
    moreover have "take_bit 64 (uint x) = uint x"
      using unsigned_less [of x] by (intro take_bit_int_eq_self) auto
    ultimately show ?thesis
      by (simp add: cval_def cwrap_def width_def value64_llong sint_uint)
  next
    case 2
    have u: "uint (ucast x :: u32) = take_bit 32 (uint x)"
      by (rule uint_ucast_32)
    have "uint (ucast (ucast x :: u32) :: u64) = uint (ucast x :: u32)"
      by (simp add: unsigned_ucast_eq unsigned_take_bit_eq)
    moreover have "sint (scast (ucast x :: u32) :: u64) = sint (ucast x :: u32)"
      unfolding signed_scast_eq sint_uint [of "ucast x :: u32"] by simp
    moreover have "sint (ucast x :: u32) = signed_take_bit 31 (uint x)"
      unfolding sint_uint u by (simp add: signed_take_bit_take_bit)
    ultimately show ?thesis
      using 2 u by (simp add: cval_def cwrap_def width_def value64_int)
  qed
qed

lemma value64_idem: "arith t \<Longrightarrow> value64 (value64 x t) t = value64 x t"
proof -
  have "ucast (ucast (ucast x :: u32) :: u64) = (ucast x :: u32)"
    "ucast (scast (ucast x :: u32) :: u64) = (ucast x :: u32)"
    by (rule bit_word_eqI, rename_tac n, case_tac "n = 31"; simp add: bit_simps min_def)+
  then show "arith t \<Longrightarrow> ?thesis" by (auto simp: arith_def value64_llong value64_int)
qed

lemma value64_cval: "arith t \<Longrightarrow> cval t (value64 x t) = cval t x"
  by (simp add: cval_value64 value64_idem)

lemma msb_64: "drop_bit 63 (x :: u64) \<noteq> 0 \<longleftrightarrow> sint x < 0"
proof -
  have "drop_bit 63 x \<noteq> 0 \<longleftrightarrow> bit x 63"
  proof
    assume "bit x 63"
    then have "bit (drop_bit 63 x) 0" by (simp add: bit_drop_bit_eq)
    then show "drop_bit 63 x \<noteq> 0" by auto
  next
    assume "drop_bit 63 x \<noteq> 0"
    then obtain n where "bit (drop_bit 63 x) n" by (metis bit_eq_iff bit_0_eq bot_apply bot_bool_def)
    then have "bit x (63 + n)" by (simp add: bit_drop_bit_eq)
    moreover from this have "63 + n < 64" using bit_imp_le_length by fastforce
    ultimately show "bit x 63" by simp
  qed
  also have "\<dots> \<longleftrightarrow> sint x < 0" using bit_last_iff [of x] by simp
  finally show ?thesis .
qed

lemma sint_cases: "sint (a :: u64) = (if sint a < 0 then uint a - 2 ^ 64 else uint a)"
proof -
  have "take_bit 64 (uint a) = uint a"
    using unsigned_less [of a] by (intro take_bit_int_eq_self) auto
  then have "sint a = uint a - 2 ^ 64 * of_bool (bit (uint a) 63)"
    unfolding sint_uint by (simp add: signed_take_bit_eq_take_bit_minus)
  moreover have "bit (uint a) 63 \<longleftrightarrow> sint a < 0"
    using bit_last_iff [of a] by (simp add: bit_unsigned_iff)
  ultimately show ?thesis by auto
qed

lemma uint_abs: "uint (if drop_bit 63 (a :: u64) \<noteq> 0 then - a else a) = \<bar>sint a\<bar>"
proof (cases "sint a < 0")
  case True
  have l: "uint a < 2 ^ 64" "0 \<le> uint a" using unsigned_less [of a] by auto
  have nz: "uint a \<noteq> 0" using True by (metis sint_0 uint_0_iff less_irrefl)
  have "uint (- a) = (- uint a) mod 2 ^ 64" by (simp add: uint_word_ariths)
  also have "\<dots> = (2 ^ 64 - uint a) mod 2 ^ 64"
    by (metis add.commute diff_conv_add_uminus mod_add_self1)
  also have "\<dots> = 2 ^ 64 - uint a"
    using l nz by (intro mod_pos_pos_trivial) linarith+
  finally show ?thesis using True sint_cases [of a] msb_64 [of a] l by simp
next
  case False
  then show ?thesis using sint_cases [of a] msb_64 [of a] by simp
qed

lemma sdiv_word: "gen_opic_sdiv a b = word_of_int (sint a sdiv sint b)"
proof -
  let ?x = "(if drop_bit 63 a \<noteq> 0 then - a else a) div (if drop_bit 63 b \<noteq> 0 then - b else b)"
  have x: "?x = word_of_int (\<bar>sint a\<bar> div \<bar>sint b\<bar>)"
    by (simp only: word_div_def uint_abs)
  have "sint (a XOR b) < 0 \<longleftrightarrow> (sint a < 0) \<noteq> (sint b < 0)"
    using bit_last_iff [of "a XOR b"] bit_last_iff [of a] bit_last_iff [of b]
    by (simp add: bit_xor_iff)
  then have xr: "drop_bit 63 (a XOR b) \<noteq> 0 \<longleftrightarrow> (sint a < 0) \<noteq> (sint b < 0)"
    by (simp only: msb_64)
  have "sint a sdiv sint b =
      (if (sint a < 0) \<noteq> (sint b < 0) then - (\<bar>sint a\<bar> div \<bar>sint b\<bar>) else \<bar>sint a\<bar> div \<bar>sint b\<bar>)"
    by (auto simp: signed_divide_int_def sgn_if)
  then show ?thesis
    unfolding gen_opic_sdiv_def Let_def xr x by simp
qed

lemma lt_word: "gen_opic_lt a b \<longleftrightarrow> sint a < sint b"
proof -
  have "uint (x XOR push_bit 63 1) = sint x + 2 ^ 63" for x :: u64
  proof -
    let ?z = "x XOR push_bit 63 1"
    have split: "uint y = 2 ^ 63 * of_bool (bit y 63) + take_bit 63 (uint y)" for y :: u64
    proof -
      have "take_bit (Suc 63) (uint y) = uint y"
        using unsigned_less [of y] by (intro take_bit_int_eq_self) auto
      then show ?thesis unfolding take_bit_Suc_from_most [of 63 "uint y"] by (simp add: bit_unsigned_iff)
    qed
    have "take_bit 63 ?z = take_bit 63 x"
      by (rule bit_word_eqI) (simp only: bit_take_bit_iff bit_xor_iff bit_push_bit_iff bit_1_iff, auto)
    then have "take_bit 63 (uint ?z) = take_bit 63 (uint x)" by (metis unsigned_take_bit_eq)
    moreover have "bit ?z 63 \<longleftrightarrow> \<not> bit x 63"
      by (simp only: bit_xor_iff bit_push_bit_iff bit_1_iff) auto
    moreover have "bit x 63 \<longleftrightarrow> sint x < 0" using bit_last_iff [of x] by simp
    ultimately show ?thesis using split [of ?z] split [of x] sint_cases [of x] by auto
  qed
  then show ?thesis by (simp add: gen_opic_lt_def word_less_def)
qed

lemma sar_word:
  "(if drop_bit 63 (x :: u64) \<noteq> 0 then NOT (drop_bit n (NOT x)) else drop_bit n x) =
   word_of_int (sint x div 2 ^ n)"
proof -
  have "(if drop_bit 63 x \<noteq> 0 then NOT (drop_bit n (NOT x)) else drop_bit n x) = signed_drop_bit n x"
    unfolding msb_64 using bit_last_iff [of x]
    by (intro bit_word_eqI) (auto simp: bit_simps not_le min_def dest: bit_imp_le_length)
  also have "\<dots> = word_of_int (sint (signed_drop_bit n x))" by simp
  also have "sint (signed_drop_bit n x) = sint x div 2 ^ n"
    unfolding sint_signed_drop_bit_eq by (rule drop_bit_eq_div)
  finally show ?thesis .
qed

subsection \<open>Folding two constants\<close>

text \<open>The integer a normal constant stands for.\<close>

definition ival :: "u32 \<Rightarrow> u64 \<Rightarrow> int" where
  "ival t x = (if is_uns t then uint x else sint x)"

lemma word_of_ival [simp]: "word_of_int (ival t x) = x"
  by (simp add: ival_def)

lemma ival_inject: "ival t x = ival t y \<longleftrightarrow> x = y"
  using word_of_ival by metis

lemma ival_0_iff: "ival t x = 0 \<longleftrightarrow> x = 0"
proof -
  have "ival t 0 = 0" by (simp add: ival_def)
  then show ?thesis using ival_inject [of t x 0] by simp
qed

lemma bool64_word: "bool64 P = word_of_int (of_bool_int P)"
  by (simp add: bool64_def of_bool_int_def)

lemma shift_count:
  assumes "arith t"
  shows "unat (y AND (if t AND 0x0f = 4 then 63 else 31)) = nat (ival t y mod int (width t))"
proof -
  have m: "(63 :: u64) = mask 6" "(31 :: u64) = mask 5" by (simp_all add: mask_eq_exp_minus_1)
  have i: "ival t y mod 2 ^ k = uint y mod 2 ^ k" if "k \<le> 6" for k
  proof -
    have "(2 :: int) ^ k dvd 2 ^ 64" using that by (intro le_imp_power_dvd) simp
    then have "(uint y - 2 ^ 64) mod 2 ^ k = uint y mod 2 ^ k"
      by (metis mod_diff_eq mod_0_imp_dvd dvd_imp_mod_0 diff_zero mod_mod_trivial)
    moreover have "ival t y = uint y \<or> ival t y = uint y - 2 ^ 64"
      unfolding ival_def using sint_cases [of y] by metis
    ultimately show ?thesis by auto
  qed
  have u: "unat (y AND mask k) = nat (uint y mod 2 ^ k)" for k
    unfolding take_bit_eq_mask [symmetric] unsigned_take_bit_eq unat_eq_nat_uint
    by (simp add: take_bit_eq_mod nat_mod_distrib nat_power_eq)
  show ?thesis
    using i [of 6] i [of 5] u [of 6] u [of 5] unfolding m width_def by simp
qed

lemma drop_bit_word: "drop_bit n (x :: u64) = word_of_int (uint x div 2 ^ n)"
proof -
  have "take_bit 64 (uint x) = uint x"
    using unsigned_less [of x] by (intro take_bit_int_eq_self) auto
  then have "uint (drop_bit n x) = uint x div 2 ^ n"
    by (subst unsigned_drop_bit_eq) (simp add: drop_bit_eq_div)
  then show ?thesis by (metis word_of_int_uint)
qed

lemma sdiv_exact: "0 < b \<Longrightarrow> b dvd a \<Longrightarrow> a sdiv b = a div (b :: int)"
proof -
  assume "0 < b" "b dvd a"
  then obtain k where a: "a = b * k" by (auto elim: dvdE)
  have "a sdiv b = sgn a * (\<bar>b\<bar> * \<bar>k\<bar> div \<bar>b\<bar>)"
    using \<open>0 < b\<close> by (simp add: signed_divide_int_def a abs_mult)
  also have "\<dots> = sgn k * \<bar>k\<bar>" using \<open>0 < b\<close> by (simp add: a sgn_mult)
  finally show ?thesis using \<open>0 < b\<close> by (simp add: a sgn_mult_abs)
qed

lemma word_compare:
  "x < y \<longleftrightarrow> uint x < uint (y :: u64)" "x \<le> y \<longleftrightarrow> uint x \<le> uint (y :: u64)"
  by (simp_all add: word_less_def word_le_def)

lemma fold_op_spec:
  assumes "arith t" "op_for t opr" and r: "c_op t opr (ival t x) (ival t y) = Some r"
  shows "fold_op opr x y (if t AND 0x0f = 4 then 63 else 31) = Some (word_of_int r)"
proof -
  note sc = shift_count [OF assms(1), of y]
  consider "opr \<in> {0x2b, 0x2d, 0x2a, 0x26, 0x5e, 0x7c}" | "opr \<in> {0x2f, 0x25, 0x85}"
    | "opr \<in> {0x83, 0x84}" | "opr = 0x3c" | "opr = 0x8b" | "opr = 0x3e"
    | "opr \<in> {0x92, 0x93, 0x96, 0x97}" | "opr \<in> {0x9c, 0x9d, 0x9e, 0x9f}"
    | "opr \<in> {0x94, 0x95, 0x90, 0x91}"
  proof -
    have "opr \<in> {0x2b, 0x2d, 0x2a, 0x26, 0x5e, 0x7c} \<union> {0x2f, 0x25, 0x85} \<union> {0x83, 0x84} \<union>
        {0x3c, 0x8b, 0x3e} \<union> {0x92, 0x93, 0x96, 0x97} \<union> {0x9c, 0x9d, 0x9e, 0x9f} \<union>
        {0x94, 0x95, 0x90, 0x91}"
      by (rule ccontr) (use r in \<open>simp add: c_op_def\<close>)
    then show thesis using that by auto
  qed
  then show ?thesis
  proof cases
    case 1
    with r show ?thesis
      by (elim insertE emptyE) (auto simp: fold_op_def c_op_def of_int_and_eq of_int_xor_eq of_int_or_eq)
  next
    case 2
    then have "\<not> is_uns t" using assms(2) by (auto simp: op_for_def)
    then have i: "ival t x = sint x" "ival t y = sint y" by (simp_all add: ival_def)
    from 2 r show ?thesis
      unfolding i
      by (elim insertE emptyE) (auto simp: fold_op_def c_op_def is_div_def fold_div_def sdiv_word sdiv_exact
          minus_mult_sdiv_eq_smod [symmetric] split: if_splits)
  next
    case 3
    then have "is_uns t" using assms(2) by (auto simp: op_for_def split: if_splits)
    then have i: "ival t x = uint x" "ival t y = uint y" by (simp_all add: ival_def)
    from 3 r show ?thesis
      unfolding i
      by (elim insertE emptyE) (auto simp: fold_op_def c_op_def is_div_def fold_div_def word_div_def word_mod_def
          split: if_splits)
  next
    case 4
    with r sc show ?thesis
      by (auto simp: fold_op_def c_op_def is_div_def push_bit_eq_mult)
  next
    case 5
    then have "is_uns t" using assms(2) by (auto simp: op_for_def split: if_splits)
    then have i: "ival t x = uint x" by (simp_all add: ival_def)
    from 5 r sc i show ?thesis
      by (auto simp: fold_op_def c_op_def is_div_def drop_bit_word)
  next
    case 6
    then have "\<not> is_uns t" using assms(2) by (auto simp: op_for_def)
    then have i: "ival t x = sint x" by (simp_all add: ival_def)
    from 6 r sc i sar_word [of x] show ?thesis
      by (auto simp: fold_op_def c_op_def is_div_def)
  next
    case 7
    then have "is_uns t" using assms(2) by (auto simp: op_for_def split: if_splits)
    then have i: "ival t x = uint x" "ival t y = uint y" by (simp_all add: ival_def)
    from 7 r show ?thesis
      unfolding i by (elim insertE emptyE) (auto simp: fold_op_def c_op_def is_div_def bool64_word word_compare)
  next
    case 8
    then have "\<not> is_uns t" using assms(2) by (auto simp: op_for_def)
    then have i: "ival t x = sint x" "ival t y = sint y" by (simp_all add: ival_def)
    from 8 r show ?thesis
      unfolding i by (elim insertE emptyE) (auto simp: fold_op_def c_op_def is_div_def bool64_word lt_word not_less)
  next
    case 9
    with r show ?thesis
      by (elim insertE emptyE) (auto simp: fold_op_def c_op_def is_div_def bool64_word ival_inject ival_0_iff)
  qed
qed

lemma mask_const_bits: "(x OR (y AND 0x1000)) AND 0x33f = x AND (0x33f :: u16)"
proof -
  have "(y AND 0x1000) AND 0x33f = y AND (0x1000 AND (0x33f :: u16))" by (simp only: and.assoc)
  then show ?thesis by (simp add: bit.conj_disj_distrib2)
qed

lemma same_type:
  assumes "t2 AND 0x1f = t AND (0x1f :: u32)"
  shows "t2 AND 0x0f = t AND 0x0f" "is_uns t2 = is_uns t" "arith t2 = arith t" "width t2 = width t"
    "cval t2 = cval t" "value64 x t2 = value64 x t"
proof -
  have "(t2 AND 0x1f) AND 0x0f = (t AND 0x1f) AND 0x0f" "(t2 AND 0x1f) AND 0x10 = (t AND 0x1f) AND 0x10"
    using assms by simp_all
  then show e: "t2 AND 0x0f = t AND 0x0f" and u: "is_uns t2 = is_uns t"
    by (simp_all add: and.assoc is_uns_def)
  then show "arith t2 = arith t" "width t2 = width t" by (simp_all add: arith_def width_def)
  with u show "cval t2 = cval t" by (intro ext) (simp add: cval_def cwrap_def)
  from e u show "value64 x t2 = value64 x t" by (simp add: value64_def is_uns_def)
qed


definition int_const :: "u64 \<Rightarrow> svalue" where
  "int_const x = \<lparr>sv_t = 3, sv_r = 0x30, sv_c = x, sv_sym = 0\<rparr>"


subsection \<open>Simplifying with one constant\<close>

text \<open>The value an operand has at run time; \<open>env\<close> gives that of operands that are not constants.\<close>

definition rval :: "(svalue \<Rightarrow> u64) \<Rightarrow> svalue \<Rightarrow> u64" where
  "rval env v = (if is_const v then value64 (sv_c v) (sv_t v) else env v)"

definition same_effect ::
  "(svalue \<Rightarrow> u64) \<Rightarrow> u32 \<Rightarrow> svalue list \<Rightarrow> cgen \<Rightarrow> int \<Rightarrow> opic \<Rightarrow> bool" where
  "same_effect env t st s r res \<longleftrightarrow>
     (case res of
        Done (v # st') s' \<Rightarrow> st' = st \<and> s' = s \<and> cval t (rval env v) = cwrap t r
      | Call l opr (w2 # w1 # st') s' \<Rightarrow> st' = st \<and> s' = s \<and>
          (\<exists>r'. c_op t opr (ival t (rval env w1)) (ival t (rval env w2)) = Some r' \<and> cwrap t r' = cwrap t r)
      | _ \<Rightarrow> False)"

lemma cwrap_cval: "cwrap t r = cval t (word_of_int r)"
  by (simp add: cval_def cwrap_word)

lemma is_const_mark: "sv_r v = 0x30 \<Longrightarrow> is_const (v\<lparr>sv_r := sv_r v OR 0x1000\<rparr>)"
  by (simp add: is_const_def)

lemma rval_mark: "\<exists>v'. mark_nonconst (v # st) = v' # st \<and> rval env v' = rval env v"
proof (cases "sv_r v = 0x30")
  case True
  then have "is_const v" by (simp add: is_const_def)
  with True show ?thesis
    using is_const_mark [OF True] by (simp add: mark_nonconst_def rval_def)
qed (simp add: mark_nonconst_def)

lemma same_effect_Done:
  "cval t (rval env v) = cwrap t r \<Longrightarrow> same_effect env t st s r (Done (mark_nonconst (v # st)) s)"
  using rval_mark [of v st env] by (auto simp: same_effect_def)

lemma same_effect_Call:
  "c_op t opr (ival t (rval env w1)) (ival t (rval env w2)) = Some r' \<Longrightarrow> cwrap t r' = cwrap t r \<Longrightarrow>
   same_effect env t st s r (general_case t1 t2 opr (w2 # w1 # st) s)"
  by (auto simp: same_effect_def general_case_def)

lemma cval_low:
  assumes "t AND 0x0f \<noteq> 4" "take_bit 32 x = take_bit 32 y"
  shows "cval t x = cval t y"
proof -
  have "take_bit 32 (uint x) = take_bit 32 (uint y)" using assms(2) by (metis unsigned_take_bit_eq)
  moreover have "signed_take_bit 31 k = signed_take_bit 31 (take_bit 32 k)" for k :: int
    by (simp add: signed_take_bit_take_bit)
  ultimately have "signed_take_bit 31 (uint x) = signed_take_bit 31 (uint y)" by metis
  with \<open>take_bit 32 (uint x) = _\<close> assms(1) show ?thesis by (simp add: cval_def cwrap_def width_def)
qed

lemma power_of_two:
  assumes "0 < x" "x AND (x - 1) = 0"
  shows "\<exists>n < 64. (x :: u64) = 2 ^ n"
proof -
  let ?m = "unat x"
  have m: "0 < ?m" using assms(1) by (simp add: word_gt_0 unat_gt_0)
  then obtain n where n: "2 ^ n \<le> ?m" "?m < 2 ^ (n + 1)"
    using ex_power_ivl1 [of 2 ?m] by auto
  have n64: "n < 64"
  proof (rule ccontr)
    assume "\<not> n < 64"
    then have "(2 :: nat) ^ 64 \<le> 2 ^ n" by (intro power_increasing) auto
    moreover have "unat x < 2 ^ 64" by (rule order_less_le_trans [OF unsigned_less]) simp
    ultimately show False using n(1) by simp
  qed
  have bit1: "bit k n" if "2 ^ n \<le> k" "k < 2 ^ (n + 1)" for k :: nat
  proof -
    have "k div 2 ^ n = 1" using that by (intro div_nat_eqI) auto
    then show ?thesis by (simp add: bit_iff_odd)
  qed
  have "?m = 2 ^ n"
  proof (rule ccontr)
    assume ne: "?m \<noteq> 2 ^ n"
    have "x \<noteq> 0" using assms(1) by (simp add: word_gt_0)
    then have "unat (x - 1) = ?m - 1" by (rule unat_minus_one)
    then have "bit (unat (x - 1)) n" using n ne by (intro bit1) auto
    moreover have "bit ?m n" using n by (intro bit1)
    ultimately have "bit (x AND (x - 1)) n" using n64 by (simp add: bit_and_iff bit_unsigned_iff)
    with assms(2) show False by simp
  qed
  then have "unat x = unat (2 ^ n :: u64)" using n64 by (simp add: unat_exp2)
  then show ?thesis using n64 by (auto intro: unsigned_word_eqI)
qed

lemma value64_small: "unat x < 2 ^ 31 \<Longrightarrow> value64 x t = x"
proof -
  assume x: "unat x < 2 ^ 31"
  have nb: "\<not> bit x k" if "31 \<le> k" for k
  proof -
    have "unat x div 2 ^ k = 0"
      using x power_increasing [of 31 k "2 :: nat"] that by simp
    then have "\<not> bit (unat x) k" by (simp add: bit_iff_odd)
    then show ?thesis by (simp add: bit_unsigned_iff)
  qed
  have u: "ucast (ucast x :: u32) = x"
    by (rule bit_word_eqI, rename_tac k, case_tac "k < 31") (use nb in \<open>auto simp: bit_unsigned_iff\<close>)
  have "x AND 0x80000000 = 0"
  proof (rule bit_word_eqI)
    fix k
    have "bit (0x80000000 :: u64) k \<longleftrightarrow> k = 31"
      using bit_exp_iff [where ?'a = u64, of 31 k] by auto
    then show "bit (x AND 0x80000000) k = bit 0 k" using nb [of 31] by (auto simp: bit_and_iff)
  qed
  with u show ?thesis by (simp add: value64_def)
qed

lemma pow2_const:
  assumes a: "arith t" and v: "value64 (2 ^ n) t = 2 ^ n" and n: "n < 64"
  shows "n < width t" "value64 (of_nat n) t = of_nat n" "ival t (of_nat n) = int n"
    "is_uns t \<Longrightarrow> value64 (2 ^ n - 1) t = 2 ^ n - 1"
    "ival t (2 ^ n) = 2 ^ n \<or> \<not> is_uns t \<and> n = 63 \<and> ival t (2 ^ n) = - (2 ^ 63)"
proof -
  have b: "bit (2 ^ n :: u64) k \<longleftrightarrow> k = n" for k
    using n by (auto simp: bit_exp_iff)
  have u: "uint (2 ^ n :: u64) = 2 ^ n"
  proof -
    have "int (unat (2 ^ n :: u64)) = int (2 ^ n)" using n by (subst unat_exp2) simp_all
    then show ?thesis by simp
  qed
  show w: "n < width t"
  proof (cases "t AND 0x0f = 4")
    case False
    with a have t3: "t AND 0x0f = 3" by (simp add: arith_def)
    have "bit (value64 (2 ^ n) t) n" by (simp add: v b)
    then have "n < 32"
      using n b by (cases "n < 32") (auto simp: value64_int [OF t3] bit_simps min_def split: if_splits)
    with False show ?thesis by (simp add: width_def)
  qed (use n in \<open>simp add: width_def\<close>)
  have un: "unat (of_nat n :: u64) = n" using n by (subst unat_of_nat) simp
  then show "value64 (of_nat n) t = of_nat n" using n by (intro value64_small) simp
  have "uint (of_nat n :: u64) = int n" using un by (metis uint_nat)
  moreover have "\<not> sint (of_nat n :: u64) < 0"
  proof -
    have "n div 2 ^ 63 = 0" using n by simp
    then have "\<not> bit (unat (of_nat n :: u64)) 63" unfolding un by (simp add: bit_iff_odd)
    then show ?thesis using bit_last_iff [of "of_nat n :: u64"] by (simp add: bit_unsigned_iff)
  qed
  ultimately show "ival t (of_nat n) = int n"
    using sint_cases [of "of_nat n"] by (simp add: ival_def)
  show "ival t (2 ^ n) = 2 ^ n \<or> \<not> is_uns t \<and> n = 63 \<and> ival t (2 ^ n) = - (2 ^ 63)"
    using sint_cases [of "2 ^ n"] u bit_last_iff [of "2 ^ n :: u64"] b [of 63]
    by (auto simp: ival_def)
  show "value64 (2 ^ n - 1) t = 2 ^ n - 1" if "is_uns t"
  proof (cases "t AND 0x0f = 4")
    case False
    with a have t3: "t AND 0x0f = 3" by (simp add: arith_def)
    have "n < 32" using w False by (simp add: width_def)
    then have "ucast (ucast (mask n :: u64) :: u32) = (mask n :: u64)"
      by (intro bit_word_eqI) (auto simp: bit_unsigned_iff bit_mask_iff)
    with that show ?thesis by (simp add: value64_int [OF t3] mask_eq_exp_minus_1)
  qed (simp add: value64_llong)
qed

lemma log2_loop_power: "n < 64 \<Longrightarrow> log2_loop (2 ^ n) k = k + of_nat n + 1"
proof (induction n arbitrary: k)
  case 0
  show ?case by (subst log2_loop.simps, subst log2_loop.simps) simp
next
  case (Suc n)
  have "(2 :: u64) ^ Suc n \<noteq> 0"
  proof
    assume "(2 :: u64) ^ Suc n = 0"
    then have "unat (2 ^ Suc n :: u64) = 0" by simp
    with Suc.prems show False by (subst (asm) unat_exp2) simp_all
  qed
  moreover have "drop_bit 1 (2 ^ Suc n :: u64) = 2 ^ n"
    using Suc.prems by (intro bit_word_eqI) (auto simp: bit_simps bit_exp_iff)
  ultimately have "log2_loop (2 ^ Suc n) k = log2_loop (2 ^ n) (k + 1)"
    by (subst log2_loop.simps) simp
  with Suc show ?case by simp
qed

lemma not_const_mark:
  "\<not> is_const w \<Longrightarrow> rval env w = env w"
  by (simp add: rval_def)

lemma c_op_swap:
  assumes "opr \<in> {0x2b, 0x26, 0x5e, 0x7c, 0x2a, 0x94, 0x95}"
  shows "c_op t opr a b = c_op t opr b a"
proof -
  have c: "c_op t 0x2b a b = Some (a + b)" "c_op t 0x26 a b = Some (a AND b)"
    "c_op t 0x5e a b = Some (a XOR b)" "c_op t 0x7c a b = Some (a OR b)"
    "c_op t 0x2a a b = Some (a * b)" "c_op t 0x94 a b = Some (of_bool_int (a = b))"
    "c_op t 0x95 a b = Some (of_bool_int (a \<noteq> b))" for a b
    by (simp_all add: c_op_def)
  have "\<And>x y :: int. of_bool_int (x = y) = of_bool_int (y = x)" "\<And>x y :: int. of_bool_int (x \<noteq> y) = of_bool_int (y \<noteq> x)"
    by (auto simp: of_bool_int_def)
  then show ?thesis
    using assms
    by (elim insertE emptyE)
       (simp_all only: c add.commute [of a] and.commute [of a] xor.commute [of a] or.commute [of a]
         mult.commute [of a])
qed

definition addr_ok :: "(svalue \<Rightarrow> u64) \<Rightarrow> bool" where
  "addr_ok env \<longleftrightarrow> (\<forall>v c. sv_r v AND 0x33f = 0x230 \<or> sv_r v AND 0x33f = 0x32 \<longrightarrow>
     env (v\<lparr>sv_c := c\<rparr>) = env v + (c - sv_c v))"

text \<open>An operation with a constant right operand (the only constant) whose result C defines.\<close>

definition right_const :: "(svalue \<Rightarrow> u64) \<Rightarrow> u32 \<Rightarrow> svalue \<Rightarrow> svalue \<Rightarrow> u32 \<Rightarrow> u64 \<Rightarrow> int \<Rightarrow> bool" where
  "right_const env t w1 w2 opr l2 r \<longleftrightarrow>
     is_const w2 \<and> \<not> is_const w1 \<and> arith t \<and> sv_t w2 AND 0x1f = t AND 0x1f \<and> op_for t opr \<and>
     l2 = value64 (sv_c w2) t \<and> c_op t opr (ival t (env w1)) (ival t l2) = Some r"

lemma rval_right:
  assumes "right_const env t w1 w2 opr l2 r"
  shows "rval env w1 = env w1" "rval env w2 = l2" "rval env (w2\<lparr>sv_c := c\<rparr>) = value64 c t"
    "value64 l2 t = l2" "arith t" "c_op t opr (ival t (env w1)) (ival t l2) = Some r" "op_for t opr"
    "is_const w2" "\<not> is_const w1"
proof -
  note a = assms [unfolded right_const_def]
  then have "sv_t w2 AND 0x1f = t AND 0x1f" by blast
  note v = same_type(6) [OF this]
  show "rval env w1 = env w1" "rval env w2 = l2" "rval env (w2\<lparr>sv_c := c\<rparr>) = value64 c t"
    using a by (auto simp: rval_def is_const_def v)
  show "arith t" "c_op t opr (ival t (env w1)) (ival t l2) = Some r" "op_for t opr"
    "is_const w2" "\<not> is_const w1"
    using a by blast+
  show "value64 l2 t = l2" using a value64_idem by blast
qed

lemma mask_32:
  "take_bit 32 (x OR 0xFFFFFFFF) = take_bit 32 (0xFFFFFFFF :: u64)"
  "take_bit 32 (x AND 0xFFFFFFFF) = take_bit 32 (x :: u64)"
proof -
  have m: "(0xFFFFFFFF :: u64) = mask 32" by (simp add: mask_eq_exp_minus_1)
  show "take_bit 32 (x OR 0xFFFFFFFF) = take_bit 32 (0xFFFFFFFF :: u64)"
    unfolding m by (rule bit_word_eqI) (simp only: bit_take_bit_iff bit_or_iff bit_mask_iff, auto)
  show "take_bit 32 (x AND 0xFFFFFFFF) = take_bit 32 x"
    unfolding m by (rule bit_word_eqI) (simp only: bit_take_bit_iff bit_and_iff bit_mask_iff, auto)
qed

lemma right_drops:
  assumes R: "right_const env t w1 w2 opr l2 r" and "drops_other opr l2 (t AND 0x0f)"
  shows "cval t (rval env (if l2 = 1 then w2\<lparr>sv_c := 0\<rparr> else w2)) = cwrap t r"
proof -
  note rv = rval_right(1,2,3) [OF R] and res = rval_right(6) [OF R] and ar = rval_right(5) [OF R]
  consider "l2 = 0" "opr = 0x26 \<or> opr = 0x2a" | "opr = 0x7c" "l2 = - 1"
    | "opr = 0x7c" "l2 = 0xFFFFFFFF" "t AND 0x0f \<noteq> 4" | "l2 = 1" "opr = 0x25 \<or> opr = 0x84"
    using assms(2) by (auto simp: drops_other_def)
  then show ?thesis
  proof cases
    case 1
    then have "word_of_int r = (0 :: u64)"
      using res by (auto simp: c_op_def of_int_and_eq)
    with 1 show ?thesis by (simp add: rv cwrap_cval)
  next
    case 2
    then have "word_of_int r = (- 1 :: u64)"
      using res by (auto simp: c_op_def of_int_or_eq)
    with 2 show ?thesis by (simp add: rv cwrap_cval)
  next
    case 3
    then have "word_of_int r = env w1 OR 0xFFFFFFFF"
      using res by (auto simp: c_op_def of_int_or_eq)
    then show ?thesis
      using 3 cval_low [OF 3(3) mask_32(1), of "env w1"] by (simp add: rv cwrap_cval)
  next
    case 4
    have "ival t 1 = 1" by (simp add: ival_def)
    with 4 have "r = 0" using res by (auto simp: c_op_def smod_int_alt_def)
    moreover have "value64 0 t = 0" using ar by (auto simp: arith_def value64_llong value64_int)
    ultimately show ?thesis using 4 by (simp add: rv cwrap_cval)
  qed
qed

lemma right_neutral:
  assumes R: "right_const env t w1 w2 opr l2 r" and "is_neutral opr l2 (t AND 0x0f)"
  shows "cval t (rval env w1) = cwrap t r"
proof -
  note rv = rval_right(1,2,3) [OF R] and res = rval_right(6) [OF R] and ar = rval_right(5) [OF R]
  have i: "ival t 1 = 1" "ival t 0 = 0" by (simp_all add: ival_def)
  consider "l2 = 1" "opr \<in> {0x2a, 0x2f, 0x83, 0x85}"
    | "l2 = 0" "opr \<in> {0x2b, 0x2d, 0x7c, 0x5e, 0x3c, 0x8b, 0x3e}"
    | "opr = 0x26" "l2 = - 1" | "opr = 0x26" "l2 = 0xFFFFFFFF" "t AND 0x0f \<noteq> 4"
    using assms(2) by (auto simp: is_neutral_def)
  then show ?thesis
  proof cases
    case 1
    then have "r = ival t (env w1)"
      using res i by (auto simp: c_op_def split: if_splits)
    then show ?thesis by (simp add: rv cwrap_cval)
  next
    case 2
    then have "word_of_int r = env w1"
      using res i by (auto simp: c_op_def of_int_or_eq of_int_xor_eq)
    then show ?thesis by (simp add: rv cwrap_cval)
  next
    case 3
    then have "word_of_int r = env w1"
      using res by (auto simp: c_op_def of_int_and_eq)
    then show ?thesis by (simp add: rv cwrap_cval)
  next
    case 4
    then have "word_of_int r = env w1 AND 0xFFFFFFFF"
      using res by (auto simp: c_op_def of_int_and_eq)
    then show ?thesis
      using cval_low [OF 4(3) mask_32(2), of "env w1"] by (simp add: rv cwrap_cval)
  qed
qed

lemma right_strength:
  assumes R: "right_const env t w1 w2 opr l2 r"
    and o: "opr \<in> {0x2a, 0x85, 0x83}" and p: "l2 = 2 ^ n" "n < 64"
  shows "\<exists>r'. c_op t (if opr = 0x2a then 0x3c else if opr = 0x85 then 0x3e else 0x8b)
            (ival t (rval env w1)) (ival t (rval env (w2\<lparr>sv_c := of_nat n\<rparr>))) = Some r' \<and>
          cwrap t r' = cwrap t r"
proof -
  note rv = rval_right(1,2,3) [OF R] and res = rval_right(6) [OF R] and ar = rval_right(5) [OF R]
  have "value64 (2 ^ n) t = 2 ^ n" using rval_right(4) [OF R] p by simp
  note q = pow2_const [OF ar this p(2)]
  have k: "nat (int n mod int (width t)) = n" using q(1) by simp
  have i: "ival t (rval env (w2\<lparr>sv_c := of_nat n\<rparr>)) = int n" using q by (simp add: rv)
  consider (mul) "opr = 0x2a" | (pdiv) "opr = 0x85" | (udiv) "opr = 0x83" using o by blast
  then show ?thesis
  proof cases
    case mul
    then have "word_of_int r = env w1 * 2 ^ n" using res p by (auto simp: c_op_def)
    with mul i k show ?thesis by (simp add: c_op_def rv cwrap_cval)
  next
    case pdiv
    then have "0 < ival t l2" using res by (auto simp: c_op_def split: if_splits)
    then have "ival t l2 = 2 ^ n" using q(5) p by auto
    with pdiv res i k show ?thesis by (simp add: c_op_def rv split: if_splits)
  next
    case udiv
    then have "is_uns t" using rval_right(7) [OF R] by (auto simp: op_for_def split: if_splits)
    then have "ival t l2 = 2 ^ n" using q(5) p by auto
    with udiv res i k show ?thesis by (simp add: c_op_def rv split: if_splits)
  qed
qed

lemma right_modulus:
  assumes R: "right_const env t w1 w2 opr l2 r"
    and o: "opr = 0x84" and p: "l2 = 2 ^ n" "n < 64"
  shows "c_op t 0x26 (ival t (rval env w1)) (ival t (rval env (w2\<lparr>sv_c := l2 - 1\<rparr>))) = Some r"
proof -
  note rv = rval_right(1,2,3) [OF R] and res = rval_right(6) [OF R] and ar = rval_right(5) [OF R]
  have "value64 (2 ^ n) t = 2 ^ n" using rval_right(4) [OF R] p by simp
  note q = pow2_const [OF ar this p(2)]
  have u: "is_uns t" using rval_right(7) [OF R] o by (auto simp: op_for_def split: if_splits)
  have "ival t l2 = 2 ^ n" using q(5) u p by auto
  then have r: "r = ival t (env w1) mod 2 ^ n" using res o by (auto simp: c_op_def split: if_splits)
  have "uint (mask n :: u64) = mask n"
    using p by (intro bit_eqI) (auto simp: bit_unsigned_iff bit_mask_iff)
  then have "ival t (l2 - 1) = mask n" using u p by (simp add: ival_def mask_eq_exp_minus_1)
  then show ?thesis
    using q(4) u p r by (simp add: rv c_op_def take_bit_eq_mask [symmetric] take_bit_eq_mod)
qed

lemma right_general:
  assumes R: "right_const env t w1 w2 opr l2 r"
  shows "same_effect env t st s r (general_case t1 t2 opr (w2 # w1 # st) s)"
  using rval_right [OF R] by (intro same_effect_Call) auto

lemma const_not_cmp: "is_const w \<Longrightarrow> \<not> vcheck_cmp w s"
  by (auto simp: is_const_def vcheck_cmp_def)

definition is_addr :: "svalue \<Rightarrow> bool" where
  "is_addr v \<longleftrightarrow> sv_r v AND 0x33f = 0x230 \<or> sv_r v AND 0x33f = 0x32"

lemma right_address:
  assumes R: "right_const env t w1 w2 opr l2 r" and env: "addr_ok env" and a: "is_addr w1"
    and o: "opr = 0x2b \<or> opr = 0x2d"
    and c: "c = (if opr = 0x2d then - l2 else l2) + sv_c w1"
  shows "same_effect env t st s r (Done (mark_nonconst (w1\<lparr>sv_c := c\<rparr> # st)) s)"
proof (rule same_effect_Done)
  have nc: "\<not> is_const (w1\<lparr>sv_c := c\<rparr>)" using rval_right(9) [OF R] by (simp add: is_const_def)
  have "env (w1\<lparr>sv_c := c\<rparr>) = env w1 + (c - sv_c w1)"
    using env a by (auto simp: addr_ok_def is_addr_def)
  moreover have "word_of_int r = (if opr = 0x2d then env w1 - l2 else env w1 + l2)"
    using rval_right(6) [OF R] o by (auto simp: c_op_def)
  ultimately have "rval env (w1\<lparr>sv_c := c\<rparr>) = word_of_int r"
    using nc c by (auto simp: rval_def)
  then show "cval t (rval env (w1\<lparr>sv_c := c\<rparr>)) = cwrap t r" by (simp add: cwrap_cval)
qed

lemma simplify_right:
  assumes R: "right_const env t w1 w2 opr l2 r" and env: "addr_ok env"
    and c1: "\<not> (c1 \<and> (l1 = 0 \<and> (opr = 0x3c \<or> opr = 0x8b \<or> opr = 0x3e) \<or> l1 = - 1 \<and> opr = 0x3e))"
  shows "\<exists>res. gen_opic_simplify opr c1 l1 True l2 t1 (t AND 0x0f) (w2 # w1 # st) s = Some res \<and>
           same_effect env t st s r res"
proof -
  let ?G = "gen_opic_simplify opr c1 l1 True l2 t1 (t AND 0x0f) (w2 # w1 # st) s"
  have eff: ?thesis if "?G = Some res" "same_effect env t st s r res" for res
    using that by blast
  have cw: "is_const w2" "is_const (w2\<lparr>sv_c := c\<rparr>)" for c
    using rval_right(8) [OF R] by (simp_all add: is_const_def)
  show ?thesis
  proof (cases "drops_other opr l2 (t AND 0x0f)")
    case True
    let ?w = "if l2 = 1 then w2\<lparr>sv_c := 0\<rparr> else w2"
    have "?G = Some (Done (mark_nonconst (?w # st)) s)"
      using c1 True const_not_cmp [OF cw(1)] const_not_cmp [OF cw(2)]
      unfolding gen_opic_simplify_def if_not_P [OF c1]
      by (simp add: vswap_def set_c_def Let_def)
    then show ?thesis
      by (rule eff) (rule same_effect_Done [OF right_drops [OF R True]])
  next
    case nd: False
    show ?thesis
    proof (cases "is_neutral opr l2 (t AND 0x0f)")
      case True
      have "?G = Some (Done (mark_nonconst (w1 # st)) s)"
        using nd True unfolding gen_opic_simplify_def if_not_P [OF c1] by simp
      then show ?thesis
        by (rule eff) (rule same_effect_Done [OF right_neutral [OF R True]])
    next
      case nn: False
      have G: "?G = (if opr = 0x2a \<or> opr = 0x85 \<or> opr = 0x83 \<or> opr = 0x84 then
        if l2 > 0 \<and> l2 AND (l2 - 1) = 0 then
          if opr = 0x84 then Some (general_case t1 (t AND 0x0f) 0x26 (w2\<lparr>sv_c := l2 - 1\<rparr> # w1 # st) s)
          else Some (general_case t1 (t AND 0x0f) (if opr = 0x2a then 0x3c else if opr = 0x85 then 0x3e else 0x8b)
                 (w2\<lparr>sv_c := log2_loop l2 (- 1)\<rparr> # w1 # st) s)
        else Some (general_case t1 (t AND 0x0f) opr (w2 # w1 # st) s)
      else if (opr = 0x2b \<or> opr = 0x2d) \<and> is_addr w1 then
        if scast (ucast ((if opr = 0x2d then - l2 else l2) + sv_c w1) :: u32) \<noteq>
           (if opr = 0x2d then - l2 else l2) + sv_c w1
        then Some (general_case t1 (t AND 0x0f) opr (w2 # w1 # st) s)
        else Some (Done (mark_nonconst (w1\<lparr>sv_c := (if opr = 0x2d then - l2 else l2) + sv_c w1\<rparr> # st)) s)
      else Some (general_case t1 (t AND 0x0f) opr (w2 # w1 # st) s))"
        using nd nn unfolding gen_opic_simplify_def if_not_P [OF c1]
        by (simp add: set_c_def Let_def is_addr_def)
      consider (p2) "opr \<in> {0x2a, 0x85, 0x83}" "l2 > 0 \<and> l2 AND (l2 - 1) = 0"
        | (md) "opr = 0x84" "l2 > 0 \<and> l2 AND (l2 - 1) = 0"
        | (ad) "opr = 0x2b \<or> opr = 0x2d" "is_addr w1"
            "scast (ucast ((if opr = 0x2d then - l2 else l2) + sv_c w1) :: u32) =
             (if opr = 0x2d then - l2 else l2) + sv_c w1"
        | (gc) "?G = Some (general_case t1 (t AND 0x0f) opr (w2 # w1 # st) s)"
      proof (cases "opr = 0x2a \<or> opr = 0x85 \<or> opr = 0x83 \<or> opr = 0x84")
        case True
        show thesis
        proof (cases "l2 > 0 \<and> l2 AND (l2 - 1) = 0")
          case p: True
          show thesis
          proof (cases "opr = 0x84")
            case True
            from md [OF this p] show thesis .
          next
            case False
            with True have "opr \<in> {0x2a, 0x85, 0x83}" by blast
            from p2 [OF this p] show thesis .
          qed
        next
          case np: False
          have "?G = Some (general_case t1 (t AND 0x0f) opr (w2 # w1 # st) s)"
            unfolding G if_P [OF True] if_not_P [OF np] by (rule refl)
          then show thesis by (rule gc)
        qed
      next
        case False
        let ?c = "(if opr = 0x2d then - l2 else l2) + sv_c w1"
        show thesis
        proof (cases "(opr = 0x2b \<or> opr = 0x2d) \<and> is_addr w1 \<and> scast (ucast ?c :: u32) = ?c")
          case True
          then show thesis by (intro ad) blast+
        next
          case no: False
          have "?G = Some (general_case t1 (t AND 0x0f) opr (w2 # w1 # st) s)"
            unfolding G if_not_P [OF False] using no by (metis (no_types, lifting))
          then show thesis by (rule gc)
        qed
      qed
      then show ?thesis
      proof cases
        case p2
        then obtain n where n: "n < 64" "l2 = 2 ^ n" using power_of_two [of l2] by blast
        have lg: "log2_loop l2 (- 1) = of_nat n" using log2_loop_power [OF n(1), of "- 1"] n(2) by simp
        obtain r' where r': "c_op t (if opr = 0x2a then 0x3c else if opr = 0x85 then 0x3e else 0x8b)
            (ival t (rval env w1)) (ival t (rval env (w2\<lparr>sv_c := of_nat n\<rparr>))) = Some r'"
            "cwrap t r' = cwrap t r"
          using right_strength [OF R p2(1) n(2,1)] by blast
        have "?G = Some (general_case t1 (t AND 0x0f)
            (if opr = 0x2a then 0x3c else if opr = 0x85 then 0x3e else 0x8b) (w2\<lparr>sv_c := of_nat n\<rparr> # w1 # st) s)"
          unfolding G using p2 lg by auto
        then show ?thesis by (rule eff) (rule same_effect_Call [OF r'])
      next
        case md
        then obtain n where n: "n < 64" "l2 = 2 ^ n" using power_of_two [of l2] by blast
        have "?G = Some (general_case t1 (t AND 0x0f) 0x26 (w2\<lparr>sv_c := l2 - 1\<rparr> # w1 # st) s)"
          unfolding G using md by simp
        then show ?thesis
          by (rule eff) (rule same_effect_Call [OF right_modulus [OF R md(1) n(2,1)] refl])
      next
        case ad
        then have "opr \<notin> {0x2a, 0x85, 0x83, 0x84}" by auto
        with ad have "?G = Some (Done (mark_nonconst
            (w1\<lparr>sv_c := (if opr = 0x2d then - l2 else l2) + sv_c w1\<rparr> # st)) s)"
          unfolding G by simp
        then show ?thesis by (rule eff) (rule right_address [OF R env ad(2,1) refl])
      next
        case gc
        then show ?thesis by (rule eff) (rule right_general [OF R])
      qed
    qed
  qed
qed

lemma simplify_left:
  assumes c: "is_const v1" "\<not> is_const v2" and ar: "arith t" and ty: "sv_t v1 = t"
    and opf: "op_for t opr" and top: "sv_r v2 AND 0x3f \<noteq> 24" "sv_r v2 AND 0x3f \<noteq> 0x33"
    and res: "c_op t opr (ival t (rval env v1)) (ival t (rval env v2)) = Some r"
  shows "\<exists>res. gen_opic_simplify opr True (value64 (sv_c v1) t) False l2 t1 t2 (v2 # v1 # st) s = Some res \<and>
           same_effect env t st s r res"
proof -
  let ?l1 = "value64 (sv_c v1) t"
  have rv: "rval env v1 = ?l1" using c ty by (simp add: rval_def)
  show ?thesis
  proof (cases "?l1 = 0 \<and> (opr = 0x3c \<or> opr = 0x8b \<or> opr = 0x3e) \<or> ?l1 = - 1 \<and> opr = 0x3e")
    case True
    have "word_of_int r = ?l1"
    proof (cases "?l1 = 0")
      case z: True
      have "ival t 0 = 0" by (simp add: ival_def)
      with True z res show ?thesis by (auto simp: c_op_def rv)
    next
      case False
      with True have o: "?l1 = - 1" "opr = 0x3e" by auto
      then have "ival t (- 1) = - 1" using opf by (auto simp: op_for_def ival_def)
      with o res show ?thesis by (auto simp: c_op_def rv minus_1_div_exp_eq_int)
    qed
    then have "cval t (rval env v1) = cwrap t r" by (simp add: rv cwrap_cval)
    moreover have "vpop (v2 # v1 # st) s = Some (v1 # st, s)"
      using top by (simp add: vpop_def)
    ultimately show ?thesis
      using True same_effect_Done [of t env v1 r st s] by (simp add: gen_opic_simplify_def)
  next
    case False
    then have "gen_opic_simplify opr True ?l1 False l2 t1 t2 (v2 # v1 # st) s =
        Some (general_case t1 t2 opr (v2 # v1 # st) s)"
      unfolding gen_opic_simplify_def simp_thms if_not_P [OF False] by simp
    with same_effect_Call [OF res refl] show ?thesis by blast
  qed
qed


definition int_reg :: svalue where
  "int_reg = \<lparr>sv_t = 0x13, sv_r = 1, sv_c = 0, sv_sym = 0\<rparr>"


end
