(* ===== verification/RegAlloc.thy ===== *)
theory RegAlloc
  imports X86Encode Structs ConstFold
begin

text \<open>
  Registers and the value stack (save_regs to get_temp_local_var, lines 17076-17196, with R_RET .. RC2_TYPE,
  16262-16307). The stack is a list with its bottom first; vtop is the last entry. An entry in a register (its
  number in the low six bits of r) is moved to the stack frame when the register is needed: then r is 0x132
  (VT_LOCAL, VT_LVAL), or 0x31 (VT_LLOCAL) for an address, and r2 names the temporary variable of the frame.
  The code of store is emitted by the definitions of X86Encode.
\<close>

record rvalue = svalue +
  sv_r2 :: u16

record regstate =
  vstack :: "rvalue list"
  frame :: int
  temps :: "(int \<times> int \<times> int) list"
  gen :: cgen

definition TREG_ST0 :: nat where "TREG_ST0 = 24"

definition reg_classes :: "u32 list" where
  "reg_classes =
     [0x0001 OR 0x0004, 0x0001 OR 0x0010, 0x0001 OR 0x0008, 0, 0, 0, 0x0020, 0x0040, 0x0100, 0x0200, 0x0400, 0x0800,
      0, 0, 0, 0, 0x0002 OR 0x1000, 0x0002 OR 0x2000, 0x0002 OR 0x4000, 0x0002 OR 0x8000, 0x0002 OR 0x10000,
      0x0002 OR 0x20000, 0x40000, 0x80000, 0x0080]"

definition R2_RET :: "u32 \<Rightarrow> nat" where
  "R2_RET t = (let t = t AND 0x000f in if t = 13 then 2 else if t = 14 then 17 else 0x30)"

text \<open>The register of an entry, and the class of a register.\<close>

definition val_reg :: "rvalue \<Rightarrow> nat" where "val_reg p = unat (sv_r p AND 0x003f)"
definition in_class :: "nat \<Rightarrow> u32 \<Rightarrow> bool" where "in_class r rc \<longleftrightarrow> reg_classes ! r AND rc \<noteq> 0"
definition is_lval :: "rvalue \<Rightarrow> bool" where "is_lval p \<longleftrightarrow> sv_r p AND 0x0100 \<noteq> 0"

text \<open>
  get_temp_local_var: the bits of used, the first free temporary that is large enough, or a new one. The result
  is the offset in the frame and the value for r2.
\<close>

definition temp_used :: "rvalue list \<Rightarrow> nat \<Rightarrow> bool" where
  "temp_used vs i \<longleftrightarrow>
     list_ex (\<lambda>p. (val_reg p = 0x32 \<or> val_reg p = 0x31) \<and> 0x31 \<le> unat (sv_r2 p) \<and> unat (sv_r2 p) - 0x31 = i) vs"

definition free_temp :: "int \<Rightarrow> int \<Rightarrow> rvalue list \<Rightarrow> (int \<times> int \<times> int) list \<Rightarrow> nat option" where
  "free_temp sz al vs ts =
     List.find (\<lambda>i. \<not> temp_used vs i \<and> fst (snd (ts ! i)) \<ge> sz \<and> snd (snd (ts ! i)) \<ge> al) [0..<length ts]"

definition get_temp_local_var :: "int \<Rightarrow> int \<Rightarrow> regstate \<Rightarrow> int \<times> nat \<times> regstate" where
  "get_temp_local_var sz al st =
     (case free_temp sz al (vstack st) (temps st) of
        Some i \<Rightarrow> (fst (temps st ! i), 0x30 + 1 + i, st)
      | None \<Rightarrow>
          let l = (frame st - sz) AND (- al); st' = st\<lparr>frame := l\<rparr>
          in if length (temps st) < 8
             then (l, 0x30 + 1 + length (temps st), st'\<lparr>temps := temps st @ [(l, sz, al)]\<rparr>)
             else (l, 0x30, st'))"

text \<open>The entry p once it is saved at offset l of the frame.\<close>

definition saved_entry :: "int \<Rightarrow> nat \<Rightarrow> rvalue \<Rightarrow> rvalue" where
  "saved_entry l r2 p =
     (let p = (if is_lval p then p\<lparr>sv_r := (sv_r p AND NOT (0x003f OR 0x8000)) OR 0x0031\<rparr>
               else p\<lparr>sv_r := 0x0100 OR 0x0032, sv_t := sv_t p AND NOT 0x0040\<rparr>)
      in p\<lparr>sv_sym := 0, sv_r2 := of_nat r2, sv_c := of_int l\<rparr>)"

text \<open>The type an entry is saved with.\<close>

definition save_type :: "rvalue \<Rightarrow> u32" where
  "save_type p = (if is_lval p \<or> sv_t p AND 0x000f = 6 then 5 else sv_t p AND 0x000f)"

definition emit_save :: "nat \<Rightarrow> rvalue \<Rightarrow> int \<Rightarrow> cgen \<Rightarrow> cgen res" where
  "emit_save r p l s =
     ebind (store (of_nat (val_reg p)) (save_type p) (0x0032 OR 0x0100) (of_int l) 0 s) (\<lambda>s.
       let s = (if r = TREG_ST0 then emit_o 0xd8dd s else s)
       in if unat (sv_r2 p) < 0x30 \<and> R2_RET (save_type p) \<noteq> 0x30
          then store (of_nat (unat (sv_r2 p))) (save_type p) (0x0032 OR 0x0100) (of_int l + 8) 0 s
          else Inr s)"

text \<open>One turn of the loop of save_reg_upstack on the entry i; l is 0 until something was saved.\<close>

definition save_step :: "nat \<Rightarrow> regstate \<times> int \<times> nat \<Rightarrow> nat \<Rightarrow> (regstate \<times> int \<times> nat) res" where
  "save_step r = (\<lambda>(st, l, r2) i.
     let p = vstack st ! i in
     if val_reg p = r \<or> unat (sv_r2 p) = r then
       if l = 0 then
         if sv_t p AND 0x000f = 0 then Inr (st, l, r2)
         else
           let (sz, al) = type_size (CType (save_type p) None);
               (l, r2, st) = get_temp_local_var sz al st
           in ebind (emit_save r p l (gen st)) (\<lambda>s.
                Inr (st\<lparr>gen := s, vstack := (vstack st)[i := saved_entry l r2 p]\<rparr>, l, r2))
       else Inr (st\<lparr>vstack := (vstack st)[i := saved_entry l r2 p]\<rparr>, l, r2)
     else Inr (st, l, r2))"

primrec save_loop :: "nat \<Rightarrow> nat list \<Rightarrow> regstate \<times> int \<times> nat \<Rightarrow> (regstate \<times> int \<times> nat) res" where
  "save_loop r [] s = Inr s"
| "save_loop r (i # is) s = ebind (save_step r s i) (save_loop r is)"

definition save_reg_upstack :: "nat \<Rightarrow> nat \<Rightarrow> regstate \<Rightarrow> regstate res" where
  "save_reg_upstack r n st =
     (if 0x30 \<le> r then Inr st
      else if nocode_wanted (gen st) \<noteq> 0 then Inr st
      else ebind (save_loop r [0..<length (vstack st) - n] (st, 0, 0)) (\<lambda>(st, l, r2). Inr st))"

definition save_reg :: "nat \<Rightarrow> regstate \<Rightarrow> regstate res" where
  "save_reg r st = save_reg_upstack r 0 st"

primrec save_regs_loop :: "nat list \<Rightarrow> regstate \<Rightarrow> regstate res" where
  "save_regs_loop [] st = Inr st"
| "save_regs_loop (i # is) st = ebind (save_reg (val_reg (vstack st ! i)) st) (save_regs_loop is)"

definition save_regs :: "nat \<Rightarrow> regstate \<Rightarrow> regstate res" where
  "save_regs n st = save_regs_loop [0..<length (vstack st) - n] st"

text \<open>get_reg: a register of the class no entry uses, or the first used one, which is saved; None is -1.\<close>

definition reg_used :: "rvalue list \<Rightarrow> nat \<Rightarrow> bool" where
  "reg_used vs r \<longleftrightarrow> list_ex (\<lambda>p. val_reg p = r \<or> unat (sv_r2 p) = r) vs"

fun first_in_class :: "u32 \<Rightarrow> rvalue list \<Rightarrow> nat option" where
  "first_in_class rc [] = None"
| "first_in_class rc (p # ps) =
     (if unat (sv_r2 p) < 0x30 \<and> in_class (unat (sv_r2 p)) rc then Some (unat (sv_r2 p))
      else if val_reg p < 0x30 \<and> in_class (val_reg p) rc then Some (val_reg p)
      else first_in_class rc ps)"

definition get_reg :: "u32 \<Rightarrow> regstate \<Rightarrow> (nat option \<times> regstate) res" where
  "get_reg rc st =
     (case List.find (\<lambda>r. in_class r rc \<and> (nocode_wanted (gen st) \<noteq> 0 \<or> \<not> reg_used (vstack st) r)) [0..<25] of
        Some r \<Rightarrow> Inr (Some r, st)
      | None \<Rightarrow>
          (case first_in_class rc (vstack st) of
             Some r \<Rightarrow> ebind (save_reg r st) (\<lambda>st. Inr (Some r, st))
           | None \<Rightarrow> Inr (None, st)))"

section \<open>What the entries mean\<close>

text \<open>
  A machine: the bytes of the registers, the stack of the floating-point unit (register 24 is its top) and the
  bytes of the frame by their offset. An entry means the bytes of a value of its type, the eight bytes of
  the address of one, or something in neither registers nor frame.
\<close>

record machine =
  regs :: "nat \<Rightarrow> nat \<Rightarrow> u8"
  x87 :: "nat \<Rightarrow> nat \<Rightarrow> u8"
  mem :: "int \<Rightarrow> u8"

definition reg_byte :: "machine \<Rightarrow> nat \<Rightarrow> nat \<Rightarrow> u8" where
  "reg_byte m r j = (if r = TREG_ST0 then x87 m 0 j else regs m r j)"

datatype entry_meaning = NoValue | Value "u8 list" | Place "u8 list" | Other u16 u64 nat

definition is_void :: "rvalue \<Rightarrow> bool" where "is_void p \<longleftrightarrow> sv_t p AND 0x000f = 0"

definition frame_at :: "rvalue \<Rightarrow> int" where "frame_at p = sint (sv_c p)"

definition entry_meaning :: "machine \<Rightarrow> rvalue \<Rightarrow> entry_meaning" where
  "entry_meaning m p =
     (if is_void p then NoValue
      else if val_reg p < 0x30 then
        (if is_lval p then Place (map (reg_byte m (val_reg p)) [0..<8])
         else Value (map (reg_byte m (val_reg p)) [0..<btype_bytes (sv_t p AND 0x000f)]))
      else if val_reg p = 0x31 then Place (map (\<lambda>j. mem m (frame_at p + int j)) [0..<8])
      else if val_reg p = 0x32 \<and> is_lval p
      then Value (map (\<lambda>j. mem m (frame_at p + int j)) [0..<btype_bytes (sv_t p AND 0x000f)])
      else Other (sv_r p) (sv_c p) (sv_sym p))"

text \<open>
  What the code of emit_save does: store writes the bytes of the type (store_writes_type in X86Encode), and the
  floating-point unit is popped.
\<close>

definition exec_save :: "nat \<Rightarrow> rvalue \<Rightarrow> int \<Rightarrow> machine \<Rightarrow> machine" where
  "exec_save r p l m =
     m\<lparr>mem := (\<lambda>a. if l \<le> a \<and> a < l + int (btype_bytes (save_type p)) then reg_byte m (val_reg p) (nat (a - l)) else mem m a),
       x87 := (if r = TREG_ST0 then (\<lambda>i. x87 m (i + 1)) else x87 m)\<rparr>"

section \<open>Well-formed stacks\<close>

text \<open>The bytes an entry needs when it is saved, and whether it is in the frame.\<close>

definition save_bytes :: "rvalue \<Rightarrow> nat" where "save_bytes p = btype_bytes (save_type p)"
definition in_frame :: "rvalue \<Rightarrow> bool" where
  "in_frame p \<longleftrightarrow> \<not> is_void p \<and> (val_reg p = 0x31 \<or> val_reg p = 0x32 \<and> is_lval p)"
definition frame_bytes :: "rvalue \<Rightarrow> int" where
  "frame_bytes p = (if val_reg p = 0x31 then 8 else int (btype_bytes (sv_t p AND 0x000f)))"

definition apart_from :: "int \<Rightarrow> int \<Rightarrow> int \<times> int \<times> int \<Rightarrow> bool" where
  "apart_from c n t \<longleftrightarrow> c + n \<le> fst t \<or> fst t + fst (snd t) \<le> c"

text \<open>The temporaries of the frame do not overlap and lie between its end and rbp.\<close>

definition temps_ok :: "int \<Rightarrow> (int \<times> int \<times> int) list \<Rightarrow> bool" where
  "temps_ok fr ts \<longleftrightarrow>
     length ts \<le> 8 \<and> fr \<le> 0 \<and>
     list_all (\<lambda>t. fr \<le> fst t \<and> 0 < fst (snd t) \<and> fst t + fst (snd t) \<le> 0) ts \<and>
     sorted_wrt (\<lambda>t u. apart_from (fst t) (fst (snd t)) u) ts"

text \<open>An entry in the frame is in the temporary that r2 names, or apart from all of them.\<close>

definition entry_ok :: "int \<Rightarrow> (int \<times> int \<times> int) list \<Rightarrow> rvalue \<Rightarrow> bool" where
  "entry_ok fr ts p \<longleftrightarrow>
     0x30 \<le> unat (sv_r2 p) \<and>
     (val_reg p < 0x30 \<longrightarrow> val_reg p < 25 \<and> sv_t p AND 0x000f \<in> {0, 1, 2, 3, 4, 5, 6, 8, 9, 10, 11}) \<and>
     (in_frame p \<longrightarrow>
        fr \<le> frame_at p \<and>
        (if unat (sv_r2 p) = 0x30 then list_all (apart_from (frame_at p) (frame_bytes p)) ts
         else unat (sv_r2 p) - 0x31 < length ts \<and>
              fst (ts ! (unat (sv_r2 p) - 0x31)) \<le> frame_at p \<and>
              frame_at p + frame_bytes p \<le> fst (ts ! (unat (sv_r2 p) - 0x31)) + fst (snd (ts ! (unat (sv_r2 p) - 0x31)))))"

text \<open>Entries that share a register need as many bytes.\<close>

definition stack_ok :: "regstate \<Rightarrow> bool" where
  "stack_ok st \<longleftrightarrow>
     temps_ok (frame st) (temps st) \<and> list_all (entry_ok (frame st) (temps st)) (vstack st) \<and>
     (\<forall>p\<in>set (vstack st). \<forall>q\<in>set (vstack st).
        \<not> is_void p \<longrightarrow> \<not> is_void q \<longrightarrow> val_reg p < 0x30 \<longrightarrow> val_reg p = val_reg q \<longrightarrow> save_bytes p = save_bytes q)"

section \<open>Saving one register\<close>

definition saved_stack :: "nat \<Rightarrow> int \<Rightarrow> nat \<Rightarrow> nat \<Rightarrow> nat \<Rightarrow> rvalue list \<Rightarrow> rvalue list" where
  "saved_stack r l r2 k L vs =
     map (\<lambda>i. if k \<le> i \<and> i < L \<and> val_reg (vs ! i) = r then saved_entry l r2 (vs ! i) else vs ! i) [0..<length vs]"

lemma length_saved_stack [simp]: "length (saved_stack r l r2 k L vs) = length vs"
  by (simp add: saved_stack_def)

lemma nth_saved_stack:
  "i < length vs \<Longrightarrow> saved_stack r l r2 k L vs ! i =
    (if k \<le> i \<and> i < L \<and> val_reg (vs ! i) = r then saved_entry l r2 (vs ! i) else vs ! i)"
  by (simp add: saved_stack_def)

lemma save_loop_rest:
  assumes "l \<noteq> 0" "k \<le> L" "L \<le> length (vstack st)" "\<And>i. k \<le> i \<Longrightarrow> i < L \<Longrightarrow> unat (sv_r2 (vstack st ! i)) \<noteq> r"
  shows "save_loop r [k..<L] (st, l, r2) = Inr (st\<lparr>vstack := saved_stack r l r2 k L (vstack st)\<rparr>, l, r2)"
  using assms
proof (induction "L - k" arbitrary: k st)
  case 0
  then have "saved_stack r l r2 k L (vstack st) = vstack st" by (intro nth_equalityI) (auto simp: nth_saved_stack)
  then show ?case using 0 by simp
next
  case (Suc n)
  then have k: "k < L" "n = L - Suc k" "Suc k \<le> L" by auto
  define st' where "st' = (if val_reg (vstack st ! k) = r then st\<lparr>vstack := (vstack st)[k := saved_entry l r2 (vstack st ! k)]\<rparr> else st)"
  have l: "length (vstack st') = length (vstack st)" by (simp add: st'_def)
  have o: "vstack st' ! i = vstack st ! i" if "i \<noteq> k" for i using that by (auto simp: st'_def)
  have s: "save_step r (st, l, r2) k = Inr (st', l, r2)"
    using Suc.prems(1) Suc.prems(4) [OF order_refl k(1)] by (simp add: save_step_def Let_def st'_def)
  have "save_loop r [Suc k..<L] (st', l, r2) = Inr (st'\<lparr>vstack := saved_stack r l r2 (Suc k) L (vstack st')\<rparr>, l, r2)"
    using Suc.prems k l o by (intro Suc.hyps(1)) auto
  moreover have "st'\<lparr>vstack := saved_stack r l r2 (Suc k) L (vstack st')\<rparr> = st\<lparr>vstack := saved_stack r l r2 k L (vstack st)\<rparr>"
  proof -
    have "saved_stack r l r2 (Suc k) L (vstack st') = saved_stack r l r2 k L (vstack st)"
    proof (intro nth_equalityI)
      fix i assume "i < length (saved_stack r l r2 (Suc k) L (vstack st'))"
      then have i: "i < length (vstack st)" using l by simp
      show "saved_stack r l r2 (Suc k) L (vstack st') ! i = saved_stack r l r2 k L (vstack st) ! i"
        using i l k o by (cases "i = k") (auto simp: nth_saved_stack st'_def)
    qed (simp add: l)
    then show ?thesis by (simp add: st'_def)
  qed
  ultimately show ?case using k(1) s by (simp add: upt_conv_Cons)
qed

lemma save_loop_cases:
  assumes "k \<le> L" "L \<le> length (vstack st)" "\<And>i. i < L \<Longrightarrow> unat (sv_r2 (vstack st ! i)) \<noteq> r"
  shows "(\<forall>i. k \<le> i \<longrightarrow> i < L \<longrightarrow> val_reg (vstack st ! i) = r \<longrightarrow> is_void (vstack st ! i)) \<and> save_loop r [k..<L] (st, 0, r2) = Inr (st, 0, r2)
    \<or> (\<exists>j. k \<le> j \<and> j < L \<and> val_reg (vstack st ! j) = r \<and> \<not> is_void (vstack st ! j) \<and>
         (\<forall>i. k \<le> i \<longrightarrow> i < j \<longrightarrow> val_reg (vstack st ! i) = r \<longrightarrow> is_void (vstack st ! i)) \<and>
         save_loop r [k..<L] (st, 0, r2) = save_loop r [j..<L] (st, 0, r2))"
  using assms(1)
proof (induction "L - k" arbitrary: k)
  case (Suc n)
  then have k: "k < L" "n = L - Suc k" "Suc k \<le> L" by auto
  show ?case
  proof (cases "val_reg (vstack st ! k) = r \<and> \<not> is_void (vstack st ! k)")
    case True
    then show ?thesis using k by (intro disjI2 exI [of _ k]) auto
  next
    case False
    have s: "save_step r (st, 0, r2) k = Inr (st, 0, r2)"
      using False assms(3) [OF k(1)] by (auto simp: save_step_def Let_def is_void_def)
    have e: "save_loop r [k..<L] (st, 0, r2) = save_loop r [Suc k..<L] (st, 0, r2)" using k(1) s by (simp add: upt_conv_Cons)
    have le: "k \<le> i \<longleftrightarrow> i = k \<or> Suc k \<le> i" for i by auto
    show ?thesis using Suc.hyps(1) [OF k(2,3)] False unfolding e le by (metis Suc_leD)
  qed
qed auto

section \<open>Temporaries of the frame\<close>

lemma and_minus_exp:
  fixes x :: int
  shows "x AND - (2 ^ k) = x div 2 ^ k * 2 ^ k"
proof -
  have "x AND NOT (mask k) = push_bit k (drop_bit k x)"
    by (rule bit_eqI) (auto simp: bit_simps bit_mask_iff)
  then show ?thesis by (simp add: minus_exp_eq_not_mask push_bit_eq_mult drop_bit_eq_div)
qed

lemma round_down_bounds:
  fixes x :: int
  assumes "al \<in> {1, 2, 4, 8, 16}"
  shows "x AND - al \<le> x" "x - 16 < x AND - al"
proof -
  have "al = 2 ^ 0 \<or> al = 2 ^ 1 \<or> al = 2 ^ 2 \<or> al = 2 ^ 3 \<or> al = 2 ^ 4" using assms by simp
  then obtain k where k: "al = 2 ^ k" by blast
  have e: "x AND - al = x - x mod al" unfolding k(1) and_minus_exp by (metis minus_mod_eq_div_mult)
  have "0 \<le> x mod al" "x mod al < al" "al \<le> 16" using assms by auto
  then show "x AND - al \<le> x" "x - 16 < x AND - al" unfolding e by linarith+
qed

lemma find_temp_SomeD: "List.find P xs = Some x \<Longrightarrow> P x \<and> x \<in> set xs"
  by (induction xs) (auto split: if_splits)

definition fresh_area :: "int \<Rightarrow> int \<Rightarrow> rvalue \<Rightarrow> bool" where
  "fresh_area l sz p \<longleftrightarrow> (in_frame p \<longrightarrow> frame_at p + frame_bytes p \<le> l \<or> l + sz \<le> frame_at p)"

definition area_ok :: "int \<Rightarrow> int \<Rightarrow> nat \<Rightarrow> (int \<times> int \<times> int) list \<Rightarrow> bool" where
  "area_ok l sz r2 ts \<longleftrightarrow>
     (if r2 = 0x30 then list_all (apart_from l sz) ts
      else 0x31 \<le> r2 \<and> r2 - 0x31 < length ts \<and> fst (ts ! (r2 - 0x31)) = l \<and> sz \<le> fst (snd (ts ! (r2 - 0x31))))"

lemma temps_apart:
  assumes "temps_ok fr ts" "i < length ts" "j < length ts" "i \<noteq> j"
  shows "apart_from (fst (ts ! i)) (fst (snd (ts ! i))) (ts ! j)"
proof (cases "i < j")
  case True
  then show ?thesis using assms by (auto simp: temps_ok_def sorted_wrt_iff_nth_less)
next
  case False
  then have "apart_from (fst (ts ! j)) (fst (snd (ts ! j))) (ts ! i)"
    using assms by (auto simp: temps_ok_def sorted_wrt_iff_nth_less)
  then show ?thesis by (auto simp: apart_from_def)
qed

lemma frame_bytes_nonneg: "0 \<le> frame_bytes p"
  by (simp add: frame_bytes_def)

lemma get_temp_ok:
  assumes "temps_ok (frame st) (temps st)" "list_all (entry_ok (frame st) (temps st)) (vstack st)"
    and "0 < sz" "sz \<le> 16" "al \<in> {1, 2, 4, 8, 16}" "get_temp_local_var sz al st = (l, r2, st')"
  shows "vstack st' = vstack st" "gen st' = gen st" "frame st - 32 \<le> frame st'" "frame st' \<le> frame st"
    "temps_ok (frame st') (temps st')" "list_all (entry_ok (frame st') (temps st')) (vstack st)"
    "frame st' \<le> l" "l + sz \<le> 0" "0x30 \<le> r2" "r2 < 0x39" "area_ok l sz r2 (temps st')"
    "list_all (fresh_area l sz) (vstack st)"
proof -
  have "vstack st' = vstack st \<and> gen st' = gen st \<and> frame st - 32 \<le> frame st' \<and> frame st' \<le> frame st \<and>
    temps_ok (frame st') (temps st') \<and> list_all (entry_ok (frame st') (temps st')) (vstack st) \<and>
    frame st' \<le> l \<and> l + sz \<le> 0 \<and> 0x30 \<le> r2 \<and> r2 < 0x39 \<and> area_ok l sz r2 (temps st') \<and>
    list_all (fresh_area l sz) (vstack st)"
  proof (cases "free_temp sz al (vstack st) (temps st)")
    case (Some i)
    then have i: "\<not> temp_used (vstack st) i" "sz \<le> fst (snd (temps st ! i))" "i < length (temps st)"
      unfolding free_temp_def by (auto dest!: find_temp_SomeD)
    have r: "l = fst (temps st ! i)" "r2 = 0x31 + i" "st' = st" using assms(6) Some by (auto simp: get_temp_local_var_def)
    have t: "frame st \<le> l" "l + fst (snd (temps st ! i)) \<le> 0" "length (temps st) \<le> 8"
      using assms(1) i(3) r by (auto simp: temps_ok_def list_all_length)
    have "fresh_area l sz p" if p: "p \<in> set (vstack st)" for p
      unfolding fresh_area_def
    proof
      assume f: "in_frame p"
      have e: "entry_ok (frame st) (temps st) p" using assms(2) p by (simp add: list_all_iff)
      show "frame_at p + frame_bytes p \<le> l \<or> l + sz \<le> frame_at p"
      proof (cases "unat (sv_r2 p) = 0x30")
        case True
        then have "apart_from (frame_at p) (frame_bytes p) (temps st ! i)" using e f i(3) by (simp add: entry_ok_def list_all_length)
        then show ?thesis using i(2) r by (auto simp: apart_from_def)
      next
        case False
        define k where "k = unat (sv_r2 p) - 0x31"
        have k: "k < length (temps st)" "fst (temps st ! k) \<le> frame_at p"
          "frame_at p + frame_bytes p \<le> fst (temps st ! k) + fst (snd (temps st ! k))" "0x31 \<le> unat (sv_r2 p)"
          using e f False by (auto simp: entry_ok_def k_def)
        have "k \<noteq> i" using i(1) p f k(4) by (auto simp: temp_used_def list_ex_iff in_frame_def k_def)
        then have "apart_from (fst (temps st ! k)) (fst (snd (temps st ! k))) (temps st ! i)"
          using temps_apart [OF assms(1) k(1) i(3)] by simp
        then show ?thesis using k i(2) r by (auto simp: apart_from_def)
      qed
    qed
    then show ?thesis using r t i assms by (auto simp: area_ok_def list_all_iff)
  next
    case None
    define x where "x = (frame st - sz) AND - al"
    have x: "x \<le> frame st - sz" "frame st - sz - 16 < x" unfolding x_def using round_down_bounds [OF assms(5), of "frame st - sz"] by auto
    have fr: "frame st \<le> 0" "length (temps st) \<le> 8" using assms(1) by (simp_all add: temps_ok_def)
    have fresh: "list_all (fresh_area x sz) (vstack st)"
      using assms(2) x by (auto simp: list_all_iff fresh_area_def entry_ok_def)
    have ap: "list_all (\<lambda>t. apart_from (fst t) (fst (snd t)) (x, sz, al)) (temps st)" "list_all (apart_from x sz) (temps st)"
      using assms(1) x by (auto simp: temps_ok_def list_all_iff apart_from_def)
    show ?thesis
    proof (cases "length (temps st) < 8")
      case True
      then have r: "l = x" "r2 = 0x31 + length (temps st)" "st' = st\<lparr>frame := x, temps := temps st @ [(x, sz, al)]\<rparr>"
        using assms(6) None by (auto simp: get_temp_local_var_def Let_def x_def)
      have "temps_ok x (temps st @ [(x, sz, al)])"
        using assms(1,3) x True ap(1) fr by (auto simp: temps_ok_def list_all_iff sorted_wrt_append)
      moreover have "entry_ok x (temps st @ [(x, sz, al)]) p" if "p \<in> set (vstack st)" for p
      proof -
        have e: "entry_ok (frame st) (temps st) p" using assms(2) that by (simp add: list_all_iff)
        have "in_frame p \<Longrightarrow> apart_from (frame_at p) (frame_bytes p) (x, sz, al)"
          using e x by (auto simp: entry_ok_def apart_from_def)
        then show ?thesis using e x assms(3) by (auto simp: entry_ok_def nth_append)
      qed
      ultimately show ?thesis using r fr x assms(3,4) fresh True by (auto simp: area_ok_def list_all_iff nth_append)
    next
      case False
      then have r: "l = x" "r2 = 0x30" "st' = st\<lparr>frame := x\<rparr>"
        using assms(6) None by (auto simp: get_temp_local_var_def Let_def x_def)
      have "temps_ok x (temps st)" using assms(1,3) x fr by (auto simp: temps_ok_def list_all_iff)
      moreover have "list_all (entry_ok x (temps st)) (vstack st)" using assms(2,3) x by (auto simp: list_all_iff entry_ok_def)
      ultimately show ?thesis using r fr x assms(3,4) fresh ap by (auto simp: area_ok_def)
    qed
  qed
  then show "vstack st' = vstack st" "gen st' = gen st" "frame st - 32 \<le> frame st'" "frame st' \<le> frame st"
    "temps_ok (frame st') (temps st')" "list_all (entry_ok (frame st') (temps st')) (vstack st)"
    "frame st' \<le> l" "l + sz \<le> 0" "0x30 \<le> r2" "r2 < 0x39" "area_ok l sz r2 (temps st')"
    "list_all (fresh_area l sz) (vstack st)" by blast+
qed

section \<open>Saved entries\<close>

lemma saved_entry_facts:
  shows "val_reg (saved_entry l r2 p) = (if is_lval p then 0x31 else 0x32)"
    "is_lval (saved_entry l r2 p)" "sv_t (saved_entry l r2 p) AND 0x000f = sv_t p AND 0x000f"
    "is_void (saved_entry l r2 p) = is_void p"
    "sv_c (saved_entry l r2 p) = of_int l" "sv_r2 (saved_entry l r2 p) = of_nat r2"
proof -
  have m: "(x AND NOT (0x003f OR 0x8000) OR 0x0031) AND 0x003f = (0x31 :: u16)" for x :: u16
    by (simp add: bit.conj_disj_distrib2 and.assoc)
  have v: "(x AND NOT (0x003f OR 0x8000) OR 0x0031) AND 0x0100 = x AND (0x0100 :: u16)" for x :: u16
    by (simp add: bit.conj_disj_distrib2 and.assoc)
  have t: "(y AND NOT 0x0040) AND 0x000f = y AND (0x000f :: u32)" for y :: u32
    by (simp add: and.assoc)
  have r: "sv_r (saved_entry l r2 p) = (if is_lval p then sv_r p AND NOT (0x003f OR 0x8000) OR 0x0031 else 0x0100 OR 0x0032)"
    unfolding saved_entry_def Let_def by (cases "is_lval p") simp_all
  show "val_reg (saved_entry l r2 p) = (if is_lval p then 0x31 else 0x32)"
    unfolding val_reg_def r by (cases "is_lval p") (simp_all only: if_True if_False m, simp_all)
  show "is_lval (saved_entry l r2 p)"
    unfolding is_lval_def r
    by (cases "is_lval p") (simp_all only: if_True if_False v is_lval_def [symmetric], simp_all)
  show "sv_t (saved_entry l r2 p) AND 0x000f = sv_t p AND 0x000f"
    unfolding saved_entry_def Let_def using t by simp
  then show "is_void (saved_entry l r2 p) = is_void p" by (simp add: is_void_def)
  show "sv_c (saved_entry l r2 p) = of_int l" "sv_r2 (saved_entry l r2 p) = of_nat r2"
    by (simp_all add: saved_entry_def Let_def)
qed

lemma frame_at_saved:
  assumes "- (2 ^ 62) < l" "l < 2 ^ 62"
  shows "frame_at (saved_entry l r2 p) = l"
proof -
  have "sint (of_int l :: u64) = signed_take_bit 63 l" by (simp add: signed_of_int)
  also have "\<dots> = l" using assms by (intro signed_take_bit_int_eq_self) simp_all
  finally show ?thesis by (simp add: frame_at_def saved_entry_facts)
qed

lemma save_type_size:
  assumes "sv_t p AND 0x000f \<in> {1, 2, 3, 4, 5, 6, 8, 9, 10, 11}"
  shows "\<exists>sz al. type_size (CType (save_type p) None) = (sz, al) \<and> int (save_bytes p) \<le> sz \<and> sz \<le> 16 \<and> 0 < sz \<and>
    al \<in> {1, 2, 4, 8, 16} \<and> save_type p \<in> {1, 2, 3, 4, 5, 8, 9, 10, 11}"
proof -
  have "save_type p \<in> {1, 2, 3, 4, 5, 8, 9, 10, 11}"
    using assms unfolding save_type_def by auto
  then show ?thesis
    unfolding save_bytes_def by (elim insertE emptyE) (simp_all add: basic_size_def btype_bytes_def Let_def)
qed

lemma store_total:
  assumes "r < 25"
  shows "\<exists>s'. store (of_nat r) t 0x132 c 0 s = Inr s'"
proof -
  have w: "\<not> bit (of_nat r :: u32) 5"
  proof -
    have "r div 2 ^ 5 = 0" using assms by simp
    then have "\<not> bit r 5" unfolding bit_iff_odd by simp
    then show ?thesis using bit_of_nat_iff [where ?'a = u32, of r 5] by simp
  qed
  have b: "bit (0x20 :: u32) n = (n = 5)" for n
    using bit_exp_iff [where ?'a = u32, of 5 n] by auto
  have "of_nat r AND (0x20 :: u32) = 0"
    by (rule bit_word_eqI, unfold bit_and_iff b) (use w in auto)
  moreover have "(of_nat r AND 7) AND (0x20 :: u32) = 0" by (simp add: and.assoc)
  ultimately show ?thesis
    using gen_modrm_total by (simp add: store_def Let_def)
qed

lemma emit_save_total:
  assumes "val_reg p < 25" "0x30 \<le> unat (sv_r2 p)"
  shows "\<exists>s'. emit_save r p l s = Inr s'"
proof -
  obtain s1 where "store (of_nat (val_reg p)) (save_type p) 0x132 (of_int l) 0 s = Inr s1"
    using store_total [OF assms(1)] by blast
  then show ?thesis using assms(2) by (simp add: emit_save_def Let_def)
qed

text \<open>The memory of an entry apart from the saved bytes.\<close>

lemma entry_meaning_saved:
  assumes "val_reg q = r" "r < 0x30" "save_bytes q = save_bytes p" "val_reg p = r" "- (2 ^ 62) < l" "l < 2 ^ 62"
  shows "entry_meaning (exec_save r' p l m) (saved_entry l r2 q) = entry_meaning m q"
proof (cases "is_void q")
  case True
  then show ?thesis by (simp add: entry_meaning_def saved_entry_facts)
next
  case False
  have b: "mem (exec_save r' p l m) (l + int j) = reg_byte m r j" if "j < save_bytes q" for j
    using that assms(3,4) by (simp add: exec_save_def save_bytes_def)
  show ?thesis
  proof (cases "is_lval q")
    case True
    then have "save_bytes q = 8" by (simp add: save_bytes_def save_type_def btype_bytes_def)
    then show ?thesis using True False assms b
      by (simp add: entry_meaning_def saved_entry_facts frame_at_saved)
  next
    case nl: False
    then have "btype_bytes (sv_t q AND 0x000f) = save_bytes q"
      by (simp add: save_bytes_def save_type_def btype_bytes_def)
    then show ?thesis using nl False assms b
      by (simp add: entry_meaning_def saved_entry_facts frame_at_saved)
  qed
qed

lemma entry_meaning_other:
  assumes "fresh_area l sz q" "int (save_bytes p) \<le> sz" "val_reg q = r' \<longrightarrow> r' \<noteq> TREG_ST0 \<or> is_void q"
    and "val_reg q = TREG_ST0 \<longrightarrow> r' \<noteq> TREG_ST0 \<or> is_void q"
  shows "entry_meaning (exec_save r' p l m) q = entry_meaning m q"
proof (cases "is_void q")
  case False
  have r: "reg_byte (exec_save r' p l m) (val_reg q) j = reg_byte m (val_reg q) j" for j
    using assms(4) False by (auto simp: reg_byte_def exec_save_def)
  have f: "mem (exec_save r' p l m) (frame_at q + int j) = mem m (frame_at q + int j)"
    if "in_frame q" "int j < frame_bytes q" for j
    using assms(1,2) that by (auto simp: fresh_area_def exec_save_def save_bytes_def)
  show ?thesis
  proof (cases "in_frame q")
    case True
    then show ?thesis using f False by (auto simp: entry_meaning_def in_frame_def frame_bytes_def)
  next
    case nf: False
    then show ?thesis using False r by (auto simp: entry_meaning_def in_frame_def)
  qed
qed (simp add: entry_meaning_def)

section \<open>Saving keeps the values\<close>

text \<open>The saves a function emits: the register asked for, the entry that is stored and the offset.\<close>

primrec emit_saves :: "(nat \<times> rvalue \<times> int) list \<Rightarrow> cgen \<Rightarrow> cgen res" where
  "emit_saves [] s = Inr s"
| "emit_saves (e # es) s = ebind (emit_save (fst e) (fst (snd e)) (snd (snd e)) s) (emit_saves es)"

primrec exec_saves :: "(nat \<times> rvalue \<times> int) list \<Rightarrow> machine \<Rightarrow> machine" where
  "exec_saves [] m = m"
| "exec_saves (e # es) m = exec_saves es (exec_save (fst e) (fst (snd e)) (snd (snd e)) m)"

lemma entry_ok_saved:
  assumes "area_ok l sz r2 ts" "fr \<le> l" "0x30 \<le> r2" "r2 < 0x39" "int (save_bytes q) \<le> sz \<or> is_void q" "- (2 ^ 62) < l" "l < 2 ^ 62"
  shows "entry_ok fr ts (saved_entry l r2 q)"
proof -
  have u: "unat (sv_r2 (saved_entry l r2 q)) = r2"
    using assms(4) by (simp add: saved_entry_facts unat_of_nat take_bit_nat_eq_self)
  have fb: "frame_bytes (saved_entry l r2 q) \<le> sz" if "\<not> is_void q"
    using assms(5) that by (auto simp: frame_bytes_def saved_entry_facts save_bytes_def save_type_def btype_bytes_def split: if_splits)
  note fa = frame_at_saved [OF assms(6,7)]
  have "\<not> val_reg (saved_entry l r2 q) < 0x30" by (simp add: saved_entry_facts)
  moreover have "apart_from l (frame_bytes (saved_entry l r2 q)) t" if "apart_from l sz t" "\<not> is_void q" for t
    using that fb by (auto simp: apart_from_def)
  ultimately show ?thesis
    using assms(1-3) fb unfolding entry_ok_def u fa area_ok_def
    by (auto simp: in_frame_def saved_entry_facts list_all_iff)
qed

lemma save_reg_upstack_ok:
  assumes "stack_ok st" "nocode_wanted (gen st) = 0" "r < 0x30" "- (2 ^ 61) < frame st"
  shows "\<exists>st' es. save_reg_upstack r n st = Inr st' \<and> stack_ok st' \<and> frame st - 32 \<le> frame st' \<and>
    length (vstack st') = length (vstack st) \<and> emit_saves es (gen st) = Inr (gen st') \<and>
    (\<forall>i<length (vstack st) - n. is_void (vstack st' ! i) \<or> val_reg (vstack st' ! i) \<noteq> r) \<and>
    (\<forall>i<length (vstack st). val_reg (vstack st' ! i) < 0x30 \<longrightarrow> vstack st' ! i = vstack st ! i) \<and>
    (\<forall>m. \<forall>i<length (vstack st). i < length (vstack st) - n \<or> r \<noteq> TREG_ST0 \<longrightarrow>
       entry_meaning (exec_saves es m) (vstack st' ! i) = entry_meaning m (vstack st ! i))"
proof -
  let ?L = "length (vstack st) - n" and ?vs = "vstack st"
  have ok: "temps_ok (frame st) (temps st)" "list_all (entry_ok (frame st) (temps st)) ?vs"
    "\<And>p q. p \<in> set ?vs \<Longrightarrow> q \<in> set ?vs \<Longrightarrow> \<not> is_void p \<Longrightarrow> \<not> is_void q \<Longrightarrow> val_reg p < 0x30 \<Longrightarrow> val_reg p = val_reg q \<Longrightarrow> save_bytes p = save_bytes q"
    using assms(1) unfolding stack_ok_def by blast+
  have e: "entry_ok (frame st) (temps st) (?vs ! i)" if "i < length ?vs" for i using ok(2) that by (simp add: list_all_length)
  have r2: "unat (sv_r2 (?vs ! i)) \<noteq> r" if "i < length ?vs" for i using e [OF that] assms(3) by (simp add: entry_ok_def)
  have run: "save_reg_upstack r n st = ebind (save_loop r [0..<?L] (st, 0, 0)) (\<lambda>(st, l, r2). Inr st)"
    using assms(2,3) by (simp add: save_reg_upstack_def)
  have "(\<forall>i<?L. val_reg (?vs ! i) = r \<longrightarrow> is_void (?vs ! i)) \<and> save_loop r [0..<?L] (st, 0, 0) = Inr (st, 0, 0)
    \<or> (\<exists>j<?L. val_reg (?vs ! j) = r \<and> \<not> is_void (?vs ! j) \<and> (\<forall>i<j. val_reg (?vs ! i) = r \<longrightarrow> is_void (?vs ! i)) \<and>
         save_loop r [0..<?L] (st, 0, 0) = save_loop r [j..<?L] (st, 0, 0))"
    using save_loop_cases [of 0 ?L st r 0] r2 by simp
  then consider (none) "\<forall>i<?L. val_reg (?vs ! i) = r \<longrightarrow> is_void (?vs ! i)" "save_loop r [0..<?L] (st, 0, 0) = Inr (st, 0, 0)"
    | (some) j where "j < ?L" "val_reg (?vs ! j) = r" "\<not> is_void (?vs ! j)" "\<forall>i<j. val_reg (?vs ! i) = r \<longrightarrow> is_void (?vs ! i)"
        "save_loop r [0..<?L] (st, 0, 0) = save_loop r [j..<?L] (st, 0, 0)"
    by blast
  then show ?thesis
  proof cases
    case none
    then show ?thesis
      using assms(1) run by (intro exI [of _ st] exI [of _ "[]"]) auto
  next
    case some
    let ?p = "?vs ! j"
    have j: "j < length ?vs" using some(1) by simp
    have ty: "sv_t ?p AND 0x000f \<in> {1, 2, 3, 4, 5, 6, 8, 9, 10, 11}" "r < 25"
      using e [OF j] some(2,3) assms(3) by (auto simp: entry_ok_def is_void_def)
    obtain sz al where sz: "type_size (CType (save_type ?p) None) = (sz, al)" "int (save_bytes ?p) \<le> sz" "sz \<le> 16" "0 < sz"
      "al \<in> {1, 2, 4, 8, 16}" using save_type_size [OF ty(1)] by blast
    obtain l q2 s1 where t: "get_temp_local_var sz al st = (l, q2, s1)" by (cases "get_temp_local_var sz al st") blast
    note g = get_temp_ok [OF ok(1,2) sz(4,3,5) t]
    obtain s' where s': "emit_save r ?p l (gen st) = Inr s'"
      using emit_save_total [of ?p r l "gen st"] ty(2) some(2) e [OF j] by (auto simp: entry_ok_def)
    have l: "l < 0" "l \<noteq> 0" "- (2 ^ 62) < l" "l < 2 ^ 62" using g(3,7,8) sz(4) assms(4) by auto
    define vs' where "vs' = saved_stack r l q2 j ?L ?vs"
    define st' where "st' = s1\<lparr>gen := s', vstack := vs'\<rparr>"
    have "save_step r (st, 0, 0) j = Inr (s1\<lparr>gen := s', vstack := ?vs[j := saved_entry l q2 ?p]\<rparr>, l, q2)"
      using some(2,3) sz(1) t s' g(1,2) by (simp add: save_step_def Let_def is_void_def)
    moreover have "save_loop r [Suc j..<?L] (s1\<lparr>gen := s', vstack := ?vs[j := saved_entry l q2 ?p]\<rparr>, l, q2) =
        Inr (s1\<lparr>gen := s', vstack := saved_stack r l q2 (Suc j) ?L (?vs[j := saved_entry l q2 ?p])\<rparr>, l, q2)"
      using some(1) l(2) r2 by (subst save_loop_rest) (auto simp: nth_list_update)
    moreover have "saved_stack r l q2 (Suc j) ?L (?vs[j := saved_entry l q2 ?p]) = vs'"
      unfolding vs'_def by (rule nth_equalityI) (use some(1,2) in \<open>auto simp: nth_saved_stack nth_list_update\<close>)
    ultimately have res: "save_reg_upstack r n st = Inr st'"
      unfolding run some(5) using some(1) by (simp add: upt_conv_Cons st'_def)
    have nth: "vs' ! i = (if j \<le> i \<and> i < ?L \<and> val_reg (?vs ! i) = r then saved_entry l q2 (?vs ! i) else ?vs ! i)"
      if "i < length ?vs" for i using that by (simp add: vs'_def nth_saved_stack)
    have sb: "save_bytes (?vs ! i) = save_bytes ?p" if "i < length ?vs" "val_reg (?vs ! i) = r" "\<not> is_void (?vs ! i)" for i
      using ok(3) [of "?vs ! i" ?p] that j some(2,3) assms(3) by auto
    have ent: "entry_ok (frame s1) (temps s1) (vs' ! i)" if "i < length ?vs" for i
    proof (cases "j \<le> i \<and> i < ?L \<and> val_reg (?vs ! i) = r")
      case True
      then have "entry_ok (frame s1) (temps s1) (saved_entry l q2 (?vs ! i))"
        using sb [OF that] sz(2) by (intro entry_ok_saved [OF g(11,7,9,10) _ l(3,4)]) auto
      then show ?thesis using True nth [OF that] by simp
    next
      case False
      then show ?thesis unfolding nth [OF that] if_not_P [OF False] using g(6) that by (simp add: list_all_length)
    qed
    have reg: "vs' ! i = ?vs ! i" if "i < length ?vs" "val_reg (vs' ! i) < 0x30" for i
      using that nth [OF that(1)] by (auto simp: saved_entry_facts split: if_splits)
    have uni: "save_bytes (vs' ! i) = save_bytes (vs' ! k)"
      if "i < length ?vs" "k < length ?vs" "\<not> is_void (vs' ! i)" "\<not> is_void (vs' ! k)" "val_reg (vs' ! i) < 0x30" "val_reg (vs' ! i) = val_reg (vs' ! k)" for i k
    proof -
      have "vs' ! i = ?vs ! i" "vs' ! k = ?vs ! k" using that reg by simp_all
      then show ?thesis using that ok(3) [of "?vs ! i" "?vs ! k"] nth_mem by simp
    qed
    have lv: "length vs' = length ?vs" by (simp add: vs'_def)
    have uq: "save_bytes p = save_bytes q"
      if "p \<in> set vs'" "q \<in> set vs'" "\<not> is_void p" "\<not> is_void q" "val_reg p < 0x30" "val_reg p = val_reg q" for p q
    proof -
      note w = that
      obtain i k where "i < length ?vs" "p = vs' ! i" "k < length ?vs" "q = vs' ! k"
        using w(1,2) lv by (metis in_set_conv_nth)
      then show ?thesis using uni [of i k] w(3-6) by simp
    qed
    have le: "list_all (entry_ok (frame s1) (temps s1)) vs'" using ent by (simp add: list_all_length lv)
    have fr: "frame st' = frame s1" "temps st' = temps s1" "vstack st' = vs'" by (simp_all add: st'_def)
    have stok: "stack_ok st'"
      unfolding stack_ok_def fr using g(5) le uq by (intro conjI ballI impI)
    have gone: "is_void (vs' ! i) \<or> val_reg (vs' ! i) \<noteq> r" if "i < ?L" for i
    proof (cases "val_reg (?vs ! i) = r")
      case True
      have il: "i < length ?vs" using that by simp
      show ?thesis using True some(4) nth [OF il] that assms(3) by (cases "j \<le> i") (auto simp: saved_entry_facts)
    next
      case False
      then show ?thesis using nth [of i] that by auto
    qed
    have keep: "entry_meaning (exec_saves [(r, ?p, l)] m) (vs' ! i) = entry_meaning m (?vs ! i)"
      if i: "i < length ?vs" "i < ?L \<or> r \<noteq> TREG_ST0" for m i
    proof (cases "j \<le> i \<and> i < ?L \<and> val_reg (?vs ! i) = r")
      case True
      show ?thesis
      proof (cases "is_void (?vs ! i)")
        case True
        then show ?thesis using nth [OF i(1)] by (simp add: entry_meaning_def saved_entry_facts)
      next
        case False
        then show ?thesis using nth [OF i(1)] True sb [OF i(1)] some(2) l assms(3) by (simp add: entry_meaning_saved)
      qed
    next
      case False
      have v: "vs' ! i = ?vs ! i" unfolding nth [OF i(1)] if_not_P [OF False] ..
      have "val_reg (?vs ! i) = r \<longrightarrow> r \<noteq> TREG_ST0 \<or> is_void (?vs ! i)"
        using False some(4) i by auto
      moreover have "fresh_area l sz (?vs ! i)" using g(12) i(1) by (simp add: list_all_length)
      moreover have "val_reg (?vs ! i) = TREG_ST0 \<longrightarrow> r \<noteq> TREG_ST0 \<or> is_void (?vs ! i)"
        using calculation(1) by auto
      ultimately have "entry_meaning (exec_save r ?p l m) (?vs ! i) = entry_meaning m (?vs ! i)"
        using sz(2) by (intro entry_meaning_other)
      then show ?thesis unfolding v by simp
    qed
    have em: "emit_saves [(r, ?p, l)] (gen st) = Inr (gen st')" using s' by (simp add: st'_def)
    have o: "frame st' = frame s1" "vstack st' = vs'" "length vs' = length ?vs" by (simp_all add: st'_def vs'_def)
    have "\<forall>m. \<forall>i<length ?vs. i < ?L \<or> r \<noteq> TREG_ST0 \<longrightarrow>
       entry_meaning (exec_saves [(r, ?p, l)] m) (vstack st' ! i) = entry_meaning m (?vs ! i)" unfolding o using keep by blast
    moreover have "\<forall>i<?L. is_void (vstack st' ! i) \<or> val_reg (vstack st' ! i) \<noteq> r" unfolding o using gone by blast
    moreover have "\<forall>i<length ?vs. val_reg (vstack st' ! i) < 0x30 \<longrightarrow> vstack st' ! i = ?vs ! i" unfolding o using reg by blast
    ultimately show ?thesis using res stok em g(3) o by (intro exI [of _ st'] exI [of _ "[(r, ?p, l)]"]) simp
  qed
qed

section \<open>Code stays wanted\<close>

lemma nocode_wanted_emit [simp]:
  "nocode_wanted (emit_g c s) = nocode_wanted s"
  "nocode_wanted (emit_o c s) = nocode_wanted s"
  "nocode_wanted (gen_le32 c s) = nocode_wanted s"
  "nocode_wanted (greloca symc ofs t a s) = nocode_wanted s"
  "nocode_wanted (orex ll r r2 b s) = nocode_wanted s"
  "nocode_wanted (snd (oad c v s)) = nocode_wanted s"
  "nocode_wanted (gen_addrpc32 r symc c s) = nocode_wanted s"
proof -
  show g: "nocode_wanted (emit_g c s) = nocode_wanted s" for c s by (simp add: emit_g_def Let_def)
  show o: "nocode_wanted (emit_o c s) = nocode_wanted s" for c s
    by (induction c s rule: emit_o.induct) (subst emit_o.simps, simp add: g)
  show l: "nocode_wanted (gen_le32 c s) = nocode_wanted s" for c s by (simp add: gen_le32_def g)
  show r: "nocode_wanted (greloca symc ofs t a s) = nocode_wanted s" for symc ofs t a s by (simp add: greloca_def)
  show "nocode_wanted (orex ll r r2 b s) = nocode_wanted s" by (simp add: orex_def Let_def o split: prod.split)
  show "nocode_wanted (snd (oad c v s)) = nocode_wanted s" by (simp add: oad_def Let_def o l)
  show "nocode_wanted (gen_addrpc32 r symc c s) = nocode_wanted s" by (simp add: gen_addrpc32_def l r)
qed

lemma nocode_wanted_store: "store r t v c symc s = Inr s' \<Longrightarrow> nocode_wanted s' = nocode_wanted s"
  by (auto simp: store_def gen_modrm_def Let_def split: if_splits)

lemma nocode_wanted_saves: "emit_saves es s = Inr s' \<Longrightarrow> nocode_wanted s' = nocode_wanted s"
proof (induction es arbitrary: s)
  case (Cons e es)
  then show ?case
    by (auto simp: emit_save_def Let_def ebind_Inr_iff dest!: nocode_wanted_store split: if_splits)
qed simp

section \<open>Properties\<close>

lemma save_reg_ok:
  assumes "stack_ok st" "nocode_wanted (gen st) = 0" "r < 0x30" "- (2 ^ 61) < frame st"
  shows "\<exists>st' es. save_reg r st = Inr st' \<and> stack_ok st' \<and> frame st - 32 \<le> frame st' \<and>
    length (vstack st') = length (vstack st) \<and> emit_saves es (gen st) = Inr (gen st') \<and>
    (\<forall>i<length (vstack st). is_void (vstack st' ! i) \<or> val_reg (vstack st' ! i) \<noteq> r) \<and>
    (\<forall>i<length (vstack st). val_reg (vstack st' ! i) < 0x30 \<longrightarrow> vstack st' ! i = vstack st ! i) \<and>
    (\<forall>m. map (entry_meaning (exec_saves es m)) (vstack st') = map (entry_meaning m) (vstack st))"
proof -
  obtain st' es where s: "save_reg r st = Inr st'" "stack_ok st'" "frame st - 32 \<le> frame st'"
    "length (vstack st') = length (vstack st)" "emit_saves es (gen st) = Inr (gen st')"
    "\<forall>i<length (vstack st). is_void (vstack st' ! i) \<or> val_reg (vstack st' ! i) \<noteq> r"
    "\<forall>i<length (vstack st). val_reg (vstack st' ! i) < 0x30 \<longrightarrow> vstack st' ! i = vstack st ! i"
    "\<forall>m. \<forall>i<length (vstack st). entry_meaning (exec_saves es m) (vstack st' ! i) = entry_meaning m (vstack st ! i)"
    using save_reg_upstack_ok [OF assms, of 0] unfolding save_reg_def by auto
  have "\<forall>m. map (entry_meaning (exec_saves es m)) (vstack st') = map (entry_meaning m) (vstack st)"
    using s(4,8) by (auto intro: nth_equalityI)
  then show ?thesis using s by blast
qed

lemma first_in_class_Some:
  assumes "p \<in> set vs" "val_reg p < 0x30" "in_class (val_reg p) rc"
  shows "first_in_class rc vs \<noteq> None"
  using assms by (induction vs) auto

lemma first_in_class_in:
  assumes "first_in_class rc vs = Some r" "\<forall>p\<in>set vs. 0x30 \<le> unat (sv_r2 p)"
  shows "\<exists>p\<in>set vs. val_reg p = r \<and> r < 0x30 \<and> in_class r rc"
  using assms by (induction rc vs rule: first_in_class.induct) (auto split: if_splits)


text \<open>Three values, an int, the address of a char and a pointer, fill the integer registers rax, rcx and rdx.\<close>

definition example_regs :: regstate where
  "example_regs =
     \<lparr>vstack = [\<lparr>sv_t = 3, sv_r = 0, sv_c = 0, sv_sym = 0, sv_r2 = 0x30\<rparr>, \<lparr>sv_t = 1, sv_r = 0x101, sv_c = 0, sv_sym = 0, sv_r2 = 0x30\<rparr>,
                \<lparr>sv_t = 5, sv_r = 2, sv_c = 0, sv_sym = 0, sv_r2 = 0x30\<rparr>],
      frame = - 16, temps = [], gen = demo_gen\<rparr>"

lemma example_regs_ok: "stack_ok example_regs" "nocode_wanted (gen example_regs) = 0" "frame example_regs = - 16" "in_class 0 1"
  by code_simp+


lemma exec_saves_append: "exec_saves (es @ fs) m = exec_saves fs (exec_saves es m)"
  by (induction es arbitrary: m) auto

lemma emit_saves_append: "emit_saves (es @ fs) s = ebind (emit_saves es s) (emit_saves fs)"
proof (induction es arbitrary: s)
  case (Cons e es)
  then show ?case by (cases "emit_save (fst e) (fst (snd e)) (snd (snd e)) s") auto
qed simp

lemma save_regs_loop_ok:
  assumes "stack_ok st" "nocode_wanted (gen st) = 0" "k \<le> L" "L \<le> length (vstack st)" "- (2 ^ 61) < frame st - 32 * int (L - k)"
    and "\<forall>i<k. is_void (vstack st ! i) \<or> 0x30 \<le> val_reg (vstack st ! i)"
  shows "\<exists>st' es. save_regs_loop [k..<L] st = Inr st' \<and> stack_ok st' \<and> emit_saves es (gen st) = Inr (gen st') \<and>
    (\<forall>i<L. is_void (vstack st' ! i) \<or> 0x30 \<le> val_reg (vstack st' ! i)) \<and>
    (\<forall>m. map (entry_meaning (exec_saves es m)) (vstack st') = map (entry_meaning m) (vstack st))"
  using assms
proof (induction "L - k" arbitrary: k st)
  case 0
  then show ?case by (intro exI [of _ st] exI [of _ "[]"]) auto
next
  case (Suc n)
  then have k: "k < L" "n = L - Suc k" "Suc k \<le> L" by auto
  let ?r = "val_reg (vstack st ! k)"
  obtain st1 es1 where s: "save_reg ?r st = Inr st1" "stack_ok st1" "frame st - 32 \<le> frame st1"
    "length (vstack st1) = length (vstack st)" "emit_saves es1 (gen st) = Inr (gen st1)"
    "\<forall>i<length (vstack st). is_void (vstack st1 ! i) \<or> val_reg (vstack st1 ! i) \<noteq> ?r \<or> 0x30 \<le> ?r"
    "\<forall>i<length (vstack st). val_reg (vstack st1 ! i) < 0x30 \<longrightarrow> vstack st1 ! i = vstack st ! i"
    "\<forall>m. map (entry_meaning (exec_saves es1 m)) (vstack st1) = map (entry_meaning m) (vstack st)"
  proof (cases "?r < 0x30")
    case True
    show ?thesis using save_reg_ok [OF Suc.prems(1,2) True] Suc.prems(5) that by auto
  next
    case False
    then have "save_reg ?r st = Inr st" by (simp add: save_reg_def save_reg_upstack_def)
    then show ?thesis using that [of st "[]"] False Suc.prems(1) by auto
  qed
  have "nocode_wanted (gen st1) = 0" using nocode_wanted_saves [OF s(5)] Suc.prems(2) by simp
  moreover have "\<forall>i<Suc k. is_void (vstack st1 ! i) \<or> 0x30 \<le> val_reg (vstack st1 ! i)"
  proof (intro allI impI)
    fix i assume i: "i < Suc k"
    then have il: "i < length (vstack st)" using k(1) Suc.prems(4) by simp
    show "is_void (vstack st1 ! i) \<or> 0x30 \<le> val_reg (vstack st1 ! i)"
    proof (rule ccontr)
      assume n: "\<not> (is_void (vstack st1 ! i) \<or> 0x30 \<le> val_reg (vstack st1 ! i))"
      then have e: "vstack st1 ! i = vstack st ! i" using s(7) il by auto
      then have "i = k" using n i Suc.prems(6) less_SucE by metis
      then show False using n e s(6) il by auto
    qed
  qed
  moreover have "int (L - k) = int (L - Suc k) + 1" using k(1) by simp
  then have "- (2 ^ 61) < frame st1 - 32 * int (L - Suc k)" using Suc.prems(5) s(3) by linarith
  ultimately obtain st2 es2 where t: "save_regs_loop [Suc k..<L] st1 = Inr st2" "stack_ok st2" "emit_saves es2 (gen st1) = Inr (gen st2)"
    "\<forall>i<L. is_void (vstack st2 ! i) \<or> 0x30 \<le> val_reg (vstack st2 ! i)"
    "\<forall>m. map (entry_meaning (exec_saves es2 m)) (vstack st2) = map (entry_meaning m) (vstack st1)"
    using Suc.hyps(1) [OF k(2) s(2) _ k(3)] s(4) Suc.prems(4) by force
  have "save_regs_loop [k..<L] st = Inr st2" using k(1) s(1) t(1) by (simp add: upt_conv_Cons)
  moreover have "emit_saves (es1 @ es2) (gen st) = Inr (gen st2)" by (simp add: emit_saves_append s(5) t(3))
  moreover have "\<forall>m. map (entry_meaning (exec_saves (es1 @ es2) m)) (vstack st2) = map (entry_meaning m) (vstack st)"
    using s(8) t(5) by (simp add: exec_saves_append)
  ultimately show ?case using t(2,4) by blast
qed



end
