(* ===== verification/CondIncl.thy ===== *)
theory CondIncl
  imports Prelude
begin

text \<open>
  Conditional inclusion (preprocess_skip, lines 13518-13594, the conditional directives of preprocess,
  14250-14353, and the ends of files in next_nomacro, 14932-14951). A file is a list of lines; the stack of open
  #if directives has its top first: 0 and 1 for a group not taken and taken, 3 and 2 for the same after #else. What
  other lines do, the value of a constant expression and the table of macros belong to the lexer and the macro
  processor: they are arguments of the model. The flags of tok_flags that matter are TOK_FLAG_BOF (no token of
  the file was read yet) and TOK_FLAG_ENDIF (the last token read was the #endif of an include guard).
\<close>

datatype ('l, 'c) pline =
    Blank
  | Ordinary 'l
  | If 'c
  | Ifdef u32
  | Ifndef u32
  | Elif 'c
  | Else
  | Endif

record ('l, 'c, 'm) pp_world =
  effect :: "'l \<Rightarrow> 'm \<Rightarrow> string + 'm"
  expr_value :: "'c \<Rightarrow> 'm \<Rightarrow> string + bool"
  macro_defined :: "u32 \<Rightarrow> 'm \<Rightarrow> bool"

record 'm pp_state =
  ifdefs :: "u32 list"
  file_ifdefs :: nat
  ifndef_macro :: u32
  ifndef_macro_saved :: u32
  at_bof :: bool
  at_endif :: bool
  macros :: 'm

text \<open>
  preprocess_skip: a counts the nested groups. The result starts with the directive that ends the skipped group;
  at the end of the file #endif is expected.
\<close>

fun preprocess_skip :: "nat \<Rightarrow> ('l, 'c) pline list \<Rightarrow> ('l, 'c) pline list option" where
  "preprocess_skip a [] = None"
| "preprocess_skip a (Else # ls) = (if a = 0 then Some (Else # ls) else preprocess_skip a ls)"
| "preprocess_skip a (Elif c # ls) = (if a = 0 then Some (Elif c # ls) else preprocess_skip a ls)"
| "preprocess_skip a (Endif # ls) = (if a = 0 then Some (Endif # ls) else preprocess_skip (a - 1) ls)"
| "preprocess_skip a (If c # ls) = preprocess_skip (a + 1) ls"
| "preprocess_skip a (Ifdef v # ls) = preprocess_skip (a + 1) ls"
| "preprocess_skip a (Ifndef v # ls) = preprocess_skip (a + 1) ls"
| "preprocess_skip a (Blank # ls) = preprocess_skip a ls"
| "preprocess_skip a (Ordinary x # ls) = preprocess_skip a ls"

lemma preprocess_skip_shorter: "preprocess_skip a ls = Some (l # ls') \<Longrightarrow> length ls' < length ls"
  by (induction a ls rule: preprocess_skip.induct) (auto split: if_splits)

lemma preprocess_skip_Some: "preprocess_skip a ls = Some ls' \<Longrightarrow> \<exists>l rest. ls' = l # rest \<and> (l = Else \<or> l = Endif \<or> (\<exists>c. l = Elif c))"
  by (induction a ls rule: preprocess_skip.induct) (auto split: if_splits)

text \<open>
  The directive l, with the lines after it: the new state, the value c that test_skip looks at, or None where
  the directive is done. is_bof holds for a directive at the beginning of the file.
\<close>

definition push_ifdef :: "u32 \<Rightarrow> 'm pp_state \<Rightarrow> string + (u32 option \<times> 'm pp_state)" where
  "push_ifdef c st =
     (if 64 \<le> length (ifdefs st) then Inl ''memory full (ifdef)''
      else Inr (Some c, st\<lparr>ifdefs := c # ifdefs st\<rparr>))"

definition do_ifdef :: "('l, 'c, 'm) pp_world \<Rightarrow> bool \<Rightarrow> u32 \<Rightarrow> u32 \<Rightarrow> 'm pp_state \<Rightarrow> string + (u32 option \<times> 'm pp_state)" where
  "do_ifdef W is_bof c v st =
     (if v < 256 then Inl ''invalid argument for #ifdef or #ifndef''
      else
        let st = (if is_bof \<and> c \<noteq> 0 then st\<lparr>ifndef_macro := v\<rparr> else st)
        in push_ifdef (if macro_defined W v (macros st) then c XOR 1 else c) st)"

definition test_else :: "u32 \<Rightarrow> 'm pp_state \<Rightarrow> string + (u32 option \<times> 'm pp_state)" where
  "test_else c st = Inr (Some c, if length (ifdefs st) = file_ifdefs st + 1 then st\<lparr>ifndef_macro := 0\<rparr> else st)"

definition directive :: "('l, 'c, 'm) pp_world \<Rightarrow> bool \<Rightarrow> ('l, 'c) pline \<Rightarrow> 'm pp_state \<Rightarrow> string + (u32 option \<times> 'm pp_state)" where
  "directive W is_bof l st =
     (case l of
        If e \<Rightarrow> ebind (expr_value W e (macros st)) (\<lambda>b. push_ifdef (if b then 1 else 0) st)
      | Ifdef v \<Rightarrow> do_ifdef W is_bof 0 v st
      | Ifndef v \<Rightarrow> do_ifdef W is_bof 1 v st
      | Else \<Rightarrow>
          (case ifdefs st of
             [] \<Rightarrow> Inl ''#else without matching #if''
           | c # cs \<Rightarrow>
               if c AND 2 \<noteq> 0 then Inl ''#else after #else''
               else test_else (c XOR 3) (st\<lparr>ifdefs := (c XOR 3) # cs\<rparr>))
      | Elif e \<Rightarrow>
          (case ifdefs st of
             [] \<Rightarrow> Inl ''#elif without matching #if''
           | c # cs \<Rightarrow>
               if c > 1 then Inl ''#elif after #else''
               else if c = 1 then test_else 0 st
               else ebind (expr_value W e (macros st)) (\<lambda>b.
                 let c = if b then 1 else 0 in test_else c (st\<lparr>ifdefs := c # cs\<rparr>)))
      | Endif \<Rightarrow>
          if length (ifdefs st) \<le> file_ifdefs st then Inl ''#endif without matching #if''
          else
            let st = st\<lparr>ifdefs := tl (ifdefs st)\<rparr>
            in Inr (None,
                 if ifndef_macro st \<noteq> 0 \<and> length (ifdefs st) = file_ifdefs st
                 then st\<lparr>ifndef_macro_saved := ifndef_macro st, ifndef_macro := 0, at_endif := True\<rparr> else st)
      | _ \<Rightarrow> Inr (None, st))"

text \<open>preprocess on a conditional directive; the directive that ends a skipped group is taken next (redo).\<close>

function preprocess :: "('l, 'c, 'm) pp_world \<Rightarrow> bool \<Rightarrow> ('l, 'c) pline \<Rightarrow> ('l, 'c) pline list \<Rightarrow> 'm pp_state \<Rightarrow> string + ('m pp_state \<times> ('l, 'c) pline list)" where
  "preprocess W is_bof l ls st =
     (case directive W is_bof l st of
        Inl e \<Rightarrow> Inl e
      | Inr (None, st) \<Rightarrow> Inr (st, ls)
      | Inr (Some c, st) \<Rightarrow>
          if c AND 1 \<noteq> 0 then Inr (st, ls)
          else (case preprocess_skip 0 ls of
                  Some (l' # ls') \<Rightarrow> preprocess W False l' ls' st
                | _ \<Rightarrow> Inl ''#endif expected''))"
  by pat_completeness auto
termination
  by (relation "measure (\<lambda>(W, b, l, ls, st). length ls)") (auto dest: preprocess_skip_shorter)

declare preprocess.simps [simp del]

lemma preprocess_shorter: "preprocess W b l ls st = Inr (st', ls') \<Longrightarrow> length ls' \<le> length ls"
proof (induction "length ls" arbitrary: b l ls st rule: less_induct)
  case less
  obtain c st1 where d: "directive W b l st = Inr (c, st1)"
    using less.prems by (subst (asm) preprocess.simps) (auto split: sum.splits)
  show ?case
  proof (cases "c = None \<or> the c AND 1 \<noteq> 0")
    case True
    then show ?thesis using less.prems d by (subst (asm) preprocess.simps) (auto split: option.splits)
  next
    case False
    then obtain x where x: "c = Some x" "x AND 1 = 0" by auto
    obtain l1 ls1 where k: "preprocess_skip 0 ls = Some (l1 # ls1)" "preprocess W False l1 ls1 st1 = Inr (st', ls')"
      using less.prems d x by (subst (asm) preprocess.simps) (auto split: option.splits list.splits)
    note sh = preprocess_skip_shorter [OF k(1)]
    show ?thesis using less.hyps [OF sh k(2)] sh by simp
  qed
qed

text \<open>
  The lines of a file, as next_nomacro meets them: the tokens of a line or of a directive clear the flags. At the
  end of the file the open directives must be those the file started with.
\<close>

function pp_file :: "('l, 'c, 'm) pp_world \<Rightarrow> ('l, 'c) pline list \<Rightarrow> 'm pp_state \<Rightarrow> string + 'm pp_state" where
  "pp_file W [] st = (if length (ifdefs st) \<noteq> file_ifdefs st then Inl ''missing #endif'' else Inr st)"
| "pp_file W (l # ls) st =
     (case l of
        Blank \<Rightarrow> pp_file W ls st
      | Ordinary x \<Rightarrow> ebind (effect W x (macros st)) (\<lambda>m. pp_file W ls (st\<lparr>macros := m, at_bof := False, at_endif := False\<rparr>))
      | _ \<Rightarrow>
          (case preprocess W (at_bof st) l ls (st\<lparr>at_bof := False, at_endif := False\<rparr>) of
             Inl e \<Rightarrow> Inl e
           | Inr (st, ls) \<Rightarrow> pp_file W ls st))"
  by pat_completeness auto
termination
  by (relation "measure (\<lambda>(W, ls, st). length ls)") (auto dest!: preprocess_shorter)

declare pp_file.simps(2) [simp del]

section \<open>Groups\<close>

text \<open>
  What the C standard says: a file is a sequence of lines and groups; the first group whose condition holds is
  processed, the conditions after it are not evaluated, and groups that are not taken have no effect.
\<close>

datatype 'c opener = OIf 'c | OIfdef u32 | OIfndef u32

datatype ('l, 'c) item =
    Plain 'l
  | Empty
  | Group "'c opener" "('l, 'c) items" "('l, 'c) others"
and ('l, 'c) items = Nothing_more | Item "('l, 'c) item" "('l, 'c) items"
and ('l, 'c) others = No_else | Or_else "('l, 'c) items" | Or_elif 'c "('l, 'c) items" "('l, 'c) others"

definition open_line :: "'c opener \<Rightarrow> ('l, 'c) pline" where
  "open_line opn = (case opn of OIf e \<Rightarrow> If e | OIfdef v \<Rightarrow> Ifdef v | OIfndef v \<Rightarrow> Ifndef v)"

primrec lines_of :: "('l, 'c) item \<Rightarrow> ('l, 'c) pline list"
  and lines_of_items :: "('l, 'c) items \<Rightarrow> ('l, 'c) pline list"
  and lines_of_others :: "('l, 'c) others \<Rightarrow> ('l, 'c) pline list" where
  "lines_of (Plain x) = [Ordinary x]"
| "lines_of Empty = [Blank]"
| "lines_of (Group opn its oth) = open_line opn # lines_of_items its @ lines_of_others oth @ [Endif]"
| "lines_of_items Nothing_more = []"
| "lines_of_items (Item i its) = lines_of i @ lines_of_items its"
| "lines_of_others No_else = []"
| "lines_of_others (Or_else its) = Else # lines_of_items its"
| "lines_of_others (Or_elif e its oth) = Elif e # lines_of_items its @ lines_of_others oth"

definition opens :: "('l, 'c, 'm) pp_world \<Rightarrow> 'c opener \<Rightarrow> 'm \<Rightarrow> string + bool" where
  "opens W opn m =
     (case opn of
        OIf e \<Rightarrow> expr_value W e m
      | OIfdef v \<Rightarrow> if v < 256 then Inl ''invalid argument for #ifdef or #ifndef'' else Inr (macro_defined W v m)
      | OIfndef v \<Rightarrow> if v < 256 then Inl ''invalid argument for #ifdef or #ifndef'' else Inr (\<not> macro_defined W v m))"

text \<open>The effect of items at nesting depth d (64 open groups are the limit).\<close>

primrec item_effect :: "('l, 'c) item \<Rightarrow> ('l, 'c, 'm) pp_world \<Rightarrow> nat \<Rightarrow> 'm \<Rightarrow> string + 'm"
  and items_effect :: "('l, 'c) items \<Rightarrow> ('l, 'c, 'm) pp_world \<Rightarrow> nat \<Rightarrow> 'm \<Rightarrow> string + 'm"
  and others_effect :: "('l, 'c) others \<Rightarrow> ('l, 'c, 'm) pp_world \<Rightarrow> nat \<Rightarrow> 'm \<Rightarrow> string + 'm" where
  "item_effect (Plain x) W d m = effect W x m"
| "item_effect Empty W d m = Inr m"
| "item_effect (Group opn its oth) W d m =
     ebind (opens W opn m) (\<lambda>b.
       if 64 \<le> d then Inl ''memory full (ifdef)''
       else if b then items_effect its W (d + 1) m else others_effect oth W (d + 1) m)"
| "items_effect Nothing_more W d m = Inr m"
| "items_effect (Item i its) W d m = ebind (item_effect i W d m) (items_effect its W d)"
| "others_effect No_else W d m = Inr m"
| "others_effect (Or_else its) W d m = items_effect its W d m"
| "others_effect (Or_elif e its oth) W d m =
     ebind (expr_value W e m) (\<lambda>b. if b then items_effect its W d m else others_effect oth W d m)"

lemma skip_nested:
  "preprocess_skip a (lines_of i @ ls) = preprocess_skip a ls"
  "preprocess_skip a (lines_of_items its @ ls) = preprocess_skip a ls"
  "preprocess_skip (Suc a) (lines_of_others oth @ ls) = preprocess_skip (Suc a) ls"
proof (induction i and its and oth arbitrary: a ls and a ls and a ls)
  case (Group opn its oth)
  then show ?case by (cases opn) (simp_all add: open_line_def)
qed simp_all

section \<open>Groups are processed as they should\<close>

definition cont :: "('l, 'c, 'm) pp_world \<Rightarrow> string + ('m pp_state \<times> ('l, 'c) pline list) \<Rightarrow> string + 'm pp_state" where
  "cont W r = (case r of Inl e \<Rightarrow> Inl e | Inr (st, ls) \<Rightarrow> pp_file W ls st)"

lemma cont_simps [simp]: "cont W (Inl e) = Inl e" "cont W (Inr (st, ls)) = pp_file W ls st"
  by (simp_all add: cont_def)

definition clear_flags :: "'m pp_state \<Rightarrow> 'm pp_state" where
  "clear_flags st = st\<lparr>at_bof := False, at_endif := False\<rparr>"

lemma clear_flags_simps [simp]:
  "ifdefs (clear_flags st) = ifdefs st" "file_ifdefs (clear_flags st) = file_ifdefs st" "macros (clear_flags st) = macros st"
  "ifndef_macro (clear_flags st) = ifndef_macro st" "at_endif (clear_flags st) = False" "at_bof (clear_flags st) = False"
  by (simp_all add: clear_flags_def)

definition is_directive :: "('l, 'c) pline \<Rightarrow> bool" where
  "is_directive l \<longleftrightarrow> (case l of Blank \<Rightarrow> False | Ordinary x \<Rightarrow> False | _ \<Rightarrow> True)"

lemma pp_file_simps [simp]:
  "pp_file W (Blank # ls) st = pp_file W ls st"
  "pp_file W (Ordinary x # ls) st = ebind (effect W x (macros st)) (\<lambda>m. pp_file W ls (clear_flags (st\<lparr>macros := m\<rparr>)))"
  by (simp_all add: pp_file.simps(2) clear_flags_def)

lemma pp_file_directive:
  "is_directive l \<Longrightarrow> pp_file W (l # ls) st = cont W (preprocess W (at_bof st) l ls (clear_flags st))"
  by (cases l) (simp_all add: pp_file.simps(2) is_directive_def cont_def clear_flags_def)

text \<open>The outcome res of a run that is to end with the lines ls left, the open directives cs and the effect r.\<close>

definition ends :: "('l, 'c, 'm) pp_world \<Rightarrow> string + 'm pp_state \<Rightarrow> ('l, 'c) pline list \<Rightarrow> u32 list \<Rightarrow> nat \<Rightarrow> string + 'm \<Rightarrow> bool" where
  "ends W res ls cs k r \<longleftrightarrow>
     (case r of
        Inl e \<Rightarrow> res = Inl e
      | Inr m \<Rightarrow> \<exists>st'. res = pp_file W ls st' \<and> ifdefs st' = cs \<and> file_ifdefs st' = k \<and> macros st' = m)"

lemma endif_pops:
  assumes "ifdefs st = c # cs" "file_ifdefs st \<le> length cs"
  shows "\<exists>st'. preprocess W b Endif ls st = Inr (st', ls) \<and> ifdefs st' = cs \<and> file_ifdefs st' = file_ifdefs st \<and> macros st' = macros st"
  using assms by (subst preprocess.simps) (auto simp: directive_def Let_def)

lemma skip_chain: "preprocess_skip 0 (lines_of_others oth @ Endif # ls) = Some (lines_of_others oth @ Endif # ls)"
  by (cases oth) simp_all

text \<open>What follows a group, taken from its first directive on.\<close>

definition redo :: "('l, 'c, 'm) pp_world \<Rightarrow> bool \<Rightarrow> ('l, 'c) pline list \<Rightarrow> 'm pp_state \<Rightarrow> string + 'm pp_state" where
  "redo W b ls st = (case ls of [] \<Rightarrow> Inl ''#endif expected'' | l # ls \<Rightarrow> cont W (preprocess W b l ls st))"

lemma pp_file_others:
  "pp_file W (lines_of_others oth @ Endif # ls) st = redo W (at_bof st) (lines_of_others oth @ Endif # ls) (clear_flags st)"
  by (cases oth) (simp_all add: pp_file_directive is_directive_def redo_def)

text \<open>A directive whose group is not taken, before the lines its, oth and #endif.\<close>

lemma not_taken:
  assumes "directive W b l st = Inr (Some c, st1)" "c AND 1 = 0"
  shows "cont W (preprocess W b l (lines_of_items its @ lines_of_others oth @ Endif # ls) st) =
    redo W False (lines_of_others oth @ Endif # ls) st1"
proof -
  obtain x xs where x: "lines_of_others oth @ Endif # ls = x # xs" by (cases "lines_of_others oth") auto
  then have "preprocess_skip 0 (lines_of_items its @ lines_of_others oth @ Endif # ls) = Some (x # xs)"
    using skip_chain [of oth ls] skip_nested(2) by metis
  then show ?thesis unfolding redo_def x by (subst preprocess.simps) (simp add: assms x)
qed

lemma taken:
  assumes "directive W b l st = Inr (Some c, st1)" "c AND 1 \<noteq> 0"
  shows "cont W (preprocess W b l ls st) = pp_file W ls st1"
  by (subst preprocess.simps) (simp add: assms)

lemma after_taken:
  assumes "ifdefs st = 1 # cs" "file_ifdefs st \<le> length cs"
  shows "\<exists>st'. redo W b (lines_of_others oth @ Endif # ls) st = pp_file W ls st' \<and> ifdefs st' = cs \<and>
    file_ifdefs st' = file_ifdefs st \<and> macros st' = macros st"
  using assms
proof (induction oth arbitrary: b st rule: others.induct [where ?P1.0 = "\<lambda>_. True" and ?P2.0 = "\<lambda>_. True"])
  case No_else
  then show ?case using endif_pops [of st 1 cs W b ls] by (auto simp: redo_def)
next
  case (Or_else its)
  define st1 where "st1 = (if length (ifdefs st) = file_ifdefs st + 1 then st\<lparr>ifdefs := 2 # cs, ifndef_macro := 0\<rparr> else st\<lparr>ifdefs := 2 # cs\<rparr>)"
  have d: "directive W b Else st = Inr (Some 2, st1)"
    using Or_else.prems by (simp add: directive_def test_else_def st1_def)
  have s: "ifdefs st1 = 2 # cs" "file_ifdefs st1 = file_ifdefs st" "macros st1 = macros st" by (simp_all add: st1_def)
  have "redo W b (lines_of_others (Or_else its) @ Endif # ls) st = redo W False (Endif # ls) st1"
    using not_taken [OF d, of its No_else ls] by (simp add: redo_def)
  moreover have "\<exists>st'. redo W False (Endif # ls) st1 = pp_file W ls st' \<and> ifdefs st' = cs \<and> file_ifdefs st' = file_ifdefs st1 \<and> macros st' = macros st1"
    using endif_pops [OF s(1), of W False ls] Or_else.prems(2) s(2) by (auto simp: redo_def)
  ultimately show ?case using s by simp
next
  case (Or_elif e its oth)
  define st1 where "st1 = (if length (ifdefs st) = file_ifdefs st + 1 then st\<lparr>ifndef_macro := 0\<rparr> else st)"
  have d: "directive W b (Elif e) st = Inr (Some 0, st1)"
    using Or_elif.prems by (simp add: directive_def test_else_def st1_def)
  have s: "ifdefs st1 = 1 # cs" "file_ifdefs st1 = file_ifdefs st" "macros st1 = macros st"
    using Or_elif.prems by (simp_all add: st1_def)
  have "redo W b (lines_of_others (Or_elif e its oth) @ Endif # ls) st = redo W False (lines_of_others oth @ Endif # ls) st1"
    using not_taken [OF d, of its oth ls] by (simp add: redo_def)
  then show ?case using Or_elif.IH [OF s(1), of False] Or_elif.prems(2) s by simp
qed auto

lemma open_directive:
  assumes "length (ifdefs st) < 64" "opens W opn (macros st) = Inr b"
  shows "\<exists>st1. directive W f (open_line opn) st = Inr (Some (if b then 1 else 0), st1) \<and>
    ifdefs st1 = (if b then 1 else 0) # ifdefs st \<and> file_ifdefs st1 = file_ifdefs st \<and> macros st1 = macros st"
  using assms by (cases opn) (auto simp: directive_def open_line_def opens_def do_ifdef_def push_ifdef_def Let_def split: if_splits)

lemma open_directive_error:
  assumes "ebind (opens W opn (macros st)) (\<lambda>b. if 64 \<le> length (ifdefs st) then Inl ''memory full (ifdef)'' else Inr b) = Inl e"
  shows "directive W f (open_line opn) st = Inl e"
  using assms
  by (cases opn) (auto simp: directive_def open_line_def opens_def do_ifdef_def push_ifdef_def Let_def ebind_Inl_iff split: if_splits)

lemma ends_taken:
  assumes "ends W (pp_file W (lines_of_items its @ lines_of_others oth @ Endif # ls) st) (lines_of_others oth @ Endif # ls) (1 # cs) k r"
    and "k \<le> length cs"
  shows "ends W (pp_file W (lines_of_items its @ lines_of_others oth @ Endif # ls) st) ls cs k r"
proof (cases r)
  case (Inr m)
  then obtain st' where s: "pp_file W (lines_of_items its @ lines_of_others oth @ Endif # ls) st = pp_file W (lines_of_others oth @ Endif # ls) st'"
    "ifdefs st' = 1 # cs" "file_ifdefs st' = k" "macros st' = m" using assms(1) by (auto simp: ends_def)
  have "ifdefs (clear_flags st') = 1 # cs" "file_ifdefs (clear_flags st') \<le> length cs" using s assms(2) by simp_all
  from after_taken [OF this, of W "at_bof st'" oth ls] show ?thesis using Inr s by (auto simp: ends_def pp_file_others)
qed (use assms in \<open>auto simp: ends_def\<close>)

lemma groups_run:
  "\<And>st ls. file_ifdefs st \<le> length (ifdefs st) \<Longrightarrow>
     ends W (pp_file W (lines_of i @ ls) st) ls (ifdefs st) (file_ifdefs st) (item_effect i W (length (ifdefs st)) (macros st))"
  "\<And>st ls. file_ifdefs st \<le> length (ifdefs st) \<Longrightarrow>
     ends W (pp_file W (lines_of_items its @ ls) st) ls (ifdefs st) (file_ifdefs st) (items_effect its W (length (ifdefs st)) (macros st))"
  "\<And>st ls b cs. ifdefs st = 0 # cs \<Longrightarrow> file_ifdefs st \<le> length cs \<Longrightarrow>
     ends W (redo W b (lines_of_others oth @ Endif # ls) st) ls cs (file_ifdefs st) (others_effect oth W (length cs + 1) (macros st))"
proof (induction i and its and oth)
  case (Plain x)
  show ?case
  proof (cases "effect W x (macros st)")
    case (Inr m)
    then show ?thesis by (auto simp: ends_def intro!: exI [of _ "clear_flags (st\<lparr>macros := m\<rparr>)"])
  qed (simp add: ends_def)
next
  case Empty
  then show ?case by (auto simp: ends_def)
next
  case (Group opn its oth)
  let ?st = "clear_flags st"
  have run: "pp_file W (lines_of (Group opn its oth) @ ls) st =
      cont W (preprocess W (at_bof st) (open_line opn) (lines_of_items its @ lines_of_others oth @ Endif # ls) ?st)"
    by (cases opn) (simp_all add: open_line_def pp_file_directive is_directive_def)
  show ?case
  proof (cases "ebind (opens W opn (macros st)) (\<lambda>b. if 64 \<le> length (ifdefs st) then Inl ''memory full (ifdef)'' else Inr b)")
    case (Inl e)
    then have "directive W (at_bof st) (open_line opn) ?st = Inl e" by (intro open_directive_error) simp
    then have "pp_file W (lines_of (Group opn its oth) @ ls) st = Inl e" unfolding run by (subst preprocess.simps) simp
    moreover have "item_effect (Group opn its oth) W (length (ifdefs st)) (macros st) = Inl e"
      using Inl by (auto simp: ebind_Inl_iff split: if_splits)
    ultimately show ?thesis by (simp add: ends_def)
  next
    case (Inr b)
    then have b: "opens W opn (macros st) = Inr b" "length (ifdefs st) < 64" by (auto simp: ebind_Inr_iff split: if_splits)
    obtain st1 where d: "directive W (at_bof st) (open_line opn) ?st = Inr (Some (if b then 1 else 0), st1)"
      "ifdefs st1 = (if b then 1 else 0) # ifdefs st" "file_ifdefs st1 = file_ifdefs st" "macros st1 = macros st"
      using open_directive [of ?st W opn b "at_bof st"] b by auto
    show ?thesis
    proof (cases b)
      case True
      have "pp_file W (lines_of (Group opn its oth) @ ls) st = pp_file W (lines_of_items its @ lines_of_others oth @ Endif # ls) st1"
        unfolding run using d(1) True by (intro taken) auto
      moreover have "ends W (pp_file W (lines_of_items its @ lines_of_others oth @ Endif # ls) st1) ls (ifdefs st) (file_ifdefs st)
          (items_effect its W (length (ifdefs st) + 1) (macros st))"
        using Group.IH(1) [of st1 "lines_of_others oth @ Endif # ls"] d True Group.prems by (intro ends_taken) auto
      ultimately show ?thesis using b True by simp
    next
      case False
      have "pp_file W (lines_of (Group opn its oth) @ ls) st = redo W False (lines_of_others oth @ Endif # ls) st1"
        unfolding run using d(1) False by (intro not_taken) auto
      then show ?thesis using Group.IH(2) [of st1 "ifdefs st" False ls] d b False Group.prems by simp
    qed
  qed
next
  case Nothing_more
  then show ?case by (auto simp: ends_def)
next
  case (Item i its)
  show ?case
  proof (cases "item_effect i W (length (ifdefs st)) (macros st)")
    case (Inl e)
    then show ?thesis using Item.IH(1) [OF Item.prems, of "lines_of_items its @ ls"] by (simp add: ends_def)
  next
    case (Inr m)
    then obtain st' where s: "pp_file W (lines_of i @ lines_of_items its @ ls) st = pp_file W (lines_of_items its @ ls) st'"
      "ifdefs st' = ifdefs st" "file_ifdefs st' = file_ifdefs st" "macros st' = m"
      using Item.IH(1) [OF Item.prems, of "lines_of_items its @ ls"] by (auto simp: ends_def)
    then show ?thesis using Item.IH(2) [of st' ls] Item.prems Inr by simp
  qed
next
  case No_else
  then show ?case using endif_pops [of st 0 cs W b ls] by (auto simp: ends_def redo_def)
next
  case (Or_else its)
  define st1 where "st1 = (if length (ifdefs st) = file_ifdefs st + 1 then st\<lparr>ifdefs := 3 # cs, ifndef_macro := 0\<rparr> else st\<lparr>ifdefs := 3 # cs\<rparr>)"
  have d: "directive W b Else st = Inr (Some 3, st1)"
    using Or_else.prems by (simp add: directive_def test_else_def st1_def)
  have s: "ifdefs st1 = 3 # cs" "file_ifdefs st1 = file_ifdefs st" "macros st1 = macros st" by (simp_all add: st1_def)
  have run: "redo W b (lines_of_others (Or_else its) @ Endif # ls) st = pp_file W (lines_of_items its @ Endif # ls) st1"
    using taken [OF d] by (simp add: redo_def)
  show ?case
  proof (cases "items_effect its W (length cs + 1) (macros st)")
    case (Inl e)
    then show ?thesis using Or_else.IH [of st1 "Endif # ls"] s Or_else.prems(2) unfolding run by (simp add: ends_def)
  next
    case (Inr m)
    then obtain st' where t: "pp_file W (lines_of_items its @ Endif # ls) st1 = pp_file W (Endif # ls) st'"
      "ifdefs st' = 3 # cs" "file_ifdefs st' = file_ifdefs st" "macros st' = m"
      using Or_else.IH [of st1 "Endif # ls"] s Or_else.prems(2) by (auto simp: ends_def)
    have c: "ifdefs (clear_flags st') = 3 # cs" "file_ifdefs (clear_flags st') \<le> length cs" using t Or_else.prems(2) by simp_all
    show ?thesis using endif_pops [OF c, of W "at_bof st'" ls] t Inr unfolding run
      by (auto simp: ends_def pp_file_directive is_directive_def)
  qed
next
  case (Or_elif e its oth)
  show ?case
  proof (cases "expr_value W e (macros st)")
    case (Inl x)
    then have "directive W b (Elif e) st = Inl x" using Or_elif.prems by (simp add: directive_def)
    then have "redo W b (lines_of_others (Or_elif e its oth) @ Endif # ls) st = Inl x"
      by (simp add: redo_def, subst preprocess.simps) simp
    then show ?thesis using Inl by (simp add: ends_def)
  next
    case (Inr t)
    let ?c = "if t then 1 else 0 :: u32"
    define st1 where "st1 = (if length (ifdefs st) = file_ifdefs st + 1 then st\<lparr>ifdefs := ?c # cs, ifndef_macro := 0\<rparr> else st\<lparr>ifdefs := ?c # cs\<rparr>)"
    have d: "directive W b (Elif e) st = Inr (Some ?c, st1)"
      using Or_elif.prems Inr by (simp add: directive_def test_else_def st1_def)
    have s: "ifdefs st1 = ?c # cs" "file_ifdefs st1 = file_ifdefs st" "macros st1 = macros st" by (simp_all add: st1_def)
    show ?thesis
    proof (cases t)
      case True
      have "redo W b (lines_of_others (Or_elif e its oth) @ Endif # ls) st = pp_file W (lines_of_items its @ lines_of_others oth @ Endif # ls) st1"
        using taken [OF d] True by (simp add: redo_def)
      moreover have "ends W (pp_file W (lines_of_items its @ lines_of_others oth @ Endif # ls) st1) ls cs (file_ifdefs st)
          (items_effect its W (length cs + 1) (macros st))"
        using Or_elif.IH(1) [of st1 "lines_of_others oth @ Endif # ls"] s True Or_elif.prems(2) by (intro ends_taken) auto
      ultimately show ?thesis using Inr True by simp
    next
      case False
      have "redo W b (lines_of_others (Or_elif e its oth) @ Endif # ls) st = redo W False (lines_of_others oth @ Endif # ls) st1"
        using not_taken [OF d, of its oth ls] False by (simp add: redo_def)
      then show ?thesis using Or_elif.IH(2) [of st1 cs False ls] s Inr False Or_elif.prems(2) by simp
    qed
  qed
qed


text \<open>
  C4: a file made of lines and well-nested groups is processed as the C standard says: of every group exactly the
  part whose condition holds first has an effect, the conditions after it are not evaluated, the stack of
  directives is as before, and the first error (of a line, a condition, an argument that is not a name, or more
  than 64 open groups) is the error reported.
\<close>

theorem conditional_groups:
  assumes "length (ifdefs st) = file_ifdefs st"
  shows "case items_effect its W (length (ifdefs st)) (macros st) of
      Inl e \<Rightarrow> pp_file W (lines_of_items its) st = Inl e
    | Inr m \<Rightarrow> \<exists>st'. pp_file W (lines_of_items its) st = Inr st' \<and> macros st' = m \<and> ifdefs st' = ifdefs st"
  using groups_run(2) [of st W its "[]"] assms by (auto simp: ends_def split: sum.splits)

text \<open>A group with #elif and #else in which the second condition holds; lines record themselves.\<close>

definition log_world :: "(nat, nat, nat list) pp_world" where
  "log_world = \<lparr>effect = (\<lambda>x m. Inr (x # m)), expr_value = (\<lambda>e m. Inr (e \<in> set m)), macro_defined = (\<lambda>v m. unat v \<in> set m)\<rparr>"

definition start_state :: "nat list \<Rightarrow> nat list pp_state" where
  "start_state m = \<lparr>ifdefs = [1], file_ifdefs = 1, ifndef_macro = 0, ifndef_macro_saved = 0, at_bof = True, at_endif = False, macros = m\<rparr>"

definition sample_items :: "(nat, nat) items" where
  "sample_items =
     Item (Group (OIf 1) (Item (Plain 10) Nothing_more)
       (Or_elif 2 (Item (Plain 20) (Item (Group (OIfndef 300) (Item (Plain 300) Nothing_more) No_else) Nothing_more))
         (Or_else (Item (Plain 30) Nothing_more))))
     (Item (Plain 40) Nothing_more)"

lemma conditional_groups_witness:
  "\<exists>st'. pp_file log_world (lines_of_items sample_items) (start_state [2]) = Inr st' \<and>
     macros st' = [40, 300, 20, 2] \<and> ifdefs st' = [1]"
proof -
  have e: "items_effect sample_items log_world (length (ifdefs (start_state [2]))) (macros (start_state [2])) = Inr [40, 300, 20, 2]"
    by code_simp
  have l: "length (ifdefs (start_state [2])) = file_ifdefs (start_state [2])" by code_simp
  show ?thesis using conditional_groups [OF l, where its = sample_items and W = log_world, unfolded e] by (simp add: start_state_def)
qed

section \<open>Include guards\<close>

text \<open>
  When a file ends with at_endif set, its name is stored with ifndef_macro_saved (next_nomacro), and parse_include
  does not open the file again while that macro is defined. That is sound: everything in the file is then skipped.
\<close>

definition no_guard :: "'m pp_state \<Rightarrow> bool" where
  "no_guard st \<longleftrightarrow> ifndef_macro st = 0 \<and> \<not> at_bof st \<and> \<not> at_endif st"

lemma directive_no_guard:
  assumes "directive W b l st = Inr (c, st1)" "no_guard st" "\<not> b \<or> (\<forall>v. l \<noteq> Ifndef v)"
  shows "no_guard st1"
  using assms
  by (cases l) (auto simp: directive_def no_guard_def do_ifdef_def push_ifdef_def test_else_def Let_def ebind_Inr_iff split: if_splits list.splits)

lemma preprocess_no_guard:
  assumes "preprocess W b l ls st = Inr (st1, ls1)" "no_guard st" "\<not> b \<or> (\<forall>v. l \<noteq> Ifndef v)"
  shows "no_guard st1"
  using assms
proof (induction "length ls" arbitrary: b l ls st rule: less_induct)
  case less
  obtain c st2 where d: "directive W b l st = Inr (c, st2)"
    using less.prems(1) by (subst (asm) preprocess.simps) (auto split: sum.splits)
  note g = directive_no_guard [OF d less.prems(2,3)]
  show ?case
  proof (cases "c = None \<or> the c AND 1 \<noteq> 0")
    case True
    then show ?thesis using less.prems(1) d g by (subst (asm) preprocess.simps) (auto split: option.splits)
  next
    case False
    then obtain x where x: "c = Some x" "x AND 1 = 0" by auto
    obtain l1 ls2 where k: "preprocess_skip 0 ls = Some (l1 # ls2)" "preprocess W False l1 ls2 st2 = Inr (st1, ls1)"
      using less.prems(1) d x by (subst (asm) preprocess.simps) (auto split: option.splits list.splits)
    show ?thesis using less.hyps [OF preprocess_skip_shorter [OF k(1)] k(2) g] by simp
  qed
qed

lemma pp_file_ordinary:
  assumes "pp_file W (l # ls) st = Inr st'" "\<not> is_directive l" "l \<noteq> Blank"
  obtains m where "pp_file W ls (clear_flags (st\<lparr>macros := m\<rparr>)) = Inr st'"
  using assms by (cases l) (auto simp: is_directive_def ebind_Inr_iff)

lemma no_guard_clear: "ifndef_macro st = 0 \<Longrightarrow> no_guard (clear_flags (st\<lparr>macros := m\<rparr>))"
  by (simp add: no_guard_def)

lemma pp_file_no_guard:
  assumes "pp_file W ls st = Inr st'" "no_guard st"
  shows "\<not> at_endif st'"
  using assms
proof (induction "length ls" arbitrary: ls st rule: less_induct)
  case less
  show ?case
  proof (cases ls)
    case Nil
    then show ?thesis using less.prems by (auto simp: no_guard_def split: if_splits)
  next
    case (Cons l ls1)
    show ?thesis
    proof (cases "is_directive l")
      case True
      obtain st1 ls2 where r: "preprocess W (at_bof st) l ls1 (clear_flags st) = Inr (st1, ls2)" "pp_file W ls2 st1 = Inr st'"
        using less.prems(1) True Cons by (auto simp: pp_file_directive cont_def split: sum.splits)
      have "no_guard (clear_flags st)" using less.prems(2) by (simp add: no_guard_def)
      then have "no_guard st1" using preprocess_no_guard [OF r(1)] less.prems(2) by (simp add: no_guard_def)
      then show ?thesis using less.hyps [of ls2 st1] r preprocess_shorter [OF r(1)] Cons by simp
    next
      case False
      show ?thesis
      proof (cases "l = Blank")
        case True
        then show ?thesis using less.hyps [of ls1 st] less.prems Cons by simp
      next
        case ordinary: False
        obtain m where "pp_file W ls1 (clear_flags (st\<lparr>macros := m\<rparr>)) = Inr st'"
          using pp_file_ordinary less.prems(1) Cons False ordinary by metis
        then show ?thesis using less.hyps [of ls1] Cons no_guard_clear less.prems(2) by (auto simp: no_guard_def)
      qed
    qed
  qed
qed

definition in_guard :: "u32 \<Rightarrow> nat \<Rightarrow> 'm pp_state \<Rightarrow> bool" where
  "in_guard v k st \<longleftrightarrow> v \<noteq> 0 \<and> ifndef_macro st = v \<and> \<not> at_bof st \<and> \<not> at_endif st \<and> length (ifdefs st) = file_ifdefs st + 1 + k"

definition guard_ends :: "nat \<Rightarrow> ('l, 'c) pline list \<Rightarrow> bool" where
  "guard_ends k ls \<longleftrightarrow> (\<exists>rest. preprocess_skip k ls = Some (Endif # rest) \<and> set rest \<subseteq> {Blank})"

lemma skip_inner: "preprocess_skip a ls = Some ls1 \<Longrightarrow> preprocess_skip (a + Suc k) ls = preprocess_skip (Suc k) ls1"
  by (induction a ls rule: preprocess_skip.induct) (auto split: if_splits)

lemma skip_again: "preprocess_skip 0 ls = Some ls1 \<Longrightarrow> preprocess_skip 0 ls1 = Some ls1"
  using preprocess_skip_Some by fastforce

lemma blanks_after_guard:
  assumes "pp_file W ls st = Inr st'" "at_endif st'" "ifndef_macro st = 0" "\<not> at_bof st"
  shows "set ls \<subseteq> {Blank} \<and> st' = st"
  using assms
proof (induction ls)
  case (Cons l ls)
  show ?case
  proof (cases "l = Blank")
    case False
    have "\<exists>l2 st2. pp_file W l2 st2 = Inr st' \<and> no_guard st2"
    proof (cases "is_directive l")
      case True
      obtain st1 ls2 where r: "preprocess W (at_bof st) l ls (clear_flags st) = Inr (st1, ls2)" "pp_file W ls2 st1 = Inr st'"
        using Cons.prems(1) True by (auto simp: pp_file_directive cont_def split: sum.splits)
      have "no_guard (clear_flags st)" using Cons.prems(3) by (simp add: no_guard_def)
      then show ?thesis using preprocess_no_guard [OF r(1)] r(2) Cons.prems(4) by auto
    next
      case False
      obtain m where "pp_file W ls (clear_flags (st\<lparr>macros := m\<rparr>)) = Inr st'"
        using pp_file_ordinary [OF Cons.prems(1) False \<open>l \<noteq> Blank\<close>] by blast
      then show ?thesis using no_guard_clear [OF Cons.prems(3)] by blast
    qed
    then show ?thesis using pp_file_no_guard Cons.prems(2) by blast
  qed (use Cons in simp)
qed (auto split: if_splits)

text \<open>A directive of the guarded part: it nests, it ends the guard's group, or it takes the guard back.\<close>

definition is_open :: "('l, 'c) pline \<Rightarrow> bool" where
  "is_open l \<longleftrightarrow> (case l of If c \<Rightarrow> True | Ifdef v \<Rightarrow> True | Ifndef v \<Rightarrow> True | _ \<Rightarrow> False)"

lemma directive_opens:
  assumes "directive W b l st = Inr (c, st1)" "is_open l" "\<not> b \<or> (\<forall>v. l \<noteq> Ifndef v)"
  shows "\<exists>x. c = Some x \<and> st1 = st\<lparr>ifdefs := x # ifdefs st\<rparr>"
  using assms
  by (cases l) (auto simp: directive_def is_open_def do_ifdef_def push_ifdef_def Let_def ebind_Inr_iff split: if_splits)

lemma directive_else:
  assumes "directive W b l st = Inr (c, st1)" "l = Else \<or> (\<exists>e. l = Elif e)"
  shows "\<exists>x y. c = Some x \<and> ifdefs st \<noteq> [] \<and> (let st2 = st\<lparr>ifdefs := y # tl (ifdefs st)\<rparr> in
     st1 = (if length (ifdefs st) = file_ifdefs st + 1 then st2\<lparr>ifndef_macro := 0\<rparr> else st2))"
  using assms
  by (auto simp: directive_def test_else_def Let_def ebind_Inr_iff neq_Nil_conv split: if_splits list.splits)
    (metis list.sel(3) pp_state.surjective pp_state.update_convs(1))+

lemma directive_endif:
  assumes "directive W b Endif st = Inr (c, st1)" "ifndef_macro st \<noteq> 0"
  shows "c = None \<and> file_ifdefs st < length (ifdefs st) \<and> (let st2 = st\<lparr>ifdefs := tl (ifdefs st)\<rparr> in
    st1 = (if length (ifdefs st) = file_ifdefs st + 1
      then st2\<lparr>ifndef_macro_saved := ifndef_macro st, ifndef_macro := 0, at_endif := True\<rparr> else st2))"
  using assms by (auto simp: directive_def Let_def split: if_splits)

lemma is_directive_cases:
  assumes "is_directive l"
  obtains (nested) "is_open l" | (alternative) "l = Else \<or> (\<exists>e. l = Elif e)" | (closing) "l = Endif"
  using assms by (cases l) (auto simp: is_directive_def is_open_def)

definition guard_done :: "u32 \<Rightarrow> 'm pp_state \<Rightarrow> nat \<Rightarrow> ('l, 'c) pline list \<Rightarrow> bool" where
  "guard_done v st' k ls \<longleftrightarrow> ifndef_macro_saved st' = v \<and> guard_ends k ls"

lemma guard_done_skip:
  "preprocess_skip k ls = preprocess_skip k' ls' \<Longrightarrow> guard_done v st' k' ls' \<Longrightarrow> guard_done v st' k ls"
  by (simp add: guard_done_def guard_ends_def)

text \<open>What follows a directive that leaves the flag c, when the file is to end with its guard.\<close>

lemma guard_continue:
  assumes run: "cont W (preprocess W b l ls st) = Inr st'" "directive W b l st = Inr (Some x, st1)" "at_endif st'" "in_guard v k st1"
    and files: "\<And>ls1. length ls1 \<le> length ls \<Longrightarrow> pp_file W ls1 st1 = Inr st' \<Longrightarrow> guard_done v st' k ls1"
    and redos: "\<And>l1 ls1. length ls1 < length ls \<Longrightarrow> is_directive l1 \<Longrightarrow> cont W (preprocess W False l1 ls1 st1) = Inr st' \<Longrightarrow>
      guard_done v st' k (l1 # ls1)"
  shows "guard_done v st' k ls"
proof (cases "x AND 1 = 0")
  case True
  obtain l1 ls1 where k: "preprocess_skip 0 ls = Some (l1 # ls1)" "cont W (preprocess W False l1 ls1 st1) = Inr st'"
    using run(1,2) True by (subst (asm) preprocess.simps) (auto split: option.splits list.splits)
  have "is_directive l1" using preprocess_skip_Some [OF k(1)] by (auto simp: is_directive_def)
  then have d: "guard_done v st' k (l1 # ls1)" by (rule redos [OF preprocess_skip_shorter [OF k(1)] _ k(2)])
  have "preprocess_skip k ls = preprocess_skip k (l1 # ls1)"
    using skip_inner [OF k(1)] skip_again [OF k(1)] k(1) by (cases k) simp_all
  then show ?thesis using d by (rule guard_done_skip)
next
  case False
  then show ?thesis using files [of ls] run(1) taken [OF run(2) False] by simp
qed

lemma dead_guard:
  assumes "cont W (preprocess W b l ls st) = Inr st'" "directive W b l st = Inr (Some x, st1)" "no_guard st1"
  shows "\<not> at_endif st'"
proof (cases "x AND 1 = 0")
  case True
  obtain l1 ls1 st2 ls2 where k: "preprocess W False l1 ls1 st1 = Inr (st2, ls2)" "pp_file W ls2 st2 = Inr st'"
    using assms(1,2) True by (subst (asm) preprocess.simps) (auto simp: cont_def split: option.splits list.splits sum.splits)
  have "no_guard st2" by (rule preprocess_no_guard [OF k(1) assms(3)]) simp
  then show ?thesis by (rule pp_file_no_guard [OF k(2)])
next
  case False
  then show ?thesis using assms taken [OF assms(2) False] pp_file_no_guard by metis
qed

lemma guarded_directive:
  assumes run: "cont W (preprocess W False l ls st) = Inr st'" "is_directive l" "at_endif st'" "in_guard v k st"
    and files: "\<And>k ls1 st1. length ls1 \<le> length ls \<Longrightarrow> pp_file W ls1 st1 = Inr st' \<Longrightarrow> in_guard v k st1 \<Longrightarrow> guard_done v st' k ls1"
    and redos: "\<And>k l1 ls1 st1. length ls1 < length ls \<Longrightarrow> is_directive l1 \<Longrightarrow> cont W (preprocess W False l1 ls1 st1) = Inr st' \<Longrightarrow>
      in_guard v k st1 \<Longrightarrow> guard_done v st' k (l1 # ls1)"
  shows "guard_done v st' k (l # ls)"
proof -
  obtain c st1 where d: "directive W False l st = Inr (c, st1)"
    using run(1) by (subst (asm) preprocess.simps) (auto split: sum.splits)
  from run(2) show ?thesis
  proof (cases rule: is_directive_cases)
    case nested
    obtain x where x: "c = Some x" "st1 = st\<lparr>ifdefs := x # ifdefs st\<rparr>" using directive_opens [OF d nested] by auto
    have g: "in_guard v (Suc k) st1" using run(4) x(2) by (simp add: in_guard_def)
    have "guard_done v st' (Suc k) ls"
      by (rule guard_continue [OF run(1) d [unfolded x(1)] run(3) g]) (use files redos g in auto)
    moreover have "preprocess_skip k (l # ls) = preprocess_skip (Suc k) ls" using nested by (cases l) (simp_all add: is_open_def)
    ultimately show ?thesis by (rule guard_done_skip [rotated])
  next
    case alternative
    obtain x where x: "c = Some x" using directive_else [OF d alternative] by auto
    show ?thesis
    proof (cases k)
      case 0
      then have "no_guard st1" using directive_else [OF d alternative] run(4) by (auto simp: in_guard_def no_guard_def Let_def)
      then show ?thesis using dead_guard [OF run(1) d [unfolded x]] run(3) by simp
    next
      case (Suc j)
      then have g: "in_guard v k st1" using directive_else [OF d alternative] run(4)
        by (auto simp: in_guard_def Let_def split: if_splits)
      have "guard_done v st' k ls"
        by (rule guard_continue [OF run(1) d [unfolded x(1)] run(3) g]) (use files redos g in auto)
      moreover have "preprocess_skip k (l # ls) = preprocess_skip k ls" using alternative Suc by auto
      ultimately show ?thesis by (rule guard_done_skip [rotated])
    qed
  next
    case closing
    have "ifndef_macro st \<noteq> 0" using run(4) by (auto simp: in_guard_def)
    note e = directive_endif [OF d [unfolded closing] this]
    have r: "pp_file W ls st1 = Inr st'" using run(1) d e by (subst (asm) preprocess.simps) simp
    show ?thesis
    proof (cases k)
      case 0
      then have "ifndef_macro st1 = 0" "\<not> at_bof st1" "ifndef_macro_saved st1 = v"
        using e run(4) by (simp_all add: in_guard_def Let_def)
      with blanks_after_guard [OF r run(3)] show ?thesis
        using 0 closing by (auto simp: guard_done_def guard_ends_def)
    next
      case (Suc j)
      then have "in_guard v j st1" using e run(4) by (auto simp: in_guard_def Let_def)
      then have "guard_done v st' j ls" using files [of ls st1 j] r by simp
      then show ?thesis using Suc closing by (intro guard_done_skip [of k "l # ls" j ls]) simp_all
    qed
  qed
qed

lemma guard_run:
  assumes "at_endif st'"
  shows "(\<forall>st k. pp_file W ls st = Inr st' \<longrightarrow> in_guard v k st \<longrightarrow> guard_done v st' k ls) \<and>
    (\<forall>l st k. is_directive l \<longrightarrow> cont W (preprocess W False l ls st) = Inr st' \<longrightarrow> in_guard v k st \<longrightarrow> guard_done v st' k (l # ls))"
proof (induction "length ls" arbitrary: ls rule: less_induct)
  case less
  have shorter: "guard_done v st' k ls1" if "length ls1 < length ls" "pp_file W ls1 st = Inr st'" "in_guard v k st" for ls1 st k
    using less.hyps that by blast
  have redos: "guard_done v st' k (l # ls1)"
    if "length ls1 < length ls" "is_directive l" "cont W (preprocess W False l ls1 st) = Inr st'" "in_guard v k st" for l ls1 st k
    using less.hyps that by blast
  have this_file: "guard_done v st' k ls'"
    if n: "length ls' \<le> length ls" and g: "pp_file W ls' st = Inr st'" "in_guard v k st" for ls' st k
  proof (cases ls')
    case Nil
    then show ?thesis using g by (simp add: in_guard_def)
  next
    case (Cons l ls1)
    have sh: "length ls1 < length ls" using Cons n by simp
    consider "l = Blank" | "\<not> is_directive l" "l \<noteq> Blank" | "is_directive l" by blast
    then show ?thesis
    proof cases
      case 1
      then show ?thesis using shorter [OF sh] g Cons by (intro guard_done_skip [of k ls' k ls1]) simp_all
    next
      case 2
      obtain m where "pp_file W ls1 (clear_flags (st\<lparr>macros := m\<rparr>)) = Inr st'"
        using pp_file_ordinary 2 g(1) Cons by metis
      moreover have "in_guard v k (clear_flags (st\<lparr>macros := m\<rparr>))" using g(2) by (simp add: in_guard_def)
      ultimately have "guard_done v st' k ls1" by (rule shorter [OF sh])
      moreover have "preprocess_skip k ls' = preprocess_skip k ls1" using 2 Cons by (cases l) (auto simp: is_directive_def)
      ultimately show ?thesis by (rule guard_done_skip [rotated])
    next
      case 3
      have "cont W (preprocess W False l ls1 (clear_flags st)) = Inr st'"
        using g Cons by (simp add: pp_file_directive [OF 3] in_guard_def)
      moreover have "in_guard v k (clear_flags st)" using g(2) by (simp add: in_guard_def)
      ultimately show ?thesis using redos [OF sh 3] Cons by blast
    qed
  qed
  have "guard_done v st' k (l # ls)"
    if c: "is_directive l" "cont W (preprocess W False l ls st) = Inr st'" "in_guard v k st" for l st k
    by (rule guarded_directive [OF c(2,1) assms c(3)]) (use this_file redos in blast)+
  then show ?case using this_file by blast
qed

text \<open>The shape of a file that ends with its guard: blank lines, #ifndef, one group, #endif, blank lines.\<close>

lemma guarded_file:
  assumes "pp_file W ls st = Inr st'" "at_endif st'" "\<not> at_endif st" "ifndef_macro st = 0" "at_bof st"
    and "length (ifdefs st) = file_ifdefs st"
  shows "\<exists>ls1 ls2. ls = ls1 @ Ifndef (ifndef_macro_saved st') # ls2 \<and> set ls1 \<subseteq> {Blank} \<and> guard_ends 0 ls2 \<and>
    256 \<le> ifndef_macro_saved st'"
  using assms
proof (induction ls)
  case (Cons l ls)
  consider "l = Blank" | "\<not> is_directive l" "l \<noteq> Blank" | "is_directive l" by blast
  then show ?case
  proof cases
    case 1
    then obtain ls1 ls2 where "ls = ls1 @ Ifndef (ifndef_macro_saved st') # ls2" "set ls1 \<subseteq> {Blank}" "guard_ends 0 ls2"
      "256 \<le> ifndef_macro_saved st'" using Cons by auto
    then show ?thesis using 1 by (intro exI [of _ "Blank # ls1"] exI [of _ ls2]) simp
  next
    case 2
    obtain m where "pp_file W ls (clear_flags (st\<lparr>macros := m\<rparr>)) = Inr st'"
      using pp_file_ordinary [OF Cons.prems(1) 2] by blast
    from pp_file_no_guard [OF this no_guard_clear [OF Cons.prems(4)]] show ?thesis using Cons.prems(2) by simp
  next
    case 3
    then have run: "cont W (preprocess W True l ls (clear_flags st)) = Inr st'"
      using Cons.prems by (simp add: pp_file_directive)
    have g0: "no_guard (clear_flags st)" using Cons.prems(4) by (simp add: no_guard_def)
    show ?thesis
    proof (cases "\<exists>v. l = Ifndef v")
      case False
      obtain st1 ls2 where r: "preprocess W True l ls (clear_flags st) = Inr (st1, ls2)" "pp_file W ls2 st1 = Inr st'"
        using run by (auto simp: cont_def split: sum.splits)
      then show ?thesis using preprocess_no_guard [OF r(1) g0] False pp_file_no_guard [OF r(2)] Cons.prems(2) by auto
    next
      case True
      then obtain v where v: "l = Ifndef v" ..
      obtain c st1 where d: "directive W True l (clear_flags st) = Inr (c, st1)"
        using run by (subst (asm) preprocess.simps) (auto split: sum.splits)
      have x: "256 \<le> v" "\<exists>x. c = Some x \<and> st1 = (clear_flags st)\<lparr>ifndef_macro := v, ifdefs := x # ifdefs st\<rparr>"
        using d v by (auto simp: directive_def do_ifdef_def push_ifdef_def Let_def split: if_splits)
      then obtain x where c: "c = Some x" "st1 = (clear_flags st)\<lparr>ifndef_macro := v, ifdefs := x # ifdefs st\<rparr>" by auto
      have g: "in_guard v 0 st1" using c x(1) Cons.prems(6) by (auto simp: in_guard_def)
      have "guard_done v st' 0 ls"
        by (rule guard_continue [OF run d [unfolded c(1)] Cons.prems(2) g]) (use guard_run [OF Cons.prems(2), where W = W and v = v] g in blast)+
      then show ?thesis using v x(1) by (intro exI [of _ "[]"] exI [of _ ls]) (auto simp: guard_done_def)
    qed
  qed
qed simp

lemma pp_file_blanks: "set ls1 \<subseteq> {Blank} \<Longrightarrow> pp_file W (ls1 @ ls2) st = pp_file W ls2 st"
  by (induction ls1) auto

lemma skipped_guard:
  assumes "guard_ends 0 ls" "macro_defined W v (macros st)" "256 \<le> v" "length (ifdefs st) < 64" "length (ifdefs st) = file_ifdefs st"
  shows "\<exists>st'. pp_file W (Ifndef v # ls) st = Inr st' \<and> macros st' = macros st \<and> ifdefs st' = ifdefs st"
proof -
  obtain rest where r: "preprocess_skip 0 ls = Some (Endif # rest)" "set rest \<subseteq> {Blank}" using assms(1) by (auto simp: guard_ends_def)
  obtain st1 where d: "directive W (at_bof st) (Ifndef v) (clear_flags st) = Inr (Some 0, st1)"
    "ifdefs st1 = 0 # ifdefs st" "file_ifdefs st1 = file_ifdefs st" "macros st1 = macros st"
    using open_directive [of "clear_flags st" W "OIfndef v" False "at_bof st"] assms by (auto simp: open_line_def opens_def linorder_not_less [symmetric])
  obtain st2 where e: "preprocess W False Endif rest st1 = Inr (st2, rest)" "ifdefs st2 = ifdefs st"
    "file_ifdefs st2 = file_ifdefs st" "macros st2 = macros st"
    using endif_pops [OF d(2), of W False rest] d assms(5) by auto
  have "pp_file W (Ifndef v # ls) st = pp_file W rest st2"
    using d e(1) r(1) by (simp add: pp_file_directive is_directive_def, subst preprocess.simps) simp
  also have "\<dots> = Inr st2" using pp_file_blanks [OF r(2), of W "[]" st2] e assms(5) by simp
  finally show ?thesis using e by simp
qed

text \<open>
  C7: a file that ended with at_endif set has no effect when it is included again while the recorded macro is
  defined, in whatever state of the macros and at whatever nesting below the limit: not opening it is sound.
\<close>

theorem include_guard_sound:
  assumes "pp_file W ls st = Inr st'" "at_endif st'"
    and "at_bof st" "\<not> at_endif st" "ifndef_macro st = 0" "length (ifdefs st) = file_ifdefs st"
    and "macro_defined W (ifndef_macro_saved st') (macros s2)" "length (ifdefs s2) = file_ifdefs s2" "length (ifdefs s2) < 64"
  shows "\<exists>s3. pp_file W ls s2 = Inr s3 \<and> macros s3 = macros s2 \<and> ifdefs s3 = ifdefs s2"
proof -
  obtain ls1 ls2 where s: "ls = ls1 @ Ifndef (ifndef_macro_saved st') # ls2" "set ls1 \<subseteq> {Blank}" "guard_ends 0 ls2"
    "256 \<le> ifndef_macro_saved st'" using guarded_file [OF assms(1,2,4,5,3,6)] by blast
  show ?thesis unfolding s(1) pp_file_blanks [OF s(2)] by (rule skipped_guard [OF s(3) assms(7) s(4) assms(9,8)])
qed

definition guarded_lines :: "(nat, nat) pline list" where
  "guarded_lines = [Blank, Ifndef 300, Ordinary 300, If 7, Ordinary 10, Else, Ordinary 20, Endif, Endif, Blank]"

lemma include_guard_sound_witness:
  "\<exists>s3. pp_file log_world guarded_lines (start_state [300]) = Inr s3 \<and> macros s3 = [300] \<and> ifdefs s3 = [1]"
proof -
  obtain st' where r: "pp_file log_world guarded_lines (start_state []) = Inr st'" "at_endif st'" "ifndef_macro_saved st' = 300"
    "macros st' = [20, 300]"
  proof -
    have "(case pp_file log_world guarded_lines (start_state []) of Inl e \<Rightarrow> False
      | Inr st' \<Rightarrow> at_endif st' \<and> ifndef_macro_saved st' = 300 \<and> macros st' = [20, 300])" by code_simp
    then show ?thesis using that by (cases "pp_file log_world guarded_lines (start_state [])") auto
  qed
  have "\<exists>s3. pp_file log_world guarded_lines (start_state [300]) = Inr s3 \<and> macros s3 = macros (start_state [300]) \<and>
      ifdefs s3 = ifdefs (start_state [300])"
    by (rule include_guard_sound [OF r(1,2)]) (simp_all add: r start_state_def log_world_def)
  then show ?thesis by (simp add: start_state_def)
qed

end
