(* ===== verification/PeReloc.thy ===== *)
theory PeReloc
  imports Bytes ElfLink
begin

text \<open>
  The base relocation table of a PE image (pe_build_reloc, lines 30664-30721): which 64-bit words of the image the
  loader has to adjust when it does not load it at its preferred address. The table is a sequence of blocks, a
  header (page, size of the block) and 16-bit entries (type in the high 4 bits, offset in the page). The section
  pe->reloc is the list of its bytes; section_ptr_add appends zeroed bytes to it (\<open>Sections.section_add_spec\<close>).
\<close>

record pe_sec =
  ps_addr :: u64
  ps_num :: nat
  ps_relocs :: "elf_rela list option"

record pe_env =
  imagebase :: u64
  dwarf_lo :: nat
  dwarf_hi :: nat
  sym_section :: "u32 \<Rightarrow> nat"

text \<open>
  The variables of pe_build_reloc: the entries rel to rel_end, the sections s, s->prev, ... still to be read and
  those of sec_info behind them (each with its prev chain), and the block under construction.
\<close>

record base_relocs =
  rel :: "elf_rela list"
  rel_addr :: u32
  rel_dwarf :: bool
  chain :: "pe_sec list"
  later :: "pe_sec list list"
  page :: u32
  block_ptr :: nat
  block_count :: nat
  table :: "u8 list"

definition page_mask :: u32 where "page_mask = push_bit 12 0xFFFFFFFF"

definition ptr_add :: "nat \<Rightarrow> base_relocs \<Rightarrow> base_relocs" where
  "ptr_add n st = st\<lparr>table := table st @ replicate n 0\<rparr>"

definition open_block :: "u32 \<Rightarrow> base_relocs \<Rightarrow> base_relocs" where
  "open_block addr st = (ptr_add 8 st)\<lparr>block_ptr := length (table st), page := addr AND page_mask\<rparr>"

definition put_entry :: "u32 \<Rightarrow> base_relocs \<Rightarrow> base_relocs" where
  "put_entry addr st =
     (let st1 = ptr_add 2 st
      in st1\<lparr>table := write16le (table st1) (length (table st)) (ucast (addr OR push_bit 12 10)), block_count := block_count st + 1\<rparr>)"

definition close_block :: "pe_env \<Rightarrow> base_relocs \<Rightarrow> base_relocs" where
  "close_block E st =
     (let st = (if odd (block_count st) then (ptr_add 2 st)\<lparr>block_count := block_count st + 1\<rparr> else st);
          hdr = write32le (table st) (block_ptr st) (ucast (ucast (page st) - imagebase E));
          hdr = write32le hdr (block_ptr st + 4) (of_nat (block_count st * 2 + 8))
      in st\<lparr>table := hdr, block_count := 0\<rparr>)"

definition left_out :: "pe_env \<Rightarrow> bool \<Rightarrow> elf_rela \<Rightarrow> bool" where
  "left_out E dwarf r \<longleftrightarrow> r_type (r_info r) \<noteq> 1 \<or>
     dwarf \<and> dwarf_lo E \<le> sym_section E (r_sym (r_info r)) \<and> sym_section E (r_sym (r_info r)) < dwarf_hi E"

definition relocs :: "pe_sec \<Rightarrow> elf_rela list" where
  "relocs s = (case ps_relocs s of None \<Rightarrow> [] | Some rs \<Rightarrow> rs)"

definition chain_size :: "pe_sec list \<Rightarrow> nat" where
  "chain_size c = sum_list (map (\<lambda>s. Suc (length (relocs s))) c)"

definition left_size :: "base_relocs \<Rightarrow> nat" where
  "left_size st = length (rel st) + chain_size (chain st) + sum_list (map (\<lambda>c. Suc (chain_size c)) (later st))"

lemma page_offset: "(addr :: u32) - (addr AND page_mask) < 4096"
proof -
  have m: "page_mask = - (2 ^ 12)" by (simp add: page_mask_def push_bit_eq_mult)
  have u: "unat (addr AND page_mask) = unat addr div 2 ^ 12 * 2 ^ 12" unfolding m by (rule and_neg_mask_unat) simp
  then have "addr AND page_mask \<le> addr" by (simp add: word_le_nat_alt)
  then have "unat (addr - (addr AND page_mask)) = unat addr mod 2 ^ 12"
    by (simp only: unat_sub u minus_div_mult_eq_mod)
  then show ?thesis by (simp add: word_less_nat_alt)
qed

function pe_reloc_loop :: "pe_env \<Rightarrow> base_relocs \<Rightarrow> base_relocs" where
  "pe_reloc_loop E st =
     (case rel st of
        r # rs \<Rightarrow>
          if left_out E (rel_dwarf st) r then pe_reloc_loop E (st\<lparr>rel := rs\<rparr>)
          else
            let addr = ucast (r_offset r) + rel_addr st;
                st1 = (if block_count st = 0 then open_block addr st else st)
            in if addr - page st1 < 4096 then pe_reloc_loop E ((put_entry (addr - page st1) st1)\<lparr>rel := rs\<rparr>)
               else pe_reloc_loop E (close_block E st1)
      | [] \<Rightarrow>
         (case chain st of
            s # ss \<Rightarrow>
              pe_reloc_loop E
                (case ps_relocs s of
                   None \<Rightarrow> st\<lparr>chain := ss\<rparr>
                 | Some rs \<Rightarrow> st\<lparr>chain := ss, rel := rs, rel_addr := ucast (ps_addr s),
                     rel_dwarf := (dwarf_lo E \<le> ps_num s \<and> ps_num s < dwarf_hi E)\<rparr>)
          | [] \<Rightarrow>
             (case later st of
                c # cs \<Rightarrow> pe_reloc_loop E (st\<lparr>chain := c, later := cs\<rparr>)
              | [] \<Rightarrow> if block_count st = 0 then st else pe_reloc_loop E (close_block E st))))"
  by pat_completeness auto

lemma left_size_simps [simp]:
  "left_size (ptr_add n st) = left_size st" "left_size (open_block a st) = left_size st" "left_size (put_entry a st) = left_size st"
  "left_size (close_block E st) = left_size st"
  by (simp_all add: left_size_def ptr_add_def open_block_def put_entry_def close_block_def Let_def)

lemma block_count_simps [simp]:
  "block_count (ptr_add n st) = block_count st" "block_count (open_block a st) = block_count st"
  "block_count (put_entry a st) = block_count st + 1" "block_count (close_block E st) = 0"
  by (simp_all add: ptr_add_def open_block_def put_entry_def close_block_def Let_def)

lemma queue_simps [simp]:
  "rel (ptr_add n st) = rel st" "rel (open_block a st) = rel st" "rel (put_entry a st) = rel st" "rel (close_block E st) = rel st"
  "chain (ptr_add n st) = chain st" "chain (open_block a st) = chain st" "chain (put_entry a st) = chain st" "chain (close_block E st) = chain st"
  "later (ptr_add n st) = later st" "later (open_block a st) = later st" "later (put_entry a st) = later st" "later (close_block E st) = later st"
  "rel_addr (ptr_add n st) = rel_addr st" "rel_addr (open_block a st) = rel_addr st" "rel_addr (put_entry a st) = rel_addr st"
  "rel_addr (close_block E st) = rel_addr st"
  "rel_dwarf (ptr_add n st) = rel_dwarf st" "rel_dwarf (open_block a st) = rel_dwarf st" "rel_dwarf (put_entry a st) = rel_dwarf st"
  "rel_dwarf (close_block E st) = rel_dwarf st"
  by (simp_all add: ptr_add_def open_block_def put_entry_def close_block_def Let_def)

lemma page_open [simp]: "page (open_block a st) = a AND page_mask"
  by (simp add: open_block_def)

lemma close_needed: "\<not> a - page (if block_count st = 0 then open_block a st else st) < 4096 \<Longrightarrow> 0 < block_count st"
  by (cases "block_count st = 0") (simp_all add: page_offset)

termination pe_reloc_loop
  by (relation "measures [\<lambda>(E, st). left_size st, \<lambda>(E, st). block_count st]")
    (auto simp: left_size_def chain_size_def relocs_def split: option.splits dest: close_needed)

declare pe_reloc_loop.simps [simp del]

definition pe_build_reloc :: "pe_env \<Rightarrow> pe_sec list list \<Rightarrow> u8 list" where
  "pe_build_reloc E secs =
     table (pe_reloc_loop E \<lparr>rel = [], rel_addr = 0, rel_dwarf = False, chain = [], later = secs, page = 0, block_ptr = 0,
       block_count = 0, table = []\<rparr>)"

section \<open>The loader\<close>

text \<open>What the PE format says the table means: the addresses, relative to the image, of the 64-bit words to adjust.\<close>

fun block_entries :: "u32 \<Rightarrow> u8 list \<Rightarrow> u32 list option" where
  "block_entries pg [] = Some []"
| "block_entries pg [b] = None"
| "block_entries pg (b0 # b1 # bs) =
     (let w = read16le [b0, b1] 0
      in if drop_bit 12 w = 10 then map_option (Cons (pg + ucast (w AND 0xFFF))) (block_entries pg bs)
         else if drop_bit 12 w = 0 then block_entries pg bs else None)"

function loader_relocs :: "u8 list \<Rightarrow> u32 list option" where
  "loader_relocs bs =
     (if bs = [] then Some []
      else if length bs < 8 \<or> unat (read32le bs 4) < 8 \<or> \<not> 4 dvd unat (read32le bs 4) \<or> length bs < unat (read32le bs 4) then None
      else case block_entries (read32le bs 0) (bslice 8 (unat (read32le bs 4) - 8) bs) of
             None \<Rightarrow> None
           | Some xs \<Rightarrow> map_option ((@) xs) (loader_relocs (drop (unat (read32le bs 4)) bs)))"
  by pat_completeness auto
termination by (relation "measure length") auto

declare loader_relocs.simps [simp del]

definition rvas :: "pe_env \<Rightarrow> u32 \<Rightarrow> bool \<Rightarrow> elf_rela list \<Rightarrow> u32 list" where
  "rvas E addr dwarf rs = map (\<lambda>r. ucast (r_offset r) + addr - ucast (imagebase E)) (filter (\<lambda>r. \<not> left_out E dwarf r) rs)"

definition sec_rvas :: "pe_env \<Rightarrow> pe_sec \<Rightarrow> u32 list" where
  "sec_rvas E s = rvas E (ucast (ps_addr s)) (dwarf_lo E \<le> ps_num s \<and> ps_num s < dwarf_hi E) (relocs s)"

definition pending_rvas :: "pe_env \<Rightarrow> base_relocs \<Rightarrow> u32 list" where
  "pending_rvas E st = rvas E (rel_addr st) (rel_dwarf st) (rel st) @ concat (map (sec_rvas E) (chain st @ concat (later st)))"

lemma block_entries_append:
  "block_entries pg xs = Some a \<Longrightarrow> block_entries pg ys = Some b \<Longrightarrow> block_entries pg (xs @ ys) = Some (a @ b)"
  by (induction pg xs arbitrary: a rule: block_entries.induct) (auto simp: Let_def split: if_splits)

definition block_ok :: "u8 list \<Rightarrow> bool" where
  "block_ok bs \<longleftrightarrow> 8 \<le> length bs \<and> 8 \<le> unat (read32le bs 4) \<and> 4 dvd unat (read32le bs 4) \<and> unat (read32le bs 4) \<le> length bs"

lemma loader_Nil [simp]: "loader_relocs [] = Some []"
  by (simp add: loader_relocs.simps)

lemma loader_block:
  "block_ok bs \<Longrightarrow> loader_relocs bs =
     (case block_entries (read32le bs 0) (bslice 8 (unat (read32le bs 4) - 8) bs) of
        None \<Rightarrow> None
      | Some xs \<Rightarrow> map_option ((@) xs) (loader_relocs (drop (unat (read32le bs 4)) bs)))"
  by (subst loader_relocs.simps) (auto simp: block_ok_def)

lemma loader_not_ok: "bs \<noteq> [] \<Longrightarrow> \<not> block_ok bs \<Longrightarrow> loader_relocs bs = None"
  by (subst loader_relocs.simps) (simp add: block_ok_def not_le not_less)

lemma loader_append:
  "loader_relocs xs = Some a \<Longrightarrow> loader_relocs ys = Some d \<Longrightarrow> loader_relocs (xs @ ys) = Some (a @ d)"
proof (induction "length xs" arbitrary: xs a rule: less_induct)
  case less
  show ?case
  proof (cases "xs = []")
    case False
    let ?n = "unat (read32le xs 4)"
    have ok: "block_ok xs" using loader_not_ok [OF False] less.prems by fastforce
    note l = ok [unfolded block_ok_def]
    obtain b c where r: "block_entries (read32le xs 0) (bslice 8 (?n - 8) xs) = Some b" "loader_relocs (drop ?n xs) = Some c" "a = b @ c"
      using less.prems unfolding loader_block [OF ok] by (auto split: option.splits)
    have h: "read32le (xs @ ys) 0 = read32le xs 0" "read32le (xs @ ys) 4 = read32le xs 4"
      using l by (auto intro!: read32le_cong simp: nth_append)
    have s: "bslice 8 (?n - 8) (xs @ ys) = bslice 8 (?n - 8) xs" "drop ?n (xs @ ys) = drop ?n xs @ ys"
      using l by (simp_all add: bslice_def)
    have ok2: "block_ok (xs @ ys)" using l by (simp add: block_ok_def h)
    have "loader_relocs (drop ?n xs @ ys) = Some (c @ d)"
      using less.hyps [OF _ r(2) less.prems(2)] l by auto
    then show ?thesis unfolding loader_block [OF ok2] h s r(1) using r(3) by simp
  qed (use less.prems in simp)
qed

text \<open>A block as it stands while it is built: eight bytes for the header, then the entries.\<close>

definition building :: "pe_env \<Rightarrow> base_relocs \<Rightarrow> u32 list \<Rightarrow> bool" where
  "building E st xs \<longleftrightarrow>
     (if block_count st = 0 then loader_relocs (table st) = Some xs \<and> 4 dvd length (table st)
      else \<exists>don hdr ws ys zs. table st = don @ hdr @ ws \<and> length hdr = 8 \<and> length ws = 2 * block_count st \<and>
        block_ptr st = length don \<and> loader_relocs don = Some ys \<and> 4 dvd length don \<and>
        block_entries (page st - ucast (imagebase E)) ws = Some zs \<and> xs = ys @ zs)"

lemma write32le_append:
  "p = length xs + k \<Longrightarrow> write32le (xs @ ys) p v = xs @ write32le ys k v"
  by (simp add: write32le_def write16le_def list_update_append numeral_3_eq_3)

lemma write16le_append:
  "p = length xs + k \<Longrightarrow> write16le (xs @ ys) p v = xs @ write16le ys k v"
  by (simp add: write16le_def list_update_append)

lemma write32le_front: "k + 4 \<le> length xs \<Longrightarrow> write32le (xs @ ys) k v = write32le xs k v @ ys"
  by (simp add: write32le_def write16le_def list_update_append)

lemma entry_word:
  assumes "(a :: u32) < 4096"
  shows "drop_bit 12 (ucast (a OR push_bit 12 10) :: u16) = 10" "ucast ((ucast (a OR push_bit 12 10) :: u16) AND 0xFFF) = a"
proof -
  have a: "bit a n \<Longrightarrow> n < 12" for n
  proof -
    have "take_bit 12 a = a" using assms
      by (simp add: word_unat_eq_iff unsigned_take_bit_eq take_bit_nat_eq_self_iff word_less_nat_alt)
    then show "bit a n \<Longrightarrow> n < 12" by (metis bit_take_bit_iff)
  qed
  have m: "(0xFFF :: u16) = mask 12" by (simp add: mask_eq_exp_minus_1)
  have "drop_bit 12 (ucast a :: u16) = 0" by (rule bit_word_eqI) (auto simp: bit_simps dest: a)
  then show "drop_bit 12 (ucast (a OR push_bit 12 10) :: u16) = 10"
    by (simp add: unsigned_or_eq)
  show "ucast ((ucast (a OR push_bit 12 10) :: u16) AND 0xFFF) = a"
    unfolding m by (rule bit_word_eqI) (auto simp: bit_simps simp del: push_bit_numeral dest: a)
qed

lemma entry_read:
  assumes "(a :: u32) < 4096"
  shows "block_entries pg (write16le [0, 0] 0 (ucast (a OR push_bit 12 10))) = Some [pg + a]"
proof -
  obtain b0 b1 where b: "write16le [0, 0] 0 (ucast (a OR push_bit 12 10)) = [b0, b1]" by (simp add: write16le_def)
  have "read16le [b0, b1] 0 = ucast (a OR push_bit 12 10)" unfolding b [symmetric] by (rule read16le_write16le) simp
  then show ?thesis unfolding b block_entries.simps Let_def by (simp only: entry_word [OF assms]) simp
qed

lemma put_entry_building:
  assumes "table st = don @ hdr @ ws" "length hdr = 8" "length ws = 2 * block_count st" "block_ptr st = length don"
    and "loader_relocs don = Some ys" "4 dvd length don" "block_entries (page st - ucast (imagebase E)) ws = Some zs" "a < 4096"
  shows "building E (put_entry a st) (ys @ zs @ [page st - ucast (imagebase E) + a])"
proof -
  let ?e = "write16le [0, 0] 0 (ucast (a OR push_bit 12 10))"
  have t: "table (put_entry a st) = don @ hdr @ (ws @ ?e)" "block_ptr (put_entry a st) = length don" "page (put_entry a st) = page st"
    using assms(1,4) write16le_append [of "length (table st)" "table st" 0 "[0, 0]"]
    by (simp_all add: put_entry_def ptr_add_def Let_def numeral_2_eq_2)
  have "block_entries (page st - ucast (imagebase E)) (ws @ ?e) = Some (zs @ [page st - ucast (imagebase E) + a])"
    by (rule block_entries_append [OF assms(7) entry_read [OF assms(8)]])
  moreover have "length (ws @ ?e) = 2 * block_count (put_entry a st)" using assms(3) by simp
  ultimately show ?thesis using t assms(2,5,6) by (fastforce simp: building_def)
qed

lemma down_minus: "(ucast (ucast (p :: u32) - (i :: u64)) :: u32) = p - ucast i"
proof -
  have w: "(ucast (word_of_int k :: u64) :: u32) = word_of_int k" for k
    by transfer simp
  have "ucast p - i = word_of_int (uint p - uint i)"
    by (simp only: wi_hom_sub [symmetric] ucast_eq [symmetric] word_of_int_uint) simp
  then have "(ucast (ucast p - i) :: u32) = word_of_int (uint p - uint i)" by (simp only: w)
  also have "\<dots> = p - ucast i" by (simp only: wi_hom_sub [symmetric] ucast_eq [symmetric] word_of_int_uint) simp
  finally show ?thesis .
qed

lemma close_table:
  "table (close_block E st) =
     write32le (write32le (table st @ (if odd (block_count st) then [0, 0] else [])) (block_ptr st) (page st - ucast (imagebase E)))
       (block_ptr st + 4) (of_nat ((if odd (block_count st) then block_count st + 1 else block_count st) * 2 + 8))"
proof -
  have "replicate 2 0 = [0, 0 :: u8]" by (simp add: numeral_2_eq_2)
  then show ?thesis unfolding close_block_def Let_def ptr_add_def by (simp add: down_minus del: of_nat_Suc of_nat_add of_nat_mult)
qed

lemma write_header:
  assumes "length hdr = 8"
  shows "write32le (write32le (don @ hdr @ w) (length don) a) (length don + 4) b = don @ write32le (write32le hdr 0 a) 4 b @ w"
proof -
  have 1: "write32le (don @ hdr @ w) (length don) a = don @ write32le hdr 0 a @ w"
    using write32le_append [of "length don" don 0 "hdr @ w" a] write32le_front [of 0 hdr w a] assms by simp
  show ?thesis unfolding 1
    using write32le_append [of "length don + 4" don 4 "write32le hdr 0 a @ w" b] write32le_front [of 4 "write32le hdr 0 a" w b] assms
    by simp
qed

lemma building_close:
  assumes "building E st xs" "block_count st \<noteq> 0" "block_count st < 2 ^ 30"
  shows "building E (close_block E st) xs"
proof -
  obtain don hdr ws ys zs where b: "table st = don @ hdr @ ws" "length hdr = 8" "length ws = 2 * block_count st"
    "block_ptr st = length don" "loader_relocs don = Some ys" "4 dvd length don"
    "block_entries (page st - ucast (imagebase E)) ws = Some zs" "xs = ys @ zs"
    using assms(1,2) by (auto simp: building_def)
  define n where "n = (if odd (block_count st) then block_count st + 1 else block_count st)"
  define w where "w = ws @ (if odd (block_count st) then [0, 0] else [])"
  define h where "h = write32le (write32le hdr 0 (page st - ucast (imagebase E))) 4 (of_nat (n * 2 + 8))"
  have n: "length w = 2 * n" "even n" "n \<le> 2 ^ 30" using b(3) assms(3) by (auto simp: n_def w_def)
  have "block_entries (page st - ucast (imagebase E)) [0, 0] = Some []" by (simp add: Let_def read16le_def)
  then have e: "block_entries (page st - ucast (imagebase E)) w = Some zs"
    using block_entries_append [OF b(7)] b(7) by (fastforce simp: w_def)
  have t: "table (close_block E st) = don @ h @ w"
  proof -
    have "table (close_block E st) = write32le (write32le (don @ hdr @ w) (length don) (page st - ucast (imagebase E)))
        (length don + 4) (of_nat (n * 2 + 8))"
      unfolding n_def w_def close_table b(1,4) by simp
    also have "\<dots> = don @ h @ w"
      unfolding h_def by (rule write_header [OF b(2)])
    finally show ?thesis .
  qed
  have r: "read32le (h @ w) 0 = page st - ucast (imagebase E)" "read32le (h @ w) 4 = of_nat (n * 2 + 8)"
  proof -
    have "read32le (h @ w) k = read32le h k" if "k + 4 \<le> 8" for k
      using that b(2) by (intro read32le_cong) (simp add: h_def nth_append)
    then show "read32le (h @ w) 0 = page st - ucast (imagebase E)" "read32le (h @ w) 4 = of_nat (n * 2 + 8)"
      using b(2) by (simp_all only: h_def) (simp_all add: read32le_write32le read32le_write32le_other)
  qed
  have u: "unat (read32le (h @ w) 4) = n * 2 + 8" unfolding r using n(3) by (subst unat_of_nat) simp
  have lh: "length h = 8" using b(2) by (simp add: h_def)
  have ok: "block_ok (h @ w)" unfolding block_ok_def u using lh n by (auto elim!: evenE)
  have "loader_relocs (h @ w) = Some zs"
    unfolding loader_block [OF ok] u r(1) using lh n(1) e by (simp add: bslice_def)
  then have "loader_relocs (don @ h @ w) = Some xs" using loader_append [OF b(5)] b(8) by simp
  moreover have "4 dvd length (don @ h @ w)" using b(6) lh n by (auto elim!: evenE)
  ultimately show ?thesis by (simp add: building_def t)
qed

lemma building_entry:
  assumes "building E st xs" "st1 = (if block_count st = 0 then open_block addr st else st)" "addr - page st1 < 4096"
  shows "building E (put_entry (addr - page st1) st1) (xs @ [addr - ucast (imagebase E)])"
proof -
  have e: "page st1 - ucast (imagebase E) + (addr - page st1) = addr - ucast (imagebase E)" by simp
  show ?thesis
  proof (cases "block_count st = 0")
    case True
    have t: "table st1 = table st @ replicate 8 0 @ []" "block_ptr st1 = length (table st)" "block_count st1 = 0"
      using True assms(2) by (simp_all add: open_block_def ptr_add_def)
    show ?thesis
      using put_entry_building [OF t(1) _ _ t(2), of xs E "[]" "addr - page st1"] assms(1,3) True t(3) e by (simp add: building_def)
  next
    case False
    then have st1: "st1 = st" using assms(2) by simp
    obtain don hdr ws ys zs where b: "table st = don @ hdr @ ws" "length hdr = 8" "length ws = 2 * block_count st"
      "block_ptr st = length don" "loader_relocs don = Some ys" "4 dvd length don"
      "block_entries (page st - ucast (imagebase E)) ws = Some zs" "xs = ys @ zs"
      using assms(1) False by (auto simp: building_def)
    show ?thesis using put_entry_building [OF b(1-7), of "addr - page st"] assms(3) e unfolding st1 b(8) by simp
  qed
qed

lemma building_frame:
  "table st' = table st \<Longrightarrow> block_count st' = block_count st \<Longrightarrow> block_ptr st' = block_ptr st \<Longrightarrow> page st' = page st \<Longrightarrow>
     building E st' xs = building E st xs"
  unfolding building_def by simp

lemma rvas_simps [simp]:
  "rvas E a d [] = []"
  "rvas E a d (r # rs) = (if left_out E d r then rvas E a d rs else (ucast (r_offset r) + a - ucast (imagebase E)) # rvas E a d rs)"
  by (simp_all add: rvas_def)

lemma pe_reloc_loop_table:
  "building E st xs \<Longrightarrow> block_count st + length (pending_rvas E st) < 2 ^ 30 \<Longrightarrow>
     building E (pe_reloc_loop E st) (xs @ pending_rvas E st) \<and> block_count (pe_reloc_loop E st) = 0"
proof (induction E st arbitrary: xs rule: pe_reloc_loop.induct)
  case (1 E st)
  note IH = "1.IH" and b = "1.prems"
  show ?case
  proof (cases "rel st")
    case (Cons r rs)
    show ?thesis
    proof (cases "left_out E (rel_dwarf st) r")
      case True
      have "pending_rvas E (st\<lparr>rel := rs\<rparr>) = pending_rvas E st" using True Cons by (simp add: pending_rvas_def)
      moreover have "building E (st\<lparr>rel := rs\<rparr>) xs" using b(1) by (subst building_frame [of _ st]) simp_all
      ultimately show ?thesis using IH(4) [OF Cons True, of xs] b True Cons by (subst (1 2) pe_reloc_loop.simps) simp
    next
      case False
      define addr where "addr = ucast (r_offset r) + rel_addr st"
      define st1 where "st1 = (if block_count st = 0 then open_block addr st else st)"
      have q: "rel st1 = r # rs" "chain st1 = chain st" "later st1 = later st" "rel_addr st1 = rel_addr st" "rel_dwarf st1 = rel_dwarf st"
        "block_count st1 = block_count st" using Cons by (simp_all add: st1_def)
      show ?thesis
      proof (cases "addr - page st1 < 4096")
        case True
        let ?st = "(put_entry (addr - page st1) st1)\<lparr>rel := rs\<rparr>"
        have p: "pending_rvas E st = (addr - ucast (imagebase E)) # pending_rvas E ?st"
          using False Cons q by (simp add: pending_rvas_def addr_def)
        have "building E ?st (xs @ [addr - ucast (imagebase E)])" 
          using building_entry [OF b(1) st1_def True]
          by (subst building_frame [of ?st "put_entry (addr - page st1) st1"]) simp_all
        moreover have "block_count ?st + length (pending_rvas E ?st) < 2 ^ 30" using b(2) p q by simp
        ultimately have "building E (pe_reloc_loop E ?st) ((xs @ [addr - ucast (imagebase E)]) @ pending_rvas E ?st) \<and>
            block_count (pe_reloc_loop E ?st) = 0"
          by (rule IH(5) [OF Cons False addr_def st1_def True])
        moreover have "pe_reloc_loop E st = pe_reloc_loop E ?st"
          using Cons False True by (subst pe_reloc_loop.simps) (simp add: Let_def flip: addr_def st1_def)
        ultimately show ?thesis unfolding p by simp
      next
        case full: False
        have n: "block_count st \<noteq> 0" using close_needed full by (auto simp: st1_def)
        then have st1: "st1 = st" by (simp add: st1_def)
        have p: "pending_rvas E (close_block E st) = pending_rvas E st" by (simp add: pending_rvas_def)
        have "building E (close_block E st) xs" by (rule building_close [OF b(1) n]) (use b(2) in simp)
        then have "building E (pe_reloc_loop E (close_block E st1)) (xs @ pending_rvas E (close_block E st1)) \<and>
            block_count (pe_reloc_loop E (close_block E st1)) = 0"
          using b(2) by (intro IH(6) [OF Cons False addr_def st1_def full]) (simp_all add: p st1)
        moreover have "pe_reloc_loop E st = pe_reloc_loop E (close_block E st1)"
          using Cons False full by (subst pe_reloc_loop.simps) (simp add: Let_def flip: addr_def st1_def)
        ultimately show ?thesis by (simp add: st1 p)
      qed
    qed
  next
    case Nil
    show ?thesis
    proof (cases "chain st")
      case c: (Cons c cs)
      let ?st = "case ps_relocs c of
          None \<Rightarrow> st\<lparr>chain := cs\<rparr>
        | Some rs \<Rightarrow> st\<lparr>chain := cs, rel := rs, rel_addr := ucast (ps_addr c), rel_dwarf := (dwarf_lo E \<le> ps_num c \<and> ps_num c < dwarf_hi E)\<rparr>"
      have p: "pending_rvas E ?st = pending_rvas E st" "block_count ?st = block_count st"
        using Nil c by (simp_all add: pending_rvas_def sec_rvas_def relocs_def split: option.splits)
      have "building E ?st xs" using b(1) by (subst building_frame [of ?st st]) (simp_all split: option.splits)
      then show ?thesis using IH(3) [OF Nil c, of xs] b(2) p Nil c by (subst (1 2) pe_reloc_loop.simps) simp
    next
      case n: Nil
      show ?thesis
      proof (cases "later st")
        case l: (Cons c cs)
        have p: "pending_rvas E (st\<lparr>chain := c, later := cs\<rparr>) = pending_rvas E st"
          using Nil n l by (simp add: pending_rvas_def)
        have "building E (st\<lparr>chain := c, later := cs\<rparr>) xs" using b(1) by (subst building_frame [of _ st]) simp_all
        then show ?thesis using IH(2) [OF Nil n l, of xs] b(2) p Nil n l by (subst (1 2) pe_reloc_loop.simps) simp
      next
        case l: Nil
        have p: "pending_rvas E st = []" "pending_rvas E (close_block E st) = []" using Nil n l by (simp_all add: pending_rvas_def)
        show ?thesis
        proof (cases "block_count st = 0")
          case True
          then show ?thesis using b(1) p Nil n l by (subst (1 2) pe_reloc_loop.simps) simp
        next
          case False
          have "building E (close_block E st) xs" by (rule building_close [OF b(1) False]) (use b(2) in simp)
          then show ?thesis using IH(1) [OF Nil n l False, of xs] p False Nil n l by (subst (1 2) pe_reloc_loop.simps) simp
        qed
      qed
    qed
  qed
qed

text \<open>
  C17: the table pe_build_reloc writes lists, read as the PE loader reads it, exactly the 64-bit words that were
  relocated with R_X86_64_64, section by section and in order, except in the debug sections those that refer to
  debug sections, each by its address in the image; it is a sequence of blocks of a multiple of four bytes.
\<close>

theorem base_relocations:
  assumes "length (concat (map (sec_rvas E) (concat secs))) < 2 ^ 30"
  shows "loader_relocs (pe_build_reloc E secs) = Some (concat (map (sec_rvas E) (concat secs))) \<and> 4 dvd length (pe_build_reloc E secs)"
proof -
  let ?st = "\<lparr>rel = [], rel_addr = 0, rel_dwarf = False, chain = [], later = secs, page = 0, block_ptr = 0,
    block_count = 0, table = []\<rparr>"
  have "pending_rvas E ?st = concat (map (sec_rvas E) (concat secs))" by (simp add: pending_rvas_def)
  moreover have "building E ?st []" by (simp add: building_def)
  ultimately show ?thesis
    using pe_reloc_loop_table [of E ?st "[]"] assms by (simp add: building_def pe_build_reloc_def)
qed

definition sample_env :: pe_env where
  "sample_env = \<lparr>imagebase = 0x140000000, dwarf_lo = 7, dwarf_hi = 9, sym_section = (\<lambda>s. unat s)\<rparr>"

definition sample_secs :: "pe_sec list list" where
  "sample_secs =
    [[\<lparr>ps_addr = 0x140001000, ps_num = 1, ps_relocs = Some [\<lparr>r_offset = 8, r_info = 0x300000001, r_addend = 0\<rparr>,
        \<lparr>r_offset = 12, r_info = 0x300000002, r_addend = 0\<rparr>, \<lparr>r_offset = 0x18, r_info = 0x300000001, r_addend = 0\<rparr>,
        \<lparr>r_offset = 0x2010, r_info = 0x300000001, r_addend = 0\<rparr>]\<rparr>],
     [\<lparr>ps_addr = 0x140002000, ps_num = 2, ps_relocs = None\<rparr>,
      \<lparr>ps_addr = 0x140005000, ps_num = 7, ps_relocs = Some [\<lparr>r_offset = 0, r_info = 0x800000001, r_addend = 0\<rparr>,
        \<lparr>r_offset = 4, r_info = 0x200000001, r_addend = 0\<rparr>]\<rparr>]]"

lemma base_relocations_witness:
  "loader_relocs (pe_build_reloc sample_env sample_secs) = Some [0x1008, 0x1018, 0x3010, 0x5004]"
proof -
  have e: "concat (map (sec_rvas sample_env) (concat sample_secs)) = [0x1008, 0x1018, 0x3010, 0x5004]" by code_simp
  show ?thesis using base_relocations [of sample_env sample_secs] unfolding e by simp
qed

end
