(* ===== verification/AsmExpr.thy ===== *)
theory AsmExpr
  imports Prelude
begin

text \<open>
  Expressions of the assembler (get_asm_sym and asm_expr_unary to asm_int_expr, lines 24521-24792). A token is a
  number as it is written (tok 0xcd), a character constant (0xc0, 0xc1) with its value, or any other token; no token
  left stands for the end of the input. The symbol table is an argument of the model: how a label is found and made,
  and which section and value its ELF symbol has. Shifts take their count modulo 64, as the processor does where C
  leaves a larger count undefined.
\<close>

datatype asm_tok = PPNum string | CChar u64 | Tok int

record expr_value =
  ev_v :: u64
  ev_sym :: "nat option"
  ev_pcrel :: bool

record 's asm_world =
  label_name :: "u32 \<Rightarrow> 's \<Rightarrow> int \<times> 's"
  label_find :: "int \<Rightarrow> 's \<Rightarrow> nat option"
  label_push :: "int \<Rightarrow> 's \<Rightarrow> nat \<times> 's"
  prev_label :: "nat \<Rightarrow> 's \<Rightarrow> nat option"
  elfsym :: "nat \<Rightarrow> 's \<Rightarrow> (int \<times> u64) option"
  section_sym :: "'s \<Rightarrow> nat \<times> 's"
  here :: "'s \<Rightarrow> u64"
  text_num :: "'s \<Rightarrow> int"

text \<open>A parser returns the value, the tokens left and the symbols, or an error; None is lack of fuel.\<close>

type_synonym 's asm_res = "(string + expr_value \<times> asm_tok list \<times> 's) option"
type_synonym 's asm_parser = "asm_tok list \<Rightarrow> 's \<Rightarrow> 's asm_res"

definition abind :: "'s asm_res \<Rightarrow> (expr_value \<Rightarrow> asm_tok list \<Rightarrow> 's \<Rightarrow> 's asm_res) \<Rightarrow> 's asm_res" where
  "abind r f = (case r of None \<Rightarrow> None | Some (Inl e) \<Rightarrow> Some (Inl e) | Some (Inr (v, ts, st)) \<Rightarrow> f v ts st)"

text \<open>_strtoui64 with base 0, on a number without sign: the value, limited to 64 bits, and the characters left.\<close>

definition digit_value :: "char \<Rightarrow> int" where
  "digit_value c =
     (let k = of_char c :: int
      in if 48 \<le> k \<and> k \<le> 57 then k - 48 else if 97 \<le> k \<and> k \<le> 102 then k - 87 else if 65 \<le> k \<and> k \<le> 70 then k - 55 else 16)"

fun digits_value :: "int \<Rightarrow> int \<Rightarrow> string \<Rightarrow> int \<times> string" where
  "digits_value b acc [] = (acc, [])"
| "digits_value b acc (c # cs) = (if digit_value c < b then digits_value b (acc * b + digit_value c) cs else (acc, c # cs))"

definition strtoui64 :: "string \<Rightarrow> u64 \<times> string" where
  "strtoui64 s =
     (let (n, rest) =
        (case s of
           CHR ''0'' # x # d # cs \<Rightarrow>
             if (x = CHR ''x'' \<or> x = CHR ''X'') \<and> digit_value d < 16 then digits_value 16 0 (d # cs) else digits_value 8 0 s
         | CHR ''0'' # cs \<Rightarrow> digits_value 8 0 s
         | _ \<Rightarrow> digits_value 10 0 s)
      in (word_of_int (min n (2 ^ 64 - 1)), rest))"

definition get_asm_sym :: "'s asm_world \<Rightarrow> int \<Rightarrow> 's \<Rightarrow> nat \<times> 's" where
  "get_asm_sym W v st = (case label_find W v st of None \<Rightarrow> label_push W v st | Some s \<Rightarrow> (s, st))"

definition is_defined :: "'s asm_world \<Rightarrow> nat \<Rightarrow> 's \<Rightarrow> bool" where
  "is_defined W s st \<longleftrightarrow> (case elfsym W s st of None \<Rightarrow> False | Some (shndx, v) \<Rightarrow> shndx \<noteq> 0)"

text \<open>The operands: numbers and local labels, characters, the place of the instruction and names.\<close>

definition local_label :: "'s asm_world \<Rightarrow> bool \<Rightarrow> u64 \<Rightarrow> 's \<Rightarrow> string + nat \<times> 's" where
  "local_label W backward n st =
     (let (label, st) = label_name W (ucast n) st
      in if backward then
           (case (case label_find W label st of None \<Rightarrow> None | Some s \<Rightarrow> if is_defined W s st then Some s else prev_label W s st) of
              None \<Rightarrow> Inl ''local label not found backward''
            | Some s \<Rightarrow> Inr (s, st))
         else
           (case label_find W label st of
              None \<Rightarrow> Inr (label_push W label st)
            | Some s \<Rightarrow> Inr (if is_defined W s st then label_push W label st else (s, st))))"

definition asm_operand :: "'s asm_world \<Rightarrow> asm_tok \<Rightarrow> 's \<Rightarrow> string + expr_value \<times> 's" where
  "asm_operand W t st =
     (case t of
        PPNum s \<Rightarrow>
          (case strtoui64 s of
             (n, []) \<Rightarrow> Inr (\<lparr>ev_v = n, ev_sym = None, ev_pcrel = False\<rparr>, st)
           | (n, c # cs) \<Rightarrow>
               if c = CHR ''b'' \<or> c = CHR ''f'' then
                 ebind (local_label W (c = CHR ''b'') n st) (\<lambda>(s, st). Inr (\<lparr>ev_v = 0, ev_sym = Some s, ev_pcrel = False\<rparr>, st))
               else Inl ''invalid number syntax'')
      | CChar v \<Rightarrow> Inr (\<lparr>ev_v = v, ev_sym = None, ev_pcrel = False\<rparr>, st)
      | Tok t \<Rightarrow>
          if t = 0x2e then
            (let (s, st) = section_sym W st in Inr (\<lparr>ev_v = here W st, ev_sym = Some s, ev_pcrel = False\<rparr>, st))
          else if t \<ge> 256 then
            (let (s, st) = get_asm_sym W t st
             in Inr (case elfsym W s st of
                       Some (shndx, v) \<Rightarrow>
                         if shndx = 0xfff1 then (\<lparr>ev_v = v, ev_sym = None, ev_pcrel = False\<rparr>, st)
                         else (\<lparr>ev_v = 0, ev_sym = Some s, ev_pcrel = False\<rparr>, st)
                     | None \<Rightarrow> (\<lparr>ev_v = 0, ev_sym = Some s, ev_pcrel = False\<rparr>, st)))
          else Inl ''bad expression syntax'')"

text \<open>The binary operations.\<close>

definition is_prod :: "int \<Rightarrow> bool" where "is_prod t \<longleftrightarrow> t \<in> {0x2a, 0x2f, 0x25, 0x3c, 0x3e}"
definition is_logic :: "int \<Rightarrow> bool" where "is_logic t \<longleftrightarrow> t \<in> {0x26, 0x7c, 0x5e}"
definition is_sum :: "int \<Rightarrow> bool" where "is_sum t \<longleftrightarrow> t \<in> {0x2b, 0x2d}"
definition is_cmp :: "int \<Rightarrow> bool" where "is_cmp t \<longleftrightarrow> t = 0x94 \<or> t = 0x95 \<or> 0x96 \<le> t \<and> t \<le> 0x9f"

definition no_label :: "expr_value \<Rightarrow> expr_value \<Rightarrow> string + unit" where
  "no_label pe e2 = (if ev_sym pe \<noteq> None \<or> ev_sym e2 \<noteq> None then Inl ''invalid operation with label'' else Inr ())"

definition prod_op :: "int \<Rightarrow> expr_value \<Rightarrow> expr_value \<Rightarrow> string + expr_value" where
  "prod_op t pe e2 =
     ebind (no_label pe e2) (\<lambda>_.
       let v = ev_v pe; w = ev_v e2
       in if t = 0x2a then Inr (pe\<lparr>ev_v := v * w\<rparr>)
          else if t = 0x2f then (if w = 0 then Inl ''division by zero'' else Inr (pe\<lparr>ev_v := v div w\<rparr>))
          else if t = 0x25 then (if w = 0 then Inl ''division by zero'' else Inr (pe\<lparr>ev_v := v mod w\<rparr>))
          else if t = 0x3c then Inr (pe\<lparr>ev_v := push_bit (unat (w AND 63)) v\<rparr>)
          else Inr (pe\<lparr>ev_v := drop_bit (unat (w AND 63)) v\<rparr>))"

definition logic_op :: "int \<Rightarrow> expr_value \<Rightarrow> expr_value \<Rightarrow> string + expr_value" where
  "logic_op t pe e2 =
     ebind (no_label pe e2) (\<lambda>_.
       Inr (pe\<lparr>ev_v := (if t = 0x26 then ev_v pe AND ev_v e2 else if t = 0x7c then ev_v pe OR ev_v e2 else ev_v pe XOR ev_v e2)\<rparr>))"

definition int_of_u64 :: "u64 \<Rightarrow> u64" where "int_of_u64 v = scast (ucast v :: u32)"

definition sum_op :: "'s asm_world \<Rightarrow> 's \<Rightarrow> int \<Rightarrow> expr_value \<Rightarrow> expr_value \<Rightarrow> string + expr_value" where
  "sum_op W st t pe e2 =
     (if t = 0x2b then
        if ev_sym pe \<noteq> None \<and> ev_sym e2 \<noteq> None then Inl ''invalid operation with label''
        else Inr (pe\<lparr>ev_v := ev_v pe + ev_v e2, ev_sym := (if ev_sym pe = None then ev_sym e2 else ev_sym pe)\<rparr>)
      else
        let pe = pe\<lparr>ev_v := ev_v pe - ev_v e2\<rparr>
        in case ev_sym e2 of
             None \<Rightarrow> Inr pe
           | Some s2 \<Rightarrow>
               if ev_sym pe = Some s2 then Inr (pe\<lparr>ev_sym := None\<rparr>)
               else case elfsym W s2 st of
                      None \<Rightarrow> Inl ''invalid operation with label''
                    | Some (shndx2, value2) \<Rightarrow>
                        (case Option.bind (ev_sym pe) (\<lambda>s1. elfsym W s1 st) of
                           Some (shndx1, value1) \<Rightarrow>
                             if shndx1 = shndx2 \<and> shndx1 \<noteq> 0
                             then Inr (pe\<lparr>ev_v := ev_v pe + int_of_u64 (value1 - value2), ev_sym := None\<rparr>)
                             else if shndx2 = text_num W st then Inr (pe\<lparr>ev_v := ev_v pe + int_of_u64 (0 - value2), ev_pcrel := True\<rparr>)
                             else Inl ''invalid operation with label''
                         | None \<Rightarrow>
                             if shndx2 = text_num W st then Inr (pe\<lparr>ev_v := ev_v pe + int_of_u64 (0 - value2), ev_pcrel := True\<rparr>)
                             else Inl ''invalid operation with label''))"

definition cmp_op :: "int \<Rightarrow> expr_value \<Rightarrow> expr_value \<Rightarrow> string + expr_value" where
  "cmp_op t pe e2 =
     ebind (no_label pe e2) (\<lambda>_.
       let v = ev_v pe; w = ev_v e2;
           r = (if t = 0x94 then of_bool (v = w)
                else if t = 0x95 then of_bool (v \<noteq> w)
                else if t = 0x9c then of_bool (v <s w)
                else if t = 0x9d then of_bool (w \<le>s v)
                else if t = 0x9e then of_bool (v \<le>s w)
                else if t = 0x9f then of_bool (w <s v)
                else v)
       in Inr (pe\<lparr>ev_v := - r\<rparr>))"

text \<open>The loop all four levels share: operators and operands of the level below, combined from the left.\<close>

primrec asm_loop ::
  "nat \<Rightarrow> (int \<Rightarrow> bool) \<Rightarrow> ('s \<Rightarrow> int \<Rightarrow> expr_value \<Rightarrow> expr_value \<Rightarrow> string + expr_value) \<Rightarrow> 's asm_parser \<Rightarrow> expr_value \<Rightarrow> 's asm_parser"
where
  "asm_loop 0 is_op f below pe ts st = None"
| "asm_loop (Suc n) is_op f below pe ts st =
     (case ts of
        Tok t # ts' \<Rightarrow>
          if is_op t then
            abind (below ts' st) (\<lambda>e2 ts st.
              case f st t pe e2 of Inl e \<Rightarrow> Some (Inl e) | Inr pe \<Rightarrow> asm_loop n is_op f below pe ts st)
          else Some (Inr (pe, ts, st))
      | _ \<Rightarrow> Some (Inr (pe, ts, st)))"

definition asm_level ::
  "nat \<Rightarrow> (int \<Rightarrow> bool) \<Rightarrow> ('s \<Rightarrow> int \<Rightarrow> expr_value \<Rightarrow> expr_value \<Rightarrow> string + expr_value) \<Rightarrow> 's asm_parser \<Rightarrow> 's asm_parser"
where
  "asm_level n is_op f below ts st = abind (below ts st) (asm_loop n is_op f below)"

definition asm_expr_prod :: "nat \<Rightarrow> 's asm_parser \<Rightarrow> 's asm_parser" where
  "asm_expr_prod n unary = asm_level n is_prod (\<lambda>_. prod_op) unary"

definition asm_expr_logic :: "nat \<Rightarrow> 's asm_parser \<Rightarrow> 's asm_parser" where
  "asm_expr_logic n unary = asm_level n is_logic (\<lambda>_. logic_op) (asm_expr_prod n unary)"

definition asm_expr_sum :: "nat \<Rightarrow> 's asm_world \<Rightarrow> 's asm_parser \<Rightarrow> 's asm_parser" where
  "asm_expr_sum n W unary = asm_level n is_sum (sum_op W) (asm_expr_logic n unary)"

definition asm_expr_cmp :: "nat \<Rightarrow> 's asm_world \<Rightarrow> 's asm_parser \<Rightarrow> 's asm_parser" where
  "asm_expr_cmp n W unary = asm_level n is_cmp (\<lambda>_. cmp_op) (asm_expr_sum n W unary)"

primrec asm_expr_unary :: "nat \<Rightarrow> 's asm_world \<Rightarrow> 's asm_parser" where
  "asm_expr_unary 0 W ts st = None"
| "asm_expr_unary (Suc n) W ts st =
     (case ts of
        [] \<Rightarrow> Some (Inl ''bad expression syntax'')
      | t # ts \<Rightarrow>
          if t = Tok 0x2b then asm_expr_unary n W ts st
          else if t = Tok 0x2d \<or> t = Tok 0x7e then
            abind (asm_expr_unary n W ts st) (\<lambda>pe ts st.
              if ev_sym pe \<noteq> None then Some (Inl ''invalid operation with label'')
              else Some (Inr (pe\<lparr>ev_v := (if t = Tok 0x2d then - ev_v pe else NOT (ev_v pe))\<rparr>, ts, st)))
          else if t = Tok 0x28 then
            abind (asm_expr_cmp n W (asm_expr_unary n W) ts st) (\<lambda>pe ts st.
              case ts of
                t # ts \<Rightarrow> if t = Tok 0x29 then Some (Inr (pe, ts, st)) else Some (Inl ''closing parenthesis expected'')
              | [] \<Rightarrow> Some (Inl ''closing parenthesis expected''))
          else case asm_operand W t st of Inl e \<Rightarrow> Some (Inl e) | Inr (pe, st) \<Rightarrow> Some (Inr (pe, ts, st)))"

definition asm_expr :: "nat \<Rightarrow> 's asm_world \<Rightarrow> 's asm_parser" where
  "asm_expr n W = asm_expr_cmp n W (asm_expr_unary n W)"

definition asm_int_expr :: "nat \<Rightarrow> 's asm_world \<Rightarrow> 's asm_parser" where
  "asm_int_expr n W ts st =
     abind (asm_expr n W ts st) (\<lambda>e ts st.
       if ev_sym e \<noteq> None then Some (Inl ''constant expected'')
       else if int_of_u64 (ev_v e) \<noteq> ev_v e then Some (Inl ''integer out of range'')
       else Some (Inr (e, ts, st)))"

section \<open>Expression trees\<close>

datatype aexp = Operand asm_tok | Plus aexp | Minus aexp | Complement aexp | Binary int aexp aexp

text \<open>The levels of the operators, the tightest first; 5 for what is no operator.\<close>

definition op_level :: "int \<Rightarrow> nat" where
  "op_level t = (if is_prod t then 1 else if is_logic t then 2 else if is_sum t then 3 else if is_cmp t then 4 else 5)"

definition apply_op :: "'s asm_world \<Rightarrow> nat \<Rightarrow> 's \<Rightarrow> int \<Rightarrow> expr_value \<Rightarrow> expr_value \<Rightarrow> string + expr_value" where
  "apply_op W k st = (if k = 1 then prod_op else if k = 2 then logic_op else if k = 3 then sum_op W st else cmp_op)"

primrec aexp_ok :: "aexp \<Rightarrow> bool" where
  "aexp_ok (Operand t) \<longleftrightarrow> t \<notin> {Tok 0x2b, Tok 0x2d, Tok 0x7e, Tok 0x28}"
| "aexp_ok (Plus a) \<longleftrightarrow> aexp_ok a"
| "aexp_ok (Minus a) \<longleftrightarrow> aexp_ok a"
| "aexp_ok (Complement a) \<longleftrightarrow> aexp_ok a"
| "aexp_ok (Binary t a b) \<longleftrightarrow> op_level t \<le> 4 \<and> aexp_ok a \<and> aexp_ok b"

primrec aexp_level :: "aexp \<Rightarrow> nat" where
  "aexp_level (Operand t) = 0"
| "aexp_level (Plus a) = 0"
| "aexp_level (Minus a) = 0"
| "aexp_level (Complement a) = 0"
| "aexp_level (Binary t a b) = op_level t"

text \<open>The value of a tree, operands from left to right, and its tokens with as few parentheses as the levels allow.\<close>

definition negate :: "(u64 \<Rightarrow> u64) \<Rightarrow> expr_value \<times> 's \<Rightarrow> string + expr_value \<times> 's" where
  "negate f = (\<lambda>(v, st). if ev_sym v \<noteq> None then Inl ''invalid operation with label'' else Inr (v\<lparr>ev_v := f (ev_v v)\<rparr>, st))"

primrec aexp_value :: "'s asm_world \<Rightarrow> aexp \<Rightarrow> 's \<Rightarrow> string + expr_value \<times> 's" where
  "aexp_value W (Operand t) st = asm_operand W t st"
| "aexp_value W (Plus a) st = aexp_value W a st"
| "aexp_value W (Minus a) st = ebind (aexp_value W a st) (negate uminus)"
| "aexp_value W (Complement a) st = ebind (aexp_value W a st) (negate NOT)"
| "aexp_value W (Binary t a b) st =
     ebind (aexp_value W a st) (\<lambda>(v, st). ebind (aexp_value W b st) (\<lambda>(w, st).
       ebind (apply_op W (op_level t) st t v w) (\<lambda>v. Inr (v, st))))"

definition parens :: "bool \<Rightarrow> asm_tok list \<Rightarrow> asm_tok list" where
  "parens b ts = (if b then Tok 0x28 # ts @ [Tok 0x29] else ts)"

primrec aexp_tokens :: "nat \<Rightarrow> aexp \<Rightarrow> asm_tok list" where
  "aexp_tokens k (Operand t) = [t]"
| "aexp_tokens k (Plus a) = Tok 0x2b # aexp_tokens 0 a"
| "aexp_tokens k (Minus a) = Tok 0x2d # aexp_tokens 0 a"
| "aexp_tokens k (Complement a) = Tok 0x7e # aexp_tokens 0 a"
| "aexp_tokens k (Binary t a b) =
     parens (k < op_level t) (aexp_tokens (op_level t) a @ Tok t # aexp_tokens (op_level t - 1) b)"

text \<open>The parser of each level, with its loop.\<close>

definition is_op :: "nat \<Rightarrow> int \<Rightarrow> bool" where
  "is_op k t \<longleftrightarrow> (if k = 1 then is_prod t else if k = 2 then is_logic t else if k = 3 then is_sum t else is_cmp t)"

primrec parser :: "'s asm_world \<Rightarrow> nat \<Rightarrow> nat \<Rightarrow> 's asm_parser" where
  "parser W 0 n = asm_expr_unary n W"
| "parser W (Suc k) n = asm_level n (is_op (Suc k)) (apply_op W (Suc k)) (parser W k n)"

lemma parser_4: "parser W 4 n = asm_expr n W"
proof -
  have n: "(4::nat) = Suc (Suc (Suc (Suc 0)))" by simp
  have e: "is_op (Suc 0) = is_prod" "is_op (Suc (Suc 0)) = is_logic" "is_op (Suc (Suc (Suc 0))) = is_sum"
    "is_op (Suc (Suc (Suc (Suc 0)))) = is_cmp" by (auto simp: is_op_def fun_eq_iff)
  have a: "apply_op W (Suc 0) = (\<lambda>_. prod_op)" "apply_op W (Suc (Suc 0)) = (\<lambda>_. logic_op)"
    "apply_op W (Suc (Suc (Suc 0))) = sum_op W" "apply_op W (Suc (Suc (Suc (Suc 0)))) = (\<lambda>_. cmp_op)"
    by (auto simp: apply_op_def fun_eq_iff)
  show ?thesis unfolding n parser.simps e a asm_expr_def asm_expr_cmp_def asm_expr_sum_def asm_expr_logic_def asm_expr_prod_def ..
qed

lemma is_op_level: "1 \<le> k \<Longrightarrow> k \<le> 4 \<Longrightarrow> is_op k t \<longleftrightarrow> op_level t = k"
  by (auto simp: is_op_def op_level_def is_prod_def is_logic_def is_sum_def is_cmp_def split: if_splits)

lemma op_level_pos: "1 \<le> op_level t"
  by (simp add: op_level_def)

lemma op_level_other: "op_level 0x29 = 5" "op_level 0x28 = 5"
  by (simp_all add: op_level_def is_prod_def is_logic_def is_sum_def is_cmp_def)

section \<open>Runs with enough fuel\<close>

definition runs :: "(nat \<Rightarrow> 's asm_res) \<Rightarrow> string + expr_value \<times> asm_tok list \<times> 's \<Rightarrow> bool" where
  "runs f r \<longleftrightarrow> (\<exists>N. \<forall>n\<ge>N. f n = Some r)"

definition loop_runs :: "'s asm_world \<Rightarrow> nat \<Rightarrow> expr_value \<Rightarrow> asm_tok list \<Rightarrow> 's \<Rightarrow> string + expr_value \<times> asm_tok list \<times> 's \<Rightarrow> bool" where
  "loop_runs W k v ts st r \<longleftrightarrow>
     (\<exists>N. \<forall>n\<ge>N. \<forall>m\<ge>N. asm_loop m (is_op (Suc k)) (apply_op W (Suc k)) (parser W k n) v ts st = Some r)"

lemma abind_simps [simp]:
  "abind None f = None" "abind (Some (Inl e)) f = Some (Inl e)" "abind (Some (Inr (v, ts, st))) f = f v ts st"
  by (simp_all add: abind_def)

lemma runs_Suc: "runs (\<lambda>n. f (Suc n)) r \<Longrightarrow> runs f r"
  unfolding runs_def by (metis Suc_le_D Suc_le_mono)

lemma runs_const: "(\<And>n. f n = Some r) \<Longrightarrow> runs f r"
  by (simp add: runs_def)

lemma runs_error: "runs f (Inl e) \<Longrightarrow> runs (\<lambda>n. abind (f n) (g n)) (Inl e)"
  unfolding runs_def by (metis abind_simps(2))

lemma runs_bind:
  assumes "runs f (Inr (v, ts, st))" "runs (\<lambda>n. g n v ts st) r"
  shows "runs (\<lambda>n. abind (f n) (g n)) r"
proof -
  obtain N M where "\<forall>n\<ge>N. f n = Some (Inr (v, ts, st))" "\<forall>n\<ge>M. g n v ts st = Some r" using assms by (auto simp: runs_def)
  then show ?thesis unfolding runs_def by (intro exI [of _ "max N M"]) simp
qed

lemma runs_then:
  assumes "runs f (case val of Inl e \<Rightarrow> Inl e | Inr (v, st) \<Rightarrow> Inr (v, ts, st))"
    and "\<And>e. val = Inl e \<Longrightarrow> r = Inl e" "\<And>v st n. val = Inr (v, st) \<Longrightarrow> g n v ts st = Some r"
  shows "runs (\<lambda>n. abind (f n) (g n)) r"
proof (cases val)
  case (Inl e)
  then show ?thesis using assms(1,2) runs_error [of f e g] by simp
next
  case (Inr vs)
  obtain v st where v: "val = Inr (v, st)" using Inr by (cases vs) simp
  then have "runs f (Inr (v, ts, st))" using assms(1) by simp
  then show ?thesis by (rule runs_bind) (rule runs_const, rule assms(3) [OF v])
qed

lemma runs_level:
  assumes "runs (\<lambda>n. parser W k n ts st) (Inr (v, ts', st'))" "loop_runs W k v ts' st' r"
  shows "runs (\<lambda>n. parser W (Suc k) n ts st) r"
proof -
  have "runs (\<lambda>n. asm_loop n (is_op (Suc k)) (apply_op W (Suc k)) (parser W k n) v ts' st') r"
    using assms(2) unfolding loop_runs_def runs_def by blast
  then show ?thesis unfolding parser.simps asm_level_def by (rule runs_bind [OF assms(1)])
qed

lemma runs_level_error: "runs (\<lambda>n. parser W k n ts st) (Inl e) \<Longrightarrow> runs (\<lambda>n. parser W (Suc k) n ts st) (Inl e)"
  unfolding parser.simps asm_level_def by (rule runs_error)

declare parser.simps [simp del]

definition no_op :: "nat \<Rightarrow> asm_tok list \<Rightarrow> bool" where
  "no_op k ts \<longleftrightarrow> (\<forall>t ts'. ts = Tok t # ts' \<longrightarrow> k < op_level t)"

lemma loop_stops:
  assumes "no_op (Suc k) ts" "k < 4"
  shows "loop_runs W k v ts st (Inr (v, ts, st))"
proof -
  have "asm_loop (Suc m) (is_op (Suc k)) (apply_op W (Suc k)) p v ts st = Some (Inr (v, ts, st))" for m p
    using assms is_op_level [of "Suc k"] by (auto simp: no_op_def split: list.split asm_tok.split)
  then show ?thesis unfolding loop_runs_def by (metis Suc_le_D)
qed

lemma loop_step:
  assumes "op_level t = Suc k" "k < 4" "runs (\<lambda>n. parser W k n ts st) (Inr (w, ts', st'))"
    and "case apply_op W (Suc k) st' t v w of Inl e \<Rightarrow> r = Inl e | Inr v' \<Rightarrow> loop_runs W k v' ts' st' r"
  shows "loop_runs W k v (Tok t # ts) st r"
proof -
  have o: "is_op (Suc k) t" using assms(1,2) is_op_level [of "Suc k"] by simp
  obtain N where N: "\<forall>n\<ge>N. parser W k n ts st = Some (Inr (w, ts', st'))" using assms(3) by (auto simp: runs_def)
  show ?thesis
  proof (cases "apply_op W (Suc k) st' t v w")
    case (Inl e)
    have "\<forall>n\<ge>N. \<forall>m\<ge>Suc N. asm_loop m (is_op (Suc k)) (apply_op W (Suc k)) (parser W k n) v (Tok t # ts) st = Some r"
    proof (intro allI impI)
      fix n m assume "N \<le> n" "Suc N \<le> m"
      then obtain j where "m = Suc j" by (auto dest: Suc_le_D)
      then show "asm_loop m (is_op (Suc k)) (apply_op W (Suc k)) (parser W k n) v (Tok t # ts) st = Some r"
        using Inl N o \<open>N \<le> n\<close> assms(4) by simp
    qed
    then show ?thesis unfolding loop_runs_def by (intro exI [of _ "Suc N"]) simp
  next
    case (Inr v')
    then obtain M where M: "\<forall>n\<ge>M. \<forall>m\<ge>M. asm_loop m (is_op (Suc k)) (apply_op W (Suc k)) (parser W k n) v' ts' st' = Some r"
      using assms(4) by (auto simp: loop_runs_def)
    have "\<forall>n\<ge>max N M. \<forall>m\<ge>Suc M. asm_loop m (is_op (Suc k)) (apply_op W (Suc k)) (parser W k n) v (Tok t # ts) st = Some r"
    proof (intro allI impI)
      fix n m assume a: "max N M \<le> n" "Suc M \<le> m"
      then obtain j where "m = Suc j" "M \<le> j" by (auto dest: Suc_le_D)
      then show "asm_loop m (is_op (Suc k)) (apply_op W (Suc k)) (parser W k n) v (Tok t # ts) st = Some r"
        using Inr N M o a by simp
    qed
    then show ?thesis unfolding loop_runs_def by (intro exI [of _ "max N (Suc M)"]) simp
  qed
qed

lemma loop_error:
  assumes "op_level t = Suc k" "k < 4" "runs (\<lambda>n. parser W k n ts st) (Inl e)"
  shows "loop_runs W k v (Tok t # ts) st (Inl e)"
proof -
  have o: "is_op (Suc k) t" using assms(1,2) is_op_level [of "Suc k"] by simp
  obtain N where N: "\<forall>n\<ge>N. parser W k n ts st = Some (Inl e)" using assms(3) by (auto simp: runs_def)
  have "\<forall>n\<ge>N. \<forall>m\<ge>Suc N. asm_loop m (is_op (Suc k)) (apply_op W (Suc k)) (parser W k n) v (Tok t # ts) st = Some (Inl e)"
    using N o by (auto dest!: Suc_le_D)
  then show ?thesis unfolding loop_runs_def by (intro exI [of _ "Suc N"]) simp
qed

section \<open>Parsing what was printed\<close>

definition parses :: "'s asm_world \<Rightarrow> nat \<Rightarrow> asm_tok list \<Rightarrow> asm_tok list \<Rightarrow> 's \<Rightarrow> string + expr_value \<times> 's \<Rightarrow> bool" where
  "parses W k ts rest st val \<longleftrightarrow>
     runs (\<lambda>n. parser W k n (ts @ rest) st) (case val of Inl e \<Rightarrow> Inl e | Inr (v, st) \<Rightarrow> Inr (v, rest, st))"

definition goes_on :: "'s asm_world \<Rightarrow> nat \<Rightarrow> asm_tok list \<Rightarrow> asm_tok list \<Rightarrow> 's \<Rightarrow> string + expr_value \<times> 's \<Rightarrow> bool" where
  "goes_on W k ts rest st val \<longleftrightarrow>
     (\<forall>r. (case val of Inl e \<Rightarrow> r = Inl e | Inr (v, st') \<Rightarrow> loop_runs W k v rest st' r) \<longrightarrow>
        runs (\<lambda>n. parser W (Suc k) n (ts @ rest) st) r)"

lemma parses_goes_on: "parses W k ts rest st val \<Longrightarrow> goes_on W k ts rest st val"
  using runs_level [of W k "ts @ rest" st] runs_level_error [of W k "ts @ rest" st]
  by (auto simp: parses_def goes_on_def split: sum.splits)

lemma goes_on_parses: "goes_on W k ts rest st val \<Longrightarrow> no_op (Suc k) rest \<Longrightarrow> k < 4 \<Longrightarrow> parses W (Suc k) ts rest st val"
  using loop_stops [of k rest W] by (auto simp: parses_def goes_on_def split: sum.splits)

lemma no_op_less: "no_op k ts \<Longrightarrow> j \<le> k \<Longrightarrow> no_op j ts"
  by (auto simp: no_op_def)

lemma no_op_0 [simp]: "no_op 0 ts"
  by (simp add: no_op_def op_level_def)

lemma climb:
  assumes "parses W j ts rest st val" "j \<le> k" "k \<le> 4" "no_op k rest"
  shows "parses W k ts rest st val"
  using assms(2-4)
proof (induction k)
  case (Suc k)
  show ?case
  proof (cases "j = Suc k")
    case False
    then have "parses W k ts rest st val" using Suc no_op_less [of "Suc k" rest k] by simp
    then show ?thesis by (intro goes_on_parses parses_goes_on) (use Suc.prems in simp_all)
  qed (use assms(1) in simp)
qed (use assms(1) in simp)

definition good :: "'s asm_world \<Rightarrow> aexp \<Rightarrow> bool" where
  "good W e \<longleftrightarrow>
     (\<forall>k rest st. k \<le> 4 \<longrightarrow> no_op k rest \<longrightarrow> parses W k (aexp_tokens k e) rest st (aexp_value W e st)) \<and>
     (\<forall>k rest st. k < 4 \<longrightarrow> no_op k rest \<longrightarrow> goes_on W k (aexp_tokens (Suc k) e) rest st (aexp_value W e st))"

lemma good_atom:
  assumes "\<And>rest st. parses W 0 (aexp_tokens 0 e) rest st (aexp_value W e st)" "\<And>k. aexp_tokens k e = aexp_tokens 0 e"
  shows "good W e"
proof -
  have p: "parses W k (aexp_tokens k e) rest st (aexp_value W e st)" if "k \<le> 4" "no_op k rest" for k rest st
    using climb [OF assms(1) _ that] assms(2) [of k] by simp
  have "goes_on W k (aexp_tokens (Suc k) e) rest st (aexp_value W e st)" if "k < 4" "no_op k rest" for k rest st
    using parses_goes_on [OF p [of k rest st]] that assms(2) [of k] assms(2) [of "Suc k"] by simp
  with p show ?thesis unfolding good_def by blast
qed

lemma parses_unary:
  assumes "\<And>n. asm_expr_unary (Suc n) W (ts @ rest) st = f n"
    and "runs f (case val of Inl e \<Rightarrow> Inl e | Inr (v, st) \<Rightarrow> Inr (v, rest, st))"
  shows "parses W 0 ts rest st val"
  unfolding parses_def parser.simps by (rule runs_Suc) (simp only: assms)

lemma good_0:
  assumes "good W a"
  shows "runs (\<lambda>n. asm_expr_unary n W (aexp_tokens 0 a @ rest) st)
    (case aexp_value W a st of Inl e \<Rightarrow> Inl e | Inr (v, st) \<Rightarrow> Inr (v, rest, st))"
proof -
  have "parses W 0 (aexp_tokens 0 a) rest st (aexp_value W a st)" using assms by (simp add: good_def)
  then show ?thesis unfolding parses_def parser.simps .
qed

lemma good_sign:
  assumes "good W a" "t = Tok 0x2d \<or> t = Tok 0x7e" "\<And>k. aexp_tokens k e = t # aexp_tokens 0 a"
    and "\<And>st. aexp_value W e st = ebind (aexp_value W a st) (negate (\<lambda>x. if t = Tok 0x2d then - x else NOT x))"
  shows "good W e"
proof (rule good_atom)
  fix rest st
  let ?g = "\<lambda>pe ts st. if ev_sym pe \<noteq> None then Some (Inl ''invalid operation with label'')
    else Some (Inr (pe\<lparr>ev_v := (if t = Tok 0x2d then - ev_v pe else NOT (ev_v pe))\<rparr>, ts, st))"
  have a: "runs (\<lambda>n. asm_expr_unary n W (aexp_tokens 0 a @ rest) st)
      (case aexp_value W a st of Inl e \<Rightarrow> Inl e | Inr (v, st) \<Rightarrow> Inr (v, rest, st))"
    using good_0 [OF assms(1)] .
  show "parses W 0 (aexp_tokens 0 e) rest st (aexp_value W e st)"
  proof (rule parses_unary)
    have t: "t \<noteq> Tok 0x2b" "t = Tok 0x2d \<or> t = Tok 0x7e" using assms(2) by auto
    show "asm_expr_unary (Suc n) W (aexp_tokens 0 e @ rest) st = abind (asm_expr_unary n W (aexp_tokens 0 a @ rest) st) ?g" for n
      unfolding assms(3) append_Cons asm_expr_unary.simps list.case if_not_P [OF t(1)] if_P [OF t(2)] ..
    show "runs (\<lambda>n. abind (asm_expr_unary n W (aexp_tokens 0 a @ rest) st) ?g)
        (case aexp_value W e st of Inl e \<Rightarrow> Inl e | Inr (v, st) \<Rightarrow> Inr (v, rest, st))"
      by (rule runs_then [OF a]) (simp_all add: assms(4) negate_def)
  qed
qed (simp add: assms(3))

lemma good_binary:
  assumes "op_level t \<le> 4" "good W a" "good W b"
  shows "good W (Binary t a b)"
proof -
  let ?e = "Binary t a b"
  obtain l where l: "op_level t = Suc l" "l < 4" using op_level_pos [of t] assms(1) by (cases "op_level t") auto
  let ?raw = "aexp_tokens (Suc l) a @ Tok t # aexp_tokens l b"
  have tk: "aexp_tokens k ?e = parens (k < Suc l) ?raw" for k using l by simp
  have raw: "goes_on W l ?raw rest st (aexp_value W ?e st)" if r: "no_op l rest" for rest st
  proof -
    have n: "no_op l (Tok t # aexp_tokens l b @ rest)" using l by (simp add: no_op_def)
    have a: "goes_on W l (aexp_tokens (Suc l) a) (Tok t # aexp_tokens l b @ rest) st (aexp_value W a st)"
      using assms(2) l(2) n by (simp add: good_def)
    show ?thesis
    proof (cases "aexp_value W a st")
      case (Inl e)
      then show ?thesis using a by (simp add: goes_on_def)
    next
      case (Inr vs)
      obtain v st1 where v: "aexp_value W a st = Inr (v, st1)" using Inr by (cases vs) simp
      have b: "parses W l (aexp_tokens l b) rest st1 (aexp_value W b st1)" using assms(3) l(2) r by (simp add: good_def)
      show ?thesis
      proof (cases "aexp_value W b st1")
        case (Inl e)
        have "loop_runs W l v (Tok t # aexp_tokens l b @ rest) st1 (Inl e)"
          by (rule loop_error [OF l]) (use b Inl in \<open>simp add: parses_def\<close>)
        then show ?thesis using a v Inl by (simp add: goes_on_def)
      next
        case (Inr ws)
        obtain w st2 where w: "aexp_value W b st1 = Inr (w, st2)" using Inr by (cases ws) simp
        have s: "loop_runs W l v (Tok t # aexp_tokens l b @ rest) st1 r"
          if "case apply_op W (Suc l) st2 t v w of Inl e \<Rightarrow> r = Inl e | Inr v' \<Rightarrow> loop_runs W l v' rest st2 r" for r
          by (rule loop_step [OF l _ that]) (use b w in \<open>simp add: parses_def\<close>)
        show ?thesis using a v w s l(1) by (cases "apply_op W (Suc l) st2 t v w") (auto simp: goes_on_def)
      qed
    qed
  qed
  have raw_parses: "parses W k ?raw rest st (aexp_value W ?e st)" if "Suc l \<le> k" "k \<le> 4" "no_op k rest" for k rest st
    using climb [OF goes_on_parses [OF raw] that(1)] that l no_op_less [OF that(3), of l] no_op_less [OF that(3), of "Suc l"] by simp
  have in_parens: "parses W 0 (parens True ?raw) rest st (aexp_value W ?e st)" for rest st
  proof (rule parses_unary)
    let ?g = "\<lambda>pe ts st. case ts of
        t # ts \<Rightarrow> if t = Tok 0x29 then Some (Inr (pe, ts, st)) else Some (Inl ''closing parenthesis expected'')
      | [] \<Rightarrow> Some (Inl ''closing parenthesis expected'')"
    show "asm_expr_unary (Suc n) W (parens True ?raw @ rest) st = abind (asm_expr n W (?raw @ Tok 0x29 # rest) st) ?g" for n
      by (simp add: parens_def asm_expr_def)
    have "parses W 4 ?raw (Tok 0x29 # rest) st (aexp_value W ?e st)"
      by (rule raw_parses) (use l in \<open>simp_all add: no_op_def op_level_other\<close>)
    then have "runs (\<lambda>n. asm_expr n W (?raw @ Tok 0x29 # rest) st)
        (case aexp_value W ?e st of Inl e \<Rightarrow> Inl e | Inr (v, st) \<Rightarrow> Inr (v, Tok 0x29 # rest, st))"
      unfolding parses_def parser_4 .
    then show "runs (\<lambda>n. abind (asm_expr n W (?raw @ Tok 0x29 # rest) st) ?g)
        (case aexp_value W ?e st of Inl e \<Rightarrow> Inl e | Inr (v, st) \<Rightarrow> Inr (v, rest, st))"
      by (rule runs_then) (simp_all del: aexp_value.simps)
  qed
  have p: "parses W k (aexp_tokens k ?e) rest st (aexp_value W ?e st)" if "k \<le> 4" "no_op k rest" for k rest st
  proof (cases "k < Suc l")
    case True
    then show ?thesis unfolding tk using climb [OF in_parens _ that] by simp
  next
    case False
    then show ?thesis unfolding tk using raw_parses that by (simp add: parens_def)
  qed
  have "goes_on W k (aexp_tokens (Suc k) ?e) rest st (aexp_value W ?e st)" if g: "k < 4" "no_op k rest" for k rest st
  proof (cases "k = l")
    case True
    then show ?thesis unfolding tk using raw g by (simp add: parens_def)
  next
    case False
    then have "(Suc k < Suc l) = (k < Suc l)" by auto
    then have "aexp_tokens (Suc k) ?e = aexp_tokens k ?e" unfolding tk by simp
    then show ?thesis using parses_goes_on [OF p [of k rest st]] g by simp
  qed
  with p show ?thesis unfolding good_def by blast
qed

lemma good_all: "aexp_ok e \<Longrightarrow> good W e"
proof (induction e)
  case (Operand t)
  show ?case
  proof (rule good_atom)
    show "parses W 0 (aexp_tokens 0 (Operand t)) rest st (aexp_value W (Operand t) st)" for rest st
    proof (rule parses_unary)
      have t: "t \<noteq> Tok 0x2b" "\<not> (t = Tok 0x2d \<or> t = Tok 0x7e)" "t \<noteq> Tok 0x28" using Operand by simp_all
      show "asm_expr_unary (Suc n) W (aexp_tokens 0 (Operand t) @ rest) st =
          (case asm_operand W t st of Inl e \<Rightarrow> Some (Inl e) | Inr (pe, st) \<Rightarrow> Some (Inr (pe, rest, st)))" for n
        unfolding aexp_tokens.simps append_Cons append_Nil asm_expr_unary.simps list.case
          if_not_P [OF t(1)] if_not_P [OF t(2)] if_not_P [OF t(3)] ..
      show "runs (\<lambda>n. case asm_operand W t st of Inl e \<Rightarrow> Some (Inl e) | Inr (pe, st) \<Rightarrow> Some (Inr (pe, rest, st)))
          (case aexp_value W (Operand t) st of Inl e \<Rightarrow> Inl e | Inr (v, st) \<Rightarrow> Inr (v, rest, st))"
        by (rule runs_const) (simp split: sum.splits prod.splits)
    qed
  qed simp
next
  case (Plus a)
  show ?case
  proof (rule good_atom)
    fix rest st
    have "runs (\<lambda>n. asm_expr_unary n W (aexp_tokens 0 a @ rest) st)
        (case aexp_value W a st of Inl e \<Rightarrow> Inl e | Inr (v, st) \<Rightarrow> Inr (v, rest, st))"
      using good_0 [OF Plus.IH] Plus.prems by simp
    then show "parses W 0 (aexp_tokens 0 (Plus a)) rest st (aexp_value W (Plus a) st)"
      by (intro parses_unary [where f = "\<lambda>n. asm_expr_unary n W (aexp_tokens 0 a @ rest) st"]) simp_all
  qed simp
next
  case (Minus a)
  show ?case
    by (rule good_sign [where t = "Tok 0x2d" and a = a]) (use Minus in simp_all)
next
  case (Complement a)
  show ?case
    by (rule good_sign [where t = "Tok 0x7e" and a = a]) (use Complement in simp_all)
next
  case (Binary t a b)
  then show ?case by (simp add: good_binary)
qed


text \<open>A world for the examples: label 300 is defined in section 1 at 0x40, label 301 at 0x58, and no other is known.\<close>

definition asm_demo :: "int list asm_world" where
  "asm_demo = \<lparr>label_name = (\<lambda>n st. (1000 + uint n, st)), label_find = (\<lambda>v st. if v = 300 then Some 0 else if v = 301 then Some 1 else None),
     label_push = (\<lambda>v st. (length st + 2, st @ [v])), prev_label = (\<lambda>_ _. None),
     elfsym = (\<lambda>s st. if s = 0 then Some (1, 0x40) else if s = 1 then Some (1, 0x58) else None),
     section_sym = (\<lambda>st. (99, st)), here = (\<lambda>_. 0x60), text_num = (\<lambda>_. 1)\<rparr>"

definition asm_demo_expr :: aexp where
  "asm_demo_expr =
     Binary 0x2d (Binary 0x2b (Operand (PPNum ''0x10'')) (Binary 0x2a (Binary 0x2d (Operand (Tok 301)) (Operand (Tok 300)))
       (Minus (Operand (PPNum ''2''))))) (Binary 0x7c (Operand (PPNum ''8'')) (Operand (CChar 3)))"


text \<open>
  The sum drops the mark of a difference with the place of the instruction when the difference is its right operand:
  4 + (foo - l) is relocated as an absolute address, (foo - l) + 4 as a relative one (l a label of the section).
\<close>

lemma pcrel_lost:
  "aexp_value asm_demo (Binary 0x2b (Operand (PPNum ''4'')) (Binary 0x2d (Operand (Tok 302)) (Operand (Tok 300)))) [] =
     Inr (\<lparr>ev_v = - 60, ev_sym = Some 2, ev_pcrel = False\<rparr>, [302])"
  "aexp_value asm_demo (Binary 0x2b (Binary 0x2d (Operand (Tok 302)) (Operand (Tok 300))) (Operand (PPNum ''4''))) [] =
     Inr (\<lparr>ev_v = - 60, ev_sym = Some 2, ev_pcrel = True\<rparr>, [302])"
  by code_simp+

section \<open>Every input\<close>

definition ends :: "(nat \<Rightarrow> 's asm_res) \<Rightarrow> nat \<Rightarrow> bool" where
  "ends f l \<longleftrightarrow> (\<exists>r. runs f r \<and> (\<forall>v ts st. r = Inr (v, ts, st) \<longrightarrow> length ts < l))"

lemma ends_bind:
  assumes "ends f l" "\<And>v ts st. length ts < l \<Longrightarrow> ends (\<lambda>n. g n v ts st) l'"
  shows "ends (\<lambda>n. abind (f n) (g n)) l'"
proof -
  obtain r where r: "runs f r" "\<And>v ts st. r = Inr (v, ts, st) \<Longrightarrow> length ts < l" using assms(1) by (auto simp: ends_def)
  show ?thesis
  proof (cases r)
    case (Inl e)
    then show ?thesis using r(1) runs_error [of f e g] by (auto simp: ends_def)
  next
    case (Inr vt)
    obtain v ts st where v: "r = Inr (v, ts, st)" using Inr by (cases vt) auto
    obtain r' where r': "runs (\<lambda>n. g n v ts st) r'" "\<And>v ts st. r' = Inr (v, ts, st) \<Longrightarrow> length ts < l'"
      using assms(2) [OF r(2) [OF v]] unfolding ends_def by blast
    have "runs (\<lambda>n. abind (f n) (g n)) r'" using r(1) v r'(1) by (auto intro: runs_bind)
    then show ?thesis using r'(2) by (auto simp: ends_def)
  qed
qed

lemma ends_Suc: "ends (\<lambda>n. f (Suc n)) l \<Longrightarrow> ends f l"
  using runs_Suc by (auto simp: ends_def)

lemma ends_const: "(\<And>v ts st. r = Inr (v, ts, st) \<Longrightarrow> length ts < l) \<Longrightarrow> ends (\<lambda>_. Some r) l"
  by (auto simp: ends_def runs_def)

lemma ends_less: "ends f l \<Longrightarrow> l \<le> l' \<Longrightarrow> ends f l'"
  by (fastforce simp: ends_def)

lemma loop_ends:
  assumes "\<And>ts st. length ts < l \<Longrightarrow> ends (\<lambda>n. parser W k n ts st) (length ts)" "k < 4" "length ts \<le> l"
  shows "\<exists>r. loop_runs W k v ts st r \<and> (\<forall>v ts' st. r = Inr (v, ts', st) \<longrightarrow> length ts' \<le> length ts)"
  using assms(3)
proof (induction "length ts" arbitrary: ts st v rule: less_induct)
  case less
  show ?case
  proof (cases "\<exists>t ts'. ts = Tok t # ts' \<and> op_level t = Suc k")
    case False
    have "asm_loop (Suc m) (is_op (Suc k)) (apply_op W (Suc k)) p v ts st = Some (Inr (v, ts, st))" for m p
      using assms(2) is_op_level [of "Suc k"] False by (auto split: list.split asm_tok.split)
    then have "loop_runs W k v ts st (Inr (v, ts, st))" unfolding loop_runs_def by (metis Suc_le_D)
    then show ?thesis by auto
  next
    case True
    then obtain t ts' where t: "ts = Tok t # ts'" "op_level t = Suc k" by blast
    obtain r where r: "runs (\<lambda>n. parser W k n ts' st) r" "\<And>v ts st. r = Inr (v, ts, st) \<Longrightarrow> length ts < length ts'"
      using assms(1) [of ts' st] less.prems t(1) by (auto simp: ends_def)
    show ?thesis
    proof (cases r)
      case (Inl e)
      then show ?thesis using loop_error [OF t(2) assms(2)] r(1) t(1) by (intro exI [of _ "Inl e"]) simp
    next
      case (Inr wt)
      obtain w ts2 st2 where w: "r = Inr (w, ts2, st2)" using Inr by (cases wt) auto
      have len: "length ts2 < length ts" using r(2) [OF w] t(1) by simp
      show ?thesis
      proof (cases "apply_op W (Suc k) st2 t v w")
        case (Inl e)
        then show ?thesis using loop_step [OF t(2) assms(2), where W = W and ts = ts' and st = st and w = w and ts' = ts2 and st' = st2 and v = v and r = "Inl e"] r(1) w t(1)
          by (intro exI [of _ "Inl e"]) simp
      next
        case (Inr v')
        obtain r' where r': "loop_runs W k v' ts2 st2 r'" "\<And>v ts st. r' = Inr (v, ts, st) \<Longrightarrow> length ts \<le> length ts2"
          using less.hyps [OF len, where v = v' and st = st2] less.prems len by auto
        have "loop_runs W k v ts st r'"
          using loop_step [OF t(2) assms(2), where W = W and ts = ts' and st = st and w = w and ts' = ts2 and st' = st2 and v = v and r = r'] r(1) w Inr r'(1) t(1) by simp
        then show ?thesis using r'(2) len by (intro exI [of _ r']) fastforce
      qed
    qed
  qed
qed

lemma level_ends:
  assumes "\<And>ts st. length ts < l \<Longrightarrow> ends (\<lambda>n. parser W k n ts st) (length ts)" "k < 4" "ends (\<lambda>n. parser W k n ts st) l"
    and "l = length ts"
  shows "ends (\<lambda>n. parser W (Suc k) n ts st) l"
proof -
  obtain r where r: "runs (\<lambda>n. parser W k n ts st) r" "\<And>v ts st. r = Inr (v, ts, st) \<Longrightarrow> length ts < l"
    using assms(3) by (auto simp: ends_def)
  show ?thesis
  proof (cases r)
    case (Inl e)
    then show ?thesis using runs_level_error [of W k ts st e] r(1) by (auto simp: ends_def)
  next
    case (Inr vt)
    obtain v ts1 st1 where v: "r = Inr (v, ts1, st1)" using Inr by (cases vt) auto
    have len: "length ts1 < l" by (rule r(2) [OF v])
    obtain r' where r': "loop_runs W k v ts1 st1 r'" "\<And>v ts st. r' = Inr (v, ts, st) \<Longrightarrow> length ts \<le> length ts1"
      using loop_ends [where l = l, OF assms(1,2), where ts = ts1 and v = v and st = st1] len by auto
    have "runs (\<lambda>n. parser W (Suc k) n ts st) r'" using runs_level r(1) v r'(1) by metis
    then show ?thesis unfolding ends_def using r'(2) len by (intro exI [of _ r']) fastforce
  qed
qed

lemma unary_ends:
  assumes "\<And>k ts' st. k \<le> 4 \<Longrightarrow> length ts' < length ts \<Longrightarrow> ends (\<lambda>n. parser W k n ts' st) (length ts')"
  shows "ends (\<lambda>n. parser W 0 n ts st) (length ts)"
proof (cases ts)
  case Nil
  have "ends (\<lambda>n. asm_expr_unary (Suc n) W ts st) (length ts)"
    unfolding Nil asm_expr_unary.simps list.case by (rule ends_const) simp
  then show ?thesis unfolding parser.simps by (rule ends_Suc)
next
  case (Cons t ts')
  have u: "ends (\<lambda>n. asm_expr_unary n W ts' st) (length ts')" using assms [of 0 ts' st] Cons by (simp add: parser.simps)
  have e: "ends (\<lambda>n. asm_expr_cmp n W (asm_expr_unary n W) ts' st) (length ts')"
    using assms [of 4 ts' st] Cons by (simp add: parser_4 asm_expr_def)
  consider "t = Tok 0x2b" | "t \<noteq> Tok 0x2b" "t = Tok 0x2d \<or> t = Tok 0x7e" | "t \<noteq> Tok 0x2b" "\<not> (t = Tok 0x2d \<or> t = Tok 0x7e)" "t = Tok 0x28"
    | "t \<noteq> Tok 0x2b" "\<not> (t = Tok 0x2d \<or> t = Tok 0x7e)" "t \<noteq> Tok 0x28" by blast
  then have "ends (\<lambda>n. asm_expr_unary (Suc n) W ts st) (length ts)"
  proof cases
    case 1
    then show ?thesis unfolding Cons asm_expr_unary.simps list.case if_P [OF 1] by (intro ends_less [OF u]) simp
  next
    case 2
    show ?thesis unfolding Cons asm_expr_unary.simps list.case if_not_P [OF 2(1)] if_P [OF 2(2)]
    proof (rule ends_bind [OF u])
      fix v and ts2 :: "asm_tok list" and st2 :: 'a assume "length ts2 < length ts'"
      then show "ends (\<lambda>n. if ev_sym v \<noteq> None then Some (Inl ''invalid operation with label'')
          else Some (Inr (v\<lparr>ev_v := (if t = Tok 0x2d then - ev_v v else NOT (ev_v v))\<rparr>, ts2, st2))) (length (t # ts'))"
        by (cases "ev_sym v") (auto intro: ends_const)
    qed
  next
    case 3
    show ?thesis unfolding Cons asm_expr_unary.simps list.case if_not_P [OF 3(1)] if_not_P [OF 3(2)] if_P [OF 3(3)]
    proof (rule ends_bind [OF e])
      fix v and ts2 :: "asm_tok list" and st2 :: 'a assume "length ts2 < length ts'"
      then show "ends (\<lambda>n. case ts2 of
            t # ts \<Rightarrow> if t = Tok 0x29 then Some (Inr (v, ts, st2)) else Some (Inl ''closing parenthesis expected'')
          | [] \<Rightarrow> Some (Inl ''closing parenthesis expected'')) (length (t # ts'))"
        by (cases ts2) (auto intro: ends_const)
    qed
  next
    case 4
    show ?thesis unfolding Cons asm_expr_unary.simps list.case if_not_P [OF 4(1)] if_not_P [OF 4(2)] if_not_P [OF 4(3)]
      by (cases "asm_operand W t st") (auto intro: ends_const)
  qed
  then show ?thesis unfolding parser.simps by (rule ends_Suc)
qed

lemma parser_ends: "k \<le> 4 \<Longrightarrow> ends (\<lambda>n. parser W k n ts st) (length ts)"
proof (induction "length ts" arbitrary: ts st k rule: less_induct)
  case less
  from less.prems show ?case
  proof (induction k)
    case 0
    show ?case by (rule unary_ends) (use less.hyps in blast)
  next
    case (Suc k)
    show ?case by (rule level_ends [OF _ _ _ refl]) (use less.hyps Suc in auto)
  qed
qed

text \<open>
  C28: asm_int_expr ends on every list of tokens, with an error or with a value and fewer tokens left; the value is a
  constant without label that fits an int.
\<close>

theorem asm_int_expr_ends:
  "\<exists>N r. (\<forall>n\<ge>N. asm_int_expr n W ts st = Some r) \<and>
     (case r of
        Inl e \<Rightarrow> True
      | Inr (v, ts', st') \<Rightarrow> length ts' < length ts \<and> ev_sym v = None \<and> - (2 ^ 31) \<le> sint (ev_v v) \<and> sint (ev_v v) < 2 ^ 31)"
proof -
  have int: "- (2 ^ 31) \<le> sint v \<and> sint v < 2 ^ 31" if "int_of_u64 v = v" for v
  proof -
    have "sint (scast (ucast v :: u32) :: u64) = sint (ucast v :: u32)" by (rule sint_up_scast) (simp add: is_up)
    then have "sint v = sint (ucast v :: u32)" using that unfolding int_of_u64_def by simp
    then show ?thesis using sint_ge [of "ucast v :: u32"] sint_lt [of "ucast v :: u32"] by simp
  qed
  obtain r where r: "runs (\<lambda>n. asm_expr n W ts st) r" "\<And>v ts' st. r = Inr (v, ts', st) \<Longrightarrow> length ts' < length ts"
    using parser_ends [of 4 W ts st] unfolding parser_4 ends_def by auto
  define r' where "r' = (case r of Inl e \<Rightarrow> Inl e
    | Inr (v, ts', st') \<Rightarrow> if ev_sym v \<noteq> None then Inl ''constant expected''
        else if int_of_u64 (ev_v v) \<noteq> ev_v v then Inl ''integer out of range'' else Inr (v, ts', st'))"
  have "runs (\<lambda>n. asm_int_expr n W ts st) r'"
  proof (cases r)
    case (Inl e)
    then show ?thesis unfolding asm_int_expr_def r'_def using r(1) by (simp add: runs_error)
  next
    case (Inr vt)
    obtain v ts1 st1 where v: "r = Inr (v, ts1, st1)" using Inr by (cases vt) auto
    then have "runs (\<lambda>n. asm_expr n W ts st) (Inr (v, ts1, st1))" using r(1) by simp
    then show ?thesis unfolding asm_int_expr_def by (rule runs_bind) (rule runs_const, simp add: r'_def v)
  qed
  moreover have "case r' of Inl e \<Rightarrow> True
      | Inr (v, ts', st') \<Rightarrow> length ts' < length ts \<and> ev_sym v = None \<and> - (2 ^ 31) \<le> sint (ev_v v) \<and> sint (ev_v v) < 2 ^ 31"
    using r(2) int by (auto simp: r'_def split: sum.splits if_splits)
  ultimately show ?thesis unfolding runs_def by blast
qed

lemma asm_int_expr_ends_witness:
  "\<exists>N. \<forall>n\<ge>N. asm_int_expr n asm_demo [PPNum ''7'', Tok 0x2a, PPNum ''6''] [] =
     Some (Inr (\<lparr>ev_v = 42, ev_sym = None, ev_pcrel = False\<rparr>, [], []))"
proof -
  let ?ts = "[PPNum ''7'', Tok 0x2a, PPNum ''6'']" and ?v = "\<lparr>ev_v = 42, ev_sym = None, ev_pcrel = False\<rparr>"
  let ?e = "Binary 0x2a (Operand (PPNum ''7'')) (Operand (PPNum ''6''))"
  obtain N r where r: "\<forall>n\<ge>N. asm_int_expr n asm_demo ?ts [] = Some r"
    using asm_int_expr_ends [of asm_demo ?ts "[]"] by blast
  have e: "aexp_tokens 4 ?e = ?ts" "aexp_value asm_demo ?e [] = Inr (?v, [])" "aexp_ok ?e" by code_simp+
  have "runs (\<lambda>n. asm_expr n asm_demo ?ts []) (Inr (?v, [], []))"
  proof -
    have "no_op 4 []" by (simp add: no_op_def)
    then have "parses asm_demo 4 (aexp_tokens 4 ?e) [] [] (aexp_value asm_demo ?e [])"
      using good_all [OF e(3), of asm_demo] unfolding good_def by blast
    then show ?thesis unfolding e(1,2) parses_def parser_4 by simp
  qed
  then obtain M where m: "\<forall>n\<ge>M. asm_expr n asm_demo ?ts [] = Some (Inr (?v, [], []))" by (auto simp: runs_def)
  have "int_of_u64 42 = 42" by code_simp
  then have "asm_int_expr (max N M) asm_demo ?ts [] = Some (Inr (?v, [], []))" using m by (simp add: asm_int_expr_def)
  then have "r = Inr (?v, [], [])" using r by (metis max.cobounded1 option.inject)
  then show ?thesis using r by blast
qed

end
