(* ===== verification/ExprInfix.thy ===== *)
theory ExprInfix
  imports Prelude
begin

text \<open>
  Binary operators of C expressions (precedence, init_prec, expr_infix and expr_landor, lines 20662-20752). The parser
  reads tokens and works on the state of the generator at once; what the generator does with an operator, a condition
  or a jump, and what unary reads, are arguments of the model. The list of tokens ends with the file. None is lack of
  fuel.
\<close>

definition precedence :: "int \<Rightarrow> nat" where
  "precedence tok =
     (if tok = 0x91 then 1
      else if tok = 0x90 then 2
      else if tok = 0x7c then 3
      else if tok = 0x5e then 4
      else if tok = 0x26 then 5
      else if tok = 0x94 \<or> tok = 0x95 then 6
      else if tok = 0x92 \<or> tok = 0x93 then 7
      else if tok = 0x3c \<or> tok = 0x3e then 8
      else if tok = 0x2b \<or> tok = 0x2d then 9
      else if tok = 0x2a \<or> tok = 0x2f \<or> tok = 0x25 then 10
      else if 0x96 \<le> tok \<and> tok \<le> 0x9f then 7
      else 0)"

definition prec :: "int list \<Rightarrow> nat" where
  "prec ts = (case ts of [] \<Rightarrow> 0 | t # _ \<Rightarrow> if 0 \<le> t \<and> t < 256 then precedence t else 0)"

text \<open>The generator: what gen_op and expr_landor call.\<close>

record 's generator =
  g_op :: "int \<Rightarrow> 's \<Rightarrow> string + 's"
  condition_3way :: "'s \<Rightarrow> string + int \<times> 's"
  g_save_regs :: "'s \<Rightarrow> string + 's"
  g_nocode :: "int \<Rightarrow> 's \<Rightarrow> string + 's"
  gvtst :: "int \<Rightarrow> int \<Rightarrow> 's \<Rightarrow> string + int \<times> 's"
  g_vpop :: "'s \<Rightarrow> string + 's"
  vpushi :: "int \<Rightarrow> 's \<Rightarrow> string + 's"
  g_gsym :: "int \<Rightarrow> 's \<Rightarrow> string + 's"
  gvtst_set :: "int \<Rightarrow> int \<Rightarrow> 's \<Rightarrow> string + 's"

type_synonym 's parsed = "(string + int list \<times> 's) option"
type_synonym 's unary_parser = "int list \<Rightarrow> 's \<Rightarrow> string + int list \<times> 's"

definition fbind :: "(string + 'a) option \<Rightarrow> ('a \<Rightarrow> (string + 'b) option) \<Rightarrow> (string + 'b) option" where
  "fbind r f = (case r of None \<Rightarrow> None | Some (Inl e) \<Rightarrow> Some (Inl e) | Some (Inr x) \<Rightarrow> f x)"

text \<open>The variables of expr_landor: the chain of jumps, whether all was constant, and whether code is off.\<close>

record landor_vars =
  jumps :: int
  cc :: bool
  off :: bool

definition landor_i :: "int \<Rightarrow> int" where "landor_i opr = of_bool (opr = 0x90)"

definition landor_check :: "'s generator \<Rightarrow> int \<Rightarrow> landor_vars \<Rightarrow> 's \<Rightarrow> string + int \<times> landor_vars \<times> 's" where
  "landor_check G opr v st =
     ebind (if off v then Inr (landor_i opr, st) else condition_3way G st) (\<lambda>(c, st).
       if c < 0 then ebind (g_save_regs G st) (\<lambda>st. Inr (c, v\<lparr>cc := False\<rparr>, st))
       else if c \<noteq> landor_i opr then ebind (g_nocode G 1 st) (\<lambda>st. Inr (c, v\<lparr>off := True\<rparr>, st))
       else Inr (c, v, st))"

definition landor_more :: "'s generator \<Rightarrow> int \<Rightarrow> int \<Rightarrow> landor_vars \<Rightarrow> 's \<Rightarrow> string + landor_vars \<times> 's" where
  "landor_more G opr c v st =
     (if c < 0 then ebind (gvtst G (landor_i opr) (jumps v) st) (\<lambda>(t, st). Inr (v\<lparr>jumps := t\<rparr>, st))
      else ebind (g_vpop G st) (\<lambda>st. Inr (v, st)))"

definition landor_end :: "'s generator \<Rightarrow> int \<Rightarrow> landor_vars \<Rightarrow> 's \<Rightarrow> string + 's" where
  "landor_end G opr v st =
     (if cc v \<or> off v then
        ebind (g_vpop G st) (\<lambda>st. ebind (vpushi G (of_bool ((landor_i opr = 1) \<noteq> off v)) st) (\<lambda>st.
          ebind (g_gsym G (jumps v) st) (g_nocode G (- of_bool (off v)))))
      else gvtst_set G (landor_i opr) (jumps v) st)"

fun expr_infix :: "'s generator \<Rightarrow> 's unary_parser \<Rightarrow> nat \<Rightarrow> nat \<Rightarrow> int list \<Rightarrow> 's \<Rightarrow> 's parsed"
  and expr_landor :: "'s generator \<Rightarrow> 's unary_parser \<Rightarrow> nat \<Rightarrow> int \<Rightarrow> landor_vars \<Rightarrow> int list \<Rightarrow> 's \<Rightarrow> 's parsed" where
  "expr_infix G unary 0 p ts st = None"
| "expr_infix G unary (Suc n) p ts st =
     (let p2 = prec ts
      in if p2 \<ge> p then
           (if hd ts = 0x91 \<or> hd ts = 0x90 then
              fbind (expr_landor G unary n (hd ts) \<lparr>jumps = 0, cc = True, off = False\<rparr> ts st) (\<lambda>(ts, st). expr_infix G unary n p ts st)
            else
              fbind (Some (unary (tl ts) st)) (\<lambda>(ts1, st).
                fbind (if prec ts1 > p2 then expr_infix G unary n (p2 + 1) ts1 st else Some (Inr (ts1, st))) (\<lambda>(ts2, st).
                  fbind (Some (g_op G (hd ts) st)) (\<lambda>st. expr_infix G unary n p ts2 st))))
         else Some (Inr (ts, st)))"
| "expr_landor G unary 0 opr v ts st = None"
| "expr_landor G unary (Suc n) opr v ts st =
     fbind (Some (landor_check G opr v st)) (\<lambda>(c, v, st).
       if ts \<noteq> [] \<and> hd ts = opr then
         fbind (Some (landor_more G opr c v st)) (\<lambda>(v, st).
           fbind (Some (unary (tl ts) st)) (\<lambda>(ts, st).
             fbind (expr_infix G unary n (prec [opr] + 1) ts st) (\<lambda>(ts, st). expr_landor G unary n opr v ts st)))
       else fbind (Some (landor_end G opr v st)) (\<lambda>st. Some (Inr (ts, st))))"

declare expr_infix.simps(2) [simp del] expr_landor.simps(2) [simp del]

section \<open>Expression trees\<close>

text \<open>The binary operators of C (C11 6.5.5 to 6.5.14), from || to those that bind most tightly: the grammar's levels.\<close>

definition c_operators :: "int list list" where
  "c_operators =
     [[0x91], [0x90], [0x7c], [0x5e], [0x26], [0x94, 0x95], [0x9c, 0x9d, 0x9e, 0x9f], [0x3c, 0x3e], [0x2b, 0x2d],
      [0x2a, 0x2f, 0x25]]"

primrec rank :: "int list list \<Rightarrow> int \<Rightarrow> nat" where
  "rank [] t = 0"
| "rank (ops # opss) t = (if t \<in> set ops then 1 else if rank opss t = 0 then 0 else Suc (rank opss t))"

lemma precedence_rank: "1 \<le> rank c_operators t \<Longrightarrow> precedence t = rank c_operators t \<and> 0 \<le> t"
  by (auto simp: c_operators_def precedence_def split: if_splits)

text \<open>An operand with its tokens and what it does; a binary operation; operands joined by && or ||.\<close>

datatype 's ctree =
    Operand "int list" "'s \<Rightarrow> string + 's"
  | Binary int "'s ctree" "'s ctree"
  | Logic int "'s ctree" "'s ctree list"

text \<open>The level of a tree in the grammar, 11 for an operand.\<close>

fun clevel :: "'s ctree \<Rightarrow> nat" where
  "clevel (Operand u f) = 11"
| "clevel (Binary opr a b) = rank c_operators opr"
| "clevel (Logic opr a bs) = rank c_operators opr"

fun level :: "'s ctree \<Rightarrow> nat" where
  "level (Operand u f) = 11"
| "level (Binary opr a b) = precedence opr"
| "level (Logic opr a bs) = precedence opr"

primrec ctokens :: "'s ctree \<Rightarrow> int list" where
  "ctokens (Operand u f) = u"
| "ctokens (Binary opr a b) = ctokens a @ opr # ctokens b"
| "ctokens (Logic opr a bs) = ctokens a @ concat (map (\<lambda>b. opr # b) (map ctokens bs))"

text \<open>
  How C binds the operators (binds): on the left of an operator what binds as tightly, on the right only what binds more
  tightly. unary reads the operands.
\<close>

definition reads_operand :: "'s unary_parser \<Rightarrow> int list \<Rightarrow> ('s \<Rightarrow> string + 's) \<Rightarrow> bool" where
  "reads_operand unary u f \<longleftrightarrow> (\<forall>rest st. unary (u @ rest) st = ebind (f st) (\<lambda>st. Inr (rest, st)))"

primrec binds :: "'s unary_parser \<Rightarrow> 's ctree \<Rightarrow> bool" where
  "binds unary (Operand u f) \<longleftrightarrow> reads_operand unary u f"
| "binds unary (Binary opr a b) \<longleftrightarrow>
     3 \<le> rank c_operators opr \<and> rank c_operators opr \<le> clevel a \<and> rank c_operators opr < clevel b \<and>
     binds unary a \<and> binds unary b"
| "binds unary (Logic opr a bs) \<longleftrightarrow>
     (opr = 0x90 \<or> opr = 0x91) \<and> bs \<noteq> [] \<and> rank c_operators opr < clevel a \<and> binds unary a \<and>
     list_all (\<lambda>b. b) (map (binds unary) bs) \<and> list_all (\<lambda>b. rank c_operators opr < clevel b) bs"

text \<open>The same by the levels of the table prec, which also has the unsigned comparisons.\<close>

primrec bound :: "'s unary_parser \<Rightarrow> 's ctree \<Rightarrow> bool" where
  "bound unary (Operand u f) \<longleftrightarrow> reads_operand unary u f"
| "bound unary (Binary opr a b) \<longleftrightarrow>
     0 \<le> opr \<and> 3 \<le> precedence opr \<and> precedence opr \<le> level a \<and> precedence opr < level b \<and> bound unary a \<and> bound unary b"
| "bound unary (Logic opr a bs) \<longleftrightarrow>
     (opr = 0x90 \<or> opr = 0x91) \<and> bs \<noteq> [] \<and> precedence opr < level a \<and> bound unary a \<and>
     list_all (\<lambda>b. b) (map (bound unary) bs) \<and> list_all (\<lambda>b. precedence opr < level b) bs"

lemma binds_bound: "binds unary e \<Longrightarrow> bound unary e \<and> level e = clevel e"
proof (induction e)
  case (Binary opr a b)
  then show ?case using precedence_rank [of opr] by simp
next
  case (Logic opr a bs)
  moreover from this have "precedence opr = rank c_operators opr" by (auto simp: c_operators_def precedence_def)
  ultimately show ?case by (simp add: list_all_iff)
qed simp

text \<open>What the tree does to the generator.\<close>

fun landor_steps :: "'s generator \<Rightarrow> int \<Rightarrow> ('s \<Rightarrow> string + 's) list \<Rightarrow> landor_vars \<Rightarrow> 's \<Rightarrow> string + 's" where
  "landor_steps G opr [] v st = ebind (landor_check G opr v st) (\<lambda>(c, v, st). landor_end G opr v st)"
| "landor_steps G opr (f # fs) v st =
     ebind (landor_check G opr v st) (\<lambda>(c, v, st). ebind (landor_more G opr c v st) (\<lambda>(v, st).
       ebind (f st) (landor_steps G opr fs v)))"

primrec generate :: "'s generator \<Rightarrow> 's ctree \<Rightarrow> 's \<Rightarrow> string + 's" where
  "generate G (Operand u f) = f"
| "generate G (Binary opr a b) = (\<lambda>st. ebind (generate G a st) (\<lambda>st. ebind (generate G b st) (g_op G opr)))"
| "generate G (Logic opr a bs) =
     (\<lambda>st. ebind (generate G a st) (landor_steps G opr (map (generate G) bs) \<lparr>jumps = 0, cc = True, off = False\<rparr>))"

section \<open>Runs with enough fuel\<close>

definition settles :: "(nat \<Rightarrow> (string + 'a) option) \<Rightarrow> string + 'a \<Rightarrow> bool" where
  "settles f r \<longleftrightarrow> (\<exists>N. \<forall>n\<ge>N. f n = Some r)"

lemma fbind_simps [simp]:
  "fbind None f = None" "fbind (Some (Inl e)) f = Some (Inl e)" "fbind (Some (Inr x)) f = f x"
  by (simp_all add: fbind_def)

lemma enough_Suc: "settles (\<lambda>n. f (Suc n)) r \<Longrightarrow> settles f r"
  unfolding settles_def by (metis Suc_le_D Suc_le_mono)

lemma enough_const [intro]: "settles (\<lambda>n. Some r) r"
  by (simp add: settles_def)

lemma settles_bind_Inl: "settles f (Inl e) \<Longrightarrow> settles (\<lambda>n. fbind (f n) (g n)) (Inl e)"
  unfolding settles_def by (metis fbind_simps(2))

lemma settles_bind_Inr:
  assumes "settles f (Inr x)" "settles (\<lambda>n. g n x) r"
  shows "settles (\<lambda>n. fbind (f n) (g n)) r"
proof -
  obtain N M where "\<forall>n\<ge>N. f n = Some (Inr x)" "\<forall>n\<ge>M. g n x = Some r" using assms by (auto simp: settles_def)
  then show ?thesis unfolding settles_def by (intro exI [of _ "max N M"]) simp
qed

text \<open>r is the outcome of a step val followed by k.\<close>

definition after :: "string + 'a \<Rightarrow> ('a \<Rightarrow> string + 'b \<Rightarrow> bool) \<Rightarrow> string + 'b \<Rightarrow> bool" where
  "after val k r \<longleftrightarrow> (case val of Inl e \<Rightarrow> r = Inl e | Inr x \<Rightarrow> k x r)"

lemma after_simps [simp]: "after (Inl e) k r \<longleftrightarrow> r = Inl e" "after (Inr x) k r \<longleftrightarrow> k x r"
  by (simp_all add: after_def)

lemma after_ebind: "after (ebind v f) k r \<longleftrightarrow> after v (\<lambda>x. after (f x) k) r"
  by (cases v) simp_all

lemma after_eta: "after (Inr x) k = k x" "after (ebind v f) k = after v (\<lambda>x. after (f x) k)"
  by (auto simp: fun_eq_iff after_ebind)

lemma after_mono: "after v k r \<Longrightarrow> (\<And>x. v = Inr x \<Longrightarrow> k x r \<Longrightarrow> k' x r) \<Longrightarrow> after v k' r"
  by (cases v) simp_all

lemma settles_some: "after v (\<lambda>x. settles (\<lambda>n. g n x)) r \<Longrightarrow> settles (\<lambda>n. fbind (Some v) (g n)) r"
  by (cases v) (auto simp: settles_def)

text \<open>What expr_infix p does after an operand that was just read (first), with the tokens rest.\<close>

definition goes :: "'s generator \<Rightarrow> 's unary_parser \<Rightarrow> nat \<Rightarrow> int list \<Rightarrow> 's \<Rightarrow> string + int list \<times> 's \<Rightarrow> bool" where
  "goes G unary p ts st r \<longleftrightarrow> settles (\<lambda>n. expr_infix G unary n p ts st) r"

lemma goes_stop: "prec ts < p \<Longrightarrow> goes G unary p ts st (Inr (ts, st))"
  unfolding goes_def by (rule enough_Suc) (simp add: expr_infix.simps(2) enough_const)

lemma goes_stop_iff: "prec ts < p \<Longrightarrow> goes G unary p ts st r \<longleftrightarrow> r = Inr (ts, st)"
proof
  assume a: "prec ts < p" "goes G unary p ts st r"
  obtain N where "\<forall>n\<ge>N. expr_infix G unary n p ts st = Some r" using a(2) by (auto simp: goes_def settles_def)
  then have "expr_infix G unary (Suc N) p ts st = Some r" by simp
  then show "r = Inr (ts, st)" using a(1) by (simp add: expr_infix.simps(2))
qed (use goes_stop in auto)

lemma goes_binary:
  assumes "0 \<le> opr" "3 \<le> precedence opr" "p \<le> precedence opr"
    and "after (unary ts st) (\<lambda>(ts1, st1). \<lambda>r. \<exists>s. goes G unary (precedence opr + 1) ts1 st1 s \<and>
      after s (\<lambda>(ts2, st2). after (g_op G opr st2) (\<lambda>st3. goes G unary p ts2 st3)) r) r"
  shows "goes G unary p (opr # ts) st r"
proof -
  have pr: "prec (opr # ts) = precedence opr" "opr \<noteq> 0x91" "opr \<noteq> 0x90"
    using assms(1,2) by (auto simp: prec_def precedence_def split: if_splits)
  have "settles (\<lambda>n. fbind (Some (unary ts st)) (\<lambda>(ts1, st).
      fbind (if prec ts1 > precedence opr then expr_infix G unary n (precedence opr + 1) ts1 st else Some (Inr (ts1, st))) (\<lambda>(ts2, st).
        fbind (Some (g_op G opr st)) (\<lambda>st. expr_infix G unary n p ts2 st)))) r"
  proof (rule settles_some, rule after_mono [OF assms(4)], clarify)
    fix ts1 st1 s
    assume s: "goes G unary (precedence opr + 1) ts1 st1 s" "after s (\<lambda>(ts2, st2). after (g_op G opr st2) (\<lambda>st3. goes G unary p ts2 st3)) r"
    have inner: "settles (\<lambda>n. if prec ts1 > precedence opr then expr_infix G unary n (precedence opr + 1) ts1 st1 else Some (Inr (ts1, st1))) s"
    proof (cases "prec ts1 > precedence opr")
      case True
      then show ?thesis using s(1) by (simp add: goes_def)
    next
      case False
      then have "s = Inr (ts1, st1)" using s(1) by (simp add: goes_stop_iff)
      then show ?thesis using False enough_const by simp
    qed
    show "settles (\<lambda>n. fbind (if prec ts1 > precedence opr then expr_infix G unary n (precedence opr + 1) ts1 st1 else Some (Inr (ts1, st1)))
        (\<lambda>(ts2, st). fbind (Some (g_op G opr st)) (\<lambda>st. expr_infix G unary n p ts2 st))) r"
    proof (cases s)
      case (Inl e)
      then show ?thesis using inner s(2) settles_bind_Inl by fastforce
    next
      case (Inr x)
      obtain ts2 st2 where x: "x = (ts2, st2)" by (cases x)
      have "settles (\<lambda>n. fbind (Some (g_op G opr st2)) (\<lambda>st. expr_infix G unary n p ts2 st)) r"
        using s(2) Inr x by (intro settles_some) (simp add: goes_def [abs_def])
      then show ?thesis using inner Inr x by (intro settles_bind_Inr [of _ x]) simp_all
    qed
  qed
  then show ?thesis unfolding goes_def by - (rule enough_Suc, simp add: expr_infix.simps(2) pr assms(3) Let_def)
qed

definition lgoes :: "'s generator \<Rightarrow> 's unary_parser \<Rightarrow> int \<Rightarrow> landor_vars \<Rightarrow> int list \<Rightarrow> 's \<Rightarrow> string + int list \<times> 's \<Rightarrow> bool" where
  "lgoes G unary opr v ts st r \<longleftrightarrow> settles (\<lambda>n. expr_landor G unary n opr v ts st) r"

lemma goes_logic:
  assumes "opr = 0x90 \<or> opr = 0x91" "p \<le> precedence opr"
    and "\<exists>s. lgoes G unary opr \<lparr>jumps = 0, cc = True, off = False\<rparr> (opr # ts) st s \<and> after s (\<lambda>(ts2, st2). goes G unary p ts2 st2) r"
  shows "goes G unary p (opr # ts) st r"
proof -
  have pr: "prec (opr # ts) = precedence opr" using assms(1) by (auto simp: prec_def)
  obtain s where s: "lgoes G unary opr \<lparr>jumps = 0, cc = True, off = False\<rparr> (opr # ts) st s" "after s (\<lambda>(ts2, st2). goes G unary p ts2 st2) r"
    using assms(3) by blast
  have "settles (\<lambda>n. fbind (expr_landor G unary n opr \<lparr>jumps = 0, cc = True, off = False\<rparr> (opr # ts) st) (\<lambda>(ts, st). expr_infix G unary n p ts st)) r"
  proof (cases s)
    case (Inl e)
    then show ?thesis using s settles_bind_Inl by (fastforce simp: lgoes_def)
  next
    case (Inr x)
    then show ?thesis using s by (intro settles_bind_Inr [of _ x]) (auto simp: lgoes_def goes_def)
  qed
  then show ?thesis unfolding goes_def using assms(1,2) by - (rule enough_Suc, simp add: expr_infix.simps(2) pr disj_commute Let_def)
qed

lemma lgoes_end:
  assumes "ts = [] \<or> hd ts \<noteq> opr"
    and "after (landor_check G opr v st) (\<lambda>(c, v, st). after (landor_end G opr v st) (\<lambda>st r. r = Inr (ts, st))) r"
  shows "lgoes G unary opr v ts st r"
proof -
  have "settles (\<lambda>n. fbind (Some (landor_check G opr v st)) (\<lambda>(c, v, st). fbind (Some (landor_end G opr v st)) (\<lambda>st. Some (Inr (ts, st))))) r"
    by (rule settles_some, rule after_mono [OF assms(2)], clarify, rule settles_some, erule after_mono) auto
  moreover have "\<not> (ts \<noteq> [] \<and> hd ts = opr)" using assms(1) by blast
  ultimately show ?thesis unfolding lgoes_def by - (rule enough_Suc, simp only: expr_landor.simps(2) if_False)
qed

lemma lgoes_step:
  assumes "after (landor_check G opr v st) (\<lambda>(c, v, st). after (landor_more G opr c v st) (\<lambda>(v, st).
    after (unary ts st) (\<lambda>(ts1, st1). \<lambda>r. \<exists>s. goes G unary (prec [opr] + 1) ts1 st1 s \<and>
      after s (\<lambda>(ts2, st2). lgoes G unary opr v ts2 st2) r))) r"
  shows "lgoes G unary opr v (opr # ts) st r"
proof -
  have "settles (\<lambda>n. fbind (Some (landor_check G opr v st)) (\<lambda>(c, v, st). fbind (Some (landor_more G opr c v st)) (\<lambda>(v, st).
      fbind (Some (unary ts st)) (\<lambda>(ts, st). fbind (expr_infix G unary n (prec [opr] + 1) ts st) (\<lambda>(ts, st). expr_landor G unary n opr v ts st))))) r"
  proof (rule settles_some, rule after_mono [OF assms], clarify, rule settles_some, erule after_mono, clarify, rule settles_some, erule after_mono, clarify)
    fix v1 ts1 st1 s
    assume s: "goes G unary (prec [opr] + 1) ts1 st1 s" "after s (\<lambda>(ts2, st2). lgoes G unary opr v1 ts2 st2) r"
    show "settles (\<lambda>n. fbind (expr_infix G unary n (prec [opr] + 1) ts1 st1) (\<lambda>(ts, st). expr_landor G unary n opr v1 ts st)) r"
    proof (cases s)
      case (Inl e)
      then show ?thesis using s settles_bind_Inl by (fastforce simp: goes_def)
    next
      case (Inr x)
      then show ?thesis using s by (intro settles_bind_Inr [of _ x]) (auto simp: lgoes_def goes_def)
    qed
  qed
  then show ?thesis unfolding lgoes_def by - (rule enough_Suc, simp add: expr_landor.simps(2))
qed


section \<open>The parser follows the tree\<close>

lemma after_seq:
  "after v k s \<Longrightarrow> after s k2 r \<Longrightarrow> after v (\<lambda>x r. \<exists>s. k x s \<and> after s k2 r) r"
  by (cases v) auto

lemma case_prod_app: "(case x of (a, b) \<Rightarrow> f a b) s = (case x of (a, b) \<Rightarrow> f a b s)"
  by (cases x) simp

text \<open>What may come after a tree: an operator that binds no tighter, and never the operator of the chain itself.\<close>

definition ok_rest :: "'s ctree \<Rightarrow> int list \<Rightarrow> bool" where
  "ok_rest e rest \<longleftrightarrow> (case e of Logic opr a bs \<Rightarrow> prec rest < precedence opr | _ \<Rightarrow> prec rest \<le> level e)"

lemma precedence_le: "precedence t \<le> 10"
  by (simp add: precedence_def)

lemma ok_rest_less: "prec rest < level e \<Longrightarrow> ok_rest e rest"
  by (cases e) (simp_all add: ok_rest_def)

lemma ok_rest_binary:
  "bound unary e \<Longrightarrow> 3 \<le> prec rest \<Longrightarrow> prec rest \<le> level e \<Longrightarrow> ok_rest e rest"
  by (cases e) (auto simp: ok_rest_def precedence_def)

lemma prec_cons: "0 \<le> opr \<Longrightarrow> 3 \<le> precedence opr \<Longrightarrow> prec (opr # ts) = precedence opr"
  by (auto simp: prec_def precedence_def split: if_splits)

lemma prec_logic: "opr = 0x90 \<or> opr = 0x91 \<Longrightarrow> prec (opr # ts) = precedence opr"
  by (auto simp: prec_def)

text \<open>What a tree promises: unary and then expr_infix go on as after the whole tree.\<close>

definition follows :: "'s generator \<Rightarrow> 's unary_parser \<Rightarrow> 's ctree \<Rightarrow> bool" where
  "follows G unary e \<longleftrightarrow> (\<forall>p rest st r. p \<le> level e \<longrightarrow> ok_rest e rest \<longrightarrow>
     after (generate G e st) (goes G unary p rest) r \<longrightarrow>
     after (unary (ctokens e @ rest) st) (\<lambda>(ts, st). goes G unary p ts st) r)"

lemma followsD:
  "follows G unary e \<Longrightarrow> p \<le> level e \<Longrightarrow> ok_rest e rest \<Longrightarrow> after (generate G e st) (goes G unary p rest) r \<Longrightarrow>
     after (unary (ctokens e @ rest) st) (\<lambda>(ts, st). goes G unary p ts st) r"
  unfolding follows_def by blast

lemma follows_stop:
  assumes "follows G unary e" "p \<le> level e" "prec rest < p"
  shows "after (unary (ctokens e @ rest) st) (\<lambda>(ts, st). goes G unary p ts st)
           (ebind (generate G e st) (\<lambda>st2. Inr (rest, st2)))"
proof (rule followsD [OF assms(1,2)])
  show "ok_rest e rest" using assms(2,3) by (intro ok_rest_less) simp
  show "after (generate G e st) (goes G unary p rest) (ebind (generate G e st) (\<lambda>st2. Inr (rest, st2)))"
    using goes_stop [OF assms(3)] by (cases "generate G e st") auto
qed

lemma follows_operand:
  assumes "reads_operand unary u f"
  shows "follows G unary (Operand u f)"
  unfolding follows_def
proof (intro allI impI)
  fix p rest st r
  assume "after (generate G (Operand u f) st) (goes G unary p rest) r"
  then show "after (unary (ctokens (Operand u f) @ rest) st) (\<lambda>(ts, st). goes G unary p ts st) r"
    using assms by (simp add: reads_operand_def after_eta)
qed

lemma follows_binary:
  assumes "follows G unary a" "follows G unary b" "bound unary (Binary opr a b)"
  shows "follows G unary (Binary opr a b)"
  unfolding follows_def
proof (intro allI impI)
  fix p rest st r
  assume p: "p \<le> level (Binary opr a b)" and ok: "ok_rest (Binary opr a b) rest"
    and g: "after (generate G (Binary opr a b) st) (goes G unary p rest) r"
  have o: "0 \<le> opr" "3 \<le> precedence opr" "precedence opr \<le> level a" "precedence opr + 1 \<le> level b" "bound unary a"
    using assms(3) by simp_all
  have stop: "prec rest < precedence opr + 1" using ok by (simp add: ok_rest_def)
  have "after (unary (ctokens a @ opr # ctokens b @ rest) st) (\<lambda>(ts, st). goes G unary p ts st) r"
  proof (rule followsD [OF assms(1)])
    show "p \<le> level a" using p o by simp
    show "ok_rest a (opr # ctokens b @ rest)" using o by (intro ok_rest_binary) (simp_all add: prec_cons)
    show "after (generate G a st) (goes G unary p (opr # ctokens b @ rest)) r"
    proof (rule after_mono)
      show "after (generate G a st) (\<lambda>st. after (generate G b st) (\<lambda>st. after (g_op G opr st) (goes G unary p rest))) r"
        using g by (simp add: after_eta)
    next
      fix st1
      assume k: "after (generate G b st1) (\<lambda>st. after (g_op G opr st) (goes G unary p rest)) r"
      let ?k2 = "\<lambda>(ts2, st2). after (g_op G opr st2) (\<lambda>st3. goes G unary p ts2 st3)"
      have "after (ebind (generate G b st1) (\<lambda>st2. Inr (rest, st2))) ?k2 r" using k by (simp add: after_eta)
      from after_seq [OF follows_stop [OF assms(2) o(4) stop] this]
      have "after (unary (ctokens b @ rest) st1) (\<lambda>(ts1, st1). \<lambda>r. \<exists>s. goes G unary (precedence opr + 1) ts1 st1 s \<and> after s ?k2 r) r"
        by (rule after_mono) auto
      then show "goes G unary p (opr # ctokens b @ rest) st1 r" using o p by (intro goes_binary) simp_all
    qed
  qed
  then show "after (unary (ctokens (Binary opr a b) @ rest) st) (\<lambda>(ts, st). goes G unary p ts st) r" by simp
qed

lemma landor_follows:
  assumes "opr = 0x90 \<or> opr = 0x91" "prec rest < precedence opr" "\<forall>b\<in>set bs. follows G unary b \<and> precedence opr < level b"
  shows "lgoes G unary opr v (concat (map (\<lambda>b. opr # ctokens b) bs) @ rest) st
           (ebind (landor_steps G opr (map (generate G) bs) v st) (\<lambda>st. Inr (rest, st)))"
  using assms(3)
proof (induction bs arbitrary: v st)
  case Nil
  have "rest = [] \<or> hd rest \<noteq> opr" using assms(1,2) by (cases rest) (auto simp: prec_logic)
  moreover have "after (landor_check G opr v st) (\<lambda>(c, v, st). after (landor_end G opr v st) (\<lambda>st r. r = Inr (rest, st)))
      (ebind (landor_steps G opr [] v st) (\<lambda>st. Inr (rest, st)))"
    by (cases "landor_check G opr v st") (auto simp: after_def split: sum.split)
  ultimately show ?case by (simp add: lgoes_end)
next
  case (Cons b bs)
  let ?rest = "concat (map (\<lambda>b. opr # ctokens b) bs) @ rest"
  have less: "prec ?rest < precedence opr + 1" using assms(1,2) by (cases bs) (auto simp: prec_logic)
  have b: "follows G unary b" "precedence opr + 1 \<le> level b" using Cons.prems by simp_all
  show ?case
  proof (simp only: list.map concat.simps append_Cons append_assoc, rule lgoes_step)
    let ?k2 = "\<lambda>v. \<lambda>(ts2, st2). lgoes G unary opr v ts2 st2"
    let ?fin = "\<lambda>v st. ebind (landor_steps G opr (map (generate G) bs) v st) (\<lambda>st. Inr (rest, st))"
    have step: "after (unary (ctokens b @ ?rest) st1)
        (\<lambda>(ts1, st1). \<lambda>r. \<exists>s. goes G unary (prec [opr] + 1) ts1 st1 s \<and> after s (?k2 v1) r)
        (ebind (generate G b st1) (?fin v1))" for v1 st1
    proof -
      have "after (ebind (generate G b st1) (\<lambda>st2. Inr (?rest, st2))) (?k2 v1) (ebind (generate G b st1) (?fin v1))"
        using Cons.IH Cons.prems by (cases "generate G b st1") auto
      from after_seq [OF follows_stop [OF b less] this] show ?thesis
        using assms(1) by - (rule after_mono, assumption, auto simp: prec_logic)
    qed
    show "after (landor_check G opr v st) (\<lambda>(c, v, st). after (landor_more G opr c v st) (\<lambda>(v, st).
        after (unary (ctokens b @ ?rest) st) (\<lambda>(ts1, st1). \<lambda>r. \<exists>s. goes G unary (prec [opr] + 1) ts1 st1 s \<and> after s (?k2 v) r)))
        (ebind (landor_steps G opr (generate G b # map (generate G) bs) v st) (\<lambda>st. Inr (rest, st)))"
    proof (cases "landor_check G opr v st")
      case (Inr x)
      obtain c v1 st1 where x: "x = (c, v1, st1)" by (cases x)
      show ?thesis
      proof (cases "landor_more G opr c v1 st1")
        case (Inr y)
        obtain v2 st2 where y: "y = (v2, st2)" by (cases y)
        have "ebind (landor_steps G opr (generate G b # map (generate G) bs) v st) (\<lambda>st. Inr (rest, st)) =
            ebind (generate G b st2) (?fin v2)"
          using \<open>landor_check G opr v st = Inr x\<close> Inr x y by (cases "generate G b st2") simp_all
        then show ?thesis using step [of st2 v2] \<open>landor_check G opr v st = Inr x\<close> Inr x y by (simp only: after_simps case_prod_conv)
      qed (use Inr x in simp)
    qed simp
  qed
qed

lemma follows_logic:
  assumes "follows G unary a" "\<forall>b\<in>set bs. follows G unary b" "bound unary (Logic opr a bs)"
  shows "follows G unary (Logic opr a bs)"
  unfolding follows_def
proof (intro allI impI)
  fix p rest st r
  let ?v = "\<lparr>jumps = 0, cc = True, off = False\<rparr>"
  assume p: "p \<le> level (Logic opr a bs)" and ok: "ok_rest (Logic opr a bs) rest"
    and g: "after (generate G (Logic opr a bs) st) (goes G unary p rest) r"
  have o: "opr = 0x90 \<or> opr = 0x91" "precedence opr < level a" "bs \<noteq> []" "\<forall>b\<in>set bs. precedence opr < level b"
    using assms(3) by (simp_all add: list_all_iff)
  obtain b bs' where bs: "bs = b # bs'" using o(3) by (cases bs) simp_all
  define ts where "ts = concat (map (\<lambda>b. opr # ctokens b) bs) @ rest"
  have ts: "ts = opr # tl ts" by (simp add: ts_def bs)
  have "after (unary (ctokens a @ ts) st) (\<lambda>(ts, st). goes G unary p ts st) r"
  proof (rule followsD [OF assms(1)])
    show "p \<le> level a" using p o by simp
    show "ok_rest a ts" using o ts by (intro ok_rest_less) (metis prec_logic)
    show "after (generate G a st) (goes G unary p ts) r"
    proof (rule after_mono)
      show "after (generate G a st) (\<lambda>st. after (landor_steps G opr (map (generate G) bs) ?v st) (goes G unary p rest)) r"
        using g by (simp add: after_eta)
    next
      fix st1
      assume k: "after (landor_steps G opr (map (generate G) bs) ?v st1) (goes G unary p rest) r"
      have "lgoes G unary opr ?v ts st1 (ebind (landor_steps G opr (map (generate G) bs) ?v st1) (\<lambda>st. Inr (rest, st)))"
        using o ok assms(2) unfolding ts_def by (intro landor_follows) (auto simp: ok_rest_def)
      moreover have "after (ebind (landor_steps G opr (map (generate G) bs) ?v st1) (\<lambda>st. Inr (rest, st))) (\<lambda>(ts2, st2). goes G unary p ts2 st2) r"
        using k by (simp add: after_eta)
      ultimately have "goes G unary p (opr # tl ts) st1 r" using o(1) p ts by (intro goes_logic) auto
      then show "goes G unary p ts st1 r" using ts by simp
    qed
  qed
  then show "after (unary (ctokens (Logic opr a bs) @ rest) st) (\<lambda>(ts, st). goes G unary p ts st) r" by (simp add: ts_def comp_def)
qed

lemma bound_follows: "bound unary e \<Longrightarrow> follows G unary e"
proof (induction e)
  case (Logic opr a bs)
  then show ?case by (intro follows_logic) (auto simp: list_all_iff)
qed (auto intro!: follows_operand follows_binary)

text \<open>unary and expr_infix(1), as expr_cond calls them.\<close>

definition expr_lor :: "'s generator \<Rightarrow> 's unary_parser \<Rightarrow> nat \<Rightarrow> int list \<Rightarrow> 's \<Rightarrow> 's parsed" where
  "expr_lor G unary n ts st = fbind (Some (unary ts st)) (\<lambda>(ts, st). expr_infix G unary n 1 ts st)"


text \<open>A generator and operands that note what they are asked, for the witness.\<close>

definition noting :: "int list generator" where
  "noting =
     \<lparr>g_op = (\<lambda>opr st. Inr (st @ [opr])), condition_3way = (\<lambda>st. Inr (-1, st)), g_save_regs = Inr,
      g_nocode = (\<lambda>k. Inr), gvtst = (\<lambda>i t st. Inr (t + 1, st @ [-2])), g_vpop = Inr, vpushi = (\<lambda>i. Inr),
      g_gsym = (\<lambda>t. Inr), gvtst_set = (\<lambda>i t st. Inr (st @ [-3]))\<rparr>"

definition noting_unary :: "int list unary_parser" where
  "noting_unary ts st = (case ts of [] \<Rightarrow> Inl ''expression expected'' | t # ts \<Rightarrow> Inr (ts, st @ [t]))"

definition noted :: "int \<Rightarrow> int list ctree" where
  "noted t = Operand [t] (\<lambda>st. Inr (st @ [t]))"


end
