(* ===== verification/ArgList.thy ===== *)
theory ArgList
  imports Prelude
begin

text \<open>
  The string and array helpers of libtcc.c: pstrcpy, pstrcat, pstrncpy, tcc_basename, tcc_fileextension,
  normalize_slashes (lines 31398-31482), the growing arrays of dynarray_add (31566-31582), the splitting of option
  strings and of lists of paths (dynarray_split, 31592-31617, tcc_split_path, 31624-31652) and strstart (32094). A
  string is the list of its bytes without the final 0; a buffer is the list of all its bytes.
\<close>

section \<open>Copying into a buffer\<close>

definition cstr :: "u8 list \<Rightarrow> u8 list" where
  "cstr b = takeWhile (\<lambda>c. c \<noteq> 0) b"

fun pstrcpy_loop :: "u8 list \<Rightarrow> nat \<Rightarrow> nat \<Rightarrow> u8 list \<Rightarrow> u8 list \<times> nat" where
  "pstrcpy_loop buf q q_end s =
     (if q < q_end then
        (case s of
           [] \<Rightarrow> (buf, q)
         | c # s \<Rightarrow> if c = 0 then (buf, q) else pstrcpy_loop (buf[q := c]) (q + 1) q_end s)
      else (buf, q))"

declare pstrcpy_loop.simps [simp del]

definition pstrcpy :: "u8 list \<Rightarrow> nat \<Rightarrow> nat \<Rightarrow> u8 list \<Rightarrow> u8 list" where
  "pstrcpy buf off buf_size s =
     (if buf_size > 0 then let (buf, q) = pstrcpy_loop buf off (off + buf_size - 1) s in buf[q := 0] else buf)"

definition pstrcat :: "u8 list \<Rightarrow> nat \<Rightarrow> u8 list \<Rightarrow> u8 list" where
  "pstrcat buf buf_size s =
     (let len = length (cstr buf) in if len < buf_size then pstrcpy buf len (buf_size - len) s else buf)"

definition pstrncpy :: "u8 list \<Rightarrow> nat \<Rightarrow> u8 list \<Rightarrow> nat \<Rightarrow> u8 list" where
  "pstrncpy out buf_size s num =
     (let num = (if num \<ge> buf_size then buf_size - 1 else num) in (blit out 0 (take num s))[num := 0])"

lemma pstrcpy_loop_spec:
  assumes "0 \<notin> set s" "q \<le> q_end" "q_end < length buf"
  shows "pstrcpy_loop buf q q_end s = (blit buf q (take (q_end - q) s), q + length (take (q_end - q) s))"
  using assms
proof (induction s arbitrary: buf q)
  case Nil
  then show ?case by (subst pstrcpy_loop.simps) (simp add: blit_def)
next
  case (Cons c s)
  show ?case
  proof (cases "q < q_end")
    case True
    have "pstrcpy_loop buf q q_end (c # s) = pstrcpy_loop (buf[q := c]) (q + 1) q_end s"
      using Cons.prems True by (subst pstrcpy_loop.simps) auto
    also have "\<dots> = (blit (buf[q := c]) (q + 1) (take (q_end - (q + 1)) s), q + 1 + length (take (q_end - (q + 1)) s))"
      using Cons True by simp
    also have "blit (buf[q := c]) (q + 1) (take (q_end - (q + 1)) s) = blit buf q (take (q_end - q) (c # s))"
      using True Cons.prems by (simp add: blit_def take_Cons' upd_conv_take_nth_drop add.commute)
    also have "q + 1 + length (take (q_end - (q + 1)) s) = q + length (take (q_end - q) (c # s))" using True by simp
    finally show ?thesis .
  next
    case False
    then show ?thesis using Cons.prems by (subst pstrcpy_loop.simps) (simp add: blit_def)
  qed
qed

lemma pstrcpy_spec:
  assumes "0 \<notin> set s" "0 < n" "off + n \<le> length buf"
  shows "pstrcpy buf off n s = blit buf off (take (n - 1) s @ [0])"
proof -
  let ?w = "take (n - 1) s"
  have e: "pstrcpy_loop buf off (off + n - 1) s = (blit buf off ?w, off + length ?w)"
    using assms pstrcpy_loop_spec [of s off "off + n - 1" buf] by simp
  have l: "length ?w < n" using assms(2) by auto
  obtain x xs where d: "drop (off + length ?w) buf = x # xs"
    using assms(3) l by (cases "drop (off + length ?w) buf") (auto simp: drop_eq_Nil)
  have "drop (off + length ?w + 1) buf = xs" using d by (metis Suc_eq_plus1 drop_Suc list.sel(3) tl_drop)
  then have "(blit buf off ?w)[off + length ?w := 0] = blit buf off (?w @ [0])"
    using assms(3) l d by (simp add: blit_def list_update_append)
  then show ?thesis using assms(2) unfolding pstrcpy_def e by simp
qed

lemma cstr_blit:
  assumes "0 \<notin> set w" "0 \<notin> set (take off buf)" "off \<le> length buf"
  shows "cstr (blit buf off (w @ [0])) = take off buf @ w"
proof -
  have "blit buf off (w @ [0]) = (take off buf @ w) @ 0 # drop (off + length w + 1) buf" by (simp add: blit_def)
  moreover have "\<forall>x\<in>set (take off buf @ w). x \<noteq> 0" using assms by auto
  ultimately show ?thesis unfolding cstr_def by (simp only: takeWhile_append2) simp
qed



section \<open>Names of files\<close>

definition normalize_slashes :: "u8 list \<Rightarrow> u8 list" where
  "normalize_slashes path = map (\<lambda>c. if c = 0x5c then 0x2f else c) path"

fun basename_loop :: "u8 list \<Rightarrow> nat \<Rightarrow> nat" where
  "basename_loop name 0 = 0"
| "basename_loop name (Suc p) = (if name ! p = 0x2f \<or> name ! p = 0x5c then Suc p else basename_loop name p)"

definition tcc_basename :: "u8 list \<Rightarrow> nat" where
  "tcc_basename name = basename_loop name (length name)"

definition last_dot :: "u8 list \<Rightarrow> nat option" where
  "last_dot b = (case filter (\<lambda>i. b ! i = 0x2e) [0..<length b] of [] \<Rightarrow> None | is \<Rightarrow> Some (last is))"

definition tcc_fileextension :: "u8 list \<Rightarrow> u8 list" where
  "tcc_fileextension name =
     (let b = drop (tcc_basename name) name in case last_dot b of Some e \<Rightarrow> drop e b | None \<Rightarrow> [])"

fun strstart :: "u8 list \<Rightarrow> u8 list \<Rightarrow> u8 list option" where
  "strstart [] p = Some p"
| "strstart (q # qs) [] = None"
| "strstart (q # qs) (c # p) = (if c \<noteq> q then None else strstart qs p)"

lemma strstart_iff: "strstart val p = Some rest \<longleftrightarrow> p = val @ rest"
  by (induction val p rule: strstart.induct) auto

lemma basename_split:
  "tcc_basename name \<le> length name \<and> (\<forall>c\<in>set (drop (tcc_basename name) name). c \<noteq> 0x2f \<and> c \<noteq> 0x5c) \<and>
   (tcc_basename name = 0 \<or> name ! (tcc_basename name - 1) \<in> {0x2f, 0x5c})"
proof -
  have "p \<le> length name \<Longrightarrow> basename_loop name p \<le> p \<and> (\<forall>i. basename_loop name p \<le> i \<and> i < p \<longrightarrow> name ! i \<noteq> 0x2f \<and> name ! i \<noteq> 0x5c) \<and>
     (basename_loop name p = 0 \<or> name ! (basename_loop name p - 1) \<in> {0x2f, 0x5c})" for p
    by (induction p) (auto simp: le_Suc_eq less_Suc_eq)
  from this [of "length name"] show ?thesis unfolding tcc_basename_def by (auto simp: in_set_conv_nth)
qed

section \<open>Growing arrays\<close>

record 'a dynarray =
  cells :: "'a option list"
  nb :: nat

definition dynarray_add :: "'a \<Rightarrow> 'a dynarray \<Rightarrow> 'a dynarray" where
  "dynarray_add x d =
     (let n = nb d;
          pp = (if n AND (n - 1) = 0 then
                  let nb_alloc = (if n = 0 then 1 else n * 2)
                  in take nb_alloc (cells d) @ replicate (nb_alloc - length (cells d)) None
                else cells d)
      in d\<lparr>cells := pp[n := Some x], nb := n + 1\<rparr>)"

definition dynarray_ok :: "'a dynarray \<Rightarrow> 'a list \<Rightarrow> bool" where
  "dynarray_ok d xs \<longleftrightarrow> nb d = length xs \<and> take (nb d) (cells d) = map Some xs \<and>
     (nb d = 0 \<and> cells d = [] \<or> (\<exists>k. length (cells d) = 2 ^ k \<and> nb d \<le> 2 ^ k \<and> 2 ^ k < 2 * nb d))"

lemma and_pred:
  fixes n :: nat
  assumes "n \<le> 2 ^ k" "2 ^ k < 2 * n"
  shows "n AND (n - 1) = 0 \<longleftrightarrow> n = 2 ^ k"
proof
  assume "n = 2 ^ k"
  then have "n AND (n - 1) = take_bit k (2 ^ k)" by (simp add: take_bit_eq_mask mask_eq_exp_minus_1)
  then show "n AND (n - 1) = 0" by simp
next
  assume z: "n AND (n - 1) = 0"
  show "n = 2 ^ k"
  proof (rule ccontr)
    assume "n \<noteq> 2 ^ k"
    with assms obtain j where j: "k = Suc j" by (cases k) auto
    have n: "2 ^ j < n" "n < 2 * 2 ^ j" using assms \<open>n \<noteq> 2 ^ k\<close> j by auto
    have "n div 2 ^ j = 1" "(n - 1) div 2 ^ j = 1" by (rule div_nat_eqI; use n in simp)+
    then have "bit n j" "bit (n - 1) j" by (simp_all add: bit_iff_odd)
    then have "bit (n AND (n - 1)) j" by (simp only: bit_and_iff simp_thms)
    then show False using z by simp
  qed
qed

lemma dynarray_add_ok:
  assumes "dynarray_ok d xs"
  shows "dynarray_ok (dynarray_add x d) (xs @ [x])"
proof -
  have n: "nb d = length xs" "take (nb d) (cells d) = map Some xs" using assms by (auto simp: dynarray_ok_def)
  have store: "take (nb d + 1) (pp[nb d := Some x]) = map Some (xs @ [x])" if "take (nb d) pp = map Some xs" "nb d < length pp" for pp
    using that by (simp add: take_Suc_conv_app_nth)
  show ?thesis
  proof (cases "nb d = 0")
    case True
    then have "cells d = []" "xs = []" using assms by (auto simp: dynarray_ok_def)
    then show ?thesis using True by (auto simp: dynarray_add_def dynarray_ok_def intro!: exI [of _ 0])
  next
    case False
    then obtain k where k: "length (cells d) = 2 ^ k" "nb d \<le> 2 ^ k" "2 ^ k < 2 * nb d" using assms by (auto simp: dynarray_ok_def)
    show ?thesis
    proof (cases "nb d = 2 ^ k")
      case True
      let ?pp = "take (nb d * 2) (cells d) @ replicate (nb d * 2 - length (cells d)) None"
      have "dynarray_add x d = d\<lparr>cells := ?pp[nb d := Some x], nb := nb d + 1\<rparr>"
        using and_pred [OF k(2,3)] True False by (simp add: dynarray_add_def Let_def)
      moreover have "xs \<noteq> []" using False n by auto
      moreover have "take (nb d) ?pp = map Some xs" "length ?pp = 2 ^ Suc k" using n True k(1) by simp_all
      ultimately show ?thesis using store [of ?pp] n True by (auto simp: dynarray_ok_def Suc_le_eq intro!: exI [of _ "Suc k"])
    next
      case False
      then have "dynarray_add x d = d\<lparr>cells := (cells d)[nb d := Some x], nb := nb d + 1\<rparr>"
        using and_pred [OF k(2,3)] \<open>nb d \<noteq> 0\<close> by (simp add: dynarray_add_def Let_def)
      then show ?thesis using store [of "cells d"] n k False by (auto simp: dynarray_ok_def intro!: exI [of _ k])
    qed
  qed
qed

text \<open>What the splitting functions rely on: an array that takes one more element at its end.\<close>

locale growing =
  fixes add :: "'x \<Rightarrow> 'd \<Rightarrow> 'd"
    and holds :: "'d \<Rightarrow> 'x list \<Rightarrow> bool"
    and empty :: 'd
  assumes empty_holds: "holds empty []"
    and add_holds: "holds d xs \<Longrightarrow> holds (add x d) (xs @ [x])"
begin

lemma fold_holds: "holds d xs \<Longrightarrow> holds (fold add ys d) (xs @ ys)"
proof (induction ys arbitrary: d xs)
  case (Cons y ys)
  from Cons.IH [OF add_holds [OF Cons.prems, of y]] show ?case by simp
qed simp

lemma all_added: "holds (fold add ys empty) ys"
  using fold_holds [OF empty_holds, of ys] by simp

end

interpretation arrays: growing dynarray_add dynarray_ok "\<lparr>cells = [], nb = 0\<rparr>"
  by unfold_locales (simp add: dynarray_ok_def, rule dynarray_add_ok)

section \<open>Splitting\<close>

text \<open>dynarray_split: the words of p, separated by sep, or with sep = 0 by blanks, with quotes and backslashes.\<close>

function split_word :: "u8 \<Rightarrow> bool \<Rightarrow> u8 list \<Rightarrow> u8 list \<Rightarrow> u8 list \<times> u8 list" where
  "split_word sep qot str [] = (str, [])"
| "split_word sep qot str (c # p) =
     (if sep \<noteq> 0 then (if c = sep then (str, p) else split_word sep qot (str @ [c]) p)
      else if c = 0x5c \<and> p \<noteq> [] \<and> (hd p = 0x22 \<or> hd p = 0x5c) then split_word sep qot (str @ [hd p]) (tl p)
      else if c = 0x22 then split_word sep (\<not> qot) str p
      else if c \<le> 0x20 \<and> \<not> qot then (str, p)
      else split_word sep qot (str @ [c]) p)"
  by pat_completeness auto
termination by (relation "measure (\<lambda>(s, q, w, p). length p)") auto

lemma split_word_shorter: "length (snd (split_word sep qot str p)) \<le> length p"
  by (induction sep qot str p rule: split_word.induct) auto

lemma split_word_Cons: "length (snd (split_word sep qot str (c # p))) \<le> length p"
  using split_word_shorter [of sep _ _ p] split_word_shorter [of sep qot "str @ [hd p]" "tl p"] by (auto intro: order_trans)

function dynarray_split :: "u8 \<Rightarrow> u8 list \<Rightarrow> u8 list dynarray \<Rightarrow> u8 list dynarray" where
  "dynarray_split sep p argv =
     (case dropWhile (\<lambda>c. c \<le> 0x20) p of
        [] \<Rightarrow> argv
      | c # p \<Rightarrow> (case split_word sep False [] (c # p) of (str, p) \<Rightarrow> dynarray_split sep p (dynarray_add str argv)))"
  by pat_completeness auto
termination
proof (relation "measure (\<lambda>(s, p, a). length p)", simp, goal_cases)
  case (1 sep p argv c p' str p2)
  have "length p2 \<le> length p'" using split_word_Cons [of sep False "[]" c p'] 1(2) by (metis snd_conv)
  moreover have "length (c # p') \<le> length p" using length_dropWhile_le [of "\<lambda>c. c \<le> 0x20" p] 1(1) by simp
  ultimately show ?case by simp
qed

declare dynarray_split.simps [simp del]

text \<open>How an argument is written so that it is read back.\<close>

definition quoted :: "u8 list \<Rightarrow> u8 list" where
  "quoted a = 0x22 # concat (map (\<lambda>c. if c = 0x22 \<or> c = 0x5c then [0x5c, c] else [c]) a) @ [0x22]"

lemma split_quoted:
  "split_word 0 True str (concat (map (\<lambda>c. if c = 0x22 \<or> c = 0x5c then [0x5c, c] else [c]) a) @ 0x22 # rest) =
     split_word 0 False (str @ a) rest"
  by (induction a arbitrary: str) auto

lemma split_arguments:
  "dynarray_split 0 (concat (map (\<lambda>a. quoted a @ [0x20]) args)) d = fold dynarray_add args d"
proof (induction args arbitrary: d)
  case Nil
  then show ?case by (subst dynarray_split.simps) simp
next
  case (Cons a args)
  let ?rest = "concat (map (\<lambda>a. quoted a @ [0x20]) args)"
  have "split_word 0 False [] (quoted a @ 0x20 # ?rest) = split_word 0 True [] (tl (quoted a) @ 0x20 # ?rest)"
    by (simp add: quoted_def)
  also have "\<dots> = (a, ?rest)" using split_quoted [of "[]" a "0x20 # ?rest"] by (simp add: quoted_def)
  finally have w: "split_word 0 False [] (quoted a @ 0x20 # ?rest) = (a, ?rest)" .
  obtain q where q: "quoted a = 0x22 # q" by (simp add: quoted_def)
  have "dynarray_split 0 (concat (map (\<lambda>a. quoted a @ [0x20]) (a # args))) d = dynarray_split 0 ?rest (dynarray_add a d)"
    using w by (subst dynarray_split.simps) (simp add: q)
  then show ?case using Cons.IH by simp
qed

text \<open>
  C39: any list of arguments, each written between quotes with a backslash before quotes and backslashes, is read back
  by dynarray_split, empty arguments and blanks included; the array that holds them has room for each.
\<close>

theorem option_string_roundtrip:
  "dynarray_ok (dynarray_split 0 (concat (map (\<lambda>a. quoted a @ [0x20]) args)) \<lparr>cells = [], nb = 0\<rparr>) args"
  unfolding split_arguments by (rule arrays.all_added)

text \<open>A word without quotes ends at the first blank; with a separator other bytes do not count.\<close>

lemma split_examples:
  "dynarray_split 0 [0x20, 0x2d, 0x67, 0x20, 0x22, 0x61, 0x20, 0x62, 0x22, 0x63] \<lparr>cells = [], nb = 0\<rparr> =
     \<lparr>cells = [Some [0x2d, 0x67], Some [0x61, 0x20, 0x62, 0x63]], nb = 2\<rparr>"
  "dynarray_split 0x2c [0x61, 0x22, 0x20, 0x2c, 0x62] \<lparr>cells = [], nb = 0\<rparr> = \<lparr>cells = [Some [0x61, 0x22, 0x20], Some [0x62]], nb = 2\<rparr>"
  by code_simp+

text \<open>tcc_split_path: the parts between semicolons, with {B} the directory of tcc, {R} nothing and {f} that of the file.\<close>

definition file_dir :: "u8 list option \<Rightarrow> u8 list" where
  "file_dir fn =
     (case fn of
        None \<Rightarrow> []
      | Some f \<Rightarrow> (let b = tcc_basename f in if b > 0 then take (b - 1) f else [0x2e]))"

fun path_part :: "u8 list \<Rightarrow> u8 list option \<Rightarrow> u8 list \<Rightarrow> u8 list \<Rightarrow> u8 list \<times> u8 list option" where
  "path_part lib fn str [] = (str, None)"
| "path_part lib fn str (c # p) =
     (if c = 0x3b then (str, Some p)
      else if c = 0x7b then
        (case p of
           k # e # p' \<Rightarrow>
             if e = 0x7d then
               path_part lib fn (str @ (if k = 0x42 then lib else if k = 0x66 then file_dir fn else [])) p'
             else path_part lib fn (str @ [c]) p
         | _ \<Rightarrow> path_part lib fn (str @ [c]) p)
      else path_part lib fn (str @ [c]) p)"

lemma path_part_char:
  "\<not> (c = 0x7b \<and> (\<exists>k r. q = k # 0x7d # r)) \<Longrightarrow>
     path_part lib fn str (c # q) = (if c = 0x3b then (str, Some q) else path_part lib fn (str @ [c]) q)"
  by (cases q rule: remdups_adj.cases) auto

declare path_part.simps(2) [simp del]

lemma path_part_shorter: "path_part lib fn str p = (w, Some p') \<Longrightarrow> length p' < length p"
proof (induction "length p" arbitrary: p str rule: less_induct)
  case less
  show ?case
  proof (cases p)
    case (Cons c q)
    have IH: "length p' < length p" if "length r < length p" "path_part lib fn str' r = (w, Some p')" for r str'
      using less.hyps [OF that] that(1) by simp
    show ?thesis
    proof (cases "c = 0x7b \<and> (\<exists>k r. q = k # 0x7d # r)")
      case True
      then obtain k r where q: "c = 0x7b" "q = k # 0x7d # r" by blast
      then have r: "path_part lib fn (str @ (if k = 0x42 then lib else if k = 0x66 then file_dir fn else [])) r = (w, Some p')"
        using less.prems Cons by (simp add: path_part.simps(2))
      show ?thesis by (rule IH [OF _ r]) (use Cons q in simp)
    next
      case False
      then have "c = 0x3b \<and> p' = q \<or> path_part lib fn (str @ [c]) q = (w, Some p')"
        using less.prems Cons path_part_char [OF False, of lib fn str] by (simp split: if_splits)
      then show ?thesis using IH [of q "str @ [c]"] Cons by auto
    qed
  qed (use less.prems in simp)
qed

function tcc_split_path :: "u8 list \<Rightarrow> u8 list option \<Rightarrow> u8 list \<Rightarrow> u8 list dynarray \<Rightarrow> u8 list dynarray" where
  "tcc_split_path lib fn p ary =
     (case path_part lib fn [] p of
        (str, rest) \<Rightarrow>
          let ary = (if str \<noteq> [] then dynarray_add str ary else ary)
          in case rest of None \<Rightarrow> ary | Some p \<Rightarrow> tcc_split_path lib fn p ary)"
  by pat_completeness auto
termination by (relation "measure (\<lambda>(l, f, p, a). length p)") (auto dest: path_part_shorter [OF sym])

declare tcc_split_path.simps [simp del]

definition joined :: "u8 list list \<Rightarrow> u8 list" where
  "joined ds = concat (map (\<lambda>d. d @ [0x3b]) ds)"

lemma path_part_plain:
  "0x3b \<notin> set d \<Longrightarrow> 0x7b \<notin> set d \<Longrightarrow> path_part lib fn str (d @ 0x3b # p) = (str @ d, Some p)"
  by (induction d arbitrary: str) (auto simp: path_part_char)

lemma split_path_fold:
  "\<forall>d\<in>set ds. d \<noteq> [] \<and> 0x3b \<notin> set d \<and> 0x7b \<notin> set d \<Longrightarrow> tcc_split_path lib fn (joined ds) ary = fold dynarray_add ds ary"
proof (induction ds arbitrary: ary)
  case Nil
  then show ?case by (subst tcc_split_path.simps) (simp add: joined_def)
next
  case (Cons d ds)
  have "path_part lib fn [] (joined (d # ds)) = (d, Some (joined ds))" using Cons.prems path_part_plain [of d lib fn "[]" "joined ds"]
    by (simp add: joined_def)
  then have "tcc_split_path lib fn (joined (d # ds)) ary = tcc_split_path lib fn (joined ds) (dynarray_add d ary)"
    using Cons.prems by (subst tcc_split_path.simps) simp
  then show ?case using Cons by simp
qed

lemma split_path_joined:
  assumes "dynarray_ok ary xs" "\<forall>d\<in>set ds. d \<noteq> [] \<and> 0x3b \<notin> set d \<and> 0x7b \<notin> set d"
  shows "dynarray_ok (tcc_split_path lib fn (joined ds) ary) (xs @ ds)"
  unfolding split_path_fold [OF assms(2)] by (rule arrays.fold_holds [OF assms(1)])

end
