(* ===== verification/TinyAlloc.thy ===== *)
theory TinyAlloc
  imports Prelude
begin

text \<open>
  The allocator of small objects (tal_new, tal_free_impl, tal_realloc_impl; lines 12967-13064), which holds_addr token
  strings and symbols of names. A pool is a list of arenas; an arena hands out its bytes from the front, with a header
  of 8 bytes that holds_addr the size before each block, and counts its blocks: when the count falls to 0 it is reset, or
  given back if it is larger than usual. Addresses are natural numbers; the memory of the headers (by the address of
  their block) is kept arenas_apart from that of the blocks, which the invariant justifies: no two of them overlap. Where a
  list ends without the arena looked for, C follows a null pointer and the model gives None. The address malloc
  returns is an argument.
\<close>

record tiny_alloc =
  buf :: nat
  bufend :: nat
  cur :: nat
  nb_allocs :: nat
  al_size :: nat

record tal_state =
  arenas :: "tiny_alloc list"
  hdr :: "nat \<Rightarrow> nat"
  mem :: "nat \<Rightarrow> u8"

definition tal_new :: "nat \<Rightarrow> nat \<Rightarrow> tiny_alloc list \<Rightarrow> tiny_alloc list" where
  "tal_new a sz pal =
     \<lparr>buf = a + 32, bufend = a + 32 + sz, cur = a + 32, nb_allocs = 0,
      al_size = (case pal of [] \<Rightarrow> sz | al # _ \<Rightarrow> al_size al)\<rparr> # pal"

definition holds_addr :: "nat \<Rightarrow> tiny_alloc \<Rightarrow> bool" where
  "holds_addr p al \<longleftrightarrow> \<not> (p < buf al \<or> p > bufend al)"

definition tal_free_impl :: "nat \<Rightarrow> tal_state \<Rightarrow> tal_state option" where
  "tal_free_impl p st =
     (if p = 0 then Some st
      else case List.extract (holds_addr p) (arenas st) of
             None \<Rightarrow> None
           | Some (ys, al, zs) \<Rightarrow>
               let al = al\<lparr>nb_allocs := nb_allocs al - 1\<rparr>
               in if nb_allocs al = 0 then
                    (if bufend al - buf al > al_size al then Some (st\<lparr>arenas := ys @ zs\<rparr>)
                     else Some (st\<lparr>arenas := al\<lparr>cur := buf al\<rparr> # ys @ zs\<rparr>))
                  else if p + hdr st p = cur al then Some (st\<lparr>arenas := ys @ al\<lparr>cur := p - 8\<rparr> # zs\<rparr>)
                  else Some (st\<lparr>arenas := ys @ al # zs\<rparr>))"

definition adj_size :: "nat \<Rightarrow> nat" where
  "adj_size sz = (round_up sz 8 + 8) mod 2 ^ 32"

text \<open>The end of tal_realloc_impl: the header and the block at cur; al stands between ys and zs.\<close>

definition tal_place :: "nat \<Rightarrow> tiny_alloc list \<Rightarrow> tiny_alloc \<Rightarrow> tiny_alloc list \<Rightarrow> tal_state \<Rightarrow> nat \<times> tal_state" where
  "tal_place adj ys al zs st =
     (cur al + 8, st\<lparr>arenas := ys @ al\<lparr>cur := cur al + adj\<rparr> # zs, hdr := (hdr st)(cur al + 8 := adj - 8)\<rparr>)"

definition tal_alloc :: "(nat \<Rightarrow> tiny_alloc list \<Rightarrow> nat) \<Rightarrow> nat \<Rightarrow> tal_state \<Rightarrow> (nat \<times> tal_state) option" where
  "tal_alloc malloc sz st =
     (let adj = adj_size sz
      in case arenas st of
           [] \<Rightarrow> None
         | first # _ \<Rightarrow>
             (case List.extract (\<lambda>al. \<not> cur al + adj > bufend al) (arenas st) of
                Some (ys, al, zs) \<Rightarrow> Some (tal_place adj ys (al\<lparr>nb_allocs := nb_allocs al + 1\<rparr>) zs st)
              | None \<Rightarrow>
                  let new_size = (if adj > al_size first then adj else al_size first)
                  in (case tal_new (malloc (32 + new_size) (arenas st)) new_size (arenas st) of
                        al # als \<Rightarrow> Some (tal_place adj [] (al\<lparr>nb_allocs := nb_allocs al + 1\<rparr>) als st)
                      | [] \<Rightarrow> None)))"

definition memcpy :: "nat \<Rightarrow> nat \<Rightarrow> nat \<Rightarrow> tal_state \<Rightarrow> tal_state" where
  "memcpy dst src n st = st\<lparr>mem := (\<lambda>a. if dst \<le> a \<and> a < dst + n then mem st (src + (a - dst)) else mem st a)\<rparr>"

definition tal_realloc_impl ::
  "(nat \<Rightarrow> tiny_alloc list \<Rightarrow> nat) \<Rightarrow> nat \<Rightarrow> nat \<Rightarrow> tal_state \<Rightarrow> (nat \<times> tal_state) option" where
  "tal_realloc_impl malloc p sz st =
     (if p = 0 then tal_alloc malloc sz st
      else case List.extract (holds_addr p) (arenas st) of
             None \<Rightarrow> None
           | Some (ys, al, zs) \<Rightarrow>
               let adj = adj_size sz;
                   al = (if p + hdr st p = cur al then al\<lparr>cur := p - 8\<rparr> else al);
                   st = st\<lparr>arenas := ys @ al # zs\<rparr>
               in if cur al + adj > bufend al then
                    (case tal_alloc malloc sz st of
                       None \<Rightarrow> None
                     | Some (ret, st) \<Rightarrow> map_option (Pair ret) (tal_free_impl p (memcpy ret p (hdr st p) st)))
                  else Some (tal_place adj ys al zs (if cur al \<noteq> p - 8 then memcpy (cur al + 8) p (hdr st p) st else st)))"

section \<open>The invariant\<close>

text \<open>
  L are the addresses of the blocks in use; P those of blocks that are no longer protected but still counted, as a
  block that is moved is between its copying and its release.
\<close>

definition arenas_apart :: "tiny_alloc \<Rightarrow> tiny_alloc \<Rightarrow> bool" where
  "arenas_apart a b \<longleftrightarrow> bufend a + 32 \<le> buf b \<or> bufend b + 32 \<le> buf a"

definition in_arena :: "(nat \<Rightarrow> nat) \<Rightarrow> nat \<Rightarrow> tiny_alloc \<Rightarrow> bool" where
  "in_arena h p al \<longleftrightarrow> buf al + 8 \<le> p \<and> p + h p \<le> cur al"

definition arena_ok :: "(nat \<Rightarrow> nat) \<Rightarrow> nat set \<Rightarrow> nat set \<Rightarrow> tiny_alloc \<Rightarrow> bool" where
  "arena_ok h L P al \<longleftrightarrow> buf al \<le> cur al \<and> cur al \<le> bufend al \<and> 32 < buf al \<and>
     nb_allocs al = card {p \<in> L. in_arena h p al} + card {p \<in> P. holds_addr p al}"

definition blocks_ok :: "(nat \<Rightarrow> nat) \<Rightarrow> nat set \<Rightarrow> bool" where
  "blocks_ok h L \<longleftrightarrow> (\<forall>p\<in>L. \<forall>q\<in>L. p \<noteq> q \<longrightarrow> p + h p + 8 \<le> q \<or> q + h q + 8 \<le> p)"

definition tal_ok :: "tal_state \<Rightarrow> nat set \<Rightarrow> nat set \<Rightarrow> bool" where
  "tal_ok st L P \<longleftrightarrow>
     sorted_wrt arenas_apart (arenas st) \<and> finite L \<and> finite P \<and> blocks_ok (hdr st) L \<and>
     (\<forall>al\<in>set (arenas st). arena_ok (hdr st) L P al) \<and>
     (\<forall>p\<in>L. \<exists>al\<in>set (arenas st). in_arena (hdr st) p al) \<and>
     (\<forall>p\<in>P. \<exists>al\<in>set (arenas st). holds_addr p al \<and> buf al + 8 \<le> p \<and>
        (p + hdr st p = cur al \<longrightarrow> (\<forall>q\<in>L. in_arena (hdr st) q al \<longrightarrow> q + hdr st q + 8 \<le> p))) \<and>
     (\<exists>al\<in>set (arenas st). bufend al - buf al \<le> al_size al)"

definition malloc_ok :: "(nat \<Rightarrow> tiny_alloc list \<Rightarrow> nat) \<Rightarrow> bool" where
  "malloc_ok malloc \<longleftrightarrow> (\<forall>n als. 0 < malloc n als \<and>
     (\<forall>al\<in>set als. bufend al \<le> malloc n als \<or> malloc n als + n + 32 \<le> buf al))"

lemma arenas_apart_sym: "arenas_apart a b \<longleftrightarrow> arenas_apart b a"
  by (auto simp: arenas_apart_def)

lemma holds_in_arena: "in_arena h p al \<Longrightarrow> arena_ok h' L P al \<Longrightarrow> holds_addr p al"
  by (auto simp: in_arena_def arena_ok_def holds_addr_def)

lemma apart_holds: "arenas_apart a b \<Longrightarrow> holds_addr p a \<Longrightarrow> \<not> holds_addr p b"
  by (auto simp: arenas_apart_def holds_addr_def)

lemma same_bounds:
  assumes "buf al' = buf al" "bufend al' = bufend al"
  shows "arenas_apart al' b = arenas_apart al b" "arenas_apart b al' = arenas_apart b al" "holds_addr p al' = holds_addr p al"
  using assms by (simp_all add: arenas_apart_def holds_addr_def)

lemma sorted_replace:
  assumes "buf al' = buf al" "bufend al' = bufend al"
  shows "sorted_wrt arenas_apart (ys @ al' # zs) = sorted_wrt arenas_apart (ys @ al # zs)"
  by (simp add: sorted_wrt_append same_bounds [OF assms])

lemma others_apart: "sorted_wrt arenas_apart (ys @ al # zs) \<Longrightarrow> b \<in> set ys \<union> set zs \<Longrightarrow> arenas_apart al b"
  by (auto simp: sorted_wrt_append arenas_apart_sym)

lemma tal_okD:
  assumes "tal_ok st L P"
  shows "sorted_wrt arenas_apart (arenas st)" "finite L" "finite P" "blocks_ok (hdr st) L"
    and "\<And>al. al \<in> set (arenas st) \<Longrightarrow> arena_ok (hdr st) L P al"
    and "\<And>p. p \<in> L \<Longrightarrow> \<exists>al\<in>set (arenas st). in_arena (hdr st) p al"
    and "\<exists>al\<in>set (arenas st). bufend al - buf al \<le> al_size al"
  using assms unfolding tal_ok_def by blast+

lemma in_one_arena:
  assumes "tal_ok st L P" "p \<in> L" "al \<in> set (arenas st)" "holds_addr p al"
  shows "in_arena (hdr st) p al"
proof -
  obtain b where b: "b \<in> set (arenas st)" "in_arena (hdr st) p b" using tal_okD(6) [OF assms(1,2)] by blast
  then have hb: "holds_addr p b" using holds_in_arena tal_okD(5) [OF assms(1)] by blast
  have "b = al"
  proof (rule ccontr)
    assume "b \<noteq> al"
    then have "arenas_apart al b" using others_apart tal_okD(1) [OF assms(1)] split_list [OF assms(3)] b(1) by fastforce
    then show False using apart_holds assms(4) hb by blast
  qed
  then show ?thesis using b by simp
qed

lemma place_ok:
  assumes ok: "tal_ok st L P" and al: "arenas st = ys @ al # zs" "cur al + adj \<le> bufend al" "8 \<le> adj" "\<forall>p\<in>P. \<not> holds_addr p al"
    and r: "tal_place adj ys (al\<lparr>nb_allocs := nb_allocs al + 1\<rparr>) zs st = (ret, st')"
  shows "tal_ok st' (insert ret L) P \<and> ret \<notin> L \<and> hdr st' = (hdr st)(ret := adj - 8) \<and> mem st' = mem st \<and> ret \<notin> P"
proof -
  define al' where "al' = al\<lparr>nb_allocs := nb_allocs al + 1, cur := cur al + adj\<rparr>"
  have r': "ret = cur al + 8" "st' = st\<lparr>arenas := ys @ al' # zs, hdr := (hdr st)(ret := adj - 8)\<rparr>"
    using r by (auto simp: tal_place_def al'_def)
  have bnd: "buf al' = buf al" "bufend al' = bufend al" "cur al' = cur al + adj" "nb_allocs al' = nb_allocs al + 1"
    "al_size al' = al_size al" by (simp_all add: al'_def)
  note sb = same_bounds [OF bnd(1,2)]
  have aok: "arena_ok (hdr st) L P al" using tal_okD(5) [OF ok] al(1) by simp
  have ap: "arenas_apart al b" if "b \<in> set ys \<union> set zs" for b using others_apart that tal_okD(1) [OF ok] al(1) by metis
  have ret_al: "holds_addr ret al" using aok al(2,3) r'(1) by (auto simp: holds_addr_def arena_ok_def)
  have below: "q + hdr st q \<le> cur al \<and> buf al + 8 \<le> q" if "q \<in> L" "holds_addr q al" for q
    using in_one_arena [OF ok that(1)] that(2) al(1) by (auto simp: in_arena_def)
  have new: "ret \<notin> L" using below ret_al r'(1) by fastforce
  have far: "q + hdr st q + 8 \<le> ret \<or> ret + (adj - 8) + 8 \<le> q" if q: "q \<in> L" for q
  proof -
    obtain b where b: "b \<in> set (arenas st)" "in_arena (hdr st) q b" using tal_okD(6) [OF ok q] by blast
    have bo: "arena_ok (hdr st) L P b" by (rule tal_okD(5) [OF ok b(1)])
    show ?thesis
    proof (cases "b = al")
      case True
      then show ?thesis using b(2) r'(1) by (simp add: in_arena_def)
    next
      case False
      then have "arenas_apart al b" using ap b(1) al(1) by auto
      then show ?thesis using b(2) bo aok al(2,3) r'(1) by (auto simp: arenas_apart_def in_arena_def arena_ok_def)
    qed
  qed
  have blocks: "blocks_ok ((hdr st)(ret := adj - 8)) (insert ret L)"
    using tal_okD(4) [OF ok] far new by (auto simp: blocks_ok_def)
  have not_in: "\<not> in_arena h ret b" if "b \<in> set ys \<union> set zs" "arena_ok (hdr st) L P b" for b h
  proof
    assume "in_arena h ret b"
    then have "holds_addr ret b" using holds_in_arena that(2) by blast
    then show False using apart_holds [OF ap [OF that(1)] ret_al] by simp
  qed
  have P_ne: "p \<noteq> ret" if "p \<in> P" for p using that al(4) ret_al by auto
  have other: "arena_ok (hdr st') (insert ret L) P b" if b: "b \<in> set ys \<union> set zs" for b
  proof -
    have bo: "arena_ok (hdr st) L P b" using tal_okD(5) [OF ok] b al(1) by auto
    have "{p \<in> insert ret L. in_arena (hdr st') p b} = {p \<in> L. in_arena (hdr st) p b}"
    proof -
      have "in_arena (hdr st') p b = in_arena (hdr st) p b" if "p \<in> L" for p
        using that new r'(2) by (auto simp: in_arena_def)
      then show ?thesis using not_in [OF b bo, of "hdr st'"] by blast
    qed
    then show ?thesis using bo by (simp add: arena_ok_def)
  qed
  have mine: "arena_ok (hdr st') (insert ret L) P al'"
  proof -
    have "{p \<in> insert ret L. in_arena (hdr st') p al'} = insert ret {p \<in> L. in_arena (hdr st) p al}"
    proof -
      have "in_arena (hdr st) p al" if "p \<in> L" "in_arena (hdr st') p al'" for p
      proof -
        have "holds_addr p al" using that(2) al(2) bnd by (auto simp: in_arena_def holds_addr_def)
        then show ?thesis using in_one_arena [OF ok that(1)] al(1) by simp
      qed
      moreover have "in_arena (hdr st') p al'" if "p \<in> L" "in_arena (hdr st) p al" for p
        using that new r'(2) bnd by (auto simp: in_arena_def)
      moreover have "in_arena (hdr st') ret al'" using r' bnd al(3) aok by (simp add: in_arena_def arena_ok_def)
      ultimately show ?thesis by blast
    qed
    moreover have "finite {p \<in> L. in_arena (hdr st) p al}" using tal_okD(2) [OF ok] by simp
    ultimately have "card {p \<in> insert ret L. in_arena (hdr st') p al'} = Suc (card {p \<in> L. in_arena (hdr st) p al})"
      using new by simp
    then show ?thesis using aok al(2) bnd sb(3) by (simp add: arena_ok_def)
  qed
  have live: "\<exists>b\<in>set (arenas st'). in_arena (hdr st') p b" if p: "p \<in> insert ret L" for p
  proof (cases "p = ret")
    case True
    have "in_arena (hdr st') ret al'" using r' bnd al(3) aok by (simp add: in_arena_def arena_ok_def)
    then show ?thesis using True r'(2) by auto
  next
    case False
    then obtain b where b: "b \<in> set (arenas st)" "in_arena (hdr st) p b" using tal_okD(6) [OF ok] p by auto
    show ?thesis
    proof (cases "b = al")
      case True
      then have "in_arena (hdr st') p al'" using b(2) False r'(2) bnd by (simp add: in_arena_def)
      then show ?thesis using r'(2) by auto
    next
      case ne: False
      then have "in_arena (hdr st') p b" "b \<in> set (arenas st')" using b False r'(2) al(1) by (auto simp: in_arena_def)
      then show ?thesis by blast
    qed
  qed
  have phantom: "\<exists>b\<in>set (arenas st'). holds_addr p b \<and> buf b + 8 \<le> p \<and>
      (p + hdr st' p = cur b \<longrightarrow> (\<forall>q\<in>insert ret L. in_arena (hdr st') q b \<longrightarrow> q + hdr st' q + 8 \<le> p))" if p: "p \<in> P" for p
  proof -
    obtain b where b: "b \<in> set (arenas st)" "holds_addr p b" "buf b + 8 \<le> p"
      "p + hdr st p = cur b \<longrightarrow> (\<forall>q\<in>L. in_arena (hdr st) q b \<longrightarrow> q + hdr st q + 8 \<le> p)"
      using ok p unfolding tal_ok_def by blast
    then have o: "b \<in> set ys \<union> set zs" using al(1,4) p by auto
    have bo: "arena_ok (hdr st) L P b" using tal_okD(5) [OF ok b(1)] .
    have "q \<in> L \<and> in_arena (hdr st) q b \<and> hdr st' q = hdr st q" if "q \<in> insert ret L" "in_arena (hdr st') q b" for q
    proof -
      have "q \<noteq> ret" using that(2) not_in [OF o bo] by blast
      then show ?thesis using that r'(2) by (auto simp: in_arena_def)
    qed
    then show ?thesis using b o P_ne [OF p] r'(2) by (intro bexI [of _ b]) auto
  qed
  have "\<exists>b\<in>set (arenas st'). bufend b - buf b \<le> al_size b"
    using tal_okD(7) [OF ok] al(1) r'(2) bnd by auto
  moreover have "sorted_wrt arenas_apart (arenas st')" using tal_okD(1) [OF ok] al(1) r'(2) sorted_replace [OF bnd(1,2)] by simp
  moreover have "\<forall>b\<in>set (arenas st'). arena_ok (hdr st') (insert ret L) P b" using other mine r'(2) by auto
  ultimately have "tal_ok st' (insert ret L) P"
    unfolding tal_ok_def using blocks live phantom tal_okD(2,3) [OF ok] r'(2) by simp
  then show ?thesis using new r'(2) P_ne by auto
qed

lemma adj_size_ge: "sz \<le> 2 ^ 31 \<Longrightarrow> 8 \<le> adj_size sz \<and> sz \<le> adj_size sz - 8 \<and> adj_size sz - 8 = round_up sz 8"
proof -
  assume "sz \<le> 2 ^ 31"
  then have "round_up sz 8 + 8 < 2 ^ 32" using round_up_lt [of 8 sz] by simp
  then show ?thesis using round_up_ge [of 8 sz] by (simp add: adj_size_def)
qed

lemma tal_alloc_ok:
  assumes "malloc_ok malloc" "tal_ok st L P" "sz \<le> 2 ^ 31"
    and P: "\<And>p al. p \<in> P \<Longrightarrow> al \<in> set (arenas st) \<Longrightarrow> holds_addr p al \<Longrightarrow> cur al + adj_size sz > bufend al"
  shows "\<exists>ret st'. tal_alloc malloc sz st = Some (ret, st') \<and> tal_ok st' (insert ret L) P \<and> ret \<notin> L \<and>
    hdr st' = (hdr st)(ret := adj_size sz - 8) \<and> mem st' = mem st \<and> ret \<notin> P"
proof -
  have adj: "8 \<le> adj_size sz" using adj_size_ge [OF assms(3)] by simp
  obtain first rest where f: "arenas st = first # rest" using tal_okD(7) [OF assms(2)] by (cases "arenas st") auto
  show ?thesis
  proof (cases "List.extract (\<lambda>al. \<not> cur al + adj_size sz > bufend al) (arenas st)")
    case (Some e)
    obtain ys al zs where e: "e = (ys, al, zs)" by (cases e) auto
    then have a: "arenas st = ys @ al # zs" "cur al + adj_size sz \<le> bufend al"
      using Some by (auto simp: extract_Some_iff)
    have n: "\<forall>p\<in>P. \<not> holds_addr p al" using P [of _ al] a by fastforce
    obtain ret st' where r: "tal_place (adj_size sz) ys (al\<lparr>nb_allocs := nb_allocs al + 1\<rparr>) zs st = (ret, st')" by fastforce
    then have "tal_alloc malloc sz st = Some (ret, st')" using Some e f by (simp add: tal_alloc_def Let_def)
    then show ?thesis using place_ok [OF assms(2) a adj n r] by blast
  next
    case None
    define ns where "ns = (if adj_size sz > al_size first then adj_size sz else al_size first)"
    define a where "a = malloc (32 + ns) (arenas st)"
    define al where "al = \<lparr>buf = a + 32, bufend = a + 32 + ns, cur = a + 32, nb_allocs = 0, al_size = al_size first\<rparr>"
    let ?st = "st\<lparr>arenas := al # arenas st\<rparr>"
    have new: "tal_new a ns (arenas st) = al # arenas st" by (simp add: tal_new_def al_def f)
    have m: "0 < a" "\<And>b. b \<in> set (arenas st) \<Longrightarrow> arenas_apart al b"
      using assms(1) unfolding malloc_ok_def a_def al_def arenas_apart_def by fastforce+
    have nh: "\<not> holds_addr p al" if "b \<in> set (arenas st)" "holds_addr p b" for p b using apart_holds [OF m(2) [OF that(1)]] that(2) by blast
    have ok: "tal_ok ?st L P"
    proof -
      have e1: "{p \<in> P. holds_addr p al} = {}" using nh assms(2) unfolding tal_ok_def by blast
      have e2: "{p \<in> L. in_arena (hdr st) p al} = {}" by (auto simp: in_arena_def al_def)
      have "buf al = a + 32" "cur al = a + 32" "bufend al = a + 32 + ns" "nb_allocs al = 0" by (simp_all add: al_def)
      then have "arena_ok (hdr st) L P al" unfolding arena_ok_def e1 e2 using m(1) by simp
      then show ?thesis using assms(2) m(2) unfolding tal_ok_def by simp
    qed
    have n: "\<forall>p\<in>P. \<not> holds_addr p al" using nh assms(2) unfolding tal_ok_def by blast
    obtain ret st' where r: "tal_place (adj_size sz) [] (al\<lparr>nb_allocs := nb_allocs al + 1\<rparr>) (arenas st) ?st = (ret, st')" by fastforce
    then have r2: "tal_place (adj_size sz) [] (al\<lparr>nb_allocs := nb_allocs al + 1\<rparr>) (arenas st) st = (ret, st')"
      by (auto simp: tal_place_def)
    have a': "malloc (32 + ns) (first # rest) = a" by (simp add: a_def f)
    have "tal_alloc malloc sz st = Some (ret, st')"
      using None new r2 f a' by (simp add: tal_alloc_def Let_def flip: ns_def)
    moreover have "arenas ?st = [] @ al # arenas st" "cur al + adj_size sz \<le> bufend al" by (simp_all add: al_def ns_def)
    ultimately show ?thesis using place_ok [OF ok _ _ adj n r] by simp
  qed
qed

lemma demote:
  assumes "tal_ok st L {}" "p \<in> L"
  shows "tal_ok st (L - {p}) {p}"
proof -
  obtain al where al: "al \<in> set (arenas st)" "in_arena (hdr st) p al" using tal_okD(6) [OF assms] by blast
  have b: "q + hdr st q + 8 \<le> p" if "q \<in> L - {p}" "in_arena (hdr st) q al" "p + hdr st p = cur al" for q
    using tal_okD(4) [OF assms(1)] that assms(2) by (fastforce simp: blocks_ok_def in_arena_def)
  have "arena_ok (hdr st) (L - {p}) {p} a" if a: "a \<in> set (arenas st)" for a
  proof (cases "in_arena (hdr st) p a")
    case True
    then have h: "{q \<in> {p}. holds_addr q a} = {p}" using holds_in_arena tal_okD(5) [OF assms(1) a] by blast
    have "{q \<in> L - {p}. in_arena (hdr st) q a} = {q \<in> L. in_arena (hdr st) q a} - {p}" by blast
    moreover have "p \<in> {q \<in> L. in_arena (hdr st) q a}" using True assms(2) by simp
    moreover have "finite {q \<in> L. in_arena (hdr st) q a}" using tal_okD(2) [OF assms(1)] by simp
    ultimately have "card {q \<in> L. in_arena (hdr st) q a} = card {q \<in> L - {p}. in_arena (hdr st) q a} + 1"
      by (metis Suc_eq_plus1 card_Suc_Diff1)
    then show ?thesis using tal_okD(5) [OF assms(1) a] h by (simp add: arena_ok_def)
  next
    case False
    then have h: "\<not> holds_addr p a" using in_one_arena [OF assms a] by blast
    have "{q \<in> L - {p}. in_arena (hdr st) q a} = {q \<in> L. in_arena (hdr st) q a}" using False by blast
    then show ?thesis using tal_okD(5) [OF assms(1) a] h by (simp add: arena_ok_def)
  qed
  moreover have "holds_addr p al \<and> buf al + 8 \<le> p" using holds_in_arena [OF al(2) tal_okD(5) [OF assms(1) al(1)]] al(2) by (simp add: in_arena_def)
  ultimately show ?thesis
    using assms(1) al(1) b unfolding tal_ok_def by (auto simp: blocks_ok_def)
qed

lemma alter_ok:
  assumes ok: "tal_ok st L {p}" and al: "arenas st = ys @ al # zs" "holds_addr p al"
    and al': "buf al' = buf al" "bufend al' = bufend al" "al_size al' = al_size al" "nb_allocs al' + 1 = nb_allocs al + card P"
      "buf al \<le> cur al'" "cur al' \<le> bufend al" "\<And>q. q \<in> L \<Longrightarrow> in_arena (hdr st) q al' = in_arena (hdr st) q al"
    and P: "P \<subseteq> {p}" "P = {} \<or> p + hdr st p \<noteq> cur al'"
    and st': "sorted_wrt arenas_apart (arenas st')" "set (arenas st') = insert al' (set ys \<union> set zs)" "hdr st' = hdr st"
  shows "tal_ok st' L P"
proof -
  note sb = same_bounds [OF al'(1,2)]
  have ap: "arenas_apart al b" if "b \<in> set ys \<union> set zs" for b using others_apart that tal_okD(1) [OF ok] al(1) by metis
  have set: "set (arenas st) = insert al (set ys \<union> set zs)" using al(1) by auto
  have nh: "\<not> holds_addr p b" if "b \<in> set ys \<union> set zs" for b using apart_holds [OF ap [OF that] al(2)] .
  have aok: "arena_ok (hdr st) L {p} al" using tal_okD(5) [OF ok] set by blast
  have ar: "arena_ok (hdr st) L P b" if b: "b \<in> set (arenas st')" for b
  proof (cases "b = al'")
    case True
    have "{q \<in> L. in_arena (hdr st) q al'} = {q \<in> L. in_arena (hdr st) q al}" using al'(7) by blast
    moreover have "{q \<in> P. holds_addr q al'} = P" using P(1) al(2) sb(3) by auto
    moreover have "{q \<in> {p}. holds_addr q al} = {p}" using al(2) by auto
    ultimately show ?thesis using aok al' True by (simp add: arena_ok_def)
  next
    case False
    then have o: "b \<in> set ys \<union> set zs" using b st'(2) by blast
    have e: "{q \<in> {p}. holds_addr q b} = {}" "{q \<in> P. holds_addr q b} = {}" using nh [OF o] P(1) by auto
    have "arena_ok (hdr st) L {p} b" by (rule tal_okD(5) [OF ok]) (use o set in blast)
    then show ?thesis unfolding arena_ok_def e .
  qed
  have live: "\<exists>b\<in>set (arenas st'). in_arena (hdr st) q b" if q: "q \<in> L" for q
  proof -
    obtain b where b: "b \<in> set (arenas st)" "in_arena (hdr st) q b" using tal_okD(6) [OF ok q] by blast
    show ?thesis
    proof (cases "b = al")
      case True
      then show ?thesis using b(2) al'(7) [OF q] st'(2) by auto
    next
      case False
      then have "b \<in> set (arenas st')" using b(1) set st'(2) by auto
      then show ?thesis using b(2) by blast
    qed
  qed
  have p8: "buf al + 8 \<le> p"
  proof -
    obtain b where b: "b \<in> set (arenas st)" "holds_addr p b" "buf b + 8 \<le> p" using ok unfolding tal_ok_def by blast
    have "b = al" using b(1,2) nh [of b] set by auto
    then show ?thesis using b(3) by simp
  qed
  have ph: "\<exists>b\<in>set (arenas st'). holds_addr q b \<and> buf b + 8 \<le> q \<and>
      (q + hdr st q = cur b \<longrightarrow> (\<forall>r\<in>L. in_arena (hdr st) r b \<longrightarrow> r + hdr st r + 8 \<le> q))" if "q \<in> P" for q
  proof -
    have "q = p" "p + hdr st p \<noteq> cur al'" using that P by auto
    then show ?thesis using p8 al(2) sb(3) al'(1) st'(2) by (intro bexI [of _ al']) simp_all
  qed
  have "\<exists>b\<in>set (arenas st'). bufend b - buf b \<le> al_size b"
    using tal_okD(7) [OF ok] set st'(2) al' by auto
  then show ?thesis
    using ar live ph st'(1,3) tal_okD(2,4) [OF ok] finite_subset [OF P(1)] unfolding tal_ok_def by simp
qed

lemma remove_ok:
  assumes ok: "tal_ok st L {p}" and al: "arenas st = ys @ al # zs" "holds_addr p al" "al_size al < bufend al - buf al"
    and none: "\<And>q. q \<in> L \<Longrightarrow> \<not> in_arena (hdr st) q al"
  shows "tal_ok (st\<lparr>arenas := ys @ zs\<rparr>) L {}"
proof -
  have s: "sorted_wrt arenas_apart (ys @ al # zs)" using tal_okD(1) [OF ok] al(1) by simp
  have "sorted_wrt arenas_apart (ys @ zs)" using s by (simp add: sorted_wrt_append)
  moreover have "arena_ok (hdr st) L {} b" if b: "b \<in> set (ys @ zs)" for b
  proof -
    have e: "{q \<in> {p}. holds_addr q b} = {}" "{q \<in> {}. holds_addr q b} = {}"
      using apart_holds [OF others_apart [OF s] al(2)] b by auto
    have "arena_ok (hdr st) L {p} b" by (rule tal_okD(5) [OF ok]) (use b al(1) in auto)
    then show ?thesis unfolding arena_ok_def e .
  qed
  moreover have "\<exists>b\<in>set (ys @ zs). in_arena (hdr st) q b" if q: "q \<in> L" for q
  proof -
    obtain b where b: "b \<in> set (arenas st)" "in_arena (hdr st) q b" using tal_okD(6) [OF ok q] by blast
    then have "b \<noteq> al" using none [OF q] by blast
    then show ?thesis using b al(1) by auto
  qed
  moreover have "\<exists>b\<in>set (ys @ zs). bufend b - buf b \<le> al_size b"
  proof -
    obtain b where b: "b \<in> set (arenas st)" "bufend b - buf b \<le> al_size b" using tal_okD(7) [OF ok] by blast
    then have "b \<noteq> al" using al(3) by auto
    then show ?thesis using b al(1) by auto
  qed
  ultimately show ?thesis using tal_okD(2,4) [OF ok] unfolding tal_ok_def by simp
qed

lemma free_ok:
  assumes ok: "tal_ok st L {p}"
  shows "\<exists>st'. tal_free_impl p st = Some st' \<and> tal_ok st' L {} \<and> hdr st' = hdr st \<and> mem st' = mem st"
proof -
  obtain b where b: "b \<in> set (arenas st)" "holds_addr p b" "buf b + 8 \<le> p"
    "p + hdr st p = cur b \<longrightarrow> (\<forall>q\<in>L. in_arena (hdr st) q b \<longrightarrow> q + hdr st q + 8 \<le> p)"
    using ok unfolding tal_ok_def by blast
  obtain ys al zs where e: "List.extract (holds_addr p) (arenas st) = Some (ys, al, zs)"
    using b(1,2) by (cases "List.extract (holds_addr p) (arenas st)") (auto simp: extract_None_iff)
  then have al: "arenas st = ys @ al # zs" "holds_addr p al" by (auto simp: extract_Some_iff)
  have "b = al"
    using b(1,2) apart_holds [OF others_apart [of ys al zs b]] al tal_okD(1) [OF ok] by auto
  note b = b [unfolded this]
  have aok: "arena_ok (hdr st) L {p} al" using tal_okD(5) [OF ok] al(1) by simp
  have one: "{q \<in> {p}. holds_addr q al} = {p}" using al(2) by auto
  have n: "nb_allocs al = card {q \<in> L. in_arena (hdr st) q al} + 1" using aok unfolding arena_ok_def one by simp
  have bnd: "buf al \<le> cur al" "cur al \<le> bufend al" using aok by (simp_all add: arena_ok_def)
  have srt: "sorted_wrt arenas_apart (ys @ al' # zs)" "sorted_wrt arenas_apart (al' # ys @ zs)" if "buf al' = buf al" "bufend al' = bufend al" for al'
  proof -
    have s: "sorted_wrt arenas_apart (ys @ al # zs)" using tal_okD(1) [OF ok] al(1) by simp
    then show "sorted_wrt arenas_apart (ys @ al' # zs)" using sorted_replace [OF that] by simp
    have "\<forall>c\<in>set (ys @ zs). arenas_apart al' c" using others_apart [OF s] same_bounds(1) [OF that] by auto
    then show "sorted_wrt arenas_apart (al' # ys @ zs)" using s by (simp add: sorted_wrt_append)
  qed
  have p0: "p \<noteq> 0" using b(3) by simp
  let ?al = "al\<lparr>nb_allocs := nb_allocs al - 1\<rparr>"
  have alter: "tal_ok (st\<lparr>arenas := as\<rparr>) L {}"
    if "as = ys @ al' # zs \<or> as = al' # ys @ zs" "al' = ?al\<lparr>cur := c\<rparr>" "buf al \<le> c" "c \<le> bufend al"
      "\<And>q. q \<in> L \<Longrightarrow> in_arena (hdr st) q al' = in_arena (hdr st) q al" for as al' c
  proof (rule alter_ok [OF ok al, of al'])
    have bb: "buf al' = buf al" "bufend al' = bufend al" using that(2) by simp_all
    show "buf al' = buf al" "bufend al' = bufend al" "al_size al' = al_size al" "nb_allocs al' + 1 = nb_allocs al + card {}"
      "buf al \<le> cur al'" "cur al' \<le> bufend al" using that(2-4) n by simp_all
    show "sorted_wrt arenas_apart (arenas (st\<lparr>arenas := as\<rparr>))" using that(1) srt [OF bb] by auto
    show "set (arenas (st\<lparr>arenas := as\<rparr>)) = insert al' (set ys \<union> set zs)" using that(1) by auto
  qed (use that(5) in simp_all)
  have "\<exists>as. tal_free_impl p st = Some (st\<lparr>arenas := as\<rparr>) \<and> tal_ok (st\<lparr>arenas := as\<rparr>) L {}"
  proof (cases "nb_allocs al - 1 = 0")
    case True
    then have "card {q \<in> L. in_arena (hdr st) q al} = 0" using n by simp
    then have "{q \<in> L. in_arena (hdr st) q al} = {}" using tal_okD(2) [OF ok] by simp
    then have none: "\<not> in_arena (hdr st) q al" if "q \<in> L" for q using that by blast
    show ?thesis
    proof (cases "bufend al - buf al > al_size al")
      case big: True
      have "tal_free_impl p st = Some (st\<lparr>arenas := ys @ zs\<rparr>)" using p0 e True big by (simp add: tal_free_impl_def Let_def)
      moreover have "tal_ok (st\<lparr>arenas := ys @ zs\<rparr>) L {}"
        by (rule remove_ok [OF ok al big none])
      ultimately show ?thesis by blast
    next
      case False
      have "in_arena (hdr st) q (?al\<lparr>cur := buf al\<rparr>) = in_arena (hdr st) q al" if "q \<in> L" for q
        using none [OF that] bnd by (auto simp: in_arena_def)
      then have "tal_ok (st\<lparr>arenas := ?al\<lparr>cur := buf al\<rparr> # ys @ zs\<rparr>) L {}"
        using bnd by (intro alter [of _ "?al\<lparr>cur := buf al\<rparr>" "buf al"]) simp_all
      moreover have "tal_free_impl p st = Some (st\<lparr>arenas := ?al\<lparr>cur := buf al\<rparr> # ys @ zs\<rparr>)"
        using p0 e True False by (simp add: tal_free_impl_def Let_def)
      ultimately show ?thesis by blast
    qed
  next
    case False
    show ?thesis
    proof (cases "p + hdr st p = cur al")
      case True
      have "in_arena (hdr st) q (?al\<lparr>cur := p - 8\<rparr>) = in_arena (hdr st) q al" if "q \<in> L" for q
        using b(4) True that by (fastforce simp: in_arena_def)
      then have "tal_ok (st\<lparr>arenas := ys @ ?al\<lparr>cur := p - 8\<rparr> # zs\<rparr>) L {}"
        using bnd b(3) True by (intro alter [of _ "?al\<lparr>cur := p - 8\<rparr>" "p - 8"]) auto
      moreover have "tal_free_impl p st = Some (st\<lparr>arenas := ys @ ?al\<lparr>cur := p - 8\<rparr> # zs\<rparr>)"
        using p0 e True False by (simp add: tal_free_impl_def Let_def)
      ultimately show ?thesis by blast
    next
      case top: False
      have "tal_ok (st\<lparr>arenas := ys @ ?al # zs\<rparr>) L {}"
        using bnd by (intro alter [of _ ?al "cur al"]) (auto simp: in_arena_def)
      moreover have "tal_free_impl p st = Some (st\<lparr>arenas := ys @ ?al # zs\<rparr>)"
        using p0 e top False by (simp add: tal_free_impl_def Let_def)
      ultimately show ?thesis by blast
    qed
  qed
  then show ?thesis by auto
qed

section \<open>Operations on blocks in use\<close>

lemma memcpy_simps [simp]:
  "arenas (memcpy d s n st) = arenas st" "hdr (memcpy d s n st) = hdr st"
  by (simp_all add: memcpy_def)

lemma tal_ok_memcpy [simp]: "tal_ok (memcpy d s n st) L P = tal_ok st L P"
  by (simp add: tal_ok_def)

lemma mem_memcpy: "mem (memcpy d s n st) = (\<lambda>a. if d \<le> a \<and> a < d + n then mem st (s + (a - d)) else mem st a)"
  by (simp add: memcpy_def)

lemma copied:
  "i < n \<Longrightarrow> mem (memcpy d s n st) (d + i) = mem st (s + i)"
  "a < d \<or> d + n \<le> a \<Longrightarrow> mem (memcpy d s n st) a = mem st a"
  by (auto simp: memcpy_def)

lemma lower_ok:
  assumes ok: "tal_ok st L {p}" and al: "arenas st = ys @ al # zs" "holds_addr p al" "p + hdr st p = cur al" "buf al + 8 \<le> p"
    and b: "\<And>q. q \<in> L \<Longrightarrow> in_arena (hdr st) q al \<Longrightarrow> q + hdr st q + 8 \<le> p"
  shows "tal_ok (st\<lparr>arenas := ys @ al\<lparr>cur := p - 8\<rparr> # zs\<rparr>) L {p}"
proof (rule alter_ok [OF ok al(1,2), of "al\<lparr>cur := p - 8\<rparr>"])
  have aok: "arena_ok (hdr st) L {p} al" using tal_okD(5) [OF ok] al(1) by simp
  then show "cur (al\<lparr>cur := p - 8\<rparr>) \<le> bufend al" using al(3) by (simp add: arena_ok_def) linarith
  show "in_arena (hdr st) q (al\<lparr>cur := p - 8\<rparr>) = in_arena (hdr st) q al" if "q \<in> L" for q
    using b [OF that] al(3) by (fastforce simp: in_arena_def)
  show "sorted_wrt arenas_apart (arenas (st\<lparr>arenas := ys @ al\<lparr>cur := p - 8\<rparr> # zs\<rparr>))"
    using tal_okD(1) [OF ok] sorted_replace [of "al\<lparr>cur := p - 8\<rparr>" al ys zs] al(1) by simp
qed (use al in auto)

lemma locate:
  assumes "tal_ok st L {}" "p \<in> L"
  obtains ys al zs where "List.extract (holds_addr p) (arenas st) = Some (ys, al, zs)" "arenas st = ys @ al # zs" "holds_addr p al"
    "in_arena (hdr st) p al" "\<And>q. q \<in> L - {p} \<Longrightarrow> in_arena (hdr st) q al \<Longrightarrow> p + hdr st p = cur al \<Longrightarrow> q + hdr st q + 8 \<le> p"
proof -
  obtain b where b: "b \<in> set (arenas st)" "in_arena (hdr st) p b" using tal_okD(6) [OF assms] by blast
  then have "holds_addr p b" using holds_in_arena tal_okD(5) [OF assms(1)] by blast
  then obtain ys al zs where e: "List.extract (holds_addr p) (arenas st) = Some (ys, al, zs)"
    using b(1) by (cases "List.extract (holds_addr p) (arenas st)") (auto simp: extract_None_iff)
  then have al: "arenas st = ys @ al # zs" "holds_addr p al" by (auto simp: extract_Some_iff)
  have "in_arena (hdr st) p al" using in_one_arena [OF assms] al by simp
  moreover have "q + hdr st q + 8 \<le> p" if "q \<in> L - {p}" "in_arena (hdr st) q al" "p + hdr st p = cur al" for q
    using tal_okD(4) [OF assms(1)] that assms(2) by (fastforce simp: blocks_ok_def in_arena_def)
  ultimately show ?thesis using that e al by blast
qed

text \<open>The bytes of the other blocks after a block was copied to ret.\<close>

lemma others_keep:
  assumes "blocks_ok h (insert ret L)" "q \<in> L" "ret \<notin> L" "n \<le> h ret" "i < h q"
  shows "mem (memcpy ret p n st) (q + i) = mem st (q + i)"
proof -
  have "q + h q + 8 \<le> ret \<or> ret + h ret + 8 \<le> q" using assms(1-3) by (auto simp: blocks_ok_def)
  then show ?thesis using assms(4,5) by (intro copied(2)) auto
qed

lemma realloc_ok:
  assumes m: "malloc_ok malloc" and ok: "tal_ok st L {}" and sz: "sz \<le> 2 ^ 31" and p: "p \<in> L" "hdr st p \<le> adj_size sz - 8"
  shows "\<exists>ret st'. tal_realloc_impl malloc p sz st = Some (ret, st') \<and> tal_ok st' (insert ret (L - {p})) {} \<and>
    ret \<notin> L - {p} \<and> hdr st' = (hdr st)(ret := adj_size sz - 8) \<and>
    (mem st' = mem (memcpy ret p (hdr st p) st) \<or> ret = p \<and> mem st' = mem st)"
proof -
  obtain ys al zs where e: "List.extract (holds_addr p) (arenas st) = Some (ys, al, zs)" and al: "arenas st = ys @ al # zs" "holds_addr p al"
    "in_arena (hdr st) p al" and below: "\<And>q. q \<in> L - {p} \<Longrightarrow> in_arena (hdr st) q al \<Longrightarrow> p + hdr st p = cur al \<Longrightarrow> q + hdr st q + 8 \<le> p"
    using locate [OF ok p(1)] by metis
  have p8: "buf al + 8 \<le> p" "p \<noteq> 0" using al(3) by (auto simp: in_arena_def)
  define al1 where "al1 = (if p + hdr st p = cur al then al\<lparr>cur := p - 8\<rparr> else al)"
  define st1 where "st1 = st\<lparr>arenas := ys @ al1 # zs\<rparr>"
  have s1: "arenas st1 = ys @ al1 # zs" "hdr st1 = hdr st" "mem st1 = mem st" by (simp_all add: st1_def)
  have bnd: "buf al1 = buf al" "bufend al1 = bufend al" "nb_allocs al1 = nb_allocs al" "al_size al1 = al_size al"
    by (simp_all add: al1_def)
  note sb = same_bounds [OF bnd(1,2)]
  have ok1: "tal_ok st1 (L - {p}) {p}"
  proof (cases "p + hdr st p = cur al")
    case True
    then show ?thesis unfolding st1_def al1_def
      using lower_ok [OF demote [OF ok p(1)] al(1,2) True p8(1)] below by simp
  next
    case False
    then have "st1 = st" using al(1) by (simp add: st1_def al1_def)
    then show ?thesis using demote [OF ok p(1)] by simp
  qed
  have adj: "8 \<le> adj_size sz" using adj_size_ge [OF sz] by simp
  have impl: "tal_realloc_impl malloc p sz st =
      (if cur al1 + adj_size sz > bufend al1 then
         (case tal_alloc malloc sz st1 of
            None \<Rightarrow> None
          | Some (ret, st) \<Rightarrow> map_option (Pair ret) (tal_free_impl p (memcpy ret p (hdr st p) st)))
       else Some (tal_place (adj_size sz) ys al1 zs (if cur al1 \<noteq> p - 8 then memcpy (cur al1 + 8) p (hdr st1 p) st1 else st1)))"
    using p8(2) e by (simp add: tal_realloc_impl_def Let_def flip: al1_def st1_def)
  show ?thesis
  proof (cases "cur al1 + adj_size sz > bufend al1")
    case True
    have "cur b + adj_size sz > bufend b" if "q \<in> {p}" "b \<in> set (arenas st1)" "holds_addr q b" for q b
    proof -
      have "arenas_apart al1 c" if "c \<in> set ys \<union> set zs" for c using others_apart that tal_okD(1) [OF ok1] s1(1) by metis
      then have "b = al1" using that apart_holds [of al1 b p] al(2) sb(3) s1(1) by auto
      then show ?thesis using True by simp
    qed
    then obtain ret st2 where a: "tal_alloc malloc sz st1 = Some (ret, st2)" "tal_ok st2 (insert ret (L - {p})) {p}"
      "ret \<notin> L - {p}" "hdr st2 = (hdr st)(ret := adj_size sz - 8)" "mem st2 = mem st" "ret \<noteq> p"
      using tal_alloc_ok [OF m ok1 sz] s1 by auto
    have h: "hdr st2 p = hdr st p" using a(4,6) by simp
    have "tal_ok (memcpy ret p (hdr st p) st2) (insert ret (L - {p})) {p}" using a(2) by simp
    then obtain st' where f: "tal_free_impl p (memcpy ret p (hdr st p) st2) = Some st'" "tal_ok st' (insert ret (L - {p})) {}"
      "hdr st' = hdr st2" "mem st' = mem (memcpy ret p (hdr st p) st2)"
      using free_ok by fastforce
    have "tal_realloc_impl malloc p sz st = Some (ret, st')" unfolding impl using True a(1) f(1) h by simp
    moreover have "mem st' = mem (memcpy ret p (hdr st p) st)" unfolding f(4) mem_memcpy a(5) ..
    ultimately show ?thesis using f(2,3) a(3,4) by auto
  next
    case False
    define X where "X = (if cur al1 \<noteq> p - 8 then memcpy (cur al1 + 8) p (hdr st1 p) st1 else st1)"
    define al0 where "al0 = al1\<lparr>nb_allocs := nb_allocs al1 - 1\<rparr>"
    have aok: "arena_ok (hdr st1) (L - {p}) {p} al1" using tal_okD(5) [OF ok1] s1(1) by simp
    have "{q \<in> {p}. holds_addr q al1} = {p}" using al(2) sb(3) by auto
    then have n: "1 \<le> nb_allocs al1" using aok by (simp add: arena_ok_def)
    have ok0: "tal_ok (st1\<lparr>arenas := ys @ al0 # zs\<rparr>) (L - {p}) {}"
    proof (rule alter_ok [OF ok1 s1(1), of al0])
      show "holds_addr p al1" using al(2) sb(3) by simp
      show "nb_allocs al0 + 1 = nb_allocs al1 + card {}" using n by (simp add: al0_def)
      show "buf al1 \<le> cur al0" "cur al0 \<le> bufend al1" using aok by (simp_all add: al0_def arena_ok_def)
      show "sorted_wrt arenas_apart (arenas (st1\<lparr>arenas := ys @ al0 # zs\<rparr>))"
        using tal_okD(1) [OF ok1] sorted_replace [of al0 al1 ys zs] s1(1) by (simp add: al0_def)
    qed (simp_all add: al0_def in_arena_def)
    have okX: "tal_ok (X\<lparr>arenas := ys @ al0 # zs\<rparr>) (L - {p}) {}"
      using ok0 by (simp add: X_def tal_ok_def)
    have al1: "al0\<lparr>nb_allocs := nb_allocs al0 + 1\<rparr> = al1" using n by (simp add: al0_def)
    obtain ret st' where r: "tal_place (adj_size sz) ys al1 zs X = (ret, st')" by fastforce
    then have r0: "tal_place (adj_size sz) ys (al0\<lparr>nb_allocs := nb_allocs al0 + 1\<rparr>) zs (X\<lparr>arenas := ys @ al0 # zs\<rparr>) = (ret, st')"
      unfolding al1 by (auto simp: tal_place_def)
    have "cur al0 + adj_size sz \<le> bufend al0" using False by (simp add: al0_def)
    then have "tal_ok st' (insert ret (L - {p})) {} \<and> ret \<notin> L - {p} \<and> hdr st' = (hdr X)(ret := adj_size sz - 8) \<and> mem st' = mem X"
      using place_ok [OF okX _ _ adj _ r0] by simp
    moreover have "tal_realloc_impl malloc p sz st = Some (ret, st')"
      unfolding impl using False r by (simp flip: X_def)
    moreover have "hdr X = hdr st" by (simp add: X_def s1)
    moreover have "mem X = mem (memcpy ret p (hdr st p) st) \<or> ret = p \<and> mem X = mem st"
    proof (cases "cur al1 = p - 8")
      case True
      then show ?thesis using r p8 by (auto simp: X_def s1 tal_place_def)
    next
      case False
      then show ?thesis using r by (auto simp: X_def s1 tal_place_def memcpy_def)
    qed
    ultimately show ?thesis by auto
  qed
qed

text \<open>
  C15: the allocator never hands out memory that is in use. Whatever blocks L are in use, tal_realloc_impl of a block
  (or of none) to a size that is not smaller gives a block of at least that size which overlaps no other, keeps the
  bytes of every block and copies those of the old one; the arenas stay well formed.
\<close>

theorem tal_realloc_safe:
  assumes "malloc_ok malloc" "tal_ok st L {}" "sz \<le> 2 ^ 31" "p = 0 \<or> p \<in> L \<and> hdr st p \<le> round_up sz 8"
  shows "\<exists>ret st'. tal_realloc_impl malloc p sz st = Some (ret, st') \<and> tal_ok st' (insert ret (L - {p})) {} \<and>
    ret \<notin> L - {p} \<and> sz \<le> hdr st' ret \<and>
    (\<forall>q\<in>L - {p}. hdr st' q = hdr st q \<and> (\<forall>i<hdr st q. mem st' (q + i) = mem st (q + i))) \<and>
    (p \<in> L \<longrightarrow> (\<forall>i<hdr st p. mem st' (ret + i) = mem st (p + i)))"
proof -
  note a = adj_size_ge [OF assms(3)]
  show ?thesis
  proof (cases "p \<in> L")
    case True
    have p0: "p \<noteq> 0" using tal_okD(6) [OF assms(2) True] by (auto simp: in_arena_def)
    have le: "hdr st p \<le> adj_size sz - 8" using assms(4) p0 a by simp
    obtain ret st' where r: "tal_realloc_impl malloc p sz st = Some (ret, st')" "tal_ok st' (insert ret (L - {p})) {}"
      "ret \<notin> L - {p}" "hdr st' = (hdr st)(ret := adj_size sz - 8)"
      "mem st' = mem (memcpy ret p (hdr st p) st) \<or> ret = p \<and> mem st' = mem st"
      using realloc_ok [OF assms(1-3) True le] by blast
    have hr: "hdr st' ret = adj_size sz - 8" by (simp add: r(4))
    have keep: "hdr st' q = hdr st q \<and> (\<forall>i<hdr st q. mem st' (q + i) = mem st (q + i))" if q: "q \<in> L - {p}" for q
    proof -
      have h: "hdr st' q = hdr st q" using q r(3,4) by auto
      have "mem st' (q + i) = mem st (q + i)" if i: "i < hdr st q" for i
        using r(5) others_keep [OF tal_okD(4) [OF r(2)] q r(3), of "hdr st p" i p st] i le h hr by auto
      then show ?thesis using h by blast
    qed
    have copy: "mem st' (ret + i) = mem st (p + i)" if "i < hdr st p" for i
      using r(5) copied(1) [OF that, of ret p st] by auto
    show ?thesis using r(1-3) hr a keep copy by (intro exI [of _ ret] exI [of _ st']) simp
  next
    case False
    then have p: "p = 0" "L - {p} = L" using assms(4) by auto
    obtain ret st' where r: "tal_alloc malloc sz st = Some (ret, st')" "tal_ok st' (insert ret L) {}" "ret \<notin> L"
      "hdr st' = (hdr st)(ret := adj_size sz - 8)" "mem st' = mem st"
      using tal_alloc_ok [OF assms(1-3)] by auto
    have "tal_realloc_impl malloc p sz st = Some (ret, st')" using r(1) p(1) by (simp add: tal_realloc_impl_def)
    moreover have "hdr st' q = hdr st q" if "q \<in> L" for q using r(3,4) that by auto
    moreover have "sz \<le> hdr st' ret" using r(4) a by simp
    ultimately show ?thesis using r False p by (intro exI [of _ ret] exI [of _ st']) simp
  qed
qed

lemma tal_free_safe:
  assumes "tal_ok st L {}" "p \<in> L"
  shows "\<exists>st'. tal_free_impl p st = Some st' \<and> tal_ok st' (L - {p}) {} \<and> hdr st' = hdr st \<and> mem st' = mem st"
  by (rule free_ok [OF demote [OF assms]])

lemma tal_new_ok:
  assumes "0 < a"
  shows "tal_ok \<lparr>arenas = tal_new a sz [], hdr = h, mem = m\<rparr> {} {}"
  using assms by (simp add: tal_ok_def tal_new_def arena_ok_def blocks_ok_def)

text \<open>An allocator whose memory lies behind all arenas, and a pool of one arena with two blocks.\<close>

definition behind :: "nat \<Rightarrow> tiny_alloc list \<Rightarrow> nat" where
  "behind n als = foldr (\<lambda>al m. max (bufend al) m) als 1"

lemma behind_ok: "malloc_ok behind"
proof -
  have "0 < foldr (\<lambda>al m. max (bufend al) m) als 1 \<and> (\<forall>al\<in>set als. bufend al \<le> foldr (\<lambda>al m. max (bufend al) m) als 1)"
    for als :: "tiny_alloc list" by (induction als) auto
  then show ?thesis by (auto simp: malloc_ok_def behind_def)
qed

definition two_blocks :: tal_state where
  "two_blocks = \<lparr>arenas = [\<lparr>buf = 40, bufend = 88, cur = 80, nb_allocs = 2, al_size = 48\<rparr>],
     hdr = (\<lambda>_. 0)(48 := 8, 64 := 16), mem = (\<lambda>a. of_nat a)\<rparr>"

lemma two_blocks_ok: "tal_ok two_blocks {48, 64} {}"
proof -
  have "{p \<in> {48, 64}. in_arena ((\<lambda>_. 0)(48 := 8, 64 := 16)) p \<lparr>buf = 40, bufend = 88, cur = 80, nb_allocs = 2, al_size = 48\<rparr>} = {48, 64}"
    by (auto simp: in_arena_def)
  then show ?thesis by (simp add: tal_ok_def two_blocks_def arena_ok_def blocks_ok_def) (simp add: in_arena_def)
qed

text \<open>The first block does not fit behind the second when it grows: it moves to a new arena.\<close>

lemma tal_realloc_safe_witness:
  "\<exists>ret st'. tal_realloc_impl behind 48 20 two_blocks = Some (ret, st') \<and> ret \<noteq> 64 \<and> 20 \<le> hdr st' ret \<and>
     mem st' 64 = 64 \<and> mem st' (ret + 7) = 55"
proof -
  have "(20 :: nat) \<le> 2 ^ 31" "48 = (0 :: nat) \<or> 48 \<in> {48, 64 :: nat} \<and> hdr two_blocks 48 \<le> round_up 20 8"
    by (simp_all add: two_blocks_def round_up_def)
  from tal_realloc_safe [OF behind_ok two_blocks_ok this] obtain ret st' where
    r: "tal_realloc_impl behind 48 20 two_blocks = Some (ret, st')" "ret \<noteq> 64" "20 \<le> hdr st' ret"
      "\<forall>i<hdr two_blocks 64. mem st' (64 + i) = mem two_blocks (64 + i)"
      "\<forall>i<hdr two_blocks 48. mem st' (ret + i) = mem two_blocks (48 + i)"
    by auto
  then show ?thesis using r(4) [rule_format, of 0] r(5) [rule_format, of 7] by (auto simp: two_blocks_def)
qed

text \<open>
  The hypothesis on the size is one on the callers, which keep it (tok_str_realloc only grows its array, the other calls
  ask for a new block), and it is needed: a block that is not the last and shrinks is copied with its old size behind
  cur, over the end of the arena. The copy of 48 bytes below starts 8 bytes before the end.
\<close>

lemma shrinking_overflow:
  "(case tal_realloc_impl behind 48 1
       \<lparr>arenas = [\<lparr>buf = 40, bufend = 128, cur = 112, nb_allocs = 2, al_size = 88\<rparr>], hdr = (\<lambda>_. 0)(48 := 48, 104 := 8), mem = (\<lambda>a. of_nat a)\<rparr> of
      None \<Rightarrow> False | Some (ret, st') \<Rightarrow> ret = 120 \<and> mem st' 160 = 88)"
  by (simp add: tal_realloc_impl_def tal_place_def memcpy_def holds_addr_def adj_size_def round_up_def extract_Cons_code Let_def)

end
