(* ===== verification/TokTable.thy ===== *)
theory TokTable
  imports Prelude "HOL-Library.Multiset"
begin

text \<open>
  The reserved words: the constants of enum tcc_token (lines 11132-11834) in their order and the
  strings of tcc_keywords (lines 12228-12929) in theirs, in pieces that cover the same rows of both
  tables. In C the first constant of the enum, TOK_LAST, is 255 and each other one is one more than the
  one before, so the list of the names is the whole enum; tccpp_new hands the strings out in the order
  of the table.
\<close>

definition tok_names_1 :: "string list" where
  "tok_names_1 = [
    ''TOK_IF'', ''TOK_ELSE'', ''TOK_WHILE'', ''TOK_FOR'', ''TOK_DO'', ''TOK_CONTINUE'',
    ''TOK_BREAK'', ''TOK_RETURN'', ''TOK_GOTO'', ''TOK_SWITCH'', ''TOK_CASE'', ''TOK_DEFAULT'',
    ''TOK_ASM1'', ''TOK_ASM2'', ''TOK_ASM3'', ''TOK_EXTERN'', ''TOK_STATIC'', ''TOK_UNSIGNED'',
    ''TOK__Atomic'', ''TOK_CONST1'', ''TOK_CONST2'', ''TOK_CONST3'', ''TOK_VOLATILE1'',
    ''TOK_VOLATILE2'', ''TOK_VOLATILE3'', ''TOK_REGISTER'', ''TOK_SIGNED1'', ''TOK_SIGNED2'',
    ''TOK_SIGNED3'', ''TOK_AUTO'', ''TOK_INLINE1'', ''TOK_INLINE2'', ''TOK_INLINE3'',
    ''TOK_RESTRICT1'', ''TOK_RESTRICT2'', ''TOK_RESTRICT3'', ''TOK_EXTENSION'',
    ''TOK_THREAD_LOCAL'', ''TOK___thread'', ''TOK_GENERIC'', ''TOK_STATIC_ASSERT'', ''TOK_VOID'',
    ''TOK_CHAR'', ''TOK_INT'', ''TOK_FLOAT'', ''TOK_DOUBLE'', ''TOK_BOOL'', ''TOK_COMPLEX'',
    ''TOK_SHORT'', ''TOK_LONG'', ''TOK_STRUCT'', ''TOK_UNION'', ''TOK_TYPEDEF'', ''TOK_ENUM'',
    ''TOK_SIZEOF'', ''TOK_ATTRIBUTE1'', ''TOK_ATTRIBUTE2'', ''TOK_ALIGNOF1'', ''TOK_ALIGNOF2'',
    ''TOK_ALIGNOF3'', ''TOK_ALIGNAS'', ''TOK_TYPEOF1'', ''TOK_TYPEOF2'', ''TOK_TYPEOF3'',
    ''TOK_LABEL'', ''TOK_DEFINE'', ''TOK_INCLUDE'', ''TOK_INCLUDE_NEXT'', ''TOK_IFDEF'',
    ''TOK_IFNDEF'', ''TOK_ELIF'', ''TOK_ENDIF'', ''TOK_DEFINED'', ''TOK_UNDEF'', ''TOK_ERROR'',
    ''TOK_WARNING'', ''TOK_LINE'', ''TOK_PRAGMA'', ''TOK___LINE__'', ''TOK___FILE__'',
    ''TOK___DATE__'', ''TOK___TIME__'', ''TOK___FUNCTION__'', ''TOK___VA_ARGS__'',
    ''TOK___COUNTER__'', ''TOK___HAS_INCLUDE'', ''TOK___HAS_INCLUDE_NEXT'', ''TOK___FUNC__'',
    ''TOK___NAN__'', ''TOK___SNAN__'', ''TOK___INF__'', ''TOK_SECTION1'', ''TOK_SECTION2'',
    ''TOK_ALIGNED1'', ''TOK_ALIGNED2'', ''TOK_PACKED1'', ''TOK_PACKED2'', ''TOK_WEAK1'',
    ''TOK_WEAK2'', ''TOK_ALIAS1'', ''TOK_ALIAS2'', ''TOK_USED1'', ''TOK_USED2'', ''TOK_UNUSED1'',
    ''TOK_UNUSED2'', ''TOK_FORMAT1'', ''TOK_FORMAT2'', ''TOK_NODEBUG1'', ''TOK_NODEBUG2'',
    ''TOK_CDECL1'']"

definition keywords_1 :: "string list" where
  "keywords_1 = [
    ''if'', ''else'', ''while'', ''for'', ''do'', ''continue'', ''break'', ''return'', ''goto'',
    ''switch'', ''case'', ''default'', ''asm'', ''__asm'', ''__asm__'', ''extern'', ''static'',
    ''unsigned'', ''_Atomic'', ''const'', ''__const'', ''__const__'', ''volatile'', ''__volatile'',
    ''__volatile__'', ''register'', ''signed'', ''__signed'', ''__signed__'', ''auto'', ''inline'',
    ''__inline'', ''__inline__'', ''restrict'', ''__restrict'', ''__restrict__'',
    ''__extension__'', ''_Thread_local'', ''__thread'', ''_Generic'', ''_Static_assert'', ''void'',
    ''char'', ''int'', ''float'', ''double'', ''_Bool'', ''_Complex'', ''short'', ''long'',
    ''struct'', ''union'', ''typedef'', ''enum'', ''sizeof'', ''__attribute'', ''__attribute__'',
    ''__alignof'', ''__alignof__'', ''_Alignof'', ''_Alignas'', ''typeof'', ''__typeof'',
    ''__typeof__'', ''__label__'', ''define'', ''include'', ''include_next'', ''ifdef'',
    ''ifndef'', ''elif'', ''endif'', ''defined'', ''undef'', ''error'', ''warning'', ''line'',
    ''pragma'', ''__LINE__'', ''__FILE__'', ''__DATE__'', ''__TIME__'', ''__FUNCTION__'',
    ''__VA_ARGS__'', ''__COUNTER__'', ''__has_include'', ''__has_include_next'', ''__func__'',
    ''__nan__'', ''__snan__'', ''__inf__'', ''section'', ''__section__'', ''aligned'',
    ''__aligned__'', ''packed'', ''__packed__'', ''weak'', ''__weak__'', ''alias'', ''__alias__'',
    ''used'', ''__used__'', ''unused'', ''__unused__'', ''format'', ''__format__'', ''nodebug'',
    ''__nodebug__'', ''cdecl'']"

definition tok_names_2 :: "string list" where
  "tok_names_2 = [
    ''TOK_CDECL2'', ''TOK_CDECL3'', ''TOK_STDCALL1'', ''TOK_STDCALL2'', ''TOK_STDCALL3'',
    ''TOK_FASTCALL1'', ''TOK_FASTCALL2'', ''TOK_FASTCALL3'', ''TOK_THISCALL1'', ''TOK_THISCALL2'',
    ''TOK_THISCALL3'', ''TOK_REGPARM1'', ''TOK_REGPARM2'', ''TOK_CLEANUP1'', ''TOK_CLEANUP2'',
    ''TOK_CONSTRUCTOR1'', ''TOK_CONSTRUCTOR2'', ''TOK_DESTRUCTOR1'', ''TOK_DESTRUCTOR2'',
    ''TOK_ALWAYS_INLINE1'', ''TOK_ALWAYS_INLINE2'', ''TOK_NOINLINE'', ''TOK_PURE1'', ''TOK_PURE2'',
    ''TOK_MODE'', ''TOK_MODE_QI'', ''TOK_MODE_DI'', ''TOK_MODE_HI'', ''TOK_MODE_SI'',
    ''TOK_MODE_word'', ''TOK_DLLEXPORT'', ''TOK_DLLIMPORT'', ''TOK_NODECORATE'', ''TOK_NORETURN1'',
    ''TOK_NORETURN2'', ''TOK_NORETURN3'', ''TOK_VISIBILITY1'', ''TOK_VISIBILITY2'',
    ''TOK_builtin_types_compatible_p'', ''TOK_builtin_choose_expr'', ''TOK_builtin_constant_p'',
    ''TOK_builtin_frame_address'', ''TOK_builtin_return_address'', ''TOK_builtin_expect'',
    ''TOK_builtin_unreachable'', ''TOK_builtin_va_start'', ''TOK___atomic_store'',
    ''TOK___atomic_load'', ''TOK___atomic_exchange'', ''TOK___atomic_compare_exchange'',
    ''TOK___atomic_fetch_add'', ''TOK___atomic_fetch_sub'', ''TOK___atomic_fetch_or'',
    ''TOK___atomic_fetch_xor'', ''TOK___atomic_fetch_and'', ''TOK___atomic_fetch_nand'',
    ''TOK___atomic_add_fetch'', ''TOK___atomic_sub_fetch'', ''TOK___atomic_or_fetch'',
    ''TOK___atomic_xor_fetch'', ''TOK___atomic_and_fetch'', ''TOK___atomic_nand_fetch'',
    ''TOK_pack'', ''TOK_comment'', ''TOK_lib'', ''TOK_push_macro'', ''TOK_pop_macro'',
    ''TOK_once'', ''TOK_option'', ''TOK_memcpy'', ''TOK_memmove'', ''TOK_memset'',
    ''TOK___divdi3'', ''TOK___moddi3'', ''TOK___udivdi3'', ''TOK___umoddi3'', ''TOK___ashrdi3'',
    ''TOK___lshrdi3'', ''TOK___ashldi3'', ''TOK___floatundisf'', ''TOK___floatundidf'',
    ''TOK___floatundixf'', ''TOK___fixunsxfdi'', ''TOK___fixunssfdi'', ''TOK___fixunsdfdi'',
    ''TOK___fixxfdi'', ''TOK_alloca'', ''TOK___chkstk'', ''TOK___tls_index'', ''TOK_ASMDIR_byte'',
    ''TOK_ASMDIR_word'', ''TOK_ASMDIR_align'', ''TOK_ASMDIR_balign'', ''TOK_ASMDIR_p2align'',
    ''TOK_ASMDIR_set'', ''TOK_ASMDIR_skip'', ''TOK_ASMDIR_space'', ''TOK_ASMDIR_string'',
    ''TOK_ASMDIR_asciz'', ''TOK_ASMDIR_ascii'', ''TOK_ASMDIR_file'', ''TOK_ASMDIR_globl'',
    ''TOK_ASMDIR_global'', ''TOK_ASMDIR_weak'', ''TOK_ASMDIR_hidden'', ''TOK_ASMDIR_ident'',
    ''TOK_ASMDIR_size'', ''TOK_ASMDIR_type'', ''TOK_ASMDIR_text'', ''TOK_ASMDIR_data'']"

definition keywords_2 :: "string list" where
  "keywords_2 = [
    ''__cdecl'', ''__cdecl__'', ''stdcall'', ''__stdcall'', ''__stdcall__'', ''fastcall'',
    ''__fastcall'', ''__fastcall__'', ''thiscall'', ''__thiscall'', ''__thiscall__'', ''regparm'',
    ''__regparm__'', ''cleanup'', ''__cleanup__'', ''constructor'', ''__constructor__'',
    ''destructor'', ''__destructor__'', ''always_inline'', ''__always_inline__'', ''__noinline__'',
    ''pure'', ''__pure__'', ''__mode__'', ''__QI__'', ''__DI__'', ''__HI__'', ''__SI__'',
    ''__word__'', ''dllexport'', ''dllimport'', ''nodecorate'', ''noreturn'', ''__noreturn__'',
    ''_Noreturn'', ''visibility'', ''__visibility__'', ''__builtin_types_compatible_p'',
    ''__builtin_choose_expr'', ''__builtin_constant_p'', ''__builtin_frame_address'',
    ''__builtin_return_address'', ''__builtin_expect'', ''__builtin_unreachable'',
    ''__builtin_va_start'', ''__atomic_store'', ''__atomic_load'', ''__atomic_exchange'',
    ''__atomic_compare_exchange'', ''__atomic_fetch_add'', ''__atomic_fetch_sub'',
    ''__atomic_fetch_or'', ''__atomic_fetch_xor'', ''__atomic_fetch_and'', ''__atomic_fetch_nand'',
    ''__atomic_add_fetch'', ''__atomic_sub_fetch'', ''__atomic_or_fetch'', ''__atomic_xor_fetch'',
    ''__atomic_and_fetch'', ''__atomic_nand_fetch'', ''pack'', ''comment'', ''lib'',
    ''push_macro'', ''pop_macro'', ''once'', ''option'', ''memcpy'', ''memmove'', ''memset'',
    ''__divdi3'', ''__moddi3'', ''__udivdi3'', ''__umoddi3'', ''__ashrdi3'', ''__lshrdi3'',
    ''__ashldi3'', ''__floatundisf'', ''__floatundidf'', ''__floatundixf'', ''__fixunsxfdi'',
    ''__fixunssfdi'', ''__fixunsdfdi'', ''__fixxfdi'', ''alloca'', ''__chkstk'', ''__tls_index'',
    ''.byte'', ''.word'', ''.align'', ''.balign'', ''.p2align'', ''.set'', ''.skip'', ''.space'',
    ''.string'', ''.asciz'', ''.ascii'', ''.file'', ''.globl'', ''.global'', ''.weak'',
    ''.hidden'', ''.ident'', ''.size'', ''.type'', ''.text'', ''.data'']"

definition tok_names_3 :: "string list" where
  "tok_names_3 = [
    ''TOK_ASMDIR_bss'', ''TOK_ASMDIR_previous'', ''TOK_ASMDIR_pushsection'',
    ''TOK_ASMDIR_popsection'', ''TOK_ASMDIR_fill'', ''TOK_ASMDIR_rept'', ''TOK_ASMDIR_endr'',
    ''TOK_ASMDIR_org'', ''TOK_ASMDIR_quad'', ''TOK_ASMDIR_code64'', ''TOK_ASMDIR_short'',
    ''TOK_ASMDIR_long'', ''TOK_ASMDIR_int'', ''TOK_ASMDIR_symver'', ''TOK_ASMDIR_reloc'',
    ''TOK_ASMDIR_section'', ''TOK_ASM_al'', ''TOK_ASM_cl'', ''TOK_ASM_dl'', ''TOK_ASM_bl'',
    ''TOK_ASM_ah'', ''TOK_ASM_ch'', ''TOK_ASM_dh'', ''TOK_ASM_bh'', ''TOK_ASM_ax'', ''TOK_ASM_cx'',
    ''TOK_ASM_dx'', ''TOK_ASM_bx'', ''TOK_ASM_sp'', ''TOK_ASM_bp'', ''TOK_ASM_si'', ''TOK_ASM_di'',
    ''TOK_ASM_eax'', ''TOK_ASM_ecx'', ''TOK_ASM_edx'', ''TOK_ASM_ebx'', ''TOK_ASM_esp'',
    ''TOK_ASM_ebp'', ''TOK_ASM_esi'', ''TOK_ASM_edi'', ''TOK_ASM_rax'', ''TOK_ASM_rcx'',
    ''TOK_ASM_rdx'', ''TOK_ASM_rbx'', ''TOK_ASM_rsp'', ''TOK_ASM_rbp'', ''TOK_ASM_rsi'',
    ''TOK_ASM_rdi'', ''TOK_ASM_mm0'', ''TOK_ASM_mm1'', ''TOK_ASM_mm2'', ''TOK_ASM_mm3'',
    ''TOK_ASM_mm4'', ''TOK_ASM_mm5'', ''TOK_ASM_mm6'', ''TOK_ASM_mm7'', ''TOK_ASM_xmm0'',
    ''TOK_ASM_xmm1'', ''TOK_ASM_xmm2'', ''TOK_ASM_xmm3'', ''TOK_ASM_xmm4'', ''TOK_ASM_xmm5'',
    ''TOK_ASM_xmm6'', ''TOK_ASM_xmm7'', ''TOK_ASM_cr0'', ''TOK_ASM_cr1'', ''TOK_ASM_cr2'',
    ''TOK_ASM_cr3'', ''TOK_ASM_cr4'', ''TOK_ASM_cr5'', ''TOK_ASM_cr6'', ''TOK_ASM_cr7'',
    ''TOK_ASM_tr0'', ''TOK_ASM_tr1'', ''TOK_ASM_tr2'', ''TOK_ASM_tr3'', ''TOK_ASM_tr4'',
    ''TOK_ASM_tr5'', ''TOK_ASM_tr6'', ''TOK_ASM_tr7'', ''TOK_ASM_db0'', ''TOK_ASM_db1'',
    ''TOK_ASM_db2'', ''TOK_ASM_db3'', ''TOK_ASM_db4'', ''TOK_ASM_db5'', ''TOK_ASM_db6'',
    ''TOK_ASM_db7'', ''TOK_ASM_dr0'', ''TOK_ASM_dr1'', ''TOK_ASM_dr2'', ''TOK_ASM_dr3'',
    ''TOK_ASM_dr4'', ''TOK_ASM_dr5'', ''TOK_ASM_dr6'', ''TOK_ASM_dr7'', ''TOK_ASM_es'',
    ''TOK_ASM_cs'', ''TOK_ASM_ss'', ''TOK_ASM_ds'', ''TOK_ASM_fs'', ''TOK_ASM_gs'', ''TOK_ASM_st'',
    ''TOK_ASM_rip'', ''TOK_ASM_spl'', ''TOK_ASM_bpl'', ''TOK_ASM_sil'', ''TOK_ASM_dil'',
    ''TOK_ASM_movb'', ''TOK_ASM_movw'', ''TOK_ASM_movl'', ''TOK_ASM_movq'', ''TOK_ASM_mov'']"

definition keywords_3 :: "string list" where
  "keywords_3 = [
    ''.bss'', ''.previous'', ''.pushsection'', ''.popsection'', ''.fill'', ''.rept'', ''.endr'',
    ''.org'', ''.quad'', ''.code64'', ''.short'', ''.long'', ''.int'', ''.symver'', ''.reloc'',
    ''.section'', ''al'', ''cl'', ''dl'', ''bl'', ''ah'', ''ch'', ''dh'', ''bh'', ''ax'', ''cx'',
    ''dx'', ''bx'', ''sp'', ''bp'', ''si'', ''di'', ''eax'', ''ecx'', ''edx'', ''ebx'', ''esp'',
    ''ebp'', ''esi'', ''edi'', ''rax'', ''rcx'', ''rdx'', ''rbx'', ''rsp'', ''rbp'', ''rsi'',
    ''rdi'', ''mm0'', ''mm1'', ''mm2'', ''mm3'', ''mm4'', ''mm5'', ''mm6'', ''mm7'', ''xmm0'',
    ''xmm1'', ''xmm2'', ''xmm3'', ''xmm4'', ''xmm5'', ''xmm6'', ''xmm7'', ''cr0'', ''cr1'',
    ''cr2'', ''cr3'', ''cr4'', ''cr5'', ''cr6'', ''cr7'', ''tr0'', ''tr1'', ''tr2'', ''tr3'',
    ''tr4'', ''tr5'', ''tr6'', ''tr7'', ''db0'', ''db1'', ''db2'', ''db3'', ''db4'', ''db5'',
    ''db6'', ''db7'', ''dr0'', ''dr1'', ''dr2'', ''dr3'', ''dr4'', ''dr5'', ''dr6'', ''dr7'',
    ''es'', ''cs'', ''ss'', ''ds'', ''fs'', ''gs'', ''st'', ''rip'', ''spl'', ''bpl'', ''sil'',
    ''dil'', ''movb'', ''movw'', ''movl'', ''movq'', ''mov'']"

definition tok_names_4 :: "string list" where
  "tok_names_4 = [
    ''TOK_ASM_addb'', ''TOK_ASM_addw'', ''TOK_ASM_addl'', ''TOK_ASM_addq'', ''TOK_ASM_add'',
    ''TOK_ASM_orb'', ''TOK_ASM_orw'', ''TOK_ASM_orl'', ''TOK_ASM_orq'', ''TOK_ASM_or'',
    ''TOK_ASM_adcb'', ''TOK_ASM_adcw'', ''TOK_ASM_adcl'', ''TOK_ASM_adcq'', ''TOK_ASM_adc'',
    ''TOK_ASM_sbbb'', ''TOK_ASM_sbbw'', ''TOK_ASM_sbbl'', ''TOK_ASM_sbbq'', ''TOK_ASM_sbb'',
    ''TOK_ASM_andb'', ''TOK_ASM_andw'', ''TOK_ASM_andl'', ''TOK_ASM_andq'', ''TOK_ASM_and'',
    ''TOK_ASM_subb'', ''TOK_ASM_subw'', ''TOK_ASM_subl'', ''TOK_ASM_subq'', ''TOK_ASM_sub'',
    ''TOK_ASM_xorb'', ''TOK_ASM_xorw'', ''TOK_ASM_xorl'', ''TOK_ASM_xorq'', ''TOK_ASM_xor'',
    ''TOK_ASM_cmpb'', ''TOK_ASM_cmpw'', ''TOK_ASM_cmpl'', ''TOK_ASM_cmpq'', ''TOK_ASM_cmp'',
    ''TOK_ASM_incb'', ''TOK_ASM_incw'', ''TOK_ASM_incl'', ''TOK_ASM_incq'', ''TOK_ASM_inc'',
    ''TOK_ASM_decb'', ''TOK_ASM_decw'', ''TOK_ASM_decl'', ''TOK_ASM_decq'', ''TOK_ASM_dec'',
    ''TOK_ASM_notb'', ''TOK_ASM_notw'', ''TOK_ASM_notl'', ''TOK_ASM_notq'', ''TOK_ASM_not'',
    ''TOK_ASM_negb'', ''TOK_ASM_negw'', ''TOK_ASM_negl'', ''TOK_ASM_negq'', ''TOK_ASM_neg'',
    ''TOK_ASM_mulb'', ''TOK_ASM_mulw'', ''TOK_ASM_mull'', ''TOK_ASM_mulq'', ''TOK_ASM_mul'',
    ''TOK_ASM_imulb'', ''TOK_ASM_imulw'', ''TOK_ASM_imull'', ''TOK_ASM_imulq'', ''TOK_ASM_imul'',
    ''TOK_ASM_divb'', ''TOK_ASM_divw'', ''TOK_ASM_divl'', ''TOK_ASM_divq'', ''TOK_ASM_div'',
    ''TOK_ASM_idivb'', ''TOK_ASM_idivw'', ''TOK_ASM_idivl'', ''TOK_ASM_idivq'', ''TOK_ASM_idiv'',
    ''TOK_ASM_xchgb'', ''TOK_ASM_xchgw'', ''TOK_ASM_xchgl'', ''TOK_ASM_xchgq'', ''TOK_ASM_xchg'',
    ''TOK_ASM_testb'', ''TOK_ASM_testw'', ''TOK_ASM_testl'', ''TOK_ASM_testq'', ''TOK_ASM_test'',
    ''TOK_ASM_rolb'', ''TOK_ASM_rolw'', ''TOK_ASM_roll'', ''TOK_ASM_rolq'', ''TOK_ASM_rol'',
    ''TOK_ASM_rorb'', ''TOK_ASM_rorw'', ''TOK_ASM_rorl'', ''TOK_ASM_rorq'', ''TOK_ASM_ror'',
    ''TOK_ASM_rclb'', ''TOK_ASM_rclw'', ''TOK_ASM_rcll'', ''TOK_ASM_rclq'', ''TOK_ASM_rcl'',
    ''TOK_ASM_rcrb'', ''TOK_ASM_rcrw'', ''TOK_ASM_rcrl'', ''TOK_ASM_rcrq'', ''TOK_ASM_rcr'']"

definition keywords_4 :: "string list" where
  "keywords_4 = [
    ''addb'', ''addw'', ''addl'', ''addq'', ''add'', ''orb'', ''orw'', ''orl'', ''orq'', ''or'',
    ''adcb'', ''adcw'', ''adcl'', ''adcq'', ''adc'', ''sbbb'', ''sbbw'', ''sbbl'', ''sbbq'',
    ''sbb'', ''andb'', ''andw'', ''andl'', ''andq'', ''and'', ''subb'', ''subw'', ''subl'',
    ''subq'', ''sub'', ''xorb'', ''xorw'', ''xorl'', ''xorq'', ''xor'', ''cmpb'', ''cmpw'',
    ''cmpl'', ''cmpq'', ''cmp'', ''incb'', ''incw'', ''incl'', ''incq'', ''inc'', ''decb'',
    ''decw'', ''decl'', ''decq'', ''dec'', ''notb'', ''notw'', ''notl'', ''notq'', ''not'',
    ''negb'', ''negw'', ''negl'', ''negq'', ''neg'', ''mulb'', ''mulw'', ''mull'', ''mulq'',
    ''mul'', ''imulb'', ''imulw'', ''imull'', ''imulq'', ''imul'', ''divb'', ''divw'', ''divl'',
    ''divq'', ''div'', ''idivb'', ''idivw'', ''idivl'', ''idivq'', ''idiv'', ''xchgb'', ''xchgw'',
    ''xchgl'', ''xchgq'', ''xchg'', ''testb'', ''testw'', ''testl'', ''testq'', ''test'', ''rolb'',
    ''rolw'', ''roll'', ''rolq'', ''rol'', ''rorb'', ''rorw'', ''rorl'', ''rorq'', ''ror'',
    ''rclb'', ''rclw'', ''rcll'', ''rclq'', ''rcl'', ''rcrb'', ''rcrw'', ''rcrl'', ''rcrq'',
    ''rcr'']"

definition tok_names_5 :: "string list" where
  "tok_names_5 = [
    ''TOK_ASM_shlb'', ''TOK_ASM_shlw'', ''TOK_ASM_shll'', ''TOK_ASM_shlq'', ''TOK_ASM_shl'',
    ''TOK_ASM_shrb'', ''TOK_ASM_shrw'', ''TOK_ASM_shrl'', ''TOK_ASM_shrq'', ''TOK_ASM_shr'',
    ''TOK_ASM_sarb'', ''TOK_ASM_sarw'', ''TOK_ASM_sarl'', ''TOK_ASM_sarq'', ''TOK_ASM_sar'',
    ''TOK_ASM_shldw'', ''TOK_ASM_shldl'', ''TOK_ASM_shldq'', ''TOK_ASM_shld'', ''TOK_ASM_shrdw'',
    ''TOK_ASM_shrdl'', ''TOK_ASM_shrdq'', ''TOK_ASM_shrd'', ''TOK_ASM_pushw'', ''TOK_ASM_pushl'',
    ''TOK_ASM_pushq'', ''TOK_ASM_push'', ''TOK_ASM_popw'', ''TOK_ASM_popl'', ''TOK_ASM_popq'',
    ''TOK_ASM_pop'', ''TOK_ASM_inb'', ''TOK_ASM_inw'', ''TOK_ASM_inl'', ''TOK_ASM_in'',
    ''TOK_ASM_outb'', ''TOK_ASM_outw'', ''TOK_ASM_outl'', ''TOK_ASM_out'', ''TOK_ASM_movzbw'',
    ''TOK_ASM_movzbl'', ''TOK_ASM_movzbq'', ''TOK_ASM_movzb'', ''TOK_ASM_movzwl'',
    ''TOK_ASM_movsbw'', ''TOK_ASM_movsbl'', ''TOK_ASM_movswl'', ''TOK_ASM_movsbq'',
    ''TOK_ASM_movswq'', ''TOK_ASM_movzwq'', ''TOK_ASM_movslq'', ''TOK_ASM_leaw'', ''TOK_ASM_leal'',
    ''TOK_ASM_leaq'', ''TOK_ASM_lea'', ''TOK_ASM_les'', ''TOK_ASM_lds'', ''TOK_ASM_lss'',
    ''TOK_ASM_lfs'', ''TOK_ASM_lgs'', ''TOK_ASM_call'', ''TOK_ASM_jmp'', ''TOK_ASM_lcall'',
    ''TOK_ASM_ljmp'', ''TOK_ASM_jo'', ''TOK_ASM_jno'', ''TOK_ASM_jb'', ''TOK_ASM_jc'',
    ''TOK_ASM_jnae'', ''TOK_ASM_jnb'', ''TOK_ASM_jnc'', ''TOK_ASM_jae'', ''TOK_ASM_je'',
    ''TOK_ASM_jz'', ''TOK_ASM_jne'', ''TOK_ASM_jnz'', ''TOK_ASM_jbe'', ''TOK_ASM_jna'',
    ''TOK_ASM_jnbe'', ''TOK_ASM_ja'', ''TOK_ASM_js'', ''TOK_ASM_jns'', ''TOK_ASM_jp'',
    ''TOK_ASM_jpe'', ''TOK_ASM_jnp'', ''TOK_ASM_jpo'', ''TOK_ASM_jl'', ''TOK_ASM_jnge'',
    ''TOK_ASM_jnl'', ''TOK_ASM_jge'', ''TOK_ASM_jle'', ''TOK_ASM_jng'', ''TOK_ASM_jnle'',
    ''TOK_ASM_jg'', ''TOK_ASM_seto'', ''TOK_ASM_setno'', ''TOK_ASM_setb'', ''TOK_ASM_setc'',
    ''TOK_ASM_setnae'', ''TOK_ASM_setnb'', ''TOK_ASM_setnc'', ''TOK_ASM_setae'', ''TOK_ASM_sete'',
    ''TOK_ASM_setz'', ''TOK_ASM_setne'', ''TOK_ASM_setnz'', ''TOK_ASM_setbe'', ''TOK_ASM_setna'',
    ''TOK_ASM_setnbe'', ''TOK_ASM_seta'', ''TOK_ASM_sets'', ''TOK_ASM_setns'', ''TOK_ASM_setp'',
    ''TOK_ASM_setpe'', ''TOK_ASM_setnp'', ''TOK_ASM_setpo'', ''TOK_ASM_setl'', ''TOK_ASM_setnge'',
    ''TOK_ASM_setnl'', ''TOK_ASM_setge'', ''TOK_ASM_setle'', ''TOK_ASM_setng'', ''TOK_ASM_setnle'',
    ''TOK_ASM_setg'']"

definition keywords_5 :: "string list" where
  "keywords_5 = [
    ''shlb'', ''shlw'', ''shll'', ''shlq'', ''shl'', ''shrb'', ''shrw'', ''shrl'', ''shrq'',
    ''shr'', ''sarb'', ''sarw'', ''sarl'', ''sarq'', ''sar'', ''shldw'', ''shldl'', ''shldq'',
    ''shld'', ''shrdw'', ''shrdl'', ''shrdq'', ''shrd'', ''pushw'', ''pushl'', ''pushq'', ''push'',
    ''popw'', ''popl'', ''popq'', ''pop'', ''inb'', ''inw'', ''inl'', ''in'', ''outb'', ''outw'',
    ''outl'', ''out'', ''movzbw'', ''movzbl'', ''movzbq'', ''movzb'', ''movzwl'', ''movsbw'',
    ''movsbl'', ''movswl'', ''movsbq'', ''movswq'', ''movzwq'', ''movslq'', ''leaw'', ''leal'',
    ''leaq'', ''lea'', ''les'', ''lds'', ''lss'', ''lfs'', ''lgs'', ''call'', ''jmp'', ''lcall'',
    ''ljmp'', ''jo'', ''jno'', ''jb'', ''jc'', ''jnae'', ''jnb'', ''jnc'', ''jae'', ''je'', ''jz'',
    ''jne'', ''jnz'', ''jbe'', ''jna'', ''jnbe'', ''ja'', ''js'', ''jns'', ''jp'', ''jpe'',
    ''jnp'', ''jpo'', ''jl'', ''jnge'', ''jnl'', ''jge'', ''jle'', ''jng'', ''jnle'', ''jg'',
    ''seto'', ''setno'', ''setb'', ''setc'', ''setnae'', ''setnb'', ''setnc'', ''setae'', ''sete'',
    ''setz'', ''setne'', ''setnz'', ''setbe'', ''setna'', ''setnbe'', ''seta'', ''sets'',
    ''setns'', ''setp'', ''setpe'', ''setnp'', ''setpo'', ''setl'', ''setnge'', ''setnl'',
    ''setge'', ''setle'', ''setng'', ''setnle'', ''setg'']"

definition tok_names_6 :: "string list" where
  "tok_names_6 = [
    ''TOK_ASM_setob'', ''TOK_ASM_setnob'', ''TOK_ASM_setbb'', ''TOK_ASM_setcb'',
    ''TOK_ASM_setnaeb'', ''TOK_ASM_setnbb'', ''TOK_ASM_setncb'', ''TOK_ASM_setaeb'',
    ''TOK_ASM_seteb'', ''TOK_ASM_setzb'', ''TOK_ASM_setneb'', ''TOK_ASM_setnzb'',
    ''TOK_ASM_setbeb'', ''TOK_ASM_setnab'', ''TOK_ASM_setnbeb'', ''TOK_ASM_setab'',
    ''TOK_ASM_setsb'', ''TOK_ASM_setnsb'', ''TOK_ASM_setpb'', ''TOK_ASM_setpeb'',
    ''TOK_ASM_setnpb'', ''TOK_ASM_setpob'', ''TOK_ASM_setlb'', ''TOK_ASM_setngeb'',
    ''TOK_ASM_setnlb'', ''TOK_ASM_setgeb'', ''TOK_ASM_setleb'', ''TOK_ASM_setngb'',
    ''TOK_ASM_setnleb'', ''TOK_ASM_setgb'', ''TOK_ASM_cmovo'', ''TOK_ASM_cmovno'',
    ''TOK_ASM_cmovb'', ''TOK_ASM_cmovc'', ''TOK_ASM_cmovnae'', ''TOK_ASM_cmovnb'',
    ''TOK_ASM_cmovnc'', ''TOK_ASM_cmovae'', ''TOK_ASM_cmove'', ''TOK_ASM_cmovz'',
    ''TOK_ASM_cmovne'', ''TOK_ASM_cmovnz'', ''TOK_ASM_cmovbe'', ''TOK_ASM_cmovna'',
    ''TOK_ASM_cmovnbe'', ''TOK_ASM_cmova'', ''TOK_ASM_cmovs'', ''TOK_ASM_cmovns'',
    ''TOK_ASM_cmovp'', ''TOK_ASM_cmovpe'', ''TOK_ASM_cmovnp'', ''TOK_ASM_cmovpo'',
    ''TOK_ASM_cmovl'', ''TOK_ASM_cmovnge'', ''TOK_ASM_cmovnl'', ''TOK_ASM_cmovge'',
    ''TOK_ASM_cmovle'', ''TOK_ASM_cmovng'', ''TOK_ASM_cmovnle'', ''TOK_ASM_cmovg'',
    ''TOK_ASM_bsfw'', ''TOK_ASM_bsfl'', ''TOK_ASM_bsfq'', ''TOK_ASM_bsf'', ''TOK_ASM_bsrw'',
    ''TOK_ASM_bsrl'', ''TOK_ASM_bsrq'', ''TOK_ASM_bsr'', ''TOK_ASM_btw'', ''TOK_ASM_btl'',
    ''TOK_ASM_btq'', ''TOK_ASM_bt'', ''TOK_ASM_btsw'', ''TOK_ASM_btsl'', ''TOK_ASM_btsq'',
    ''TOK_ASM_bts'', ''TOK_ASM_btrw'', ''TOK_ASM_btrl'', ''TOK_ASM_btrq'', ''TOK_ASM_btr'',
    ''TOK_ASM_btcw'', ''TOK_ASM_btcl'', ''TOK_ASM_btcq'', ''TOK_ASM_btc'', ''TOK_ASM_popcntw'',
    ''TOK_ASM_popcntl'', ''TOK_ASM_popcntq'', ''TOK_ASM_popcnt'', ''TOK_ASM_tzcntw'',
    ''TOK_ASM_tzcntl'', ''TOK_ASM_tzcntq'', ''TOK_ASM_tzcnt'', ''TOK_ASM_lzcntw'',
    ''TOK_ASM_lzcntl'', ''TOK_ASM_lzcntq'', ''TOK_ASM_lzcnt'', ''TOK_ASM_larw'', ''TOK_ASM_larl'',
    ''TOK_ASM_larq'', ''TOK_ASM_lar'', ''TOK_ASM_lslw'', ''TOK_ASM_lsll'', ''TOK_ASM_lslq'',
    ''TOK_ASM_lsl'', ''TOK_ASM_fadd'', ''TOK_ASM_faddp'', ''TOK_ASM_fadds'', ''TOK_ASM_fiaddl'',
    ''TOK_ASM_faddl'', ''TOK_ASM_fiadds'']"

definition keywords_6 :: "string list" where
  "keywords_6 = [
    ''setob'', ''setnob'', ''setbb'', ''setcb'', ''setnaeb'', ''setnbb'', ''setncb'', ''setaeb'',
    ''seteb'', ''setzb'', ''setneb'', ''setnzb'', ''setbeb'', ''setnab'', ''setnbeb'', ''setab'',
    ''setsb'', ''setnsb'', ''setpb'', ''setpeb'', ''setnpb'', ''setpob'', ''setlb'', ''setngeb'',
    ''setnlb'', ''setgeb'', ''setleb'', ''setngb'', ''setnleb'', ''setgb'', ''cmovo'', ''cmovno'',
    ''cmovb'', ''cmovc'', ''cmovnae'', ''cmovnb'', ''cmovnc'', ''cmovae'', ''cmove'', ''cmovz'',
    ''cmovne'', ''cmovnz'', ''cmovbe'', ''cmovna'', ''cmovnbe'', ''cmova'', ''cmovs'', ''cmovns'',
    ''cmovp'', ''cmovpe'', ''cmovnp'', ''cmovpo'', ''cmovl'', ''cmovnge'', ''cmovnl'', ''cmovge'',
    ''cmovle'', ''cmovng'', ''cmovnle'', ''cmovg'', ''bsfw'', ''bsfl'', ''bsfq'', ''bsf'',
    ''bsrw'', ''bsrl'', ''bsrq'', ''bsr'', ''btw'', ''btl'', ''btq'', ''bt'', ''btsw'', ''btsl'',
    ''btsq'', ''bts'', ''btrw'', ''btrl'', ''btrq'', ''btr'', ''btcw'', ''btcl'', ''btcq'',
    ''btc'', ''popcntw'', ''popcntl'', ''popcntq'', ''popcnt'', ''tzcntw'', ''tzcntl'', ''tzcntq'',
    ''tzcnt'', ''lzcntw'', ''lzcntl'', ''lzcntq'', ''lzcnt'', ''larw'', ''larl'', ''larq'',
    ''lar'', ''lslw'', ''lsll'', ''lslq'', ''lsl'', ''fadd'', ''faddp'', ''fadds'', ''fiaddl'',
    ''faddl'', ''fiadds'']"

definition tok_names_7 :: "string list" where
  "tok_names_7 = [
    ''TOK_ASM_fmul'', ''TOK_ASM_fmulp'', ''TOK_ASM_fmuls'', ''TOK_ASM_fimull'', ''TOK_ASM_fmull'',
    ''TOK_ASM_fimuls'', ''TOK_ASM_fcom'', ''TOK_ASM_fcom_1'', ''TOK_ASM_fcoms'',
    ''TOK_ASM_ficoml'', ''TOK_ASM_fcoml'', ''TOK_ASM_ficoms'', ''TOK_ASM_fcomp'',
    ''TOK_ASM_fcompp'', ''TOK_ASM_fcomps'', ''TOK_ASM_ficompl'', ''TOK_ASM_fcompl'',
    ''TOK_ASM_ficomps'', ''TOK_ASM_fsub'', ''TOK_ASM_fsubp'', ''TOK_ASM_fsubs'',
    ''TOK_ASM_fisubl'', ''TOK_ASM_fsubl'', ''TOK_ASM_fisubs'', ''TOK_ASM_fsubr'',
    ''TOK_ASM_fsubrp'', ''TOK_ASM_fsubrs'', ''TOK_ASM_fisubrl'', ''TOK_ASM_fsubrl'',
    ''TOK_ASM_fisubrs'', ''TOK_ASM_fdiv'', ''TOK_ASM_fdivp'', ''TOK_ASM_fdivs'',
    ''TOK_ASM_fidivl'', ''TOK_ASM_fdivl'', ''TOK_ASM_fidivs'', ''TOK_ASM_fdivr'',
    ''TOK_ASM_fdivrp'', ''TOK_ASM_fdivrs'', ''TOK_ASM_fidivrl'', ''TOK_ASM_fdivrl'',
    ''TOK_ASM_fidivrs'', ''TOK_ASM_xaddb'', ''TOK_ASM_xaddw'', ''TOK_ASM_xaddl'',
    ''TOK_ASM_xaddq'', ''TOK_ASM_xadd'', ''TOK_ASM_cmpxchgb'', ''TOK_ASM_cmpxchgw'',
    ''TOK_ASM_cmpxchgl'', ''TOK_ASM_cmpxchgq'', ''TOK_ASM_cmpxchg'', ''TOK_ASM_cmpsb'',
    ''TOK_ASM_cmpsw'', ''TOK_ASM_cmpsl'', ''TOK_ASM_cmpsq'', ''TOK_ASM_cmps'', ''TOK_ASM_scmpb'',
    ''TOK_ASM_scmpw'', ''TOK_ASM_scmpl'', ''TOK_ASM_scmpq'', ''TOK_ASM_scmp'', ''TOK_ASM_insb'',
    ''TOK_ASM_insw'', ''TOK_ASM_insl'', ''TOK_ASM_ins'', ''TOK_ASM_outsb'', ''TOK_ASM_outsw'',
    ''TOK_ASM_outsl'', ''TOK_ASM_outs'', ''TOK_ASM_lodsb'', ''TOK_ASM_lodsw'', ''TOK_ASM_lodsl'',
    ''TOK_ASM_lodsq'', ''TOK_ASM_lods'', ''TOK_ASM_slodb'', ''TOK_ASM_slodw'', ''TOK_ASM_slodl'',
    ''TOK_ASM_slodq'', ''TOK_ASM_slod'', ''TOK_ASM_movsb'', ''TOK_ASM_movsw'', ''TOK_ASM_movsl'',
    ''TOK_ASM_movsq'', ''TOK_ASM_movs'', ''TOK_ASM_smovb'', ''TOK_ASM_smovw'', ''TOK_ASM_smovl'',
    ''TOK_ASM_smovq'', ''TOK_ASM_smov'', ''TOK_ASM_scasb'', ''TOK_ASM_scasw'', ''TOK_ASM_scasl'',
    ''TOK_ASM_scasq'', ''TOK_ASM_scas'', ''TOK_ASM_sscab'', ''TOK_ASM_sscaw'', ''TOK_ASM_sscal'',
    ''TOK_ASM_sscaq'', ''TOK_ASM_ssca'', ''TOK_ASM_stosb'', ''TOK_ASM_stosw'', ''TOK_ASM_stosl'',
    ''TOK_ASM_stosq'', ''TOK_ASM_stos'', ''TOK_ASM_sstob'', ''TOK_ASM_sstow'', ''TOK_ASM_sstol'',
    ''TOK_ASM_sstoq'', ''TOK_ASM_ssto'']"

definition keywords_7 :: "string list" where
  "keywords_7 = [
    ''fmul'', ''fmulp'', ''fmuls'', ''fimull'', ''fmull'', ''fimuls'', ''fcom'', ''fcom_1'',
    ''fcoms'', ''ficoml'', ''fcoml'', ''ficoms'', ''fcomp'', ''fcompp'', ''fcomps'', ''ficompl'',
    ''fcompl'', ''ficomps'', ''fsub'', ''fsubp'', ''fsubs'', ''fisubl'', ''fsubl'', ''fisubs'',
    ''fsubr'', ''fsubrp'', ''fsubrs'', ''fisubrl'', ''fsubrl'', ''fisubrs'', ''fdiv'', ''fdivp'',
    ''fdivs'', ''fidivl'', ''fdivl'', ''fidivs'', ''fdivr'', ''fdivrp'', ''fdivrs'', ''fidivrl'',
    ''fdivrl'', ''fidivrs'', ''xaddb'', ''xaddw'', ''xaddl'', ''xaddq'', ''xadd'', ''cmpxchgb'',
    ''cmpxchgw'', ''cmpxchgl'', ''cmpxchgq'', ''cmpxchg'', ''cmpsb'', ''cmpsw'', ''cmpsl'',
    ''cmpsq'', ''cmps'', ''scmpb'', ''scmpw'', ''scmpl'', ''scmpq'', ''scmp'', ''insb'', ''insw'',
    ''insl'', ''ins'', ''outsb'', ''outsw'', ''outsl'', ''outs'', ''lodsb'', ''lodsw'', ''lodsl'',
    ''lodsq'', ''lods'', ''slodb'', ''slodw'', ''slodl'', ''slodq'', ''slod'', ''movsb'',
    ''movsw'', ''movsl'', ''movsq'', ''movs'', ''smovb'', ''smovw'', ''smovl'', ''smovq'',
    ''smov'', ''scasb'', ''scasw'', ''scasl'', ''scasq'', ''scas'', ''sscab'', ''sscaw'',
    ''sscal'', ''sscaq'', ''ssca'', ''stosb'', ''stosw'', ''stosl'', ''stosq'', ''stos'',
    ''sstob'', ''sstow'', ''sstol'', ''sstoq'', ''ssto'']"

definition tok_names_8 :: "string list" where
  "tok_names_8 = [
    ''TOK_ASM_clc'', ''TOK_ASM_cld'', ''TOK_ASM_cli'', ''TOK_ASM_clts'', ''TOK_ASM_cmc'',
    ''TOK_ASM_lahf'', ''TOK_ASM_sahf'', ''TOK_ASM_pushfq'', ''TOK_ASM_popfq'', ''TOK_ASM_pushf'',
    ''TOK_ASM_popf'', ''TOK_ASM_stc'', ''TOK_ASM_std'', ''TOK_ASM_sti'', ''TOK_ASM_aaa'',
    ''TOK_ASM_aas'', ''TOK_ASM_daa'', ''TOK_ASM_das'', ''TOK_ASM_aad'', ''TOK_ASM_aam'',
    ''TOK_ASM_cbw'', ''TOK_ASM_cwd'', ''TOK_ASM_cwde'', ''TOK_ASM_cdq'', ''TOK_ASM_cbtw'',
    ''TOK_ASM_cwtl'', ''TOK_ASM_cwtd'', ''TOK_ASM_cltd'', ''TOK_ASM_cqto'', ''TOK_ASM_int3'',
    ''TOK_ASM_into'', ''TOK_ASM_iret'', ''TOK_ASM_iretw'', ''TOK_ASM_iretl'', ''TOK_ASM_iretq'',
    ''TOK_ASM_rsm'', ''TOK_ASM_hlt'', ''TOK_ASM_wait'', ''TOK_ASM_nop'', ''TOK_ASM_pause'',
    ''TOK_ASM_xlat'', ''TOK_ASM_lock'', ''TOK_ASM_rep'', ''TOK_ASM_repe'', ''TOK_ASM_repz'',
    ''TOK_ASM_repne'', ''TOK_ASM_repnz'', ''TOK_ASM_invd'', ''TOK_ASM_wbinvd'', ''TOK_ASM_cpuid'',
    ''TOK_ASM_wrmsr'', ''TOK_ASM_rdtsc'', ''TOK_ASM_rdmsr'', ''TOK_ASM_rdpmc'',
    ''TOK_ASM_syscall'', ''TOK_ASM_sysret'', ''TOK_ASM_ud2'', ''TOK_ASM_leave'', ''TOK_ASM_ret'',
    ''TOK_ASM_retq'', ''TOK_ASM_lret'', ''TOK_ASM_fucompp'', ''TOK_ASM_ftst'', ''TOK_ASM_fxam'',
    ''TOK_ASM_fld1'', ''TOK_ASM_fldl2t'', ''TOK_ASM_fldl2e'', ''TOK_ASM_fldpi'',
    ''TOK_ASM_fldlg2'', ''TOK_ASM_fldln2'', ''TOK_ASM_fldz'', ''TOK_ASM_f2xm1'', ''TOK_ASM_fyl2x'',
    ''TOK_ASM_fptan'', ''TOK_ASM_fpatan'', ''TOK_ASM_fxtract'', ''TOK_ASM_fprem1'',
    ''TOK_ASM_fdecstp'', ''TOK_ASM_fincstp'', ''TOK_ASM_fprem'', ''TOK_ASM_fyl2xp1'',
    ''TOK_ASM_fsqrt'', ''TOK_ASM_fsincos'', ''TOK_ASM_frndint'', ''TOK_ASM_fscale'',
    ''TOK_ASM_fsin'', ''TOK_ASM_fcos'', ''TOK_ASM_fchs'', ''TOK_ASM_fabs'', ''TOK_ASM_fninit'',
    ''TOK_ASM_fnclex'', ''TOK_ASM_fnop'', ''TOK_ASM_fwait'', ''TOK_ASM_fxch'', ''TOK_ASM_fnstsw'',
    ''TOK_ASM_emms'', ''TOK_ASM_vmcall'', ''TOK_ASM_vmlaunch'', ''TOK_ASM_vmresume'',
    ''TOK_ASM_vmxoff'', ''TOK_ASM_sysretq'', ''TOK_ASM_callq'', ''TOK_ASM_ljmpw'',
    ''TOK_ASM_ljmpl'', ''TOK_ASM_enter'', ''TOK_ASM_loopne'', ''TOK_ASM_loopnz'',
    ''TOK_ASM_loope'', ''TOK_ASM_loopz'', ''TOK_ASM_loop'']"

definition keywords_8 :: "string list" where
  "keywords_8 = [
    ''clc'', ''cld'', ''cli'', ''clts'', ''cmc'', ''lahf'', ''sahf'', ''pushfq'', ''popfq'',
    ''pushf'', ''popf'', ''stc'', ''std'', ''sti'', ''aaa'', ''aas'', ''daa'', ''das'', ''aad'',
    ''aam'', ''cbw'', ''cwd'', ''cwde'', ''cdq'', ''cbtw'', ''cwtl'', ''cwtd'', ''cltd'', ''cqto'',
    ''int3'', ''into'', ''iret'', ''iretw'', ''iretl'', ''iretq'', ''rsm'', ''hlt'', ''wait'',
    ''nop'', ''pause'', ''xlat'', ''lock'', ''rep'', ''repe'', ''repz'', ''repne'', ''repnz'',
    ''invd'', ''wbinvd'', ''cpuid'', ''wrmsr'', ''rdtsc'', ''rdmsr'', ''rdpmc'', ''syscall'',
    ''sysret'', ''ud2'', ''leave'', ''ret'', ''retq'', ''lret'', ''fucompp'', ''ftst'', ''fxam'',
    ''fld1'', ''fldl2t'', ''fldl2e'', ''fldpi'', ''fldlg2'', ''fldln2'', ''fldz'', ''f2xm1'',
    ''fyl2x'', ''fptan'', ''fpatan'', ''fxtract'', ''fprem1'', ''fdecstp'', ''fincstp'', ''fprem'',
    ''fyl2xp1'', ''fsqrt'', ''fsincos'', ''frndint'', ''fscale'', ''fsin'', ''fcos'', ''fchs'',
    ''fabs'', ''fninit'', ''fnclex'', ''fnop'', ''fwait'', ''fxch'', ''fnstsw'', ''emms'',
    ''vmcall'', ''vmlaunch'', ''vmresume'', ''vmxoff'', ''sysretq'', ''callq'', ''ljmpw'',
    ''ljmpl'', ''enter'', ''loopne'', ''loopnz'', ''loope'', ''loopz'', ''loop'']"

definition tok_names_9 :: "string list" where
  "tok_names_9 = [
    ''TOK_ASM_jecxz'', ''TOK_ASM_fld'', ''TOK_ASM_fldl'', ''TOK_ASM_flds'', ''TOK_ASM_fildl'',
    ''TOK_ASM_fildq'', ''TOK_ASM_fildll'', ''TOK_ASM_fldt'', ''TOK_ASM_fbld'', ''TOK_ASM_fst'',
    ''TOK_ASM_fstl'', ''TOK_ASM_fsts'', ''TOK_ASM_fstps'', ''TOK_ASM_fstpl'', ''TOK_ASM_fist'',
    ''TOK_ASM_fistp'', ''TOK_ASM_fistl'', ''TOK_ASM_fistpl'', ''TOK_ASM_fstp'', ''TOK_ASM_fistpq'',
    ''TOK_ASM_fistpll'', ''TOK_ASM_fstpt'', ''TOK_ASM_fbstp'', ''TOK_ASM_fucom'',
    ''TOK_ASM_fucomp'', ''TOK_ASM_finit'', ''TOK_ASM_fldcw'', ''TOK_ASM_fnstcw'',
    ''TOK_ASM_fstcw'', ''TOK_ASM_fstsw'', ''TOK_ASM_fclex'', ''TOK_ASM_fnstenv'',
    ''TOK_ASM_fstenv'', ''TOK_ASM_fldenv'', ''TOK_ASM_fnsave'', ''TOK_ASM_fsave'',
    ''TOK_ASM_frstor'', ''TOK_ASM_ffree'', ''TOK_ASM_ffreep'', ''TOK_ASM_fxsave'',
    ''TOK_ASM_fxrstor'', ''TOK_ASM_fxsaveq'', ''TOK_ASM_fxrstorq'', ''TOK_ASM_arpl'',
    ''TOK_ASM_lgdt'', ''TOK_ASM_lgdtq'', ''TOK_ASM_lidt'', ''TOK_ASM_lidtq'', ''TOK_ASM_lldt'',
    ''TOK_ASM_lmsw'', ''TOK_ASM_ltr'', ''TOK_ASM_sgdt'', ''TOK_ASM_sgdtq'', ''TOK_ASM_sidt'',
    ''TOK_ASM_sidtq'', ''TOK_ASM_sldt'', ''TOK_ASM_smsw'', ''TOK_ASM_str'', ''TOK_ASM_verr'',
    ''TOK_ASM_verw'', ''TOK_ASM_swapgs'', ''TOK_ASM_bswap'', ''TOK_ASM_bswapl'',
    ''TOK_ASM_bswapq'', ''TOK_ASM_invlpg'', ''TOK_ASM_cmpxchg8b'', ''TOK_ASM_cmpxchg16b'',
    ''TOK_ASM_fcmovb'', ''TOK_ASM_fcmove'', ''TOK_ASM_fcmovbe'', ''TOK_ASM_fcmovu'',
    ''TOK_ASM_fcmovnb'', ''TOK_ASM_fcmovne'', ''TOK_ASM_fcmovnbe'', ''TOK_ASM_fcmovnu'',
    ''TOK_ASM_fucomi'', ''TOK_ASM_fcomi'', ''TOK_ASM_fucomip'', ''TOK_ASM_fcomip'',
    ''TOK_ASM_movd'', ''TOK_ASM_packssdw'', ''TOK_ASM_packsswb'', ''TOK_ASM_packuswb'',
    ''TOK_ASM_paddb'', ''TOK_ASM_paddw'', ''TOK_ASM_paddd'', ''TOK_ASM_paddsb'',
    ''TOK_ASM_paddsw'', ''TOK_ASM_paddusb'', ''TOK_ASM_paddusw'', ''TOK_ASM_pand'',
    ''TOK_ASM_pandn'', ''TOK_ASM_pcmpeqb'', ''TOK_ASM_pcmpeqw'', ''TOK_ASM_pcmpeqd'',
    ''TOK_ASM_pcmpgtb'', ''TOK_ASM_pcmpgtw'', ''TOK_ASM_pcmpgtd'', ''TOK_ASM_pmaddwd'',
    ''TOK_ASM_pmulhw'', ''TOK_ASM_pmullw'', ''TOK_ASM_por'', ''TOK_ASM_psllw'', ''TOK_ASM_pslld'',
    ''TOK_ASM_psllq'', ''TOK_ASM_psraw'', ''TOK_ASM_psrad'', ''TOK_ASM_psrlw'', ''TOK_ASM_psrld'',
    ''TOK_ASM_psrlq'']"

definition keywords_9 :: "string list" where
  "keywords_9 = [
    ''jecxz'', ''fld'', ''fldl'', ''flds'', ''fildl'', ''fildq'', ''fildll'', ''fldt'', ''fbld'',
    ''fst'', ''fstl'', ''fsts'', ''fstps'', ''fstpl'', ''fist'', ''fistp'', ''fistl'', ''fistpl'',
    ''fstp'', ''fistpq'', ''fistpll'', ''fstpt'', ''fbstp'', ''fucom'', ''fucomp'', ''finit'',
    ''fldcw'', ''fnstcw'', ''fstcw'', ''fstsw'', ''fclex'', ''fnstenv'', ''fstenv'', ''fldenv'',
    ''fnsave'', ''fsave'', ''frstor'', ''ffree'', ''ffreep'', ''fxsave'', ''fxrstor'', ''fxsaveq'',
    ''fxrstorq'', ''arpl'', ''lgdt'', ''lgdtq'', ''lidt'', ''lidtq'', ''lldt'', ''lmsw'', ''ltr'',
    ''sgdt'', ''sgdtq'', ''sidt'', ''sidtq'', ''sldt'', ''smsw'', ''str'', ''verr'', ''verw'',
    ''swapgs'', ''bswap'', ''bswapl'', ''bswapq'', ''invlpg'', ''cmpxchg8b'', ''cmpxchg16b'',
    ''fcmovb'', ''fcmove'', ''fcmovbe'', ''fcmovu'', ''fcmovnb'', ''fcmovne'', ''fcmovnbe'',
    ''fcmovnu'', ''fucomi'', ''fcomi'', ''fucomip'', ''fcomip'', ''movd'', ''packssdw'',
    ''packsswb'', ''packuswb'', ''paddb'', ''paddw'', ''paddd'', ''paddsb'', ''paddsw'',
    ''paddusb'', ''paddusw'', ''pand'', ''pandn'', ''pcmpeqb'', ''pcmpeqw'', ''pcmpeqd'',
    ''pcmpgtb'', ''pcmpgtw'', ''pcmpgtd'', ''pmaddwd'', ''pmulhw'', ''pmullw'', ''por'', ''psllw'',
    ''pslld'', ''psllq'', ''psraw'', ''psrad'', ''psrlw'', ''psrld'', ''psrlq'']"

definition tok_names_10 :: "string list" where
  "tok_names_10 = [
    ''TOK_ASM_psubb'', ''TOK_ASM_psubw'', ''TOK_ASM_psubd'', ''TOK_ASM_psubsb'',
    ''TOK_ASM_psubsw'', ''TOK_ASM_psubusb'', ''TOK_ASM_psubusw'', ''TOK_ASM_punpckhbw'',
    ''TOK_ASM_punpckhwd'', ''TOK_ASM_punpckhdq'', ''TOK_ASM_punpcklbw'', ''TOK_ASM_punpcklwd'',
    ''TOK_ASM_punpckldq'', ''TOK_ASM_pxor'', ''TOK_ASM_ldmxcsr'', ''TOK_ASM_stmxcsr'',
    ''TOK_ASM_movups'', ''TOK_ASM_movaps'', ''TOK_ASM_movhps'', ''TOK_ASM_addps'',
    ''TOK_ASM_cvtpi2ps'', ''TOK_ASM_cvtps2pi'', ''TOK_ASM_cvtss2si'', ''TOK_ASM_cvtsd2si'',
    ''TOK_ASM_cvttps2pi'', ''TOK_ASM_andps'', ''TOK_ASM_divps'', ''TOK_ASM_maxps'',
    ''TOK_ASM_minps'', ''TOK_ASM_mulps'', ''TOK_ASM_pavgb'', ''TOK_ASM_pavgw'', ''TOK_ASM_pmaxsw'',
    ''TOK_ASM_pmaxub'', ''TOK_ASM_pminsw'', ''TOK_ASM_pminub'', ''TOK_ASM_rcpss'',
    ''TOK_ASM_rsqrtps'', ''TOK_ASM_sqrtps'', ''TOK_ASM_sqrtss'', ''TOK_ASM_subps'',
    ''TOK_ASM_andpd'', ''TOK_ASM_sqrtsd'', ''TOK_ASM_movnti'', ''TOK_ASM_movntil'',
    ''TOK_ASM_movntiq'', ''TOK_ASM_prefetchnta'', ''TOK_ASM_prefetcht0'', ''TOK_ASM_prefetcht1'',
    ''TOK_ASM_prefetcht2'', ''TOK_ASM_prefetchw'', ''TOK_ASM_lfence'', ''TOK_ASM_mfence'',
    ''TOK_ASM_sfence'', ''TOK_ASM_clflush'', ''TOK_ASM_endbr64'']"

definition keywords_10 :: "string list" where
  "keywords_10 = [
    ''psubb'', ''psubw'', ''psubd'', ''psubsb'', ''psubsw'', ''psubusb'', ''psubusw'',
    ''punpckhbw'', ''punpckhwd'', ''punpckhdq'', ''punpcklbw'', ''punpcklwd'', ''punpckldq'',
    ''pxor'', ''ldmxcsr'', ''stmxcsr'', ''movups'', ''movaps'', ''movhps'', ''addps'',
    ''cvtpi2ps'', ''cvtps2pi'', ''cvtss2si'', ''cvtsd2si'', ''cvttps2pi'', ''andps'', ''divps'',
    ''maxps'', ''minps'', ''mulps'', ''pavgb'', ''pavgw'', ''pmaxsw'', ''pmaxub'', ''pminsw'',
    ''pminub'', ''rcpss'', ''rsqrtps'', ''sqrtps'', ''sqrtss'', ''subps'', ''andpd'', ''sqrtsd'',
    ''movnti'', ''movntil'', ''movntiq'', ''prefetchnta'', ''prefetcht0'', ''prefetcht1'',
    ''prefetcht2'', ''prefetchw'', ''lfence'', ''mfence'', ''sfence'', ''clflush'', ''endbr64'']"

definition tok_names :: "string list" where
  "tok_names = [''TOK_LAST''] @ tok_names_1 @ tok_names_2 @ tok_names_3 @ tok_names_4 @ tok_names_5 @ tok_names_6 @ tok_names_7 @ tok_names_8 @ tok_names_9 @ tok_names_10"

definition tcc_keywords :: "string list" where
  "tcc_keywords = keywords_1 @ keywords_2 @ keywords_3 @ keywords_4 @ keywords_5 @ keywords_6 @ keywords_7 @ keywords_8 @ keywords_9 @ keywords_10"

text \<open>The value C gives to the constant at a position of the enum.\<close>

definition tok_value :: "nat \<Rightarrow> nat" where "tok_value i = (256 - 1) + i"

subsection \<open>The two tables name the same words\<close>

text \<open>
  When the name of a constant spells a keyword: TOK_ASMDIR_x is the directive .x, TOK_ASM_x the
  mnemonic x; the other names are compared without case, without underscores at the ends and
  without the number that tells the spellings of one keyword apart (const, __const, __const__
  are TOK_CONST1 .. TOK_CONST3).
\<close>

fun strip_prefix :: "string \<Rightarrow> string \<Rightarrow> string option" where
  "strip_prefix [] s = Some s"
| "strip_prefix (p # ps) [] = None"
| "strip_prefix (p # ps) (c # cs) = (if p = c then strip_prefix ps cs else None)"

definition strip_us :: "string \<Rightarrow> string" where "strip_us s = dropWhile (\<lambda>c. c = CHR ''_'') s"

fun is_dig :: "char \<Rightarrow> bool" where
  "is_dig (Char a0 a1 a2 a3 a4 a5 a6 a7) \<longleftrightarrow>
     a4 \<and> a5 \<and> \<not> a6 \<and> \<not> a7 \<and> \<not> (a3 \<and> (a1 \<or> a2))"

fun lower_char :: "char \<Rightarrow> char" where
  "lower_char (Char a0 a1 a2 a3 a4 a5 a6 a7) = Char a0 a1 a2 a3 a4 (a5 \<or> a6) a6 a7"

definition canon :: "string \<Rightarrow> string" where
  "canon s = map lower_char (strip_us (dropWhile is_dig (rev (strip_us s))))"

definition spells :: "string \<Rightarrow> string \<Rightarrow> bool" where
  "spells n k \<longleftrightarrow>
     (case strip_prefix ''TOK_ASMDIR_'' n of Some r \<Rightarrow> k = CHR ''.'' # r
      | None \<Rightarrow> (case strip_prefix ''TOK_ASM_'' n of Some r \<Rightarrow> k = r
      | None \<Rightarrow> (case strip_prefix ''TOK_MODE_'' n of Some r \<Rightarrow> canon k = canon r
      | None \<Rightarrow> (case strip_prefix ''TOK_'' n of Some r \<Rightarrow> canon k = canon r | None \<Rightarrow> False))))"

fun agree :: "string list \<Rightarrow> string list \<Rightarrow> bool" where
  "agree [] [] = True"
| "agree (n # ns) (k # ks) = (if spells n k then agree ns ks else False)"
| "agree _ _ = False"

lemma agree_append: "agree ns ks \<Longrightarrow> agree ns' ks' \<Longrightarrow> agree (ns @ ns') (ks @ ks')"
  by (induction ns ks rule: agree.induct) (auto split: if_splits)

lemma agree_nth: "agree ns ks \<Longrightarrow> length ns = length ks \<and> (\<forall>i < length ks. spells (ns ! i) (ks ! i))"
  by (induction ns ks rule: agree.induct) (auto simp: nth_Cons split: if_splits nat.splits)

lemma agree_1: "agree tok_names_1 keywords_1" by code_simp
lemma agree_2: "agree tok_names_2 keywords_2" by code_simp
lemma agree_3: "agree tok_names_3 keywords_3" by code_simp
lemma agree_4: "agree tok_names_4 keywords_4" by code_simp
lemma agree_5: "agree tok_names_5 keywords_5" by code_simp
lemma agree_6: "agree tok_names_6 keywords_6" by code_simp
lemma agree_7: "agree tok_names_7 keywords_7" by code_simp
lemma agree_8: "agree tok_names_8 keywords_8" by code_simp
lemma agree_9: "agree tok_names_9 keywords_9" by code_simp
lemma agree_10: "agree tok_names_10 keywords_10" by code_simp

lemma tables_agree: "agree (tl tok_names) tcc_keywords"
  unfolding tok_names_def tcc_keywords_def
  by (simp only: append_Cons append_Nil list.sel)
     (intro agree_append agree_1 agree_2 agree_3 agree_4 agree_5 agree_6 agree_7 agree_8 agree_9 agree_10)

subsection \<open>No keyword occurs twice\<close>

fun lex_less :: "('a \<Rightarrow> 'a \<Rightarrow> bool) \<Rightarrow> 'a list \<Rightarrow> 'a list \<Rightarrow> bool" where
  "lex_less lt xs [] = False"
| "lex_less lt [] (y # ys) = True"
| "lex_less lt (x # xs) (y # ys) = (if x = y then lex_less lt xs ys else lt x y)"

lemma lex_less_irrefl: "\<not> lex_less lt xs xs"
  by (induction xs) auto

lemma lex_less_trans:
  assumes t: "\<And>a b c. lt a b \<Longrightarrow> lt b c \<Longrightarrow> lt a c" and i: "\<And>a. \<not> lt a a"
  shows "lex_less lt xs ys \<Longrightarrow> lex_less lt ys zs \<Longrightarrow> lex_less lt xs zs"
proof (induction xs arbitrary: ys zs)
  case Nil
  then show ?case by (cases ys; cases zs) auto
next
  case (Cons x xs)
  from Cons.prems obtain y ys' where y: "ys = y # ys'" by (cases ys) auto
  from Cons.prems(2) y obtain z zs' where z: "zs = z # zs'" by (cases zs) auto
  show ?case
    using Cons.prems Cons.IH [of ys' zs'] t [of x y z] i [of x] i [of y] t [of x y x]
    unfolding y z by (auto split: if_splits)
qed

definition bit_lt :: "bool \<Rightarrow> bool \<Rightarrow> bool" where "bit_lt a b \<longleftrightarrow> \<not> a \<and> b"

fun char_bits :: "char \<Rightarrow> bool list" where
  "char_bits (Char a0 a1 a2 a3 a4 a5 a6 a7) = [a7, a6, a5, a4, a3, a2, a1, a0]"

definition char_less :: "char \<Rightarrow> char \<Rightarrow> bool" where
  "char_less c d = lex_less bit_lt (char_bits c) (char_bits d)"

definition str_less :: "string \<Rightarrow> string \<Rightarrow> bool" where
  "str_less = lex_less char_less"

lemma str_less_trans: "str_less xs ys \<Longrightarrow> str_less ys zs \<Longrightarrow> str_less xs zs"
proof -
  have "char_less a b \<Longrightarrow> char_less b c \<Longrightarrow> char_less a c" for a b c
    unfolding char_less_def by (rule lex_less_trans) (auto simp: bit_lt_def)
  then show "str_less xs ys \<Longrightarrow> str_less ys zs \<Longrightarrow> str_less xs zs"
    unfolding str_less_def
    by (rule lex_less_trans [of char_less xs ys zs]) (auto simp: char_less_def lex_less_irrefl)
qed

lemma char_less_code [code]:
  "char_less (Char a0 a1 a2 a3 a4 a5 a6 a7) (Char b0 b1 b2 b3 b4 b5 b6 b7) \<longleftrightarrow>
     (if a7 \<noteq> b7 then b7 else if a6 \<noteq> b6 then b6 else if a5 \<noteq> b5 then b5
      else if a4 \<noteq> b4 then b4 else if a3 \<noteq> b3 then b3 else if a2 \<noteq> b2 then b2
      else if a1 \<noteq> b1 then b1 else if a0 \<noteq> b0 then b0 else False)"
  by (simp add: char_less_def bit_lt_def)

lemma str_less_code [code]:
  "str_less xs [] = False"
  "str_less [] (y # ys) = True"
  "str_less (x # xs) (y # ys) = (if x = y then str_less xs ys else char_less x y)"
  by (simp_all add: str_less_def)

text \<open>A merge sort by simplification; what it returns is increasing, so nothing is there twice.\<close>

fun merge :: "string list \<Rightarrow> string list \<Rightarrow> string list" where
  "merge [] ys = ys"
| "merge xs [] = xs"
| "merge (x # xs) (y # ys) =
     (if str_less x y then x # merge xs (y # ys) else y # merge (x # xs) ys)"

fun merge_adj :: "string list list \<Rightarrow> string list list" where
  "merge_adj (x # y # xs) = merge x y # merge_adj xs"
| "merge_adj xs = xs"

lemma length_merge_adj: "length (merge_adj xs) \<le> length xs"
  by (induction xs rule: merge_adj.induct) auto

function merge_all :: "string list list \<Rightarrow> string list" where
  "merge_all [] = []"
| "merge_all [x] = x"
| "merge_all (x # y # xs) = merge_all (merge_adj (x # y # xs))"
  by pat_completeness auto
termination by (relation "measure length") (auto simp: length_merge_adj less_Suc_eq_le)

fun increasing :: "string list \<Rightarrow> bool" where
  "increasing (x # y # xs) = (if str_less x y then increasing (y # xs) else False)"
| "increasing xs = True"

lemma mset_merge: "mset (merge xs ys) = mset xs + mset ys"
  by (induction xs ys rule: merge.induct) auto

lemma mset_merge_adj: "mset (concat (merge_adj xs)) = mset (concat xs)"
  by (induction xs rule: merge_adj.induct) (auto simp: mset_merge)

lemma mset_merge_all: "mset (merge_all xs) = mset (concat xs)"
  by (induction xs rule: merge_all.induct) (auto simp: mset_merge_adj mset_merge simp del: mset_concat)

lemma increasing_distinct: "increasing xs \<Longrightarrow> distinct xs"
proof -
  have "increasing xs \<Longrightarrow> sorted_wrt str_less xs"
  proof (induction xs rule: increasing.induct)
    case (1 x y xs)
    then have "str_less x y" "sorted_wrt str_less (y # xs)" by (auto split: if_splits)
    then show ?case using str_less_trans by auto
  qed auto
  moreover have "\<not> str_less x x" for x by (simp add: str_less_def lex_less_irrefl)
  then have "sorted_wrt str_less xs \<Longrightarrow> distinct xs" by (induction xs) auto
  ultimately show "increasing xs \<Longrightarrow> distinct xs" by blast
qed

lemma increasing_merge_distinct:
  assumes "increasing (merge_all (map (\<lambda>x. [x]) xs))"
  shows "distinct xs"
proof -
  have "mset (merge_all (map (\<lambda>x. [x]) xs)) = mset xs"
    unfolding mset_merge_all by simp
  then show ?thesis
    using increasing_distinct [OF assms] by (metis mset_eq_imp_distinct_iff)
qed

text \<open>The check is done class by class, where three bits of the second and third letter give the class.\<close>

fun bits13 :: "char \<Rightarrow> bool \<times> bool" where
  "bits13 (Char a0 a1 a2 a3 a4 a5 a6 a7) = (a1, a3)"

fun bit4 :: "char \<Rightarrow> bool" where
  "bit4 (Char a0 a1 a2 a3 a4 a5 a6 a7) = a4"

fun word_class :: "string \<Rightarrow> (bool \<times> bool) \<times> bool" where
  "word_class (a # b # c # s) = (bits13 b, bit4 c)"
| "word_class [a, b] = (bits13 b, False)"
| "word_class _ = ((False, False), False)"

fun pick :: "(bool \<times> bool) \<times> bool \<Rightarrow> string list \<Rightarrow> string list" where
  "pick k [] = []"
| "pick k (x # xs) = (if word_class x = k then x # pick k xs else pick k xs)"

lemma pick_append: "pick k (xs @ ys) = pick k xs @ pick k ys"
  by (induction xs) auto

lemma distinct_pick: "(\<And>k. distinct (pick k xs)) \<Longrightarrow> distinct xs"
proof -
  have f: "pick k xs = filter (\<lambda>x. word_class x = k) xs" for k xs by (induction xs) auto
  have "(\<And>k. distinct (filter (\<lambda>x. word_class x = k) xs)) \<Longrightarrow> distinct xs" for xs
  proof (induction xs)
    case (Cons x xs)
    have "distinct (filter (\<lambda>y. word_class y = k) xs)" for k
      using Cons.prems [of k] by (auto split: if_splits)
    moreover have "x \<notin> set xs" using Cons.prems [of "word_class x"] by auto
    ultimately show ?case using Cons.IH by simp
  qed simp
  then show "(\<And>k. distinct (pick k xs)) \<Longrightarrow> distinct xs" unfolding f by blast
qed

definition class_ok :: "(bool \<times> bool) \<times> bool \<Rightarrow> bool" where
  "class_ok k \<longleftrightarrow> increasing (merge_all (map (\<lambda>x. [x]) (pick k keywords_1 @ pick k keywords_2 @ pick k keywords_3 @ pick k keywords_4 @ pick k keywords_5 @ pick k keywords_6 @ pick k keywords_7 @ pick k keywords_8 @ pick k keywords_9 @ pick k keywords_10)))"

lemma class_ok_0: "class_ok ((False, False), False)" by code_simp
lemma class_ok_1: "class_ok ((False, False), True)" by code_simp
lemma class_ok_2: "class_ok ((False, True), False)" by code_simp
lemma class_ok_3: "class_ok ((False, True), True)" by code_simp
lemma class_ok_4: "class_ok ((True, False), False)" by code_simp
lemma class_ok_5: "class_ok ((True, False), True)" by code_simp
lemma class_ok_6: "class_ok ((True, True), False)" by code_simp
lemma class_ok_7: "class_ok ((True, True), True)" by code_simp

lemma class_ok: "class_ok k"
proof (cases k)
  case (Pair ab c)
  then show ?thesis
    by (cases ab; cases "fst ab"; cases "snd ab"; cases c)
       (simp_all add: class_ok_0 class_ok_1 class_ok_2 class_ok_3 class_ok_4 class_ok_5 class_ok_6 class_ok_7)
qed

lemma keywords_distinct: "distinct tcc_keywords"
proof (rule distinct_pick)
  fix k
  have "pick k tcc_keywords = pick k keywords_1 @ pick k keywords_2 @ pick k keywords_3 @ pick k keywords_4 @ pick k keywords_5 @ pick k keywords_6 @ pick k keywords_7 @ pick k keywords_8 @ pick k keywords_9 @ pick k keywords_10"
    by (simp only: tcc_keywords_def pick_append)
  then show "distinct (pick k tcc_keywords)"
    using increasing_merge_distinct [OF class_ok [of k, unfolded class_ok_def]] by simp
qed

lemma length_tables: "length tcc_keywords = 1063" "length tok_names = 1064"
  by (simp_all add: tcc_keywords_def tok_names_def keywords_1_def tok_names_1_def keywords_2_def tok_names_2_def keywords_3_def tok_names_3_def keywords_4_def tok_names_4_def keywords_5_def tok_names_5_def keywords_6_def tok_names_6_def keywords_7_def tok_names_7_def keywords_8_def tok_names_8_def keywords_9_def tok_names_9_def keywords_10_def tok_names_10_def)

end
