(* ===== verification/Escape.thy ===== *)
theory Escape
  imports Prelude
begin

text \<open>
  Character and string literals: the escapes add_char writes when a token is printed (lines
  13160-13177), unicode_to_utf8 (13084-13093), and the reading of a literal's text by
  parse_escape_string and parse_string (14426-14622). A CString is its contents, a list of bytes
  (cstr_realloc only makes room); the text of a literal is the list of its bytes up to the
  terminating NUL, and reading at its end gives NUL. Warnings are returned in their order, each as
  the format string and the character it names. nwchar_t has 16 bits, as in every Windows build.
\<close>

type_synonym bytes = "u8 list"
type_synonym warnings = "(string \<times> u32) list"

section \<open>Writing\<close>

definition octal_digit :: "u32 \<Rightarrow> u8" where
  "octal_digit x = 0x30 + ucast (x AND 7)"

definition add_char :: "u32 \<Rightarrow> bytes" where
  "add_char c =
     (if c = 0x27 \<or> c = 0x22 \<or> c = 0x5C then [0x5C] else []) @
     (if 32 \<le>s c \<and> c \<le>s 126 then [ucast c]
      else 0x5C #
        (if c = 0x0A then [0x6E]
         else [octal_digit (drop_bit 6 c), octal_digit (drop_bit 3 c), octal_digit c]))"

definition unicode_to_utf8 :: "u32 \<Rightarrow> bytes res" where
  "unicode_to_utf8 Uc =
     (if Uc < 0x80 then Inr [ucast Uc]
      else if Uc < 0x800 then Inr [ucast (192 + Uc div 64), ucast (128 + Uc mod 64)]
      else if Uc - 0xd800 < 0x800 then Inl ''0x%x is not a valid universal character''
      else if Uc < 0x10000 then
        Inr [ucast (224 + Uc div 4096), ucast (128 + Uc div 64 mod 64), ucast (128 + Uc mod 64)]
      else if Uc < 0x110000 then
        Inr [ucast (240 + Uc div 262144), ucast (128 + Uc div 4096 mod 64),
             ucast (128 + Uc div 64 mod 64), ucast (128 + Uc mod 64)]
      else Inl ''0x%x is not a valid universal character'')"

definition nwchar :: "u32 \<Rightarrow> bytes" where
  "nwchar c = [ucast c, ucast (drop_bit 8 c)]"

text \<open>The code at add_char_nonext: a byte, or one or two UTF-16 units.\<close>

definition put_char :: "bool \<Rightarrow> u32 \<Rightarrow> bytes" where
  "put_char is_long c =
     (if \<not> is_long then [ucast c]
      else if c <s 0x10000 then nwchar c
      else (let c = c - 0x10000 in nwchar (drop_bit 10 c + 0xD800) @ nwchar ((c AND 0x3FF) + 0xDC00)))"

section \<open>Reading\<close>

definition peek :: "bytes \<Rightarrow> u8" where
  "peek bs = (case bs of [] \<Rightarrow> 0 | b # _ \<Rightarrow> b)"

lemma peek_simps [simp]: "peek [] = 0" "peek (b # bs) = b"
  by (simp_all add: peek_def)

definition isoct :: "u8 \<Rightarrow> bool" where "isoct c \<longleftrightarrow> 0x30 \<le> c \<and> c \<le> 0x37"

definition isnum :: "u8 \<Rightarrow> bool" where "isnum c \<longleftrightarrow> 0x30 \<le> c \<and> c \<le> 0x39"

definition hex_value :: "u8 \<Rightarrow> u32 option" where
  "hex_value c =
     (if 0x61 \<le> c \<and> c \<le> 0x66 then Some (ucast c - 0x61 + 10)
      else if 0x41 \<le> c \<and> c \<le> 0x46 then Some (ucast c - 0x41 + 10)
      else if isnum c then Some (ucast c - 0x30) else None)"

lemma hex_value_0 [simp]: "hex_value 0 = None"
  by (simp add: hex_value_def isnum_def)

text \<open>Octal escapes, after the first digit has been seen; p stands on that digit.\<close>

definition octal_escape :: "bytes \<Rightarrow> u32 \<times> bytes" where
  "octal_escape p =
     (let n = ucast (peek p) - 0x30; p = tl p in
      if isoct (peek p) then
        (let n = n * 8 + ucast (peek p) - 0x30; p = tl p in
         if isoct (peek p) then (n * 8 + ucast (peek p) - 0x30, tl p) else (n, p))
      else (n, p))"

text \<open>
  The loop of parse_hex_or_ucn; the flag says that it was left by the goto. i is 0 for x, 4 for u,
  8 for U.
\<close>

fun hex_or_ucn :: "int \<Rightarrow> u32 \<Rightarrow> bytes \<Rightarrow> (u32 \<times> bytes \<times> bool) res" where
  "hex_or_ucn i n [] = (if i \<ge> 0 then Inl ''%s expected'' else Inr (n, [], True))"
| "hex_or_ucn i n (c # p) =
     (case hex_value c of
        None \<Rightarrow> if i \<ge> 0 then Inl ''%s expected'' else Inr (n, c # p, True)
      | Some d \<Rightarrow> if i - 1 = 0 then Inr (n * 16 + d, p, False) else hex_or_ucn (i - 1) (n * 16 + d) p)"

definition cstr_u8cat :: "u32 \<Rightarrow> bytes res" where
  "cstr_u8cat n = unicode_to_utf8 n"

text \<open>The escapes of one letter; None for an unknown one.\<close>

definition simple_escape :: "bool \<Rightarrow> u8 \<Rightarrow> u8 option" where
  "simple_escape gnu_ext c =
     (if c = 0x61 then Some 7 else if c = 0x62 then Some 8 else if c = 0x66 then Some 12
      else if c = 0x6E then Some 10 else if c = 0x72 then Some 13 else if c = 0x74 then Some 9
      else if c = 0x76 then Some 11
      else if c = 0x65 \<and> gnu_ext then Some 27
      else if c = 0x27 \<or> c = 0x22 \<or> c = 0x5C \<or> c = 0x3F then Some c else None)"

text \<open>
  A multi-byte UTF-8 sequence: the number of continuation bytes and the bits of the lead byte, then
  the continuation bytes from the i-th on; Inl tells how many bytes an ill-formed sequence skips.
\<close>

definition utf8_lead :: "u8 \<Rightarrow> (nat \<times> u32) option" where
  "utf8_lead c =
     (if c < 0xC2 then None
      else if c \<le> 0xDF then Some (1, ucast (c AND 0x1f))
      else if c \<le> 0xEF then Some (2, ucast (c AND 0xf))
      else if c \<le> 0xF4 then Some (3, ucast (c AND 0x7))
      else None)"

definition cont_low :: "u8 \<Rightarrow> nat \<Rightarrow> u8" where
  "cont_low c i = (if i = 1 \<and> c = 0xE0 then 0xA0 else if i = 1 \<and> c = 0xF0 then 0x90 else 0x80)"

definition cont_high :: "u8 \<Rightarrow> nat \<Rightarrow> u8" where
  "cont_high c i = (if i = 1 \<and> c = 0xED then 0x9F else if i = 1 \<and> c = 0xF4 then 0x8F else 0xBF)"

fun utf8_tail :: "u8 \<Rightarrow> nat \<Rightarrow> nat \<Rightarrow> u32 \<Rightarrow> bytes \<Rightarrow> nat + u32" where
  "utf8_tail c i 0 n p = Inr n"
| "utf8_tail c i (Suc k) n p =
     (if peek p < cont_low c i \<or> peek p > cont_high c i then Inl i
      else utf8_tail c (i + 1) k (push_bit 6 n OR ucast (peek p AND 0x3f)) (tl p))"

text \<open>One round of the loop of parse_escape_string: what it appends, the rest, the warnings.\<close>

definition backslash_escape :: "bool \<Rightarrow> bool \<Rightarrow> bytes \<Rightarrow> (bytes \<times> bytes \<times> warnings) res" where
  "backslash_escape gnu_ext is_long p =
     (let c = peek p in
      if isoct c then (let (n, p) = octal_escape p in Inr (put_char is_long n, p, []))
      else if c = 0x78 \<or> c = 0x75 \<or> c = 0x55 then
        ebind (hex_or_ucn (if c = 0x78 then 0 else if c = 0x75 then 4 else 8) 0 (tl p))
          (\<lambda>(n, p, gone). if gone \<or> is_long then Inr (put_char is_long n, p, [])
                          else ebind (cstr_u8cat n) (\<lambda>bs. Inr (bs, p, [])))
      else (case simple_escape gnu_ext c of
          Some d \<Rightarrow> Inr (put_char is_long (ucast d), tl p, [])
        | None \<Rightarrow> Inr (put_char is_long (ucast c), tl p,
            [(if 0x21 \<le> c \<and> c \<le> 0x7E then ''unknown escape sequence: %c''
              else ''unknown escape sequence: x%x'', ucast c)])))"

definition utf8_char :: "bytes \<Rightarrow> bytes \<times> bytes \<times> warnings" where
  "utf8_char p =
     (let c = peek p;
          bad = (\<lambda>skip. (put_char True 0xFFFD, drop skip p,
                   [(''ill-formed UTF-8 subsequence starting with: x%x'', ucast c)])) in
      case utf8_lead c of
        None \<Rightarrow> bad 1
      | Some (cont, n) \<Rightarrow>
          (case utf8_tail c 1 cont n (tl p) of
             Inl skip \<Rightarrow> bad skip
           | Inr n \<Rightarrow> (put_char True n, drop (1 + cont) p, [])))"

definition escape_step :: "bool \<Rightarrow> bool \<Rightarrow> bytes \<Rightarrow> (bytes \<times> bytes \<times> warnings) res" where
  "escape_step gnu_ext is_long p =
     (let c = peek p in
      if c = 0x5C then backslash_escape gnu_ext is_long (tl p)
      else if is_long \<and> c \<ge> 0x80 then Inr (utf8_char p)
      else Inr (put_char is_long (ucast c), tl p, []))"

lemma hex_or_ucn_rest: "hex_or_ucn i n p = Inr (m, r, b) \<Longrightarrow> length r \<le> length p"
  by (induction i n p rule: hex_or_ucn.induct) (fastforce split: if_splits option.splits)+

lemma utf8_tail_skip: "utf8_tail c i k n p = Inl s \<Longrightarrow> i \<le> s"
  by (induction c i k n p rule: utf8_tail.induct) (auto split: if_splits)

lemma backslash_rest: "backslash_escape g l p = Inr (bs, r, ws) \<Longrightarrow> length r \<le> length p"
  by (auto simp: backslash_escape_def octal_escape_def Let_def ebind_Inr_iff
           split: if_splits option.splits prod.splits dest!: hex_or_ucn_rest)

lemma utf8_char_rest: "p \<noteq> [] \<Longrightarrow> utf8_char p = (bs, r, ws) \<Longrightarrow> length r < length p"
  by (cases p) (auto simp: utf8_char_def Let_def split: option.splits sum.splits prod.splits
                     dest: utf8_tail_skip)

lemma escape_step_rest:
  assumes "p \<noteq> []" "escape_step g l p = Inr (bs, r, ws)"
  shows "length r < length p"
proof -
  obtain c q where p: "p = c # q" using assms(1) by (cases p) auto
  show ?thesis using assms backslash_rest [of g l q bs r ws] utf8_char_rest [OF assms(1), of bs r ws]
    unfolding p escape_step_def by (auto simp: Let_def split: if_splits)
qed

lemma ebind_cong [fundef_cong]:
  "m = m' \<Longrightarrow> (\<And>x. m' = Inr x \<Longrightarrow> f x = f' x) \<Longrightarrow> ebind m f = ebind m' f'"
  by (cases m') auto

function parse_escape_string :: "bool \<Rightarrow> bool \<Rightarrow> bytes \<Rightarrow> (bytes \<times> warnings) res" where
  "parse_escape_string gnu_ext is_long p =
     (if p = [] \<or> peek p = 0 then Inr (if is_long then nwchar 0 else [0], [])
      else ebind (escape_step gnu_ext is_long p) (\<lambda>(bs, r, ws).
             ebind (parse_escape_string gnu_ext is_long r) (\<lambda>(bs', ws'). Inr (bs @ bs', ws @ ws'))))"
  by pat_completeness auto
termination
  by (relation "measure (\<lambda>(g, l, p). length p)") (auto dest: escape_step_rest [rotated])

declare parse_escape_string.simps [simp del]

text \<open>
  parse_string: the token and its value. Each token kind uses one member of the union CValue, and
  only that member is written.
\<close>

record cvalue =
  cv_i :: u64
  cv_str :: bytes
  cv_hi :: "u32 list"

fun nwchars :: "bytes \<Rightarrow> u16 list" where
  "nwchars (a # b # r) = (ucast a OR push_bit 8 (ucast b)) # nwchars r"
| "nwchars r = []"

fun char_const :: "u32 \<Rightarrow> bytes \<Rightarrow> u32" where
  "char_const c [] = c"
| "char_const c (b # bs) = char_const (push_bit 8 c OR scast b) bs"

fun wchar_const :: "u32 \<Rightarrow> u16 list \<Rightarrow> u32" where
  "wchar_const c [] = c"
| "wchar_const c (w # ws) = wchar_const (ucast w) ws"

definition parse_string :: "bool \<Rightarrow> bytes \<Rightarrow> cvalue \<Rightarrow> (u32 \<times> cvalue \<times> warnings) res" where
  "parse_string gnu_ext s tokc =
     (let is_long = (peek s = 0x4C);
          s = (if is_long then tl s else s);
          sep = peek s;
          p = take (length s - 2) (tl s) in
      ebind (parse_escape_string gnu_ext is_long p) (\<lambda>(tokcstr, ws).
        if sep = 0x27 then
          (let char_size = (if is_long then 2 else 1);
               n = int (length tokcstr div char_size) - 1 in
           if n < 1 then Inl ''empty character constant''
           else Inr (if is_long then 0xc1 else 0xc0,
                     tokc\<lparr>cv_i := scast (if is_long then wchar_const 0 (take (nat n) (nwchars tokcstr))
                                         else char_const 0 (take (nat n) tokcstr))\<rparr>,
                     ws @ (if n > 1 then [(''multi-character character constant'', 0)] else [])))
        else Inr (if is_long then 0xc9 else 0xc8, tokc\<lparr>cv_str := tokcstr\<rparr>, ws)))"

section \<open>What is printed is read back\<close>

lemma octal_digit:
  "isoct (octal_digit x)" "ucast (octal_digit x) - 0x30 = x AND 7" "octal_digit x \<noteq> 0"
proof -
  have "x AND 7 < 8"
    using and_mask_less_size [of 3 x] by (simp add: word_size mask_eq_exp_minus_1)
  then have n: "unat (x AND 7) < 8" by (simp add: word_less_nat_alt)
  have u: "unat (octal_digit x) = 48 + unat (x AND 7)"
    using n unfolding octal_digit_def
    by (simp add: unat_word_ariths unsigned_ucast_eq take_bit_nat_eq_self)
  show "isoct (octal_digit x)" "octal_digit x \<noteq> 0"
    using u n by (auto simp: isoct_def word_le_nat_alt unat_eq_0 [symmetric])
  have "unat (ucast (octal_digit x) :: u32) = 48 + unat (x AND 7)"
    using u n by (simp add: unsigned_ucast_eq take_bit_nat_eq_self)
  then have "(ucast (octal_digit x) :: u32) = 48 + (x AND 7)"
    using n by (simp add: word_unat_eq_iff unat_word_ariths)
  then show "ucast (octal_digit x) - 0x30 = x AND 7" by simp
qed

lemma octal_value:
  "((drop_bit 6 c AND 7) * 8 + (drop_bit 3 c AND 7)) * 8 + (c AND 7) = (c :: u32) AND 0x1FF"
proof -
  have m: "unat (x AND 7) = unat x mod 8" "unat (x AND 0x1FF) = unat x mod 512" for x :: u32
    using unsigned_take_bit_eq [of 3 x, where ?'a = nat] unsigned_take_bit_eq [of 9 x, where ?'a = nat]
    by (simp_all add: take_bit_eq_mod [where ?'a = nat]) (simp_all add: take_bit_eq_mask mask_eq_exp_minus_1)
  have d: "unat (drop_bit k c) = unat c div 2 ^ k" for k
    by (simp add: unat_drop_bit_eq drop_bit_eq_div [where ?'a = nat])
  have sum: "unat ((x * 8 + y) * 8 + z) = (unat x * 8 + unat y) * 8 + unat z"
    if "unat x < 8" "unat y < 8" "unat z < 8" for x y z :: u32
    using that by (simp add: unat_word_ariths)
  have "(unat c div 64 mod 8 * 8 + unat c div 8 mod 8) * 8 + unat c mod 8 = unat c mod 512"
    using mod_mult2_eq [of "unat c" 8 64] mod_mult2_eq [of "unat c div 8" 8 8]
    by (simp add: div_mult2_eq [symmetric])
  then have "unat (((drop_bit 6 c AND 7) * 8 + (drop_bit 3 c AND 7)) * 8 + (c AND 7)) = unat (c AND 0x1FF)"
    by (subst sum) (simp_all only: m d, simp_all)
  then show ?thesis by (simp only: word_unat_eq_iff)
qed

text \<open>The character that is read back: nine bits are enough for every byte.\<close>

definition reread :: "u32 \<Rightarrow> u32" where
  "reread c = (if 32 \<le>s c \<and> c \<le>s 126 then c else c AND 0x1FF)"

lemma parse_step:
  assumes "p \<noteq> []" "peek p \<noteq> 0" "escape_step g l p = Inr (bs, r, ws)"
  shows "parse_escape_string g l p =
     ebind (parse_escape_string g l r) (\<lambda>(bs', ws'). Inr (bs @ bs', ws @ ws'))"
  using assms by (subst parse_escape_string.simps) simp

lemma printable:
  assumes "32 \<le>s c" "c \<le>s (126 :: u32)"
  shows "32 \<le> (ucast c :: u8)" "(ucast c :: u8) \<le> 126" "ucast (ucast c :: u8) = c"
proof -
  have s: "32 \<le> sint c" "sint c \<le> 126" using assms by (simp_all add: word_sle_eq)
  then have u: "uint c = sint c" by (simp add: uint_eq_sint)
  show "32 \<le> (ucast c :: u8)" "(ucast c :: u8) \<le> 126" "ucast (ucast c :: u8) = c"
    using s u by (simp_all add: word_le_def word_uint_eq_iff unsigned_ucast_eq unsigned_take_bit_eq
        take_bit_int_eq_self)
qed

lemma parse_add_char:
  "parse_escape_string g l (add_char c @ r) =
     ebind (parse_escape_string g l r) (\<lambda>(bs, ws). Inr (put_char l (reread c) @ bs, ws))"
proof -
  consider (quote) "c = 0x27 \<or> c = 0x22 \<or> c = 0x5C"
    | (plain) "32 \<le>s c" "c \<le>s 126" "c \<noteq> 0x27" "c \<noteq> 0x22" "c \<noteq> 0x5C"
    | (nl) "c = 0x0A" | (oct) "\<not> (32 \<le>s c \<and> c \<le>s 126)" "c \<noteq> 0x27" "c \<noteq> 0x22" "c \<noteq> 0x5C" "c \<noteq> 0x0A"
    by blast
  then have "escape_step g l (add_char c @ r) = Inr (put_char l (reread c), r, [])"
  proof cases
    case quote
    then show ?thesis
      by (auto simp: add_char_def escape_step_def backslash_escape_def isoct_def simple_escape_def
            reread_def word_sle_eq)
  next
    case plain
    have "(ucast c :: u8) \<noteq> 0x5C" using printable(3) [OF plain(1,2)] plain(5) by auto
    moreover have "\<not> (ucast c :: u8) \<ge> 0x80" using printable(2) [OF plain(1,2)]
      by (auto simp: not_le intro: order_le_less_trans)
    ultimately show ?thesis using plain printable(3) [OF plain(1,2)]
      by (simp add: add_char_def escape_step_def reread_def)
  next
    case nl
    then show ?thesis
      by (simp add: add_char_def escape_step_def backslash_escape_def isoct_def simple_escape_def
            reread_def word_sle_eq)
  next
    case oct
    have v: "64 * (drop_bit 6 c AND 7) + (drop_bit 3 c AND 7) * 8 + (c AND 7) = c AND 511"
      using octal_value [of c] by (simp add: algebra_simps)
    have "octal_escape (map octal_digit [drop_bit 6 c, drop_bit 3 c, c] @ r) = (c AND 0x1FF, r)"
      using octal_digit [of "drop_bit 6 c"] octal_digit [of "drop_bit 3 c"] octal_digit [of c]
      by (simp add: octal_escape_def add_diff_eq [symmetric] v)
    then show ?thesis using oct octal_digit(1) [of "drop_bit 6 c"]
      by (auto simp add: add_char_def escape_step_def backslash_escape_def reread_def)
  qed
  moreover have "add_char c @ r \<noteq> []" "peek (add_char c @ r) \<noteq> 0"
    using printable(1) [of c] by (auto simp: add_char_def)
  ultimately show ?thesis by (simp add: parse_step)
qed

lemma parse_add_chars:
  "parse_escape_string g l (concat (map add_char cs)) =
     Inr (concat (map (\<lambda>c. put_char l (reread c)) cs) @ (if l then nwchar 0 else [0]), [])"
proof (induction cs)
  case Nil
  show ?case by (simp add: parse_escape_string.simps)
next
  case (Cons c cs)
  then show ?case by (simp add: parse_add_char)
qed

section \<open>UTF-8 text in wide literals\<close>

lemma unat_u8_and:
  "unat (x AND 0x3F) = unat x mod 64" "unat (x AND 0x1F) = unat x mod 32"
  "unat (x AND 0xF) = unat x mod 16" "unat (x AND 0x7) = unat x mod 8" for x :: u8
  using unsigned_take_bit_eq [of 6 x, where ?'a = nat] unsigned_take_bit_eq [of 5 x, where ?'a = nat]
    unsigned_take_bit_eq [of 4 x, where ?'a = nat] unsigned_take_bit_eq [of 3 x, where ?'a = nat]
  by (simp_all add: take_bit_eq_mod [where ?'a = nat]) (simp_all add: take_bit_eq_mask mask_eq_exp_minus_1)

lemma unat_ucast_u8: "unat (ucast (b :: u8) :: u32) = unat b"
  using unat_u8_less [of b] by (simp add: unsigned_ucast_eq take_bit_nat_eq_self)

lemma utf8_join:
  assumes "unat n < 2 ^ 24"
  shows "unat (push_bit 6 n OR ucast (b AND 0x3F :: u8) :: u32) = unat n * 64 + unat b mod 64"
proof -
  have dis: "push_bit 6 n AND ucast (b AND 0x3F :: u8) = (0 :: u32)"
  proof (rule bit_word_eqI)
    fix k assume "k < LENGTH(32)"
    have hi: "6 \<le> k \<Longrightarrow> \<not> bit (0x3F :: u8) k"
      using bit_mask_iff [of 6 k, where ?'a = u8] by (simp add: mask_eq_exp_minus_1)
    have "\<not> bit (push_bit 6 n AND ucast (b AND 0x3F :: u8) :: u32) k"
      using hi by (simp only: bit_and_iff bit_push_bit_iff bit_unsigned_iff) blast
    then show "bit (push_bit 6 n AND ucast (b AND 0x3F :: u8)) k \<longleftrightarrow> bit (0 :: u32) k"
      by simp
  qed
  have "unat (push_bit 6 n :: u32) = unat n * 64"
    using assms by (simp add: push_bit_eq_mult unat_word_ariths)
  moreover have "unat (ucast (b AND 0x3F :: u8) :: u32) = unat b mod 64"
    by (simp only: unat_ucast_u8 unat_u8_and)
  ultimately show ?thesis
    unfolding disjunctive_add_eq_or [OF dis, symmetric]
    using assms by (simp add: unat_word_ariths)
qed

lemma utf8_bytes:
  fixes U :: u32
  shows "unat (ucast (128 + U mod 64) :: u8) = 128 + unat U mod 64"
    "unat (ucast (128 + U div 64 mod 64) :: u8) = 128 + unat U div 64 mod 64"
    "unat (ucast (128 + U div 4096 mod 64) :: u8) = 128 + unat U div 4096 mod 64"
    "U < 0x800 \<Longrightarrow> unat (ucast (192 + U div 64) :: u8) = 192 + unat U div 64"
    "U < 0x10000 \<Longrightarrow> unat (ucast (224 + U div 4096) :: u8) = 224 + unat U div 4096"
    "U < 0x110000 \<Longrightarrow> unat (ucast (240 + U div 262144) :: u8) = 240 + unat U div 262144"
proof -
  have c: "unat (ucast (of_nat k + x) :: u8) = k + unat x" if "k + unat x < 256" for k and x :: u32
  proof -
    have "unat (of_nat k + x) = k + unat x"
      using that by (simp add: unat_word_ariths unsigned_of_nat take_bit_nat_eq_self)
    then show ?thesis using that by (simp add: unsigned_ucast_eq take_bit_nat_eq_self)
  qed
  have m: "unat (x mod 64) = unat x mod 64" "unat (x div 64) = unat x div 64"
    "unat (x div 4096) = unat x div 4096" "unat (x div 262144) = unat x div 262144" for x :: u32
    by (simp_all add: unat_mod unat_div)
  have l: "unat x mod 64 < 64" for x :: u32 by simp
  show "unat (ucast (128 + U mod 64) :: u8) = 128 + unat U mod 64"
    using c [of 128 "U mod 64"] l [of U] by (simp add: m)
  show "unat (ucast (128 + U div 64 mod 64) :: u8) = 128 + unat U div 64 mod 64"
    using c [of 128 "U div 64 mod 64"] l [of "U div 64"] by (simp add: m)
  show "unat (ucast (128 + U div 4096 mod 64) :: u8) = 128 + unat U div 4096 mod 64"
    using c [of 128 "U div 4096 mod 64"] l [of "U div 4096"] by (simp add: m)
  show "unat (ucast (192 + U div 64) :: u8) = 192 + unat U div 64" if "U < 0x800"
    using c [of 192 "U div 64"] that by (simp add: m word_less_nat_alt)
  show "unat (ucast (224 + U div 4096) :: u8) = 224 + unat U div 4096" if "U < 0x10000"
    using c [of 224 "U div 4096"] that by (simp add: m word_less_nat_alt)
  show "unat (ucast (240 + U div 262144) :: u8) = 240 + unat U div 262144" if "U < 0x110000"
    using c [of 240 "U div 262144"] that by (simp add: m word_less_nat_alt)
qed

lemma middle_digit: "v div k mod m = v mod (k * m) div (k :: nat)" if "0 < k"
  using that by (simp add: mod_mult2_eq)

lemma boundary_low: "v div (k * m) = 0 \<Longrightarrow> j * k \<le> v \<Longrightarrow> 0 < k \<Longrightarrow> j \<le> v div k mod (m :: nat)"
proof -
  assume a: "v div (k * m) = 0" "j * k \<le> v" "0 < k"
  have "v mod (k * m) = v" using a(1) mult_div_mod_eq [of "k * m" v] by simp
  then show "j \<le> v div k mod m" using a by (simp add: middle_digit less_eq_div_iff_mult_less_eq)
qed

lemma boundary_high:
  "v div (k * m) = q \<Longrightarrow> v < (q * m + j) * k \<Longrightarrow> 0 < k \<Longrightarrow> v div k mod (m :: nat) < j"
proof -
  assume a: "v div (k * m) = q" "v < (q * m + j) * k" "0 < k"
  have "v = k * m * q + v mod (k * m)" using a(1) mult_div_mod_eq [of "k * m" v] by simp
  then have "v mod (k * m) < j * k" using a(2) by (simp add: algebra_simps)
  then show "v div k mod m < j" using a by (simp add: middle_digit div_less_iff_less_mult)
qed

lemmas cmp_nat = word_le_nat_alt word_less_nat_alt word_unat_eq_iff cont_low_def cont_high_def

lemma lead_mod:
  "(128 + v) mod 64 = v mod 64" "(192 + v) mod 32 = v mod 32" "(224 + v) mod 16 = v mod 16" "(240 + v) mod 8 = v mod (8 :: nat)"
  using mod_add_left_eq [of 128 64 v] mod_add_left_eq [of 192 32 v] mod_add_left_eq [of 224 16 v]
    mod_add_left_eq [of 240 8 v] by simp_all

lemma div_twice: "v div 64 div 64 = v div 4096" "v div 4096 div 64 = v div (262144 :: nat)"
  by (simp_all add: div_mult2_eq [symmetric])

definition decoded :: "u32 \<Rightarrow> bytes \<Rightarrow> bool" where
  "decoded U bs \<longleftrightarrow> bs \<noteq> [] \<and> peek bs \<ge> 0x80 \<and> (\<forall>r. utf8_char (bs @ r) = (put_char True U, r, []))"

lemma utf8_lead_high: "utf8_lead a = Some x \<Longrightarrow> a \<ge> 0x80"
  by (auto simp: utf8_lead_def not_less split: if_splits intro: order_trans [rotated])

lemma utf8_lead_not_low: "utf8_lead a = Some x \<Longrightarrow> \<not> a < 0x80"
  using utf8_lead_high by (simp add: not_less)

abbreviation join6 :: "u32 \<Rightarrow> u8 \<Rightarrow> u32" where
  "join6 n b \<equiv> push_bit 6 n OR ucast (b AND 0x3F)"

abbreviation continues :: "u8 \<Rightarrow> nat \<Rightarrow> u8 \<Rightarrow> bool" where
  "continues a i b \<equiv> cont_low a i \<le> b \<and> b \<le> cont_high a i"

lemma decoded_two:
  "utf8_lead a = Some (1, n) \<Longrightarrow> continues a 1 b \<Longrightarrow> join6 n b = U \<Longrightarrow> decoded U [a, b]"
  by (auto simp: decoded_def utf8_char_def not_less [symmetric] utf8_lead_not_low)

lemma decoded_three:
  "utf8_lead a = Some (2, n) \<Longrightarrow> continues a 1 b \<Longrightarrow> continues a 2 c \<Longrightarrow>
   join6 (join6 n b) c = U \<Longrightarrow> decoded U [a, b, c]"
  by (auto simp: decoded_def utf8_char_def numeral_2_eq_2 not_less [symmetric] utf8_lead_not_low)

lemma decoded_four:
  "utf8_lead a = Some (3, n) \<Longrightarrow> continues a 1 b \<Longrightarrow> continues a 2 c \<Longrightarrow> continues a 3 d \<Longrightarrow>
   join6 (join6 (join6 n b) c) d = U \<Longrightarrow> decoded U [a, b, c, d]"
  by (auto simp: decoded_def utf8_char_def numeral_2_eq_2 numeral_3_eq_3 not_less [symmetric] utf8_lead_not_low)

lemma utf8_decode_two:
  assumes "U \<ge> 0x80" and two: "U < 0x800"
  shows "decoded U [ucast (192 + U div 64), ucast (128 + U mod 64)]"
proof -
  let ?u = "unat U"
  have u: "?u \<ge> 128" using assms by (simp add: word_le_nat_alt)
  let ?a = "ucast (192 + U div 64) :: u8" and ?b = "ucast (128 + U mod 64) :: u8"
  have ab: "unat ?a = 192 + ?u div 64" "unat ?b = 128 + ?u mod 64" using utf8_bytes two by auto
  have s: "?u < 2048" using two by (simp add: word_less_nat_alt)
  then have q: "?u div 64 < 32" "2 \<le> ?u div 64"
    using u by (simp_all add: div_less_iff_less_mult less_eq_div_iff_mult_less_eq)
  have lead: "utf8_lead ?a = Some (1, ucast (?a AND 0x1F))"
    using ab q by (simp add: utf8_lead_def cmp_nat)
  have n: "unat (ucast (?a AND 0x1F) :: u32) = ?u div 64"
    using ab q by (simp add: unat_ucast_u8 unat_u8_and lead_mod)
  have "push_bit 6 (ucast (?a AND 0x1F)) OR ucast (?b AND 0x3F) = U"
    unfolding word_unat_eq_iff
    by (subst utf8_join) (use s in \<open>simp_all add: n ab lead_mod\<close>)
  moreover have "cont_low ?a 1 \<le> ?b" "?b \<le> cont_high ?a 1" using ab q by (auto simp add: cmp_nat)
  ultimately show ?thesis by (intro decoded_two [OF lead]) auto
qed

lemma utf8_decode_three:
  assumes three: "\<not> U < 0x800" "\<not> U - 0xd800 < 0x800" "U < 0x10000"
  shows "decoded U [ucast (224 + U div 4096), ucast (128 + U div 64 mod 64), ucast (128 + U mod 64)]"
proof -
  let ?u = "unat U"
  let ?a = "ucast (224 + U div 4096) :: u8" and ?b = "ucast (128 + U div 64 mod 64) :: u8"
    and ?c = "ucast (128 + U mod 64) :: u8"
  have ab: "unat ?a = 224 + ?u div 4096" "unat ?b = 128 + ?u div 64 mod 64" "unat ?c = 128 + ?u mod 64"
    using utf8_bytes three by auto
  have s: "?u < 65536" "2048 \<le> ?u" using three by (simp_all add: word_less_nat_alt not_less)
  have ns: "?u < 0xD800 \<or> 0xE000 \<le> ?u"
  proof (rule ccontr)
    assume a: "\<not> ?thesis"
    then have "unat (U - 0xd800) = ?u - 0xd800" by (simp add: unat_sub word_le_nat_alt)
    then show False using a three(2) unfolding word_less_nat_alt by simp linarith
  qed
  have lead: "utf8_lead ?a = Some (2, ucast (?a AND 0xF))"
    using ab s by (simp add: utf8_lead_def cmp_nat)
  have n: "unat (ucast (?a AND 0xF) :: u32) = ?u div 4096"
    using ab s by (simp add: unat_ucast_u8 unat_u8_and lead_mod)
  let ?n = "push_bit 6 (ucast (?a AND 0xF)) OR ucast (?b AND 0x3F) :: u32"
  have n2: "unat ?n = ?u div 64"
    by (subst utf8_join) (use s div_mult_mod_eq [of "?u div 64" 64] in \<open>simp_all add: n ab div_twice lead_mod\<close>)
  have "push_bit 6 ?n OR ucast (?c AND 0x3F) = U"
    unfolding word_unat_eq_iff
    by (subst utf8_join) (use s in \<open>simp_all add: n2 ab lead_mod\<close>)
  moreover have "cont_low ?a 1 \<le> ?b" "?b \<le> cont_high ?a 1"
    using ab s ns boundary_low [of ?u 64 64 32] boundary_high [of ?u 64 64 13 32] by (auto simp add: cmp_nat)
  moreover have "cont_low ?a 2 \<le> ?c" "?c \<le> cont_high ?a 2"
    using ab by (auto simp add: cmp_nat)
  ultimately show ?thesis by (intro decoded_three [OF lead]) auto
qed

lemma utf8_decode_four:
  assumes four: "\<not> U < 0x10000" "U < 0x110000"
  shows "decoded U [ucast (240 + U div 262144), ucast (128 + U div 4096 mod 64),
                    ucast (128 + U div 64 mod 64), ucast (128 + U mod 64)]"
proof -
  let ?u = "unat U"
  let ?a = "ucast (240 + U div 262144) :: u8" and ?b = "ucast (128 + U div 4096 mod 64) :: u8"
    and ?c = "ucast (128 + U div 64 mod 64) :: u8" and ?d = "ucast (128 + U mod 64) :: u8"
  have ab: "unat ?a = 240 + ?u div 262144" "unat ?b = 128 + ?u div 4096 mod 64"
    "unat ?c = 128 + ?u div 64 mod 64" "unat ?d = 128 + ?u mod 64"
    using utf8_bytes four by auto
  have s: "?u < 1114112" "65536 \<le> ?u" using four by (simp_all add: word_less_nat_alt not_less)
  have lead: "utf8_lead ?a = Some (3, ucast (?a AND 0x7))"
    using ab s by (simp add: utf8_lead_def cmp_nat)
  have n: "unat (ucast (?a AND 0x7) :: u32) = ?u div 262144"
    using ab s by (simp add: unat_ucast_u8 unat_u8_and lead_mod)
  let ?n = "push_bit 6 (ucast (?a AND 0x7)) OR ucast (?b AND 0x3F) :: u32"
  let ?m = "push_bit 6 ?n OR ucast (?c AND 0x3F) :: u32"
  have n2: "unat ?n = ?u div 4096"
    by (subst utf8_join) (use s div_mult_mod_eq [of "?u div 4096" 64] in \<open>simp_all add: n ab div_twice lead_mod\<close>)
  have n3: "unat ?m = ?u div 64"
    by (subst utf8_join) (use s div_mult_mod_eq [of "?u div 64" 64] in \<open>simp_all add: n2 ab div_twice lead_mod\<close>)
  have "push_bit 6 ?m OR ucast (?d AND 0x3F) = U"
    unfolding word_unat_eq_iff
    by (subst utf8_join, simp_all only: n3 ab lead_mod) (use s in simp_all)
  moreover have "cont_low ?a 1 \<le> ?b" "?b \<le> cont_high ?a 1"
    using ab s boundary_low [of ?u 4096 64 16] boundary_high [of ?u 4096 64 4 16] by (auto simp add: cmp_nat)
  moreover have "cont_low ?a 2 \<le> ?c" "?c \<le> cont_high ?a 2" "cont_low ?a 3 \<le> ?d" "?d \<le> cont_high ?a 3"
    using ab by (auto simp add: cmp_nat)
  ultimately show ?thesis by (intro decoded_four [OF lead]) auto
qed


lemma utf8_decode:
  assumes "unicode_to_utf8 U = Inr bs" "U \<ge> 0x80"
  shows "decoded U bs"
  using assms utf8_decode_two [of U] utf8_decode_three [of U] utf8_decode_four [of U]
  by (auto simp: unicode_to_utf8_def not_less [symmetric] split: if_splits)

lemma parse_utf8:
  assumes U: "unicode_to_utf8 U = Inr bs" and ne: "U \<noteq> 0" "U \<noteq> 0x5C"
  shows "parse_escape_string g True (bs @ r) =
     ebind (parse_escape_string g True r) (\<lambda>(bs', ws). Inr (put_char True U @ bs', ws))"
proof -
  have "escape_step g True (bs @ r) = Inr (put_char True U, r, []) \<and> bs @ r \<noteq> [] \<and> peek (bs @ r) \<noteq> 0"
  proof (cases "U < 0x80")
    case True
    then have u: "unat U < 128" by (simp add: word_less_nat_alt)
    then have b: "unat (ucast U :: u8) = unat U" by (simp add: unsigned_ucast_eq take_bit_nat_eq_self)
    then have "(ucast (ucast U :: u8) :: u32) = U" by (simp add: word_unat_eq_iff unat_ucast_u8)
    moreover have "bs = [ucast U]" using U True by (simp add: unicode_to_utf8_def)
    moreover have "(ucast U :: u8) \<noteq> 0" "(ucast U :: u8) \<noteq> 0x5C" "\<not> 0x80 \<le> (ucast U :: u8)"
      using b u ne by (auto simp: word_unat_eq_iff word_le_nat_alt)
    ultimately show ?thesis by (simp add: escape_step_def)
  next
    case False
    then have d: "decoded U bs" using utf8_decode [OF U] by (simp add: not_less)
    then obtain b bs' where bs: "bs = b # bs'" "b \<ge> 0x80" by (cases bs) (auto simp: decoded_def)
    then have "b \<noteq> 0x5C" "b \<noteq> 0" by auto
    then show ?thesis using d bs by (simp add: escape_step_def decoded_def)
  qed
  then show ?thesis by (simp add: parse_step)
qed

section \<open>Properties\<close>

text \<open>
  Note: UTF-8 text in a wide literal. Whatever characters unicode_to_utf8 can encode, other than NUL and the
  backslash, the bytes it writes for them are read by parse_escape_string for a wide literal as the UTF-16
  units of the same characters, one after the other and without a warning.
\<close>

theorem wide_literal_utf8:
  assumes "list_all2 (\<lambda>U bs. unicode_to_utf8 U = Inr bs) us bss"
    and "\<forall>U \<in> set us. U \<noteq> 0 \<and> U \<noteq> 0x5C"
  shows "parse_escape_string g True (concat bss) = Inr (concat (map (put_char True) us) @ nwchar 0, [])"
  using assms
proof (induction us bss rule: list_all2_induct)
  case Nil
  show ?case by (simp add: parse_escape_string.simps)
next
  case (Cons U us bs bss)
  then show ?case by (simp add: parse_utf8)
qed

text \<open>The euro sign and a character outside the basic plane, which takes two units.\<close>

theorem wide_literal_utf8_witness:
  "parse_escape_string True True (concat [[0xE2, 0x82, 0xAC], [0xF0, 0x9F, 0x98, 0x80]]) =
     Inr (concat (map (put_char True) [0x20AC, 0x1F600]) @ nwchar 0, [])"
  by (rule wide_literal_utf8) (simp_all add: unicode_to_utf8_def)

end
