(* ===== verification/Tokens.thy ===== *)
theory Tokens
  imports TokTable Escape
begin

text \<open>
  Identifiers and tokens: the interning of names by tok_alloc (lines 13178-13226), the keyword loop of
  tccpp_new (15930-15942) and the spelling of a token by get_tok_str (13227-13323). A TokenSym is its
  position in table_ident; its token is 256 more. Of its fields only the name is kept: the symbols
  that the parser hangs on it are not touched here. A chain of hash_ident is the list of its positions.
\<close>

record tokens =
  table_ident :: "bytes list"
  hash_ident :: "nat \<Rightarrow> nat list"

definition tok_ident :: "tokens \<Rightarrow> nat" where
  "tok_ident s = 256 + length (table_ident s)"

fun tok_hash :: "u32 \<Rightarrow> bytes \<Rightarrow> u32" where
  "tok_hash h [] = h"
| "tok_hash h (c # cs) = tok_hash (h + push_bit 5 h + drop_bit 27 h + ucast c) cs"

definition tok_bucket :: "bytes \<Rightarrow> nat" where
  "tok_bucket str = unat (tok_hash 1 str AND (16384 - 1))"

definition tok_alloc_new :: "nat \<Rightarrow> bytes \<Rightarrow> tokens \<Rightarrow> (nat \<times> tokens) res" where
  "tok_alloc_new h str s =
     (if tok_ident s \<ge> 0x10000000 then Inl ''memory full (symbols)''
      else let i = tok_ident s - 256 in
        Inr (tok_ident s,
          s\<lparr>table_ident := table_ident s @ [str],
            hash_ident := (hash_ident s)(h := hash_ident s h @ [i])\<rparr>))"

text \<open>The loop over a chain; None when it has run off the end.\<close>

fun tok_find :: "bytes list \<Rightarrow> bytes \<Rightarrow> nat list \<Rightarrow> nat option" where
  "tok_find tab str [] = None"
| "tok_find tab str (i # is) = (if tab ! i = str then Some i else tok_find tab str is)"

definition tok_alloc :: "bytes \<Rightarrow> tokens \<Rightarrow> (nat \<times> tokens) res" where
  "tok_alloc str s =
     (let h = tok_bucket str in
      case tok_find (table_ident s) str (hash_ident s h) of
        Some i \<Rightarrow> Inr (256 + i, s)
      | None \<Rightarrow> tok_alloc_new h str s)"

definition tok_str :: "tokens \<Rightarrow> nat \<Rightarrow> bytes option" where
  "tok_str s t = (if 256 \<le> t \<and> t < tok_ident s then Some (table_ident s ! (t - 256)) else None)"

subsection \<open>The start: every keyword is allocated\<close>

definition bytes_of :: "string \<Rightarrow> bytes" where
  "bytes_of s = map of_char s"

text \<open>The characters of tcc_keywords, NUL after each word and at the end.\<close>

definition keyword_text :: bytes where
  "keyword_text = concat (map (\<lambda>k. bytes_of k @ [0]) tcc_keywords) @ [0]"

function keyword_loop :: "bytes \<Rightarrow> tokens \<Rightarrow> tokens res" where
  "keyword_loop p s =
     (if peek p = 0 then Inr s
      else ebind (tok_alloc (takeWhile (\<lambda>c. c \<noteq> 0) p) s)
             (\<lambda>(t, s). keyword_loop (tl (dropWhile (\<lambda>c. c \<noteq> 0) p)) s))"
  by pat_completeness auto
termination
proof (relation "measure (\<lambda>(p, s). length p)")
  fix p :: bytes and s x t s'
  assume "peek p \<noteq> 0"
  then obtain c q where p: "p = c # q" by (cases p) auto
  have "length (dropWhile (\<lambda>c. c \<noteq> 0) p) \<le> length p" by (rule length_dropWhile_le)
  then show "((tl (dropWhile (\<lambda>c. c \<noteq> 0) p), s'), p, s) \<in> measure (\<lambda>(p, s). length p)"
    using p by (cases "dropWhile (\<lambda>c. c \<noteq> 0) p") auto
qed auto

declare keyword_loop.simps [simp del]

definition tccpp_new_tokens :: tokens where
  "tccpp_new_tokens = \<lparr>table_ident = [], hash_ident = (\<lambda>_. [])\<rparr>"

definition tccpp_new_keywords :: "tokens res" where
  "tccpp_new_keywords = keyword_loop keyword_text tccpp_new_tokens"

subsection \<open>Interning\<close>

text \<open>
  What the rest of the compiler relies on, whatever the table: a name gets one token for good, two
  names never share one, and new tokens are handed out in sequence.
\<close>

primrec alloc_all :: "('k \<Rightarrow> 's \<Rightarrow> (nat \<times> 's) res) \<Rightarrow> 'k list \<Rightarrow> 's \<Rightarrow> 's res" where
  "alloc_all al [] s = Inr s"
| "alloc_all al (k # ks) s = ebind (al k s) (\<lambda>(t, s). alloc_all al ks s)"

locale interning =
  fixes alloc :: "'k \<Rightarrow> 's \<Rightarrow> (nat \<times> 's) res"
    and spell :: "'s \<Rightarrow> nat \<Rightarrow> 'k option"
    and new :: "'s \<Rightarrow> nat"
    and ok :: "'s \<Rightarrow> bool"
    and full :: nat
  assumes known: "ok s \<Longrightarrow> spell s t = Some k \<Longrightarrow> alloc k s = Inr (t, s)"
    and fresh: "ok s \<Longrightarrow> k \<notin> ran (spell s) \<Longrightarrow> new s < full \<Longrightarrow>
        \<exists>s'. alloc k s = Inr (new s, s') \<and> ok s' \<and> new s' = Suc (new s) \<and>
             spell s' = (spell s)(new s \<mapsto> k)"
    and below: "ok s \<Longrightarrow> spell s t = Some k \<Longrightarrow> t < new s"
begin

lemma one_token: "ok s \<Longrightarrow> spell s t = Some k \<Longrightarrow> spell s u = Some k \<Longrightarrow> t = u"
  using known [of s t k] known [of s u k] by simp

lemma in_sequence:
  assumes "ok s" "distinct ks" "set ks \<inter> ran (spell s) = {}" "new s + length ks \<le> full"
  shows "\<exists>s'. alloc_all alloc ks s = Inr s' \<and> ok s' \<and> new s' = new s + length ks \<and>
           (\<forall>i < length ks. spell s' (new s + i) = Some (ks ! i)) \<and>
           (\<forall>t < new s. spell s' t = spell s t)"
  using assms
proof (induction ks arbitrary: s)
  case Nil
  then show ?case by simp
next
  case (Cons k ks)
  then obtain s1 where s1: "alloc k s = Inr (new s, s1)" "ok s1" "new s1 = Suc (new s)"
      "spell s1 = (spell s)(new s \<mapsto> k)"
    using fresh [of s k] by auto
  have "ran (spell s1) \<subseteq> insert k (ran (spell s))" unfolding s1(4) by (auto simp: ran_def)
  then have dis: "set ks \<inter> ran (spell s1) = {}" using Cons.prems by auto
  obtain s' where s': "alloc_all alloc ks s1 = Inr s'" "ok s'" "new s' = new s1 + length ks"
      "\<forall>i < length ks. spell s' (new s1 + i) = Some (ks ! i)" "\<forall>t < new s1. spell s' t = spell s1 t"
    using Cons.IH [OF s1(2) _ dis] s1(3) Cons.prems by auto
  have "spell s' (new s + i) = Some ((k # ks) ! i)" if "i < length (k # ks)" for i
  proof (cases i)
    case 0
    then show ?thesis using s' s1 by simp
  next
    case (Suc j)
    then show ?thesis using s' s1 that by simp
  qed
  moreover have "spell s' t = spell s t" if "t < new s" for t using s' s1 that by simp
  ultimately show ?case using s' s1 by (intro exI [of _ s']) simp
qed

lemma alloc_twice: "ok s \<Longrightarrow> alloc k s = Inr (t, s') \<Longrightarrow> new s < full \<Longrightarrow> alloc k s' = Inr (t, s')"
proof (cases "k \<in> ran (spell s)")
  case True
  assume a: "ok s" "alloc k s = Inr (t, s')"
  from True obtain u where "spell s u = Some k" by (auto simp: ran_def)
  then show ?thesis using known [of s u k] a by auto
next
  case False
  assume a: "ok s" "alloc k s = Inr (t, s')" "new s < full"
  then obtain "t = new s" "ok s'" "spell s' = (spell s)(new s \<mapsto> k)" using fresh [of s k] False by auto
  then show ?thesis by (intro known) auto
qed

lemma alloc_one:
  assumes "ok s" "alloc k s = Inr (t, s1)" "new s < full"
  shows "ok s1 \<and> spell s1 t = Some k \<and> new s1 \<le> new s + 1 \<and> new s \<le> new s1 \<and>
    (\<forall>u < new s. spell s1 u = spell s u) \<and> t < new s1"
proof (cases "k \<in> ran (spell s)")
  case True
  then obtain u where u: "spell s u = Some k" by (auto simp: ran_def)
  then have "u = t" "s1 = s" using known [OF assms(1) u] assms(2) by auto
  then show ?thesis using u below [OF assms(1) u] assms(1) by simp
next
  case False
  then show ?thesis using fresh [OF assms(1) False assms(3)] assms(2) by auto
qed

lemma alloc_two:
  assumes "ok s" "alloc k s = Inr (t, s1)" "alloc k' s1 = Inr (t', s2)" "new s + 1 < full"
  shows "ok s2 \<and> spell s2 t = Some k \<and> spell s2 t' = Some k' \<and> (\<forall>u < new s. spell s2 u = spell s u)"
proof -
  have 1: "ok s1 \<and> spell s1 t = Some k \<and> new s1 \<le> new s + 1 \<and> new s \<le> new s1 \<and>
      (\<forall>u < new s. spell s1 u = spell s u) \<and> t < new s1"
    using alloc_one [OF assms(1,2)] assms(4) by simp
  have "ok s2 \<and> spell s2 t' = Some k' \<and> (\<forall>u < new s1. spell s2 u = spell s1 u)"
    using alloc_one [of s1 k' t' s2] 1 assms(3,4) by simp
  then show ?thesis using 1 by simp
qed

lemma same_token_iff:
  assumes "ok s" "alloc k s = Inr (t, s1)" "alloc k' s1 = Inr (t', s2)" "new s + 1 < full"
  shows "t = t' \<longleftrightarrow> k = k'"
proof
  assume "t = t'" then show "k = k'" using alloc_two [OF assms] by auto
next
  assume "k = k'" then show "t = t'" using assms(3,4) alloc_twice [OF assms(1,2)] by simp
qed

end

text \<open>The table of tcc.c: every name is in the chain of its bucket, and only once in the table.\<close>

definition tokens_ok :: "tokens \<Rightarrow> bool" where
  "tokens_ok s \<longleftrightarrow> distinct (table_ident s) \<and>
     (\<forall>h. set (hash_ident s h) =
        {i. i < length (table_ident s) \<and> tok_bucket (table_ident s ! i) = h})"

lemma tok_find_Some: "tok_find tab str is = Some i \<Longrightarrow> i \<in> set is \<and> tab ! i = str"
  by (induction tab str "is" rule: tok_find.induct) (auto split: if_splits)

lemma tok_find_None: "tok_find tab str is = None \<Longrightarrow> i \<in> set is \<Longrightarrow> tab ! i \<noteq> str"
  by (induction tab str "is" rule: tok_find.induct) (auto split: if_splits)

lemma tok_alloc_known:
  assumes "tokens_ok s" "i < length (table_ident s)"
  shows "tok_alloc (table_ident s ! i) s = Inr (256 + i, s)"
proof -
  let ?str = "table_ident s ! i"
  have i: "i \<in> set (hash_ident s (tok_bucket ?str))" using assms by (simp add: tokens_ok_def)
  then obtain j where j: "tok_find (table_ident s) ?str (hash_ident s (tok_bucket ?str)) = Some j"
    using tok_find_None by fastforce
  have "j < length (table_ident s)" "table_ident s ! j = ?str"
    using tok_find_Some [OF j] assms(1) by (auto simp: tokens_ok_def)
  then have "j = i" using assms by (simp add: tokens_ok_def nth_eq_iff_index_eq)
  then show ?thesis using j by (simp add: tok_alloc_def)
qed

lemma tok_alloc_fresh:
  assumes ok: "tokens_ok s" and new: "str \<notin> set (table_ident s)" and room: "tok_ident s < 0x10000000"
  shows "\<exists>s'. tok_alloc str s = Inr (tok_ident s, s') \<and> tokens_ok s' \<and>
           table_ident s' = table_ident s @ [str]"
proof -
  let ?h = "tok_bucket str"
  have "tok_find (table_ident s) str (hash_ident s ?h) = None"
  proof (cases "tok_find (table_ident s) str (hash_ident s ?h)")
    case (Some j)
    have "j < length (table_ident s)" "table_ident s ! j = str"
      using tok_find_Some [OF Some] ok by (auto simp: tokens_ok_def)
    then show ?thesis using new nth_mem by blast
  qed
  then have al: "tok_alloc str s = Inr (tok_ident s, s\<lparr>table_ident := table_ident s @ [str],
      hash_ident := (hash_ident s)(?h := hash_ident s ?h @ [length (table_ident s)])\<rparr>)"
    using room by (simp add: tok_alloc_def tok_alloc_new_def Let_def) (simp add: tok_ident_def)
  have "i < length (table_ident s @ [str]) \<and> tok_bucket ((table_ident s @ [str]) ! i) = h \<longleftrightarrow>
      i < length (table_ident s) \<and> tok_bucket (table_ident s ! i) = h \<or>
      i = length (table_ident s) \<and> h = ?h" for i h
    by (auto simp: nth_append less_Suc_eq)
  then have "tokens_ok (s\<lparr>table_ident := table_ident s @ [str],
      hash_ident := (hash_ident s)(?h := hash_ident s ?h @ [length (table_ident s)])\<rparr>)"
    using ok new unfolding tokens_ok_def by (auto simp del: length_append)
  then show ?thesis using al by auto
qed

interpretation tokens: interning tok_alloc tok_str tok_ident tokens_ok "0x10000000"
proof unfold_locales
  fix s t k assume "tokens_ok s" "tok_str s t = Some k"
  then show "tok_alloc k s = Inr (t, s)"
    using tok_alloc_known [of s "t - 256"] by (auto simp: tok_str_def tok_ident_def split: if_splits)
next
  fix s k assume a: "tokens_ok s" "k \<notin> ran (tok_str s)" "tok_ident s < 0x10000000"
  have "tok_str s (256 + i) = Some (table_ident s ! i)" if "i < length (table_ident s)" for i
    using that by (simp add: tok_str_def tok_ident_def)
  then have "k \<notin> set (table_ident s)" using a(2) by (auto simp: in_set_conv_nth ran_def)
  then obtain s' where s': "tok_alloc k s = Inr (tok_ident s, s')" "tokens_ok s'"
      "table_ident s' = table_ident s @ [k]"
    using tok_alloc_fresh a by blast
  have "tok_str s' t = ((tok_str s)(tok_ident s \<mapsto> k)) t" for t
    using s'(3) by (auto simp: tok_str_def tok_ident_def nth_append)
  then show "\<exists>s'. tok_alloc k s = Inr (tok_ident s, s') \<and> tokens_ok s' \<and>
      tok_ident s' = Suc (tok_ident s) \<and> tok_str s' = (tok_str s)(tok_ident s \<mapsto> k)"
    using s' by (intro exI [of _ s']) (auto simp: tok_ident_def)
next
  fix s t k assume "tok_str s t = Some k"
  then show "t < tok_ident s" by (simp add: tok_str_def split: if_splits)
qed

lemma tccpp_new_ok: "tokens_ok tccpp_new_tokens" "tok_ident tccpp_new_tokens = 256"
    "tok_str tccpp_new_tokens t = None"
  by (simp_all add: tokens_ok_def tccpp_new_tokens_def tok_ident_def tok_str_def)

subsection \<open>The keywords\<close>

lemma of_char_u8: "unat (of_char c :: u8) = of_char c"
proof -
  have "of_char c < (256 :: nat)" by (cases c) (simp add: of_char_def horner_sum_simps of_bool_def)
  moreover have "unat (of_nat (of_char c) :: u8) = take_bit 8 (of_char c)" by (simp only: unsigned_of_nat) simp
  ultimately show ?thesis by (simp add: take_bit_nat_eq_self of_nat_of_char)
qed

lemma of_char_u8_inj: "(of_char c :: u8) = of_char d \<longleftrightarrow> c = d"
  by (metis of_char_u8 of_char_eq_iff)

lemma bytes_of_inj: "inj bytes_of"
  unfolding bytes_of_def by (rule inj_mapI) (auto simp: inj_def of_char_u8_inj)

fun no_nul :: "char \<Rightarrow> bool" where
  "no_nul (Char a0 a1 a2 a3 a4 a5 a6 a7) \<longleftrightarrow> a0 \<or> a1 \<or> a2 \<or> a3 \<or> a4 \<or> a5 \<or> a6 \<or> a7"

fun c_word :: "string \<Rightarrow> bool" where
  "c_word (c # cs) \<longleftrightarrow> no_nul c \<and> list_all no_nul cs"
| "c_word [] = False"

lemma c_words_1: "list_all c_word keywords_1" by code_simp
lemma c_words_2: "list_all c_word keywords_2" by code_simp
lemma c_words_3: "list_all c_word keywords_3" by code_simp
lemma c_words_4: "list_all c_word keywords_4" by code_simp
lemma c_words_5: "list_all c_word keywords_5" by code_simp
lemma c_words_6: "list_all c_word keywords_6" by code_simp
lemma c_words_7: "list_all c_word keywords_7" by code_simp
lemma c_words_8: "list_all c_word keywords_8" by code_simp
lemma c_words_9: "list_all c_word keywords_9" by code_simp
lemma c_words_10: "list_all c_word keywords_10" by code_simp

lemma c_words: "list_all c_word tcc_keywords"
  unfolding tcc_keywords_def by (simp add: c_words_1 c_words_2 c_words_3 c_words_4 c_words_5 c_words_6 c_words_7 c_words_8 c_words_9 c_words_10)

lemma no_nul_byte: "no_nul c \<Longrightarrow> (of_char c :: u8) \<noteq> 0"
  using of_char_u8_inj [of c "CHR 0x00"] by (cases c) auto

lemma bytes_of_c_word: "c_word k \<Longrightarrow> bytes_of k \<noteq> [] \<and> 0 \<notin> set (bytes_of k)"
  using no_nul_byte by (cases k) (auto simp: bytes_of_def list_all_iff)

lemma keyword_loop_words:
  "(\<And>k. k \<in> set ks \<Longrightarrow> k \<noteq> [] \<and> 0 \<notin> set k) \<Longrightarrow>
   keyword_loop (concat (map (\<lambda>k. k @ [0]) ks) @ [0]) s = alloc_all tok_alloc ks s"
proof (induction ks arbitrary: s)
  case Nil
  show ?case by (simp add: keyword_loop.simps)
next
  case (Cons k ks)
  let ?r = "concat (map (\<lambda>k. k @ [0]) ks) @ [0]"
  have k: "k \<noteq> []" "0 \<notin> set k" using Cons.prems by auto
  then have t: "takeWhile (\<lambda>c. c \<noteq> 0) (k @ 0 # ?r) = k" "dropWhile (\<lambda>c. c \<noteq> 0) (k @ 0 # ?r) = 0 # ?r"
    by (auto simp: takeWhile_append dropWhile_append)
  have "peek (k @ 0 # ?r) \<noteq> 0" using k by (cases k) auto
  then have "keyword_loop (k @ 0 # ?r) s = ebind (tok_alloc k s) (\<lambda>(t, s). keyword_loop ?r s)"
    by (subst keyword_loop.simps) (simp only: t if_False list.sel)
  also have "\<dots> = ebind (tok_alloc k s) (\<lambda>(t, s). alloc_all tok_alloc ks s)"
    using Cons by (intro arg_cong2 [where f = ebind] ext) (auto split: prod.splits)
  finally show ?case by simp
qed

lemma tccpp_new_keywords_eq:
  "tccpp_new_keywords = alloc_all tok_alloc (map bytes_of tcc_keywords) tccpp_new_tokens"
proof -
  have "keyword_text = concat (map (\<lambda>k. k @ [0]) (map bytes_of tcc_keywords)) @ [0]"
    by (simp add: keyword_text_def comp_def)
  moreover have "k \<in> set (map bytes_of tcc_keywords) \<Longrightarrow> k \<noteq> [] \<and> 0 \<notin> set k" for k
    using c_words bytes_of_c_word by (auto simp: list_all_iff)
  ultimately show ?thesis unfolding tccpp_new_keywords_def by (metis keyword_loop_words)
qed

section \<open>The spelling of tokens\<close>

definition is_space :: "u32 \<Rightarrow> bool" where
  "is_space ch \<longleftrightarrow> ch = 0x20 \<or> ch = 0x09 \<or> ch = 0x0B \<or> ch = 0x0C \<or> ch = 0x0D"

text \<open>The triples of tok_two_chars: the two characters and the token.\<close>

definition tok_two_chars :: "(char \<times> char \<times> u8) list" where
  "tok_two_chars = [
    (CHR ''<'', CHR ''='', 0x9e), (CHR ''>'', CHR ''='', 0x9d), (CHR ''!'', CHR ''='', 0x95),
    (CHR ''&'', CHR ''&'', 0x90), (CHR ''|'', CHR ''|'', 0x91), (CHR ''+'', CHR ''+'', 0x82),
    (CHR ''-'', CHR ''-'', 0x80), (CHR ''='', CHR ''='', 0x94), (CHR ''<'', CHR ''<'', 0x3c),
    (CHR ''>'', CHR ''>'', 0x3e), (CHR ''+'', CHR ''='', 0xb0), (CHR ''-'', CHR ''='', 0xb1),
    (CHR ''*'', CHR ''='', 0xb2), (CHR ''/'', CHR ''='', 0xb3), (CHR ''%'', CHR ''='', 0xb4),
    (CHR ''&'', CHR ''='', 0xb5), (CHR ''^'', CHR ''='', 0xb7), (CHR ''|'', CHR ''='', 0xb6),
    (CHR ''-'', CHR ''>'', 0xa0), (CHR ''.'', CHR ''.'', 0xa2), (CHR ''#'', CHR ''#'', 0xa3)]"

fun two_chars :: "(char \<times> char \<times> u8) list \<Rightarrow> u32 \<Rightarrow> bytes option" where
  "two_chars [] v = None"
| "two_chars ((a, b, t) # q) v = (if ucast t = v then Some [of_char a, of_char b] else two_chars q v)"

text \<open>The conversions %llu, %u and %x of sprintf.\<close>

function decimal :: "nat \<Rightarrow> bytes" where
  "decimal n = (if n < 10 then [0x30 + of_nat n] else decimal (n div 10) @ [0x30 + of_nat (n mod 10)])"
  by pat_completeness auto
termination by (relation "measure id") auto

declare decimal.simps [simp del]

definition hex_digit :: "nat \<Rightarrow> u8" where
  "hex_digit d = (if d < 10 then 0x30 + of_nat d else 0x61 + of_nat (d - 10))"

function hexadecimal :: "nat \<Rightarrow> bytes" where
  "hexadecimal n = (if n < 16 then [hex_digit n] else hexadecimal (n div 16) @ [hex_digit (n mod 16)])"
  by pat_completeness auto
termination by (relation "measure id") auto

declare hexadecimal.simps [simp del]

definition hex2 :: "nat \<Rightarrow> bytes" where
  "hex2 n = (if n < 16 then 0x30 # hexadecimal n else hexadecimal n)"

text \<open>
  get_tok_str: the C string it returns, without its NUL, or None for a null pointer. The argument is
  the token; for constants and strings the value is in the cvalue.
\<close>

definition get_tok_str :: "tokens \<Rightarrow> u32 \<Rightarrow> cvalue \<Rightarrow> bytes option" where
  "get_tok_str s v cv =
     (if v \<in> {0xc2, 0xc3, 0xc6, 0xc7, 0xc4, 0xc5} then Some (decimal (unat (cv_i cv)))
      else if v = 0xc1 \<or> v = 0xc0 then
        Some ((if v = 0xc1 then [0x4C] else []) @ [0x27] @ add_char (ucast (cv_i cv)) @ [0x27])
      else if v = 0xcd \<or> v = 0xce then Some (takeWhile (\<lambda>c. c \<noteq> 0) (cv_str cv))
      else if v = 0xc9 \<or> v = 0xc8 then
        Some ((if v = 0xc9 then [0x4C] else []) @ [0x22] @
          (if v = 0xc8
           then concat (map (\<lambda>c. add_char (ucast c)) (take (length (cv_str cv) - 1) (cv_str cv)))
           else concat (map (\<lambda>c. add_char (ucast c))
                  (take (length (cv_str cv) div 2 - 1) (nwchars (cv_str cv))))) @ [0x22])
      else if v = 0xca then Some (bytes_of ''<float>'')
      else if v = 0xcb then Some (bytes_of ''<double>'')
      else if v = 0xcc then Some (bytes_of ''<long double>'')
      else if v = 0xcf then Some (bytes_of ''<linenumber>'')
      else if v = 0x9c then Some [0x3C]
      else if v = 0x9f then Some [0x3E]
      else if v = 0xa1 then Some (bytes_of ''...'')
      else if v = 0xb8 then Some (bytes_of ''<<='')
      else if v = 0xb9 then Some (bytes_of ''>>='')
      else if v = - 1 then Some (bytes_of ''<eof>'')
      else if v = 0 then Some (bytes_of ''<no name>'')
      else
        (let v = v AND NOT (0x20000000 OR 0x40000000) in
         if v <s 256 then
           (case two_chars tok_two_chars v of
              Some t \<Rightarrow> Some t
            | None \<Rightarrow>
                if 127 \<le>s v \<or> (v <s 32 \<and> \<not> is_space v \<and> v \<noteq> 0x0A)
                then Some (bytes_of ''<'' @ [0x5C] @ bytes_of ''x'' @ hex2 (unat v) @ bytes_of ''>'')
                else Some [ucast v])
         else if sint v < int (tok_ident s) then Some (table_ident s ! (nat (sint v) - 256))
         else if 0x10000000 \<le>s v then Some (bytes_of ''L.'' @ decimal (unat (v - 0x10000000)))
         else None))"

text \<open>
  C35: keywords and the enum of tokens agree. The start of the preprocessor succeeds, and after it
  allocating a keyword leaves the table alone and returns the value the compiler gives to the constant
  of enum tcc_token in the same position, whose name spells that keyword.
\<close>

theorem keywords_are_tokens:
  "\<exists>s. tccpp_new_keywords = Inr s \<and> tok_ident s = tok_value (length tok_names) \<and>
     (\<forall>i < length tcc_keywords.
        tok_alloc (bytes_of (tcc_keywords ! i)) s = Inr (tok_value (i + 1), s) \<and>
        spells (tok_names ! (i + 1)) (tcc_keywords ! i))"
proof -
  let ?ks = "map bytes_of tcc_keywords"
  have "distinct ?ks" using keywords_distinct bytes_of_inj by (auto simp: distinct_map intro: inj_on_subset)
  then obtain s where s: "alloc_all tok_alloc ?ks tccpp_new_tokens = Inr s" "tokens_ok s"
      "tok_ident s = 256 + length ?ks" "\<And>i. i < length ?ks \<Longrightarrow> tok_str s (256 + i) = Some (?ks ! i)"
    using tokens.in_sequence [of tccpp_new_tokens ?ks] tccpp_new_ok
    by (auto simp: length_tables ran_def)
  have "tok_alloc (bytes_of (tcc_keywords ! i)) s = Inr (tok_value (i + 1), s)"
    if "i < length tcc_keywords" for i
    using tokens.known [OF s(2) s(4) [of i]] that by (simp add: tok_value_def)
  moreover have "spells (tok_names ! (i + 1)) (tcc_keywords ! i)" if "i < length tcc_keywords" for i
    using agree_nth [OF tables_agree] that by (simp add: nth_tl length_tables)
  moreover have "tok_ident s = tok_value (length tok_names)"
    using s(3) by (simp add: tok_value_def length_tables)
  ultimately show ?thesis
    using s(1) unfolding tccpp_new_keywords_eq by blast
qed

text \<open>The keyword if is token 256, TOK_IF.\<close>

theorem keywords_are_tokens_witness:
  "\<exists>s. tccpp_new_keywords = Inr s \<and> tok_alloc (bytes_of ''if'') s = Inr (256, s)"
proof -
  obtain s where "tccpp_new_keywords = Inr s"
      "tok_alloc (bytes_of (tcc_keywords ! 0)) s = Inr (tok_value (0 + 1), s)"
    using keywords_are_tokens length_tables by fastforce
  moreover have "tcc_keywords ! 0 = ''if''" by (simp add: tcc_keywords_def keywords_1_def nth_append)
  ultimately show ?thesis by (auto simp: tok_value_def)
qed

text \<open>
  C19: interning. Allocate two names in a well-formed table with room: the tokens are equal exactly when the
  names are, afterwards each token spells its name, and the tokens given out before keep theirs.
\<close>

theorem tok_alloc_interns:
  assumes "tokens_ok s" "tok_alloc k s = Inr (t, s1)" "tok_alloc k' s1 = Inr (t', s2)"
    and "tok_ident s + 1 < 0x10000000"
  shows "(t = t' \<longleftrightarrow> k = k') \<and> tokens_ok s2 \<and> tok_str s2 t = Some k \<and> tok_str s2 t' = Some k' \<and>
     (\<forall>u < tok_ident s. tok_str s2 u = tok_str s u)"
  using tokens.same_token_iff [OF assms] tokens.alloc_two [OF assms] by simp

theorem tok_alloc_interns_witness:
  "\<exists>s1 s2. tok_alloc [0x61] tccpp_new_tokens = Inr (256, s1) \<and> tok_alloc [0x62] s1 = Inr (257, s2) \<and>
     tok_str s2 256 = Some [0x61]"
proof -
  have "tok_alloc [0x61] tccpp_new_tokens =
      Inr (256, \<lparr>table_ident = [[0x61]], hash_ident = (\<lambda>_. [])(tok_bucket [0x61] := [0])\<rparr>)"
    by (simp add: tok_alloc_def tok_alloc_new_def tccpp_new_tokens_def tok_ident_def)
  moreover have "\<exists>s2. tok_alloc [0x62]
      \<lparr>table_ident = [[0x61]], hash_ident = (\<lambda>_. [])(tok_bucket [0x61] := [0])\<rparr> = Inr (257, s2)"
    by (simp add: tok_alloc_def tok_alloc_new_def tok_ident_def Let_def)
  ultimately show ?thesis
    using tok_alloc_interns [OF tccpp_new_ok(1), of "[0x61]" 256 _ "[0x62]" 257] tccpp_new_ok(2) by fastforce
qed

lemma parse_quoted:
  assumes "parse_escape_string g l body = Inr (tokcstr, ws)"
  shows "parse_string g ((if l then [0x4C] else []) @ [0x22] @ body @ [0x22]) c =
      Inr (if l then 0xc9 else 0xc8, c\<lparr>cv_str := tokcstr\<rparr>, ws)"
    and "\<lbrakk>\<not> l; tokcstr = [b, 0]\<rbrakk> \<Longrightarrow>
      parse_string g ([0x27] @ body @ [0x27]) c = Inr (0xc0, c\<lparr>cv_i := scast (scast b :: u32)\<rparr>, ws)"
  using assms by (cases l; simp add: parse_string_def Let_def)+

lemma set_cv_str: "cv_str (cv\<lparr>cv_str := x\<rparr>) = x" by simp
lemma set_cv_i: "cv_i (cv\<lparr>cv_i := y\<rparr>) = y" by simp

lemma spell_string:
  "get_tok_str ts 0xc8 cv = Some ([0x22] @ concat (map add_char (map ucast (butlast (cv_str cv)))) @ [0x22])"
  by (simp add: get_tok_str_def butlast_conv_take comp_def)

lemma spell_char:
  "get_tok_str ts 0xc0 cv = Some ([0x27] @ concat (map add_char [ucast (cv_i cv)]) @ [0x27])"
  by (simp add: get_tok_str_def)

lemma spell_wide:
  "get_tok_str ts 0xc9 cv = Some ([0x4C] @ [0x22] @ concat (map add_char (map ucast
     (take (length (cv_str cv) div 2 - 1) (nwchars (cv_str cv))))) @ [0x22])"
  by (simp add: get_tok_str_def comp_def)

lemma low9_byte: "(ucast (x AND 0x1FF :: u32) :: u8) = ucast x"
proof -
  have "(ucast (x AND 0x1FF) :: u8) = ucast x AND ucast (0x1FF :: u32)" by (rule unsigned_and_eq)
  also have "(ucast (0x1FF :: u32) :: u8) = 255" by simp
  also have "(ucast x AND 255 :: u8) = ucast x" unfolding and_255_mask by (rule take_bit_word_eq_self) simp
  finally show ?thesis .
qed

lemma reread_byte: "(ucast (reread c) :: u8) = ucast c"
  by (simp add: reread_def low9_byte)

lemma ucast_up_down: "(ucast (ucast (b :: u8) :: u32) :: u8) = b" "(ucast (scast (b :: u8) :: u32) :: u8) = b"
  by (rule bit_word_eqI, auto simp: bit_simps min_def dest!: le_neq_implies_less)+

text \<open>
  C24: string literals are printed faithfully. The text get_tok_str gives for a string constant is read
  back by parse_string as a string token with the same bytes, NULs and bytes beyond ASCII included,
  and without a warning.
\<close>

theorem string_literal_roundtrip:
  "parse_string g (the (get_tok_str ts 0xc8 (cv\<lparr>cv_str := bs @ [0]\<rparr>))) c =
     Inr (0xc8, c\<lparr>cv_str := bs @ [0]\<rparr>, [])"
proof -
  have "concat (map (\<lambda>c. put_char False (reread c)) (map ucast bs)) @ [0] = bs @ [0]"
    by (induction bs) (simp_all add: put_char_def reread_byte ucast_up_down)
  then show ?thesis
    using parse_quoted(1) [OF parse_add_chars, of g False "map ucast bs" c]
    by (simp only: spell_string option.sel if_False append_Nil set_cv_str butlast_snoc)
qed

text \<open>
  Note: character constants are printed faithfully. Whatever char an int token of kind 0xc0 holds, negative
  ones included, the text get_tok_str gives is read back as the same value.
\<close>

theorem char_constant_roundtrip:
  "parse_string g (the (get_tok_str ts 0xc0 (cv\<lparr>cv_i := scast (b :: u8)\<rparr>))) c =
     Inr (0xc0, c\<lparr>cv_i := scast b\<rparr>, [])"
proof -
  have s: "(ucast (scast b :: u64) :: u32) = scast b" "scast (scast b :: u32) = (scast b :: u64)"
    by (rule bit_word_eqI, auto simp: bit_simps min.assoc [symmetric])+
  have "concat (map (\<lambda>c. put_char False (reread c)) [scast b]) @ [0] = [b, 0]"
    by (simp add: put_char_def reread_byte ucast_up_down)
  then show ?thesis
    using parse_quoted(2) [OF parse_add_chars, of False "[scast b]" b g c]
    by (simp only: spell_char option.sel set_cv_i s if_False simp_thms)
qed

lemma nwchars_units: "nwchars (concat (map (\<lambda>w. nwchar (ucast (w :: u16))) ws) @ r) = ws @ nwchars r"
proof (induction ws)
  case (Cons w ws)
  have "ucast (ucast (ucast w :: u32) :: u8) OR push_bit 8 (ucast (ucast (drop_bit 8 (ucast w :: u32)) :: u8)) = w"
    by (rule bit_word_eqI) (auto simp: bit_simps)
  then show ?case using Cons by (simp add: nwchar_def)
qed simp

lemma put_reread_wide:
  "put_char True (reread (ucast (w :: u16))) =
     nwchar (if 32 \<le> w \<and> w \<le> 126 then ucast w else ucast w AND 0x1FF)"
proof -
  have u: "unat (ucast w :: u32) = unat w" using unat_u16_less [of w]
    by (simp add: unsigned_ucast_eq take_bit_nat_eq_self)
  then have si: "sint (ucast w :: u32) = int (unat w)"
    using unat_u16_less [of w] sint_small [of "ucast w"] by simp
  have "unat (ucast w AND 0x1FF :: u32) \<le> unat (ucast w :: u32)"
    using word_and_le2 [of "ucast w :: u32" "0x1FF"] by (simp add: word_le_nat_alt)
  then have l: "unat (ucast w AND 0x1FF :: u32) < 0x10000" using u unat_u16_less [of w] by linarith
  then have "sint (ucast w AND 0x1FF :: u32) = int (unat (ucast w AND 0x1FF :: u32))"
    by (intro sint_small) simp
  then have "sint (ucast w AND 0x1FF :: u32) < 0x10000" using l by linarith
  then show ?thesis using si unat_u16_less [of w]
    by (simp add: put_char_def reread_def word_sle_eq word_sless_alt word_le_def)
qed

text \<open>
  Note: wide strings lose bits. add_char prints the last three octal digits only, so what is read back of the
  text get_tok_str gives for a wide string constant is, in the place of each character that is not
  printable ASCII, its value modulo 512: characters from 512 on come back as others.
\<close>

theorem wide_string_reread:
  "parse_string g (the (get_tok_str ts 0xc9 (cv\<lparr>cv_str := concat (map (\<lambda>w. nwchar (ucast (w :: u16))) ws) @ nwchar 0\<rparr>))) c =
     Inr (0xc9, c\<lparr>cv_str := concat (map (\<lambda>w. nwchar (if 32 \<le> w \<and> w \<le> 126 then ucast w else ucast w AND 0x1FF)) ws)
                    @ nwchar 0\<rparr>, [])"
proof -
  let ?d = "concat (map (\<lambda>w. nwchar (ucast w)) ws) @ nwchar 0"
  have l: "length ?d div 2 - 1 = length ws" by (induction ws) (simp_all add: nwchar_def)
  have "take (length ?d div 2 - 1) (nwchars ?d) = ws" unfolding l by (simp add: nwchars_units)
  moreover have "concat (map (\<lambda>c. put_char True (reread c)) (map ucast ws)) =
      concat (map (\<lambda>w. nwchar (if 32 \<le> w \<and> w \<le> 126 then ucast w else ucast w AND 0x1FF)) ws)"
    by (simp add: comp_def put_reread_wide)
  ultimately show ?thesis
    using parse_quoted(1) [OF parse_add_chars, of g True "map ucast ws" c]
    by (simp only: spell_wide option.sel if_True set_cv_str)
qed

end
