(* ===== verification/TokenStr.thy ===== *)
theory TokenStr
  imports Tokens
begin

text \<open>
  Token strings: the arrays of ints in which macro bodies and saved text are kept (lines 13599-13797).
  str is the whole allocated array, so that allocated_len is its length; what the allocator returns
  beyond the copied part is arbitrary and a parameter. A CValue is its first eight bytes (cv_i, which are
  tab[0] and tab[1]), the rest of tab (cv_hi) and the string member; the number of words of a long
  double is a parameter, because it depends on the compiler that builds tcc.
\<close>

record token_string =
  str :: "u32 list"
  len :: nat
  need_spc :: nat
  last_line_num :: u32

definition tok_str_new :: token_string where
  "tok_str_new = \<lparr>str = [], len = 0, need_spc = 0, last_line_num = - 1\<rparr>"

text \<open>The doubling loop of tok_str_realloc; sizes start at 16.\<close>

function tok_grow :: "nat \<Rightarrow> nat \<Rightarrow> nat" where
  "tok_grow n new_size = (if 0 < n \<and> n < new_size then tok_grow (n * 2) new_size else n)"
  by pat_completeness auto
termination by (relation "measure (\<lambda>(n, new_size). new_size - n)") auto

declare tok_grow.simps [simp del]

definition tok_str_realloc :: "(nat \<Rightarrow> u32) \<Rightarrow> nat \<Rightarrow> token_string \<Rightarrow> token_string" where
  "tok_str_realloc junk new_size s =
     (let allocated_len = length (str s); size = tok_grow (max 16 allocated_len) new_size in
      if size > allocated_len then s\<lparr>str := str s @ map junk [allocated_len..<size]\<rparr> else s)"

text \<open>str[len++] = w, in an array with room.\<close>

definition put_word :: "u32 \<Rightarrow> token_string \<Rightarrow> token_string" where
  "put_word w s = s\<lparr>str := (str s)[len s := w], len := len s + 1\<rparr>"

definition tok_str_add :: "(nat \<Rightarrow> u32) \<Rightarrow> u32 \<Rightarrow> token_string \<Rightarrow> token_string" where
  "tok_str_add junk t s =
     put_word t (if len s \<ge> length (str s) then tok_str_realloc junk (len s + 1) s else s)"

text \<open>Bytes of an array of ints, which are little endian.\<close>

definition get_byte :: "u32 list \<Rightarrow> nat \<Rightarrow> u8" where
  "get_byte ws k = ucast (drop_bit (8 * (k mod 4)) (ws ! (k div 4)))"

definition put_byte :: "u32 list \<Rightarrow> nat \<Rightarrow> u8 \<Rightarrow> u32 list" where
  "put_byte ws k b =
     ws[k div 4 := (ws ! (k div 4) AND NOT (push_bit (8 * (k mod 4)) 0xFF)) OR push_bit (8 * (k mod 4)) (ucast b)]"

fun put_bytes :: "u32 list \<Rightarrow> nat \<Rightarrow> bytes \<Rightarrow> u32 list" where
  "put_bytes ws k [] = ws"
| "put_bytes ws k (b # bs) = put_bytes (put_byte ws k b) (k + 1) bs"

text \<open>The tokens whose value is a signed or unsigned int, a string, or two words.\<close>

definition signed_tok :: "u32 \<Rightarrow> bool" where "signed_tok t \<longleftrightarrow> t \<in> {0xc6, 0xc2, 0xc0, 0xc1, 0xcf}"
definition unsigned_tok :: "u32 \<Rightarrow> bool" where "unsigned_tok t \<longleftrightarrow> t \<in> {0xc7, 0xc3}"
definition string_tok :: "u32 \<Rightarrow> bool" where "string_tok t \<longleftrightarrow> t \<in> {0xc8, 0xc9, 0xcd, 0xce}"
definition wide_tok :: "u32 \<Rightarrow> bool" where "wide_tok t \<longleftrightarrow> t \<in> {0xcb, 0xc4, 0xc5}"

lemmas tok_kinds = signed_tok_def unsigned_tok_def string_tok_def wide_tok_def

text \<open>The words of the union.\<close>

definition cv_tab :: "cvalue \<Rightarrow> nat \<Rightarrow> u32" where
  "cv_tab cv i = (if i = 0 then ucast (cv_i cv) else if i = 1 then ucast (drop_bit 32 (cv_i cv)) else cv_hi cv ! (i - 2))"

definition set_tab :: "nat \<Rightarrow> u32 \<Rightarrow> cvalue \<Rightarrow> cvalue" where
  "set_tab i w cv =
     (if i = 0 then cv\<lparr>cv_i := push_bit 32 (drop_bit 32 (cv_i cv)) OR ucast w\<rparr>
      else if i = 1 then cv\<lparr>cv_i := take_bit 32 (cv_i cv) OR push_bit 32 (ucast w)\<rparr>
      else cv\<lparr>cv_hi := (cv_hi cv)[i - 2 := w]\<rparr>)"

definition str_words :: "nat \<Rightarrow> nat" where
  "str_words n = (n + 4 - 1) div 4"

definition tok_str_add2 :: "(nat \<Rightarrow> u32) \<Rightarrow> nat \<Rightarrow> u32 \<Rightarrow> cvalue \<Rightarrow> token_string \<Rightarrow> token_string" where
  "tok_str_add2 junk ldw t cv s =
     (let s = (if len s + 4 \<ge> length (str s) then tok_str_realloc junk (len s + 4 + 1) s else s);
          s = put_word t s in
      if signed_tok t \<or> unsigned_tok t \<or> t = 0xca then put_word (cv_tab cv 0) s
      else if string_tok t then
        (let size = length (cv_str cv); nb_words = 1 + str_words size;
             s = (if len s + nb_words \<ge> length (str s) then tok_str_realloc junk (len s + nb_words + 1) s else s) in
         s\<lparr>str := put_bytes ((str s)[len s := of_nat size]) (4 * (len s + 1)) (cv_str cv), len := len s + nb_words\<rparr>)
      else if wide_tok t then put_word (cv_tab cv 1) (put_word (cv_tab cv 0) s)
      else if t = 0xcc then fold (\<lambda>i. put_word (cv_tab cv i)) [0..<ldw] s
      else s)"

definition tok_str_add2_spc :: "(nat \<Rightarrow> u32) \<Rightarrow> nat \<Rightarrow> u32 \<Rightarrow> cvalue \<Rightarrow> token_string \<Rightarrow> token_string" where
  "tok_str_add2_spc junk ldw t cv s =
     (let s = (if need_spc s = 3 then tok_str_add junk 0x20 s else s) in
      tok_str_add2 junk ldw t cv (s\<lparr>need_spc := 2\<rparr>))"

text \<open>tok_str_add_tok records the line when it has changed; line_num is that of the file.\<close>

definition tok_str_add_tok :: "(nat \<Rightarrow> u32) \<Rightarrow> nat \<Rightarrow> u32 \<Rightarrow> u32 \<Rightarrow> cvalue \<Rightarrow> cvalue \<Rightarrow> token_string \<Rightarrow> token_string" where
  "tok_str_add_tok junk ldw line_num tok tokc cval s =
     (let s = (if line_num \<noteq> last_line_num s
               then tok_str_add2 junk ldw 0xcf (cval\<lparr>cv_i := scast line_num\<rparr>) (s\<lparr>last_line_num := line_num\<rparr>)
               else s) in
      tok_str_add2 junk ldw tok tokc s)"

section \<open>Reading\<close>

text \<open>tok_get reads the token at position p; TOK_GET takes the short way when the token has no value.\<close>

definition tok_get :: "nat \<Rightarrow> u32 list \<Rightarrow> nat \<Rightarrow> cvalue \<Rightarrow> u32 \<times> cvalue \<times> nat" where
  "tok_get ldw ws p cv =
     (let t = ws ! p; p = p + 1 in
      if signed_tok t then (t, cv\<lparr>cv_i := scast (ws ! p)\<rparr>, p + 1)
      else if unsigned_tok t then (t, cv\<lparr>cv_i := ucast (ws ! p)\<rparr>, p + 1)
      else if t = 0xca then (t, set_tab 0 (ws ! p) cv, p + 1)
      else if string_tok t then
        (let size = unat (ws ! p); p = p + 1 in
         (t, cv\<lparr>cv_str := map (\<lambda>k. get_byte ws (4 * p + k)) [0..<size]\<rparr>, p + str_words size))
      else if wide_tok t then (t, set_tab 1 (ws ! (p + 1)) (set_tab 0 (ws ! p) cv), p + 2)
      else if t = 0xcc then (t, fold (\<lambda>i. set_tab i (ws ! (p + i))) [0..<ldw] cv, p + ldw)
      else (t, cv, p))"

definition TOK_GET :: "nat \<Rightarrow> u32 list \<Rightarrow> nat \<Rightarrow> cvalue \<Rightarrow> u32 \<times> cvalue \<times> nat" where
  "TOK_GET ldw ws p cv =
     (if 0xc0 \<le>s ws ! p \<and> ws ! p \<le>s 0xcf then tok_get ldw ws p cv else (ws ! p, cv, p + 1))"

lemma TOK_GET_advances: "TOK_GET ldw ws p cv = (t, cv', p') \<Longrightarrow> p < p'"
  by (auto simp: TOK_GET_def tok_get_def Let_def split: if_splits)

text \<open>
  macro_is_equal compares the spellings of two macro bodies, each an array ended by 0 or a null pointer;
  cv is the one variable that both sides use. Reading past an array does not happen in C; here the end
  of the list counts as 0.
\<close>

definition word_at :: "u32 list \<Rightarrow> nat \<Rightarrow> u32" where
  "word_at ws p = (if p < length ws then ws ! p else 0)"

function macro_loop :: "nat \<Rightarrow> tokens \<Rightarrow> u32 list \<Rightarrow> nat \<Rightarrow> u32 list \<Rightarrow> nat \<Rightarrow> cvalue \<Rightarrow> bool" where
  "macro_loop ldw st ws a xs b cv =
     (if word_at ws a \<noteq> 0 \<and> word_at xs b \<noteq> 0 then
        (case TOK_GET ldw ws a cv of (t, cv1, a') \<Rightarrow>
         case TOK_GET ldw xs b cv1 of (u, cv2, b') \<Rightarrow>
           if get_tok_str st t cv1 \<noteq> get_tok_str st u cv2 then False
           else macro_loop ldw st ws a' xs b' cv2)
      else \<not> (word_at ws a \<noteq> 0 \<or> word_at xs b \<noteq> 0))"
  by pat_completeness auto
termination
  by (relation "measure (\<lambda>(l, st, ws, a, xs, b, cv). length ws - a)")
     (auto simp: word_at_def split: if_splits dest!: TOK_GET_advances [OF sym])

declare macro_loop.simps [simp del]

definition macro_is_equal :: "nat \<Rightarrow> tokens \<Rightarrow> u32 list option \<Rightarrow> u32 list option \<Rightarrow> cvalue \<Rightarrow> bool" where
  "macro_is_equal ldw st a b cv =
     (case (a, b) of (Some ws, Some xs) \<Rightarrow> macro_loop ldw st ws 0 xs 0 cv | _ \<Rightarrow> True)"

section \<open>The array\<close>

lemma tok_grow_enough: "0 < n \<Longrightarrow> new_size \<le> tok_grow n new_size"
proof (induction n new_size rule: tok_grow.induct)
  case (1 n new_size)
  then show ?case by (cases "n < new_size") (simp_all add: tok_grow.simps [of n new_size])
qed

lemma tok_str_realloc:
  "new_size \<le> length (str (tok_str_realloc junk new_size s))"
  "length (str s) \<le> length (str (tok_str_realloc junk new_size s))"
  "take (length (str s)) (str (tok_str_realloc junk new_size s)) = str s"
  "len (tok_str_realloc junk new_size s) = len s"
proof -
  have "0 < max 16 (length (str s))" by simp
  from tok_grow_enough [OF this, of new_size]
  show "new_size \<le> length (str (tok_str_realloc junk new_size s))"
    "length (str s) \<le> length (str (tok_str_realloc junk new_size s))"
    "take (length (str s)) (str (tok_str_realloc junk new_size s)) = str s"
    "len (tok_str_realloc junk new_size s) = len s"
    by (auto simp: tok_str_realloc_def Let_def)
qed

text \<open>s' continues s: the words of s are untouched, and what is used fits in the array.\<close>

definition continues_str :: "token_string \<Rightarrow> token_string \<Rightarrow> bool" where
  "continues_str s s' \<longleftrightarrow> len s \<le> len s' \<and> len s' \<le> length (str s') \<and> take (len s) (str s') = take (len s) (str s)"

definition tok_str_ok :: "token_string \<Rightarrow> bool" where
  "tok_str_ok s \<longleftrightarrow> len s \<le> length (str s)"

text \<open>Making room for n words.\<close>

lemma room:
  assumes "tok_str_ok s" "s' = (if len s + n \<ge> length (str s) then tok_str_realloc junk (len s + n + 1) s else s)"
  shows "len s' = len s" "len s + n < length (str s')" "take (len s) (str s') = take (len s) (str s)"
proof -
  have "take (len s) (take (length (str s)) (str (tok_str_realloc junk (len s + n + 1) s))) = take (len s) (str s)"
    using tok_str_realloc(3) by metis
  then show "take (len s) (str s') = take (len s) (str s)"
    using assms by (auto simp: tok_str_ok_def min_def)
  show "len s' = len s" "len s + n < length (str s')"
    using assms tok_str_realloc(1) [of "len s + n + 1" junk s] tok_str_realloc(4) [of junk "len s + n + 1" s] by auto
qed

lemma put_word_simps [simp]:
  "len (put_word w s) = Suc (len s)" "length (str (put_word w s)) = length (str s)"
  "i \<noteq> len s \<Longrightarrow> str (put_word w s) ! i = str s ! i"
  "len s < length (str s) \<Longrightarrow> str (put_word w s) ! len s = w"
  "n \<le> len s \<Longrightarrow> take n (str (put_word w s)) = take n (str s)"
  by (simp_all add: put_word_def)

lemma put_words:
  assumes "len s + length ws \<le> length (str s)"
  shows "let s' = fold put_word ws s in
    len s' = len s + length ws \<and> length (str s') = length (str s) \<and>
    take (len s) (str s') = take (len s) (str s) \<and> (\<forall>i < length ws. str s' ! (len s + i) = ws ! i)"
  using assms
proof (induction ws arbitrary: s)
  case (Cons w ws)
  let ?s = "put_word w s"
  have IH: "let s' = fold put_word ws ?s in
    len s' = len ?s + length ws \<and> length (str s') = length (str ?s) \<and>
    take (len ?s) (str s') = take (len ?s) (str ?s) \<and> (\<forall>i < length ws. str s' ! (len ?s + i) = ws ! i)"
    using Cons.IH [of ?s] Cons.prems by simp
  let ?r = "fold put_word ws ?s"
  have t: "take (Suc (len s)) (str ?r) = take (Suc (len s)) (str ?s)" using IH by (simp add: Let_def)
  have "take (len s) (str ?r) = take (len s) (take (Suc (len s)) (str ?r))" by simp
  also have "\<dots> = take (len s) (str s)" unfolding t by simp
  finally have p: "take (len s) (str ?r) = take (len s) (str s)" .
  have "str ?r ! len s = take (Suc (len s)) (str ?r) ! len s" by simp
  also have "\<dots> = w" unfolding t using Cons.prems by simp
  finally have w: "str ?r ! len s = w" .
  have "str ?r ! (len s + i) = (w # ws) ! i" if "i < Suc (length ws)" for i
    using that w IH by (cases i) (auto simp: Let_def)
  then show ?case using IH p by (simp add: Let_def)
qed simp

lemma length_put_bytes [simp]: "length (put_bytes ws k bs) = length ws"
  by (induction ws k bs rule: put_bytes.induct) (simp_all add: put_byte_def)

lemma byte_in_word:
  fixes w :: u32 and b :: u8
  assumes "q < 4" "r < 4"
  shows "ucast (drop_bit (8 * q) ((w AND NOT (push_bit (8 * r) 0xFF)) OR push_bit (8 * r) (ucast b))) =
    (if q = r then b else ucast (drop_bit (8 * q) w))"
proof (rule bit_word_eqI)
  fix n assume n: "n < LENGTH(8)"
  have m: "bit (0xFF :: u32) i \<longleftrightarrow> i < 8" for i
    using bit_mask_iff [of 8 i, where ?'a = u32] by (auto simp: mask_eq_exp_minus_1)
  have b: "bit (ucast b :: u32) i \<longleftrightarrow> bit b i" for i by (auto simp: bit_simps dest: bit_imp_le_length)
  have lt: "8 * q + n < 32" using n assms by simp
  have "bit (ucast (drop_bit (8 * q) ((w AND NOT (push_bit (8 * r) 0xFF)) OR push_bit (8 * r) (ucast b))) :: u8) n \<longleftrightarrow>
      (bit w (8 * q + n) \<and> \<not> (8 * r \<le> 8 * q + n \<and> 8 * q + n - 8 * r < 8)) \<or>
      (8 * r \<le> 8 * q + n \<and> bit b (8 * q + n - 8 * r))"
    using n lt by (simp add: bit_unsigned_iff bit_drop_bit_eq bit_or_iff bit_and_iff bit_not_iff bit_push_bit_iff m b
        cong: conj_cong) (use m [of "8 * q + n - 8 * r"] in auto)
  also have "\<dots> \<longleftrightarrow> bit (if q = r then b else ucast (drop_bit (8 * q) w)) n"
  proof -
    consider "q = r" | "q < r" | "q > r" by linarith
    then show ?thesis
    proof cases
      case 1
      then show ?thesis using n by simp
    next
      case 2
      then have "\<not> 8 * r \<le> 8 * q + n" using n by simp
      then show ?thesis using 2 n by (simp add: bit_simps)
    next
      case 3
      then have "8 \<le> 8 * q + n - 8 * r" by simp
      then have "\<not> bit b (8 * q + n - 8 * r)" "\<not> 8 * q + n - 8 * r < 8" by (auto dest: bit_imp_le_length)
      then show ?thesis using 3 n by (simp add: bit_simps)
    qed
  qed
  finally show "bit (ucast (drop_bit (8 * q) ((w AND NOT (push_bit (8 * r) 0xFF)) OR push_bit (8 * r) (ucast b))) :: u8) n =
      bit (if q = r then b else ucast (drop_bit (8 * q) w)) n" .
qed

lemma get_put_byte:
  assumes "k div 4 < length ws"
  shows "get_byte (put_byte ws k b) j = (if j = k then b else get_byte ws j)"
proof (cases "j div 4 = k div 4")
  case True
  then have "j = k \<longleftrightarrow> j mod 4 = k mod 4" by (metis div_mult_mod_eq)
  moreover have "get_byte (put_byte ws k b) j = (if j mod 4 = k mod 4 then b else get_byte ws j)"
    unfolding get_byte_def put_byte_def using True assms byte_in_word [of "j mod 4" "k mod 4"]
    by (simp only: nth_list_update_eq)
  ultimately show ?thesis by simp
next
  case False
  then show ?thesis by (auto simp: get_byte_def put_byte_def)
qed

lemma get_put_bytes:
  assumes "k + length bs \<le> 4 * length ws"
  shows "get_byte (put_bytes ws k bs) j =
    (if k \<le> j \<and> j < k + length bs then bs ! (j - k) else get_byte ws j)"
  using assms
proof (induction bs arbitrary: ws k)
  case (Cons b bs)
  have k: "k div 4 < length ws" using Cons.prems by (simp add: div_less_iff_less_mult)
  have "get_byte (put_bytes ws k (b # bs)) j =
      (if k + 1 \<le> j \<and> j < k + 1 + length bs then bs ! (j - (k + 1)) else get_byte (put_byte ws k b) j)"
    using Cons.IH [of "k + 1" "put_byte ws k b"] Cons.prems by (simp add: put_byte_def)
  then show ?case by (auto simp: get_put_byte [OF k] nth_Cons')
qed auto

lemma take_put_byte: "4 * n \<le> k \<Longrightarrow> take n (put_byte ws k b) = take n ws"
  by (simp add: put_byte_def less_eq_div_iff_mult_less_eq mult.commute)

lemma take_put_bytes: "4 * n \<le> k \<Longrightarrow> take n (put_bytes ws k bs) = take n ws"
  by (induction ws k bs rule: put_bytes.induct) (simp_all add: take_put_byte)

section \<open>What is written is read back\<close>

text \<open>The values each kind of token can carry, and when two values are the same for it.\<close>

definition tok_fits :: "nat \<Rightarrow> u32 \<Rightarrow> cvalue \<Rightarrow> bool" where
  "tok_fits ldw t cv \<longleftrightarrow>
     (signed_tok t \<longrightarrow> cv_i cv = scast (ucast (cv_i cv) :: u32)) \<and>
     (unsigned_tok t \<longrightarrow> cv_i cv = ucast (ucast (cv_i cv) :: u32)) \<and>
     (string_tok t \<longrightarrow> length (cv_str cv) < 2 ^ 31) \<and>
     (t = 0xcc \<longrightarrow> 2 \<le> ldw \<and> ldw \<le> 4)"

definition same_value :: "nat \<Rightarrow> u32 \<Rightarrow> cvalue \<Rightarrow> cvalue \<Rightarrow> bool" where
  "same_value ldw t cv cv' \<longleftrightarrow>
     (signed_tok t \<or> unsigned_tok t \<or> wide_tok t \<longrightarrow> cv_i cv' = cv_i cv) \<and>
     (string_tok t \<longrightarrow> cv_str cv' = cv_str cv) \<and>
     (t = 0xca \<longrightarrow> cv_tab cv' 0 = cv_tab cv 0) \<and>
     (t = 0xcc \<longrightarrow> (\<forall>i < ldw. cv_tab cv' i = cv_tab cv i))"

lemma u64_halves: "(push_bit 32 (drop_bit 32 x) OR ucast (ucast x :: u32) :: u64) = x"
  "(take_bit 32 x OR push_bit 32 (ucast (ucast (drop_bit 32 x) :: u32)) :: u64) = x"
  by (rule bit_word_eqI, auto simp: bit_simps)+

lemma half_words:
  "ucast (push_bit 32 (drop_bit 32 x) OR ucast (w :: u32) :: u64) = w"
  "(ucast (drop_bit 32 (push_bit 32 (drop_bit 32 x) OR ucast (w :: u32) :: u64)) :: u32) = ucast (drop_bit 32 x)"
  "(ucast (take_bit 32 x OR push_bit 32 (ucast (w :: u32)) :: u64) :: u32) = ucast x"
  "(ucast (drop_bit 32 (take_bit 32 x OR push_bit 32 (ucast (w :: u32)) :: u64)) :: u32) = w"
  by (rule bit_word_eqI, auto simp: bit_simps dest: bit_imp_le_length)+

lemma set_tab_0: "cv_tab (set_tab 0 w cv) 0 = w" "cv_tab (set_tab 0 w cv) (Suc 0) = cv_tab cv (Suc 0)"
  "cv_tab (set_tab (Suc 0) w cv) 0 = cv_tab cv 0" "cv_tab (set_tab (Suc 0) w cv) (Suc 0) = w"
  using half_words [of "cv_i cv" w] by (simp_all only: cv_tab_def set_tab_def if_True if_False simp_thms
      One_nat_def nat.simps cvalue.select_convs cvalue.update_convs refl, simp_all)

lemma cv_i_tab: "cv_tab cv 0 = cv_tab cv' 0 \<Longrightarrow> cv_tab cv 1 = cv_tab cv' 1 \<Longrightarrow> cv_i cv = cv_i cv'"
proof -
  assume a: "cv_tab cv 0 = cv_tab cv' 0" "cv_tab cv 1 = cv_tab cv' 1"
  have h: "x = push_bit 32 (ucast (ucast (drop_bit 32 x) :: u32)) OR ucast (ucast x :: u32)" for x :: u64
    by (rule bit_word_eqI) (auto simp: bit_simps)
  show ?thesis using h [of "cv_i cv"] h [of "cv_i cv'"] a by (simp add: cv_tab_def)
qed

lemma set_tab_other: "i \<noteq> j \<Longrightarrow> cv_tab (set_tab j w cv) i = cv_tab cv i"
proof -
  assume "i \<noteq> j"
  then consider "i = 0" "j = Suc 0" | "i = Suc 0" "j = 0" | "i \<ge> 2" | "i < 2" "j \<ge> 2" by linarith
  then show ?thesis using \<open>i \<noteq> j\<close> by cases (simp_all add: set_tab_0, auto simp: cv_tab_def set_tab_def)
qed

lemma set_tab_same: "i < 2 + length (cv_hi cv) \<Longrightarrow> cv_tab (set_tab i w cv) i = w"
proof -
  assume "i < 2 + length (cv_hi cv)"
  then consider "i = 0" | "i = Suc 0" | "i \<ge> 2" "i - 2 < length (cv_hi cv)" by linarith
  then show ?thesis by cases (simp_all add: set_tab_0, simp add: cv_tab_def set_tab_def)
qed

lemma length_cv_hi [simp]: "length (cv_hi (set_tab i w cv)) = length (cv_hi cv)"
  by (simp add: set_tab_def)

lemma set_tabs_length: "length (cv_hi (fold (\<lambda>i. set_tab i (f i)) [0..<n] cv)) = length (cv_hi cv)"
  by (induction n) simp_all

lemma set_tabs:
  "n \<le> 2 + length (cv_hi cv) \<Longrightarrow> i < n \<Longrightarrow> cv_tab (fold (\<lambda>i. set_tab i (f i)) [0..<n] cv) i = f i \<and>
     length (cv_hi (fold (\<lambda>i. set_tab i (f i)) [0..<n] cv)) = length (cv_hi cv)"
proof (induction n)
  case (Suc n)
  show ?case using Suc set_tabs_length [of f n cv] by (cases "i = n") (simp_all add: set_tab_same set_tab_other)
qed simp

definition cv_ok :: "nat \<Rightarrow> cvalue \<Rightarrow> bool" where
  "cv_ok ldw cv \<longleftrightarrow> length (cv_hi cv) = ldw - 2"

text \<open>At p, and with any earlier contents of the value, the token t with the value of cv is read, up to p'.\<close>

definition reads :: "nat \<Rightarrow> u32 list \<Rightarrow> nat \<Rightarrow> u32 \<Rightarrow> cvalue \<Rightarrow> nat \<Rightarrow> bool" where
  "reads ldw ws p t cv p' \<longleftrightarrow>
     (\<forall>cv0. cv_ok ldw cv0 \<longrightarrow>
        (\<exists>cv'. TOK_GET ldw ws p cv0 = (t, cv', p') \<and> cv_ok ldw cv' \<and> same_value ldw t cv cv'))"

lemma tok_const_cases:
  "(0xc0 \<le>s t \<and> t \<le>s 0xcf) \<longleftrightarrow> signed_tok t \<or> unsigned_tok t \<or> string_tok t \<or> wide_tok t \<or> t = 0xca \<or> t = 0xcc"
proof
  assume a: "0xc0 \<le>s t \<and> t \<le>s (0xcf :: u32)"
  then have s: "192 \<le> sint t" "sint t \<le> 207" by (simp_all add: word_sle_eq)
  then have "uint t = sint t" by (simp add: uint_eq_sint)
  then have "nat (uint t) \<in> {192..207}" using s by (auto simp: le_nat_iff nat_le_iff)
  then have "unat t \<in> {192..207}" by simp
  then have "unat t \<in> set [192, 193, 194, 195, 196, 197, 198, 199, 200, 201, 202, 203, 204, 205, 206, 207]"
    by (simp add: atLeastAtMost_upt upt_rec)
  then have "t \<in> set [192, 193, 194, 195, 196, 197, 198, 199, 200, 201, 202, 203, 204, 205, 206, 207]"
    by (auto simp: word_unat_eq_iff)
  then show "signed_tok t \<or> unsigned_tok t \<or> string_tok t \<or> wide_tok t \<or> t = 0xca \<or> t = 0xcc"
    by (auto simp: tok_kinds)
next
  assume "signed_tok t \<or> unsigned_tok t \<or> string_tok t \<or> wide_tok t \<or> t = 0xca \<or> t = 0xcc"
  then show "0xc0 \<le>s t \<and> t \<le>s (0xcf :: u32)" by (auto simp: tok_kinds word_sle_eq)
qed

lemma str_words_room: "n \<le> 4 * str_words n"
  by (simp add: str_words_def)

text \<open>The common part of tok_str_add2: room is made and the token written.\<close>

lemma add2_start:
  assumes "tok_str_ok s"
  obtains s2 where "len s2 = Suc (len s)" "len s + 4 < length (str s2)" "str s2 ! len s = t"
    "take (len s) (str s2) = take (len s) (str s)"
    "put_word t (if len s + 4 \<ge> length (str s) then tok_str_realloc junk (len s + 4 + 1) s else s) = s2"
proof -
  let ?s1 = "if len s + 4 \<ge> length (str s) then tok_str_realloc junk (len s + 4 + 1) s else s"
  note r = room [OF assms refl, of 4 junk]
  show ?thesis
  proof (rule that [of "put_word t ?s1"])
    have "len ?s1 < length (str ?s1)" using r(1,2) by linarith
    then have "str (put_word t ?s1) ! len ?s1 = t" by (rule put_word_simps(4))
    then show "str (put_word t ?s1) ! len s = t" unfolding r(1) .
    have "take (len s) (str (put_word t ?s1)) = take (len s) (str ?s1)"
      using r(1) by (intro put_word_simps(5)) linarith
    then show "take (len s) (str (put_word t ?s1)) = take (len s) (str s)" unfolding r(3) .
    show "len (put_word t ?s1) = Suc (len s)" "len s + 4 < length (str (put_word t ?s1))"
      using r(1,2) by (simp_all only: put_word_simps)
  qed (rule refl)
qed

text \<open>Tokens whose value is a run of words.\<close>

lemma words_kept:
  assumes "len s2 = Suc k" "k + 4 < length (str s2)" "length ws \<le> 4"
    and "take k (str s2) = take k r" "str s2 ! k = t"
  shows "let s' = fold put_word ws s2 in
    len s' = Suc k + length ws \<and> len s' \<le> length (str s') \<and> take k (str s') = take k r \<and>
    str s' ! k = t \<and> (\<forall>i < length ws. str s' ! (Suc k + i) = ws ! i)"
proof -
  let ?s = "fold put_word ws s2"
  have w: "len ?s = Suc k + length ws" "length (str ?s) = length (str s2)"
      "take (Suc k) (str ?s) = take (Suc k) (str s2)" "\<forall>i < length ws. str ?s ! (Suc k + i) = ws ! i"
    using put_words [of s2 ws] assms(1-3) by (simp_all add: Let_def)
  have "take k (str ?s) = take k (take (Suc k) (str ?s))" by simp
  then have p: "take k (str ?s) = take k r" unfolding w(3) using assms(4) by simp
  have "str ?s ! k = take (Suc k) (str ?s) ! k" by simp
  then have "str ?s ! k = t" unfolding w(3) using assms(5) by simp
  then show ?thesis using w p assms(2,3) by (simp add: Let_def)
qed

lemma take_nth: "take n xs = take n ys \<Longrightarrow> i < n \<Longrightarrow> xs ! i = ys ! i"
  by (metis nth_take)

definition value_words :: "nat \<Rightarrow> u32 \<Rightarrow> cvalue \<Rightarrow> u32 list" where
  "value_words ldw t cv =
     (if signed_tok t \<or> unsigned_tok t \<or> t = 0xca then [cv_tab cv 0]
      else if wide_tok t then [cv_tab cv 0, cv_tab cv 1]
      else if t = 0xcc then map (cv_tab cv) [0..<ldw] else [])"

lemma put_value_words:
  "(if signed_tok t \<or> unsigned_tok t \<or> t = 0xca then put_word (cv_tab cv 0) s2
    else if wide_tok t then put_word (cv_tab cv 1) (put_word (cv_tab cv 0) s2)
    else if t = 0xcc then fold (\<lambda>i. put_word (cv_tab cv i)) [0..<ldw] s2 else s2) = fold put_word (value_words ldw t cv) s2"
  by (simp add: value_words_def fold_map comp_def)

lemma add2_words:
  assumes s: "tok_str_ok s" and k: "\<not> string_tok t" and l: "length (value_words ldw t cv) \<le> 4"
    and s': "s' = tok_str_add2 junk ldw t cv s"
  shows "continues_str s s' \<and> len s' = Suc (len s) + length (value_words ldw t cv) \<and> str s' ! len s = t \<and>
    (\<forall>i < length (value_words ldw t cv). str s' ! (Suc (len s) + i) = value_words ldw t cv ! i)"
proof -
  obtain s2 where s2: "len s2 = Suc (len s)" "len s + 4 < length (str s2)" "str s2 ! len s = t"
      "take (len s) (str s2) = take (len s) (str s)"
      "put_word t (if len s + 4 \<ge> length (str s) then tok_str_realloc junk (len s + 4 + 1) s else s) = s2"
    using add2_start [OF s, of t junk] by blast
  have "s' = fold put_word (value_words ldw t cv) s2"
    unfolding s' tok_str_add2_def Let_def s2(5) put_value_words [symmetric] using k by (simp only: if_False)
  then show ?thesis
    using words_kept [OF s2(1,2) l s2(4,3)] by (auto simp: Let_def continues_str_def)
qed

lemma kinds_disjoint:
  "signed_tok t \<Longrightarrow> \<not> unsigned_tok t \<and> \<not> string_tok t \<and> \<not> wide_tok t \<and> t \<noteq> 0xca \<and> t \<noteq> 0xcc"
  "unsigned_tok t \<Longrightarrow> \<not> signed_tok t \<and> \<not> string_tok t \<and> \<not> wide_tok t \<and> t \<noteq> 0xca \<and> t \<noteq> 0xcc"
  "string_tok t \<Longrightarrow> \<not> signed_tok t \<and> \<not> unsigned_tok t \<and> \<not> wide_tok t \<and> t \<noteq> 0xca \<and> t \<noteq> 0xcc"
  "wide_tok t \<Longrightarrow> \<not> signed_tok t \<and> \<not> unsigned_tok t \<and> \<not> string_tok t \<and> t \<noteq> 0xca \<and> t \<noteq> 0xcc"
  "\<not> signed_tok 0xca \<and> \<not> unsigned_tok 0xca \<and> \<not> string_tok 0xca \<and> \<not> wide_tok 0xca"
  "\<not> signed_tok 0xcc \<and> \<not> unsigned_tok 0xcc \<and> \<not> string_tok 0xcc \<and> \<not> wide_tok 0xcc"
  by (auto simp: tok_kinds)

lemma tok_get_signed: "signed_tok (ws ! p) \<Longrightarrow> tok_get ldw ws p cv = (ws ! p, cv\<lparr>cv_i := scast (ws ! Suc p)\<rparr>, Suc (Suc p))"
   by (simp add: tok_get_def Let_def)

lemma tok_get_unsigned: "unsigned_tok (ws ! p) \<Longrightarrow> tok_get ldw ws p cv = (ws ! p, cv\<lparr>cv_i := ucast (ws ! Suc p)\<rparr>, Suc (Suc p))"
  using kinds_disjoint(2) [of "ws ! p"] by (simp add: tok_get_def Let_def)

lemma tok_get_float: "ws ! p = 0xca \<Longrightarrow> tok_get ldw ws p cv = (0xca, set_tab 0 (ws ! Suc p) cv, Suc (Suc p))"
  using kinds_disjoint(5) by (simp add: tok_get_def Let_def)

lemma tok_get_string: "string_tok (ws ! p) \<Longrightarrow> tok_get ldw ws p cv = 
     (ws ! p, cv\<lparr>cv_str := map (\<lambda>k. get_byte ws (4 * Suc (Suc p) + k)) [0..<unat (ws ! Suc p)]\<rparr>,
      Suc (Suc p) + str_words (unat (ws ! Suc p)))"
  using kinds_disjoint(3) [of "ws ! p"] by (simp add: tok_get_def Let_def)

lemma tok_get_wide: "wide_tok (ws ! p) \<Longrightarrow> tok_get ldw ws p cv = 
     (ws ! p, set_tab 1 (ws ! Suc (Suc p)) (set_tab 0 (ws ! Suc p) cv), Suc (Suc (Suc p)))"
  using kinds_disjoint(4) [of "ws ! p"] by (simp add: tok_get_def Let_def)

lemma tok_get_ld: "ws ! p = 0xcc \<Longrightarrow> tok_get ldw ws p cv = 
     (0xcc, fold (\<lambda>i. set_tab i (ws ! (Suc p + i))) [0..<ldw] cv, Suc p + ldw)"
  using kinds_disjoint(6) by (simp add: tok_get_def Let_def)

lemma TOK_GET_const:
  "signed_tok (ws ! p) \<or> unsigned_tok (ws ! p) \<or> string_tok (ws ! p) \<or> wide_tok (ws ! p) \<or> ws ! p = 0xca \<or> ws ! p = 0xcc \<Longrightarrow>
   TOK_GET ldw ws p cv = tok_get ldw ws p cv"
  unfolding TOK_GET_def tok_const_cases by (rule if_P)

lemma add2_one:
  assumes "tok_str_ok s" "signed_tok t \<or> unsigned_tok t \<or> t = 0xca" "s' = tok_str_add2 junk ldw t cv s"
  shows "continues_str s s' \<and> len s' = Suc (Suc (len s)) \<and> str s' ! len s = t \<and> str s' ! Suc (len s) = cv_tab cv 0"
proof -
  have v: "value_words ldw t cv = [cv_tab cv 0]" unfolding value_words_def using assms(2) by (rule if_P)
  have "\<not> string_tok t" using assms(2) kinds_disjoint by blast
  then show ?thesis using add2_words [OF assms(1) _ _ assms(3)] unfolding v by simp
qed

lemma add2_two:
  assumes "tok_str_ok s" "wide_tok t" "s' = tok_str_add2 junk ldw t cv s"
  shows "continues_str s s' \<and> len s' = Suc (Suc (Suc (len s))) \<and> str s' ! len s = t \<and>
      str s' ! Suc (len s) = cv_tab cv 0 \<and> str s' ! Suc (Suc (len s)) = cv_tab cv 1"
proof -
  note k = kinds_disjoint(4) [OF assms(2)]
  have v: "value_words ldw t cv = [cv_tab cv 0, cv_tab cv 1]" using k assms(2) by (simp add: value_words_def)
  have "\<not> string_tok t" using k by blast
  then show ?thesis using add2_words [OF assms(1) _ _ assms(3)] unfolding v by (simp add: less_Suc_eq all_conj_distrib)
qed

lemma add2_ld:
  assumes "tok_str_ok s" "t = 0xcc" "ldw \<le> 4" "s' = tok_str_add2 junk ldw t cv s"
  shows "continues_str s s' \<and> len s' = Suc (len s) + ldw \<and> str s' ! len s = t \<and>
      (\<forall>i < ldw. str s' ! (Suc (len s) + i) = cv_tab cv i)"
proof -
  have v: "value_words ldw t cv = map (cv_tab cv) [0..<ldw]" using kinds_disjoint(6) assms(2) by (simp add: value_words_def)
  have "\<not> string_tok t" using kinds_disjoint(6) assms(2) by simp
  then show ?thesis using add2_words [OF assms(1) _ _ assms(4)] assms(3) unfolding v by simp
qed

lemma add2_plain:
  assumes "tok_str_ok s" "\<not> (0xc0 \<le>s t \<and> t \<le>s 0xcf)" "s' = tok_str_add2 junk ldw t cv s"
  shows "continues_str s s' \<and> len s' = Suc (len s) \<and> str s' ! len s = t"
proof -
  have k: "\<not> signed_tok t" "\<not> unsigned_tok t" "\<not> string_tok t" "\<not> wide_tok t" "t \<noteq> 0xca" "t \<noteq> 0xcc"
    using assms(2) unfolding tok_const_cases by blast+
  have v: "value_words ldw t cv = []" using k by (simp add: value_words_def)
  show ?thesis using add2_words [OF assms(1) k(3) _ assms(3)] unfolding v by simp
qed

lemma add2_string:
  assumes s: "tok_str_ok s" "string_tok t" and s': "s' = tok_str_add2 junk ldw t cv s"
  shows "continues_str s s' \<and> len s' = Suc (Suc (len s)) + str_words (length (cv_str cv)) \<and> str s' ! len s = t \<and>
    str s' ! Suc (len s) = of_nat (length (cv_str cv)) \<and>
    (\<forall>j < length (cv_str cv). get_byte (str s') (4 * Suc (Suc (len s)) + j) = cv_str cv ! j)"
proof -
  let ?k = "len s" and ?n = "length (cv_str cv)"
  let ?nb = "1 + str_words ?n"
  obtain s2 where s2: "len s2 = Suc ?k" "?k + 4 < length (str s2)" "str s2 ! ?k = t"
      "take ?k (str s2) = take ?k (str s)"
      "put_word t (if ?k + 4 \<ge> length (str s) then tok_str_realloc junk (?k + 4 + 1) s else s) = s2"
    using add2_start [OF s(1), of t junk] by blast
  obtain s3 where s3: "s3 = (if len s2 + ?nb \<ge> length (str s2) then tok_str_realloc junk (len s2 + ?nb + 1) s2 else s2)"
    by blast
  have ok2: "tok_str_ok s2" using s2 by (simp add: tok_str_ok_def)
  note r = room [OF ok2 s3]
  have ns: "\<not> signed_tok t" "\<not> unsigned_tok t" "t \<noteq> 0xca" using kinds_disjoint(3) [OF s(2)] by simp_all
  let ?a = "(str s3)[Suc ?k := of_nat ?n :: u32]"
  have fin: "s' = s3\<lparr>str := put_bytes ((str s3)[len s3 := of_nat ?n]) (4 * (len s3 + 1)) (cv_str cv), len := len s3 + ?nb\<rparr>"
    unfolding s' tok_str_add2_def Let_def s2(5)
    by (simp only: ns s(2) if_False if_True s3 [symmetric] simp_thms)
  have l: "len s' = Suc (Suc ?k) + str_words ?n" "str s' = put_bytes ?a (4 * Suc (Suc ?k)) (cv_str cv)"
    using fin r(1) s2(1) by simp_all
  have room3: "Suc (Suc ?k) + str_words ?n < length (str s3)" using r(2) s2(1) by simp
  have t: "take (Suc (Suc ?k)) (str s') = take (Suc (Suc ?k)) ?a" unfolding l(2) by (rule take_put_bytes) simp
  have a3: "take (Suc ?k) ?a = take (Suc ?k) (str s2)" using r(3) s2(1) by simp
  have "take (Suc ?k) (str s') = take (Suc ?k) (take (Suc (Suc ?k)) (str s'))" by simp
  then have t1: "take (Suc ?k) (str s') = take (Suc ?k) (str s2)" unfolding t using a3 by simp
  have "take ?k (str s') = take ?k (take (Suc ?k) (str s'))" by simp
  then have "take ?k (str s') = take ?k (str s)" unfolding t1 using s2(4) by simp
  then have c: "continues_str s s'" using l room3 by (simp add: continues_str_def)
  have "str s' ! Suc ?k = ?a ! Suc ?k" using t by (rule take_nth) simp
  then have w: "str s' ! Suc ?k = of_nat ?n" using room3 by simp
  have "str s' ! ?k = str s2 ! ?k" using t1 by (rule take_nth) simp
  then have h: "str s' ! ?k = t" using s2(3) by simp
  have "4 * Suc (Suc ?k) + ?n \<le> 4 * length ?a" using room3 str_words_room [of ?n] by simp
  then have "get_byte (str s') (4 * Suc (Suc ?k) + j) = cv_str cv ! j" if "j < ?n" for j
    unfolding l(2) using get_put_bytes that by simp
  then show ?thesis using c l w h by simp
qed

lemma get_byte_cong: "ws ! (k div 4) = xs ! (k div 4) \<Longrightarrow> get_byte ws k = get_byte xs k"
  by (simp add: get_byte_def)

text \<open>The central lemma: a token that is added is read back from any array that begins the same.\<close>

lemma add2_reads:
  assumes s: "tok_str_ok s" "tok_fits ldw t cv" and s': "s' = tok_str_add2 junk ldw t cv s"
    and ws: "\<And>i. i < len s' \<Longrightarrow> ws ! i = str s' ! i"
  shows "continues_str s s' \<and> reads ldw ws (len s) t cv (len s')"
proof -
  consider (sg) "signed_tok t" | (us) "unsigned_tok t" | (fl) "t = 0xca" | (st) "string_tok t" | (two) "wide_tok t"
    | (ld) "t = 0xcc" | (plain) "\<not> (0xc0 \<le>s t \<and> t \<le>s 0xcf)"
    using tok_const_cases by blast
  then show ?thesis
  proof cases
    case sg
    have A: "continues_str s s' \<and> len s' = Suc (Suc (len s)) \<and> str s' ! len s = t \<and> str s' ! Suc (len s) = cv_tab cv 0"
      using add2_one [OF s(1) _ s'] sg by simp
    then have v: "ws ! len s = t" "ws ! Suc (len s) = cv_tab cv 0" using ws by simp_all
    have "cv_i cv = scast (cv_tab cv 0)" using s(2) sg by (simp add: tok_fits_def cv_tab_def)
    then show ?thesis
      using A v sg kinds_disjoint(1) [OF sg] tok_get_signed [of ws "len s" ldw] TOK_GET_const [of ws "len s" ldw]
      by (simp add: reads_def same_value_def cv_ok_def)
  next
    case us
    have A: "continues_str s s' \<and> len s' = Suc (Suc (len s)) \<and> str s' ! len s = t \<and> str s' ! Suc (len s) = cv_tab cv 0"
      using add2_one [OF s(1) _ s'] us by simp
    then have v: "ws ! len s = t" "ws ! Suc (len s) = cv_tab cv 0" using ws by simp_all
    have "cv_i cv = ucast (cv_tab cv 0)" using s(2) us by (simp add: tok_fits_def cv_tab_def)
    then show ?thesis
      using A v us kinds_disjoint(2) [OF us] tok_get_unsigned [of ws "len s" ldw] TOK_GET_const [of ws "len s" ldw]
      by (simp add: reads_def same_value_def cv_ok_def)
  next
    case fl
    have A: "continues_str s s' \<and> len s' = Suc (Suc (len s)) \<and> str s' ! len s = t \<and> str s' ! Suc (len s) = cv_tab cv 0"
      using add2_one [OF s(1) _ s'] fl by simp
    then have v: "ws ! len s = t" "ws ! Suc (len s) = cv_tab cv 0" using ws by simp_all
    then show ?thesis
      using A fl kinds_disjoint(5) tok_get_float [of ws "len s" ldw] TOK_GET_const [of ws "len s" ldw]
      by (simp add: reads_def same_value_def cv_ok_def set_tab_0)
  next
    case st
    let ?n = "length (cv_str cv)"
    have A: "continues_str s s' \<and> len s' = Suc (Suc (len s)) + str_words ?n \<and> str s' ! len s = t \<and>
        str s' ! Suc (len s) = of_nat ?n \<and> (\<forall>j < ?n. get_byte (str s') (4 * Suc (Suc (len s)) + j) = cv_str cv ! j)"
      by (rule add2_string [OF s(1) st s'])
    then have v: "ws ! len s = t" "ws ! Suc (len s) = of_nat ?n" using ws by simp_all
    have n: "unat (of_nat ?n :: u32) = ?n"
      using s(2) st by (simp add: tok_fits_def unsigned_of_nat take_bit_nat_eq_self)
    have "get_byte ws (4 * Suc (Suc (len s)) + j) = cv_str cv ! j" if "j < ?n" for j
    proof -
      have "j div 4 < str_words ?n" using that by (simp add: str_words_def less_eq_div_iff_mult_less_eq div_less_iff_less_mult)
      then have "(4 * Suc (Suc (len s)) + j) div 4 < len s'" using A by simp
      then have "get_byte ws (4 * Suc (Suc (len s)) + j) = get_byte (str s') (4 * Suc (Suc (len s)) + j)"
        using ws by (intro get_byte_cong) simp
      then show ?thesis using A that by simp
    qed
    then have "map (\<lambda>j. get_byte ws (4 * Suc (Suc (len s)) + j)) [0..<?n] = cv_str cv"
      by (intro nth_equalityI) simp_all
    then show ?thesis
      using A v n st kinds_disjoint(3) [OF st] tok_get_string [of ws "len s" ldw] TOK_GET_const [of ws "len s" ldw]
      by (simp add: reads_def same_value_def cv_ok_def)
  next
    case two
    have A: "continues_str s s' \<and> len s' = Suc (Suc (Suc (len s))) \<and> str s' ! len s = t \<and>
        str s' ! Suc (len s) = cv_tab cv 0 \<and> str s' ! Suc (Suc (len s)) = cv_tab cv 1"
      by (rule add2_two [OF s(1) two s'])
    then have v: "ws ! len s = t" "ws ! Suc (len s) = cv_tab cv 0" "ws ! Suc (Suc (len s)) = cv_tab cv 1"
      using ws by simp_all
    have "cv_i (set_tab 1 (cv_tab cv 1) (set_tab 0 (cv_tab cv 0) cv0)) = cv_i cv" for cv0
      by (rule cv_i_tab) (simp_all add: set_tab_0)
    then show ?thesis
      using A v two kinds_disjoint(4) [OF two] tok_get_wide [of ws "len s" ldw] TOK_GET_const [of ws "len s" ldw]
      by (simp add: reads_def same_value_def cv_ok_def)
  next
    case ld
    have ldw: "2 \<le> ldw" "ldw \<le> 4" using s(2) ld by (simp_all add: tok_fits_def)
    have A: "continues_str s s' \<and> len s' = Suc (len s) + ldw \<and> str s' ! len s = t \<and>
        (\<forall>i < ldw. str s' ! (Suc (len s) + i) = cv_tab cv i)"
      by (rule add2_ld [OF s(1) ld ldw(2) s'])
    then have v: "ws ! len s = 0xcc" "\<And>i. i < ldw \<Longrightarrow> ws ! (Suc (len s) + i) = cv_tab cv i" using ws ld by simp_all
    have "fold (\<lambda>i. set_tab i (ws ! (Suc (len s) + i))) [0..<ldw] cv0 =
        fold (\<lambda>i. set_tab i (cv_tab cv i)) [0..<ldw] cv0" for cv0
      using v(2) by (intro fold_cong) auto
    then have "TOK_GET ldw ws (len s) cv0 = (t, fold (\<lambda>i. set_tab i (cv_tab cv i)) [0..<ldw] cv0, len s')" for cv0
      using v(1) A ld tok_get_ld [of ws "len s" ldw] TOK_GET_const [of ws "len s" ldw] by simp
    then show ?thesis
      using A set_tabs [of ldw _ _ "cv_tab cv"] ldw ld kinds_disjoint(6)
      by (auto simp: reads_def same_value_def cv_ok_def set_tabs_length)
  next
    case plain
    have A: "continues_str s s' \<and> len s' = Suc (len s) \<and> str s' ! len s = t"
      by (rule add2_plain [OF s(1) plain s'])
    then have "ws ! len s = t" using ws by simp
    then show ?thesis
      using plain A unfolding reads_def TOK_GET_def same_value_def tok_const_cases by simp
  qed
qed

section \<open>Properties\<close>

primrec add_tokens :: "(nat \<Rightarrow> u32) \<Rightarrow> nat \<Rightarrow> (u32 \<times> cvalue) list \<Rightarrow> token_string \<Rightarrow> token_string" where
  "add_tokens junk ldw [] s = s"
| "add_tokens junk ldw (tc # ts) s = add_tokens junk ldw ts (tok_str_add2 junk ldw (fst tc) (snd tc) s)"

text \<open>The array of a macro body: the tokens and the 0 that ends it.\<close>

definition token_array :: "(nat \<Rightarrow> u32) \<Rightarrow> nat \<Rightarrow> (u32 \<times> cvalue) list \<Rightarrow> u32 list" where
  "token_array junk ldw ts = str (tok_str_add junk 0 (add_tokens junk ldw ts tok_str_new))"

definition tokens_fit :: "nat \<Rightarrow> (u32 \<times> cvalue) list \<Rightarrow> bool" where
  "tokens_fit ldw ts \<longleftrightarrow> (\<forall>(t, cv) \<in> set ts. t \<noteq> 0 \<and> tok_fits ldw t cv)"

text \<open>From p on the array holds the tokens of a list and then 0.\<close>

fun holds :: "nat \<Rightarrow> u32 list \<Rightarrow> nat \<Rightarrow> (u32 \<times> cvalue) list \<Rightarrow> bool" where
  "holds ldw ws p [] \<longleftrightarrow> word_at ws p = 0"
| "holds ldw ws p ((t, cv) # ts) \<longleftrightarrow> t \<noteq> 0 \<and> word_at ws p = t \<and> (\<exists>p'. reads ldw ws p t cv p' \<and> holds ldw ws p' ts)"

lemma continues_trans: "continues_str s s1 \<Longrightarrow> continues_str s1 s2 \<Longrightarrow> continues_str s s2"
  unfolding continues_str_def by (auto simp: min_def) (metis min_absorb1 take_take)

lemma continues_ok: "continues_str s s' \<Longrightarrow> tok_str_ok s'"
  by (simp add: continues_str_def tok_str_ok_def)

lemma tok_str_add_spec:
  assumes "tok_str_ok s"
  shows "continues_str s (tok_str_add junk t s)" "str (tok_str_add junk t s) ! len s = t"
    "len (tok_str_add junk t s) = Suc (len s)"
proof -
  let ?s1 = "if len s + 0 \<ge> length (str s) then tok_str_realloc junk (len s + 0 + 1) s else s"
  note r = room [OF assms refl, of 0 junk]
  have e: "tok_str_add junk t s = put_word t ?s1" by (simp add: tok_str_add_def)
  have l: "len ?s1 < length (str ?s1)" using r by simp
  show "len (tok_str_add junk t s) = Suc (len s)" unfolding e using r(1) by simp
  show "str (tok_str_add junk t s) ! len s = t" unfolding e using put_word_simps(4) [OF l] r(1) by simp
  show "continues_str s (tok_str_add junk t s)"
    unfolding e continues_str_def using r put_word_simps(5) [of "len s" ?s1 t] by simp
qed

lemma add2_continues: "tok_str_ok s \<Longrightarrow> tok_fits ldw t cv \<Longrightarrow> continues_str s (tok_str_add2 junk ldw t cv s)"
  using add2_reads [OF _ _ refl refl] by blast

lemma add_tokens_continues:
  "tok_str_ok s \<Longrightarrow> tokens_fit ldw ts \<Longrightarrow> continues_str s (add_tokens junk ldw ts s)"
proof (induction ts arbitrary: s)
  case Nil
  then show ?case by (simp add: continues_str_def tok_str_ok_def)
next
  case (Cons tc ts)
  then have "continues_str s (tok_str_add2 junk ldw (fst tc) (snd tc) s)"
    by (intro add2_continues) (auto simp: tokens_fit_def)
  then show ?case
    using Cons.IH [OF continues_ok] continues_trans Cons.prems(2) by (fastforce simp: tokens_fit_def)
qed

lemma add_tokens_holds:
  assumes "tok_str_ok s" "tokens_fit ldw ts" "s' = tok_str_add junk 0 (add_tokens junk ldw ts s)"
    and "\<And>i. i < len s' \<Longrightarrow> ws ! i = str s' ! i" "len s' \<le> length ws"
  shows "continues_str s s' \<and> len s < len s' \<and> holds ldw ws (len s) ts"
  using assms
proof (induction ts arbitrary: s)
  case Nil
  then show ?case using tok_str_add_spec [OF Nil.prems(1), of junk 0] by (simp add: word_at_def)
next
  case (Cons tc ts)
  obtain t cv where tc: "tc = (t, cv)" by fastforce
  let ?s1 = "tok_str_add2 junk ldw t cv s"
  have fit: "t \<noteq> 0" "tok_fits ldw t cv" "tokens_fit ldw ts" using Cons.prems(2) by (auto simp: tokens_fit_def tc)
  have c1: "continues_str s ?s1" by (rule add2_continues [OF Cons.prems(1) fit(2)])
  have IH: "continues_str ?s1 s' \<and> len ?s1 < len s' \<and> holds ldw ws (len ?s1) ts"
    using Cons.IH [OF continues_ok [OF c1] fit(3)] Cons.prems(3-5) by (simp add: tc)
  have "ws ! i = str ?s1 ! i" if "i < len ?s1" for i
    using take_nth [of "len ?s1" "str s'" "str ?s1" i] IH that Cons.prems(4) by (simp add: continues_str_def)
  then have r: "reads ldw ws (len s) t cv (len ?s1)" using add2_reads [OF Cons.prems(1) fit(2) refl] by blast
  have "TOK_GET ldw ws (len s) cv0 = (t', cv', p') \<Longrightarrow> t' = ws ! len s" for cv0 t' cv' p'
    by (auto simp: TOK_GET_def tok_get_def Let_def split: if_splits)
  moreover obtain cv0 where "cv_ok ldw cv0"
    using that [of "\<lparr>cv_i = 0, cv_str = [], cv_hi = replicate (ldw - 2) 0\<rparr>"] by (simp add: cv_ok_def)
  ultimately have h: "ws ! len s = t" using r unfolding reads_def by blast
  have "len s < length ws" using IH c1 Cons.prems(5) by (simp add: continues_str_def)
  then show ?case
    using IH c1 r h fit(1) continues_trans [OF c1] by (auto simp: tc word_at_def continues_str_def)
qed

lemma token_array_holds: "tokens_fit ldw ts \<Longrightarrow> holds ldw (token_array junk ldw ts) 0 ts"
proof -
  assume a: "tokens_fit ldw ts"
  let ?s = "tok_str_add junk 0 (add_tokens junk ldw ts tok_str_new)"
  have ok: "tok_str_ok tok_str_new" by (simp add: tok_str_ok_def tok_str_new_def)
  have "continues_str tok_str_new ?s"
    using add_tokens_continues [OF ok a] tok_str_add_spec(1) continues_ok continues_trans by blast
  then show ?thesis
    using add_tokens_holds [OF ok a refl, where ws = "str ?s"]
    by (simp add: token_array_def continues_str_def tok_str_new_def)
qed

text \<open>Reading an array to its end, as the loops over a macro body do.\<close>

function read_tokens :: "nat \<Rightarrow> u32 list \<Rightarrow> nat \<Rightarrow> cvalue \<Rightarrow> (u32 \<times> cvalue) list" where
  "read_tokens ldw ws p cv =
     (if word_at ws p = 0 then []
      else (case TOK_GET ldw ws p cv of (t, cv', p') \<Rightarrow> (t, cv') # read_tokens ldw ws p' cv'))"
  by pat_completeness auto
termination
  by (relation "measure (\<lambda>(l, ws, p, cv). length ws - p)")
     (auto simp: word_at_def split: if_splits dest!: TOK_GET_advances [OF sym])

declare read_tokens.simps [simp del]

lemma holds_read:
  "holds ldw ws p ts \<Longrightarrow> cv_ok ldw cv \<Longrightarrow>
   list_all2 (\<lambda>(t, cv) (t', cv'). t' = t \<and> same_value ldw t cv cv') ts (read_tokens ldw ws p cv)"
proof (induction ts arbitrary: p cv)
  case Nil
  then show ?case by (simp add: read_tokens.simps)
next
  case (Cons tc ts)
  obtain t c where tc: "tc = (t, c)" by fastforce
  obtain p' where p': "t \<noteq> 0" "word_at ws p = t" "reads ldw ws p t c p'" "holds ldw ws p' ts"
    using Cons.prems(1) by (auto simp: tc)
  obtain cv' where "TOK_GET ldw ws p cv = (t, cv', p')" "cv_ok ldw cv'" "same_value ldw t c cv'"
    using p'(3) Cons.prems(2) by (auto simp: reads_def)
  then show ?case using Cons.IH [OF p'(4)] p'(1,2) by (subst read_tokens.simps) (simp add: tc)
qed

text \<open>
  C25: token strings. Add any tokens with the values they can carry to a new token string, whatever the
  allocator returns, and end it with 0: reading it gives the same tokens with the same values, strings
  and long doubles included.
\<close>

theorem token_string_roundtrip:
  assumes "tokens_fit ldw ts" "cv_ok ldw cv"
  shows "list_all2 (\<lambda>(t, cv) (t', cv'). t' = t \<and> same_value ldw t cv cv') ts
    (read_tokens ldw (token_array junk ldw ts) 0 cv)"
  using holds_read [OF token_array_holds [OF assms(1)] assms(2)] .

definition demo_cv :: cvalue where "demo_cv = \<lparr>cv_i = 7, cv_str = [0x61, 0], cv_hi = [0, 0]\<rparr>"

theorem token_string_roundtrip_witness:
  "list_all2 (\<lambda>(t, cv) (t', cv'). t' = t \<and> same_value 4 t cv cv') [(0xc8, demo_cv), (0x2b, demo_cv), (0xc2, demo_cv)]
    (read_tokens 4 (token_array (\<lambda>i. of_nat i) 4 [(0xc8, demo_cv), (0x2b, demo_cv), (0xc2, demo_cv)]) 0 demo_cv)"
  by (rule token_string_roundtrip)
     (simp_all add: tokens_fit_def tok_fits_def tok_kinds demo_cv_def cv_ok_def)

lemma spell_same: "same_value ldw t cv cv' \<Longrightarrow> get_tok_str st t cv' = get_tok_str st t cv"
proof -
  assume a: "same_value ldw t cv cv'"
  have i: "cv_i cv' = cv_i cv" if "t \<in> {0xc2, 0xc3, 0xc6, 0xc7, 0xc4, 0xc5} \<or> t = 0xc1 \<or> t = 0xc0"
    using a that by (auto simp: same_value_def tok_kinds)
  have s: "cv_str cv' = cv_str cv" if "(t = 0xcd \<or> t = 0xce) \<or> (t = 0xc9 \<or> t = 0xc8)"
    using a that by (auto simp: same_value_def tok_kinds)
  show ?thesis
    unfolding get_tok_str_def
    by (intro if_cong refl arg_cong [where f = Some]) (simp_all only: i s simp_thms)
qed

lemma macro_loop_spelling:
  "holds ldw ws a ts \<Longrightarrow> holds ldw xs b us \<Longrightarrow> cv_ok ldw cv \<Longrightarrow>
   macro_loop ldw st ws a xs b cv \<longleftrightarrow>
     map (\<lambda>(t, cv). get_tok_str st t cv) ts = map (\<lambda>(t, cv). get_tok_str st t cv) us"
proof (induction ts arbitrary: us a b cv)
  case Nil
  then show ?case by (cases us) (auto simp: macro_loop.simps)
next
  case (Cons tc ts)
  obtain t c where tc: "tc = (t, c)" by fastforce
  obtain a' where a': "t \<noteq> 0" "word_at ws a = t" "reads ldw ws a t c a'" "holds ldw ws a' ts"
    using Cons.prems(1) by (auto simp: tc)
  obtain c1 where c1: "TOK_GET ldw ws a cv = (t, c1, a')" "cv_ok ldw c1" "same_value ldw t c c1"
    using a'(3) Cons.prems(3) by (auto simp: reads_def)
  show ?case
  proof (cases us)
    case Nil
    then show ?thesis using Cons.prems(2) a'(1,2) by (simp add: macro_loop.simps)
  next
    case (Cons ud us')
    obtain u d where ud: "ud = (u, d)" by fastforce
    obtain b' where b': "u \<noteq> 0" "word_at xs b = u" "reads ldw xs b u d b'" "holds ldw xs b' us'"
      using \<open>holds ldw xs b us\<close> by (auto simp: Cons ud)
    obtain c2 where c2: "TOK_GET ldw xs b c1 = (u, c2, b')" "cv_ok ldw c2" "same_value ldw u d c2"
      using b'(3) c1(2) by (auto simp: reads_def)
    show ?thesis
      using Cons.IH [OF a'(4) b'(4) c2(2)] a'(1,2) b'(1,2) c1(1) c2(1)
      by (subst macro_loop.simps) (simp add: tc ud Cons spell_same [OF c1(3)] spell_same [OF c2(3)])
  qed
qed

text \<open>
  C36: the comparison of macro definitions. For two macro bodies that hold lists of tokens, macro_is_equal
  says that the spellings of the tokens are the same, one by one, and in number.
\<close>

theorem macro_is_equal_spelling:
  assumes "tokens_fit ldw ts" "tokens_fit ldw us" "cv_ok ldw cv"
  shows "macro_is_equal ldw st (Some (token_array junk ldw ts)) (Some (token_array junk' ldw us)) cv \<longleftrightarrow>
    map (\<lambda>(t, cv). get_tok_str st t cv) ts = map (\<lambda>(t, cv). get_tok_str st t cv) us"
  unfolding macro_is_equal_def
  using macro_loop_spelling [OF token_array_holds [OF assms(1)] token_array_holds [OF assms(2)] assms(3)] by simp

text \<open>The bodies 7 and 7 + differ.\<close>

theorem macro_is_equal_spelling_witness:
  "\<not> macro_is_equal 4 tccpp_new_tokens (Some (token_array (\<lambda>i. of_nat i) 4 [(0xc2, demo_cv)]))
     (Some (token_array (\<lambda>i. 0) 4 [(0xc2, demo_cv), (0x2b, demo_cv)])) demo_cv"
  by (subst macro_is_equal_spelling)
     (simp_all add: tokens_fit_def tok_fits_def tok_kinds demo_cv_def cv_ok_def)

end
