(* ===== verification/Numbers.thy ===== *)
theory Numbers
  imports Escape
begin

text \<open>
  Numeric constants: parse_number (lines 14643-14899) with the 128-bit numbers of hexadecimal floats
  (bn_lshift, bn_zero, 14623-14642). The text is a C string; the cursor of the code is the character
  ch and the pointer p to the one after it. Floating-point arithmetic and strtod are not the compiler's
  own: the value of a float constant is the text handed to strtod, or the number and the exponent
  handed to ldexp. Characters are written by their codes: 0x2E is the point, 0x30 .. 0x39 the digits.
\<close>

definition byte_at :: "bytes \<Rightarrow> nat \<Rightarrow> u8" where
  "byte_at s i = (if i < length s then s ! i else 0)"

type_synonym cursor = "u8 \<times> nat"

definition next_ch :: "bytes \<Rightarrow> cursor \<Rightarrow> cursor" where
  "next_ch s c = (byte_at s (snd c), snd c + 1)"

definition toup :: "u8 \<Rightarrow> u8" where
  "toup c = (if 0x61 \<le> c \<and> c \<le> 0x7A then c - 0x61 + 0x41 else c)"

section \<open>Numbers of 128 bits\<close>

definition bn_zero :: "u32 list" where
  "bn_zero = replicate 4 0"

fun bn_shift_in :: "nat \<Rightarrow> u32 \<Rightarrow> u32 list \<Rightarrow> u32 list" where
  "bn_shift_in shift or_val [] = []"
| "bn_shift_in shift or_val (v # bn) =
     (push_bit shift v OR or_val) # bn_shift_in shift (drop_bit (32 - shift) v) bn"

definition bn_lshift :: "u32 list \<Rightarrow> nat \<Rightarrow> u32 \<Rightarrow> u32 list \<times> nat" where
  "bn_lshift bn shift or_val =
     (if drop_bit (32 - shift) (bn ! (4 - 1)) \<noteq> 0 then (bn, shift)
      else (bn_shift_in shift or_val bn, 0))"

section \<open>Digits\<close>

datatype number =
    Int_const u64
  | Dec_float bytes \<comment> \<open>the argument of strtod\<close>
  | Hex_float "u32 list" int \<comment> \<open>the arguments of ldexp\<close>

text \<open>The value of a digit among the letters and figures, as the first loop reads it.\<close>

definition digit_of :: "u8 \<Rightarrow> u8 option" where
  "digit_of ch =
     (if 0x61 \<le> ch \<and> ch \<le> 0x66 then Some (ch - 0x61 + 10)
      else if 0x41 \<le> ch \<and> ch \<le> 0x46 then Some (ch - 0x41 + 10)
      else if isnum ch then Some (ch - 0x30) else None)"

text \<open>The value of a character of token_buf, as the later loops read it.\<close>

definition buf_digit :: "u8 \<Rightarrow> u8" where
  "buf_digit t = (if t \<ge> 0x61 then t - 0x61 + 10 else if t \<ge> 0x41 then t - 0x41 + 10 else t - 0x30)"

text \<open>How far a cursor is from the end of the text; reading moves it there.\<close>

definition cursor_left :: "bytes \<Rightarrow> cursor \<Rightarrow> nat" where
  "cursor_left s c = (if fst c = 0 then 0 else length s - snd c + 1)"

lemma next_ch_left: "fst c \<noteq> 0 \<Longrightarrow> cursor_left s (next_ch s c) < cursor_left s c"
  by (auto simp: cursor_left_def next_ch_def byte_at_def)

lemma digit_of_0 [simp]: "digit_of 0 = None"
  by (simp add: digit_of_def isnum_def)

definition put_buf :: "bytes \<Rightarrow> u8 \<Rightarrow> bytes res" where
  "put_buf q ch = (if length q \<ge> 1024 then Inl ''number too long'' else Inr (q @ [ch]))"

function read_digits :: "bytes \<Rightarrow> u8 \<Rightarrow> bytes \<Rightarrow> cursor \<Rightarrow> (bytes \<times> cursor) res" where
  "read_digits s b q c =
     (case digit_of (fst c) of
        None \<Rightarrow> Inr (q, c)
      | Some t \<Rightarrow> if t \<ge> b then Inr (q, c)
                  else ebind (put_buf q (fst c)) (\<lambda>q. read_digits s b q (next_ch s c)))"
  by pat_completeness auto
termination
  by (relation "measure (\<lambda>(s, b, q, c). cursor_left s c)") (auto intro!: next_ch_left split: prod.splits)

declare read_digits.simps [simp del]

section \<open>Floats\<close>

fun bn_digits :: "nat \<Rightarrow> bytes \<Rightarrow> u32 list \<Rightarrow> int \<Rightarrow> u32 list \<times> int" where
  "bn_digits shift [] bn frac_bits = (bn, frac_bits)"
| "bn_digits shift (t # q) bn frac_bits =
     (let (bn, r) = bn_lshift bn shift (ucast (buf_digit t)) in
      bn_digits shift q bn (frac_bits - int r))"

function hex_fraction :: "bytes \<Rightarrow> u8 \<Rightarrow> nat \<Rightarrow> u32 list \<Rightarrow> int \<Rightarrow> cursor \<Rightarrow> (u32 list \<times> int \<times> cursor) res" where
  "hex_fraction s b shift bn frac_bits c =
     (case digit_of (fst c) of
        None \<Rightarrow> Inr (bn, frac_bits, c)
      | Some t \<Rightarrow>
          if t \<ge> b then Inl ''invalid digit''
          else (let (bn, r) = bn_lshift bn shift (ucast t) in
                hex_fraction s b shift bn (frac_bits - int r + int shift) (next_ch s c)))"
  by pat_completeness auto
termination
  by (relation "measure (\<lambda>(s, b, sh, bn, f, c). cursor_left s c)") (auto intro!: next_ch_left split: prod.splits)

declare hex_fraction.simps [simp del]

function exponent_digits :: "bytes \<Rightarrow> int \<Rightarrow> cursor \<Rightarrow> int \<times> cursor" where
  "exponent_digits s exp_val c =
     (if isnum (fst c)
      then exponent_digits s (if exp_val < 100000000 then exp_val * 10 + uint (fst c) - 0x30 else exp_val) (next_ch s c)
      else (exp_val, c))"
  by pat_completeness auto
termination
  by (relation "measure (\<lambda>(s, e, c). cursor_left s c)") (auto intro!: next_ch_left simp: isnum_def)

declare exponent_digits.simps [simp del]

text \<open>The suffix of a float: its token and the cursor after it.\<close>

definition float_suffix :: "bytes \<Rightarrow> cursor \<Rightarrow> u32 \<times> cursor" where
  "float_suffix s c =
     (if toup (fst c) = 0x46 then (0xca, next_ch s c)
      else if toup (fst c) = 0x4C then (0xcc, next_ch s c)
      else (0xcb, c))"

definition hex_float :: "bytes \<Rightarrow> u8 \<Rightarrow> bytes \<Rightarrow> cursor \<Rightarrow> (u32 \<times> number \<times> cursor) res" where
  "hex_float s b q c =
     (let shift = (if b = 16 then 4 else 1);
          (bn, frac_bits) = bn_digits shift q bn_zero 0 in
      ebind (if fst c = 0x2E then hex_fraction s b shift bn frac_bits (next_ch s c) else Inr (bn, frac_bits, c))
        (\<lambda>(bn, frac_bits, c).
          if fst c \<noteq> 0x70 \<and> fst c \<noteq> 0x50 then Inl ''%s expected''
          else
            (let c = next_ch s c;
                 sg = (if fst c = 0x2D then - 1 else 1);
                 c = (if fst c = 0x2B \<or> fst c = 0x2D then next_ch s c else c) in
             if \<not> isnum (fst c) then Inl ''%s expected''
             else
               (let (exp_val, c) = exponent_digits s 0 c;
                    (tok, c) = float_suffix s c in
                Inr (tok, Hex_float bn (exp_val * sg - frac_bits), c)))))"

function copy_digits :: "bytes \<Rightarrow> bytes \<Rightarrow> cursor \<Rightarrow> (bytes \<times> cursor) res" where
  "copy_digits s q c =
     (if isnum (fst c) then ebind (put_buf q (fst c)) (\<lambda>q. copy_digits s q (next_ch s c)) else Inr (q, c))"
  by pat_completeness auto
termination
  by (relation "measure (\<lambda>(s, q, c). cursor_left s c)") (auto intro!: next_ch_left simp: isnum_def)

declare copy_digits.simps [simp del]

text \<open>The exponent and the suffix of a decimal float.\<close>

definition dec_exponent :: "bytes \<Rightarrow> bytes \<Rightarrow> cursor \<Rightarrow> (u32 \<times> number \<times> cursor) res" where
  "dec_exponent s q c =
     ebind (if fst c = 0x65 \<or> fst c = 0x45 then
              ebind (put_buf q (fst c)) (\<lambda>q. let c = next_ch s c in
              ebind (if fst c = 0x2D \<or> fst c = 0x2B
                     then ebind (put_buf q (fst c)) (\<lambda>q. Inr (q, next_ch s c)) else Inr (q, c))
                (\<lambda>(q, c). if \<not> isnum (fst c) then Inl ''%s expected'' else copy_digits s q c))
            else Inr (q, c))
       (\<lambda>(q, c). let (tok, c) = float_suffix s c in Inr (tok, Dec_float q, c))"

definition float_frac_parse :: "bytes \<Rightarrow> bytes \<Rightarrow> cursor \<Rightarrow> (u32 \<times> number \<times> cursor) res" where
  "float_frac_parse s q c = ebind (copy_digits s q c) (\<lambda>(q, c). dec_exponent s q c)"

definition dec_float :: "bytes \<Rightarrow> bytes \<Rightarrow> cursor \<Rightarrow> (u32 \<times> number \<times> cursor) res" where
  "dec_float s q c =
     (if fst c = 0x2E then ebind (put_buf q (fst c)) (\<lambda>q. float_frac_parse s q (next_ch s c))
      else dec_exponent s q c)"

section \<open>Integers\<close>

text \<open>The value of the digits in base b, and whether it has overflowed.\<close>

fun int_value :: "u8 \<Rightarrow> bytes \<Rightarrow> u64 \<Rightarrow> bool \<Rightarrow> (u64 \<times> bool) res" where
  "int_value b [] n ov = Inr (n, ov)"
| "int_value b (c # q) n1 ov =
     (let t = buf_digit c in
      if t \<ge> b then Inl ''invalid digit''
      else (let n = n1 * ucast b + ucast t in
            int_value b q n (ov \<or> (n1 \<ge> 0x1000000000000000 \<and> n div ucast b \<noteq> n1))))"

text \<open>The suffix: the l's and u's it counts. p stands after the character ch.\<close>

function int_suffix :: "bytes \<Rightarrow> nat \<Rightarrow> nat \<Rightarrow> cursor \<Rightarrow> (nat \<times> nat \<times> cursor) res" where
  "int_suffix s lcount ucount c =
     (if toup (fst c) = 0x4C then
        (if lcount \<ge> 2 then Inl ''three l's in integer constant''
         else if lcount \<noteq> 0 \<and> byte_at s (snd c - 1) \<noteq> fst c then Inl ''incorrect integer suffix: %s''
         else int_suffix s (lcount + 1) ucount (next_ch s c))
      else if toup (fst c) = 0x55 then
        (if ucount \<ge> 1 then Inl ''two u's in integer constant''
         else int_suffix s lcount (ucount + 1) (next_ch s c))
      else Inr (lcount, ucount, c))"
  by pat_completeness auto
termination
  by (relation "measure (\<lambda>(s, l, u, c). cursor_left s c)") (auto intro!: next_ch_left simp: toup_def)

declare int_suffix.simps [simp del]

text \<open>
  The kind of the constant: the numbers of l's and u's its type has, and the overflow flag. A long has
  four bytes.
\<close>

definition int_kind :: "bool \<Rightarrow> u64 \<Rightarrow> nat \<Rightarrow> nat \<Rightarrow> bool \<Rightarrow> nat \<times> nat \<times> bool" where
  "int_kind decimal n lcount ucount ov =
     (if ucount = 0 \<and> decimal then
        (let lcount = (if lcount \<le> 1 \<and> n \<ge> 0x80000000 then 2 else lcount) in
         if n \<ge> 0x8000000000000000 then (lcount, 1, True) else (lcount, ucount, ov))
      else
        (let (lcount, ucount) =
               (if lcount \<le> 1 then
                  (if n \<ge> 0x100000000 then (2, ucount)
                   else if n \<ge> 0x80000000 then (lcount, 1) else (lcount, ucount))
                else (lcount, ucount)) in
         (lcount, if n \<ge> 0x8000000000000000 then 1 else ucount, ov)))"

definition int_tok :: "nat \<Rightarrow> nat \<Rightarrow> u32" where
  "int_tok lcount ucount =
     (if lcount \<noteq> 0 then (if lcount = 2 then 0xc4 else 0xc6) else 0xc2) + (if ucount \<noteq> 0 then 1 else 0)"

definition int_number :: "bytes \<Rightarrow> bool \<Rightarrow> u8 \<Rightarrow> bytes \<Rightarrow> cursor \<Rightarrow> (u32 \<times> number \<times> cursor \<times> warnings) res" where
  "int_number s pp_expr b q c =
     (let (b, q) = (if b = 10 \<and> peek q = 0x30 then (8, tl q) else (b, q)) in
      ebind (int_value b q 0 False) (\<lambda>(n, ov).
      ebind (int_suffix s 0 0 c) (\<lambda>(lcount, ucount, c).
        let lcount = (if pp_expr then 2 else lcount);
            (lcount, ucount, ov) = int_kind (b = 10) n lcount ucount ov in
        Inr (int_tok lcount ucount, Int_const n, c,
             if ov then [(''integer constant overflow'', 0)] else []))))"

section \<open>The whole function\<close>

text \<open>tcc_ext and pp_expr are the flag of the state and the global variable the code reads.\<close>

definition number_base :: "bool \<Rightarrow> bytes \<Rightarrow> u8 \<Rightarrow> cursor \<Rightarrow> u8 \<times> bytes \<times> cursor" where
  "number_base tcc_ext s t c =
     (if t = 0x30 \<and> (fst c = 0x78 \<or> fst c = 0x58) then (16, [], next_ch s c)
      else if t = 0x30 \<and> tcc_ext \<and> (fst c = 0x62 \<or> fst c = 0x42) then (2, [], next_ch s c)
      else (10, [t], c))"

definition is_float :: "u8 \<Rightarrow> u8 \<Rightarrow> bool" where
  "is_float b ch \<longleftrightarrow> ch = 0x2E \<or> ((ch = 0x65 \<or> ch = 0x45) \<and> b = 10) \<or>
     ((ch = 0x70 \<or> ch = 0x50) \<and> (b = 16 \<or> b = 2))"

definition float_number :: "bytes \<Rightarrow> u8 \<Rightarrow> bytes \<Rightarrow> cursor \<Rightarrow> (u32 \<times> number \<times> cursor \<times> warnings) res" where
  "float_number s b q c =
     ebind (if b \<noteq> 10 then hex_float s b q c else dec_float s q c) (\<lambda>(tok, v, c). Inr (tok, v, c, []))"

text \<open>The check at the end: nothing may follow the number.\<close>

definition number_end :: "u32 \<times> number \<times> cursor \<times> warnings \<Rightarrow> (u32 \<times> number \<times> warnings) res" where
  "number_end r = (case r of (tok, v, c, ws) \<Rightarrow> if fst c \<noteq> 0 then Inl ''invalid number'' else Inr (tok, v, ws))"

definition parse_number :: "bool \<Rightarrow> bool \<Rightarrow> bytes \<Rightarrow> (u32 \<times> number \<times> warnings) res" where
  "parse_number tcc_ext pp_expr s =
     (let c = next_ch s (0, 0); t = fst c; c = next_ch s c in
      ebind
        (if t = 0x2E then ebind (float_frac_parse s [t] c) (\<lambda>(tok, v, c). Inr (tok, v, c, []))
         else
           (let (b, q, c) = number_base tcc_ext s t c in
            ebind (read_digits s b q c) (\<lambda>(q, c).
              if is_float b (fst c) then float_number s b q c else int_number s pp_expr b q c)))
        number_end)"

section \<open>The constants of C\<close>

text \<open>
  The rule of the language (C11, 6.4.4.1): the type of a constant is the first of a list in which its value
  can be represented; the list depends on the base and the suffix. The types by their tokens: int 0xc2,
  unsigned 0xc3, long 0xc6, unsigned long 0xc7, long long 0xc4, unsigned long long 0xc5.
\<close>

definition type_max :: "u32 \<Rightarrow> nat" where
  "type_max t = (if t = 0xc2 \<or> t = 0xc6 then 2 ^ 31 - 1 else if t = 0xc3 \<or> t = 0xc7 then 2 ^ 32 - 1
                 else if t = 0xc4 then 2 ^ 63 - 1 else 2 ^ 64 - 1)"

definition type_list :: "bool \<Rightarrow> nat \<Rightarrow> nat \<Rightarrow> u32 list" where
  "type_list decimal l u =
     filter (\<lambda>t. (l \<ge> 1 \<longrightarrow> t \<notin> {0xc2, 0xc3}) \<and> (l = 2 \<longrightarrow> t \<in> {0xc4, 0xc5}) \<and>
                 (u = 1 \<longrightarrow> t \<in> {0xc3, 0xc7, 0xc5}) \<and> (u = 0 \<and> decimal \<longrightarrow> t \<in> {0xc2, 0xc6, 0xc4}))
       [0xc2, 0xc3, 0xc6, 0xc7, 0xc4, 0xc5]"

definition c_type :: "bool \<Rightarrow> nat \<Rightarrow> nat \<Rightarrow> nat \<Rightarrow> u32 option" where
  "c_type decimal l u v = find (\<lambda>t. v \<le> type_max t) (type_list decimal l u)"

lemma int_kind_c_type:
  assumes "l \<le> 2" "u \<le> 1"
  shows "(let (l', u', ov) = int_kind decimal n l u False in
     case c_type decimal l u (unat n) of
       Some t \<Rightarrow> int_tok l' u' = t \<and> \<not> ov
     | None \<Rightarrow> int_tok l' u' = 0xc5 \<and> ov)"
proof -
  have n: "unat n < 2 ^ 64" by (rule order_less_le_trans [OF unsigned_less]) simp
  have l: "l = 0 \<or> l = 1 \<or> l = 2" and u: "u = 0 \<or> u = 1" using assms by auto
  have n: "unat n \<le> 18446744073709551615" using n by simp
  show ?thesis
    using l u n
    by (elim disjE; cases decimal; simp add: int_kind_def c_type_def type_list_def type_max_def int_tok_def
        word_le_nat_alt; arith)
qed

text \<open>The value of a sequence of digits.\<close>

definition digit_val :: "u8 \<Rightarrow> nat" where
  "digit_val c = unat (the (digit_of c))"

definition digits :: "nat \<Rightarrow> bytes \<Rightarrow> bool" where
  "digits b ds \<longleftrightarrow> (\<forall>c \<in> set ds. digit_of c \<noteq> None \<and> digit_val c < b)"

definition digits_from :: "nat \<Rightarrow> nat \<Rightarrow> bytes \<Rightarrow> nat" where
  "digits_from b v ds = foldl (\<lambda>v c. v * b + digit_val c) v ds"

lemma digit_of_buf: "digit_of c = Some t \<Longrightarrow> buf_digit c = t \<and> c \<noteq> 0"
  unfolding digit_of_def buf_digit_def isnum_def
  by (auto split: if_splits simp: word_le_nat_alt)

lemma mul_overflow:
  assumes "N < 2 ^ 64" "t < b" "b \<le> 16" "0 < b"
  shows "(2 ^ 60 \<le> N \<and> (N * b + t) mod 2 ^ 64 div b \<noteq> N) \<longleftrightarrow> 2 ^ 64 \<le> N * b + (t :: nat)"
proof (cases "N * b + t < 2 ^ 64")
  case True
  then have "(N * b + t) mod 2 ^ 64 div b = N" using assms by simp
  then show ?thesis using True by simp
next
  case False
  let ?M = "(N * b + t) mod 2 ^ 64"
  have "?M + 2 ^ 64 \<le> N * b + t"
  proof -
    have "1 \<le> (N * b + t) div 2 ^ 64" using False by (simp add: less_eq_div_iff_mult_less_eq)
    then have "?M + 2 ^ 64 * 1 \<le> ?M + 2 ^ 64 * ((N * b + t) div 2 ^ 64)"
      by (intro add_left_mono mult_le_mono2)
    then show ?thesis by (simp only: mod_mult_div_eq mult_1_right)
  qed
  moreover have "N * b \<le> ?M" if "?M div b = N" using that by (metis div_times_less_eq_dividend)
  ultimately have ne: "?M div b \<noteq> N" using assms(2,3) by fastforce
  have "N * b \<le> N * 16" using assms(3) by simp
  moreover have "(2 :: nat) ^ 64 = 18446744073709551616" "(2 :: nat) ^ 60 = 1152921504606846976" by simp_all
  ultimately have "2 ^ 60 \<le> N" using False assms(2,3) by linarith
  then show ?thesis using ne False by simp
qed

lemma unat_of_nat_u64: "unat (of_nat k :: u64) = k mod 2 ^ 64"
  by (simp add: unsigned_of_nat take_bit_eq_mod)

lemma overflow_test:
  assumes "t < b" "b \<le> (16 :: u8)"
  shows "(2 ^ 64 \<le> N \<or> (0x1000000000000000 \<le> (of_nat N :: u64) \<and>
      (of_nat (N * unat b + unat t) :: u64) div ucast b \<noteq> of_nat N)) \<longleftrightarrow> 2 ^ 64 \<le> N * unat b + unat t"
proof (cases "N < 2 ^ 64")
  case True
  have b: "unat b \<le> 16" "0 < unat b" "unat t < unat b"
    using assms by (auto simp: word_le_nat_alt word_less_nat_alt)
  have ub: "unat (ucast b :: u64) = unat b"
    using unat_u8_less [of b] by (simp add: unsigned_ucast_eq take_bit_nat_eq_self)
  have un: "unat (of_nat N :: u64) = N" unfolding unat_of_nat_u64 using True by (rule mod_less)
  have "unat ((of_nat (N * unat b + unat t) :: u64) div ucast b) = (N * unat b + unat t) mod 2 ^ 64 div unat b"
    unfolding unat_div ub unat_of_nat_u64 ..
  then have "(of_nat (N * unat b + unat t) :: u64) div ucast b \<noteq> of_nat N \<longleftrightarrow>
      (N * unat b + unat t) mod 2 ^ 64 div unat b \<noteq> N"
    unfolding word_unat_eq_iff un by (simp only:)
  moreover have "0x1000000000000000 \<le> (of_nat N :: u64) \<longleftrightarrow> 2 ^ 60 \<le> N"
    unfolding word_le_nat_alt un by simp
  ultimately show ?thesis
    using mul_overflow [OF True b(3,1,2)] True by (simp only:) (simp only: not_le [symmetric] simp_thms)
next
  case False
  have "N * 1 \<le> N * unat b" using assms by (intro mult_le_mono2) (auto simp: word_less_nat_alt)
  then have "2 ^ 64 \<le> N * unat b + unat t" using False by linarith
  then show ?thesis using False by simp
qed

lemma int_value_digits:
  assumes "digits (unat b) ds" "b \<le> 16"
  shows "int_value b ds (of_nat N) (2 ^ 64 \<le> N) =
    Inr (of_nat (digits_from (unat b) N ds), 2 ^ 64 \<le> digits_from (unat b) N ds)"
  using assms
proof (induction ds arbitrary: N)
  case Nil
  then show ?case by (simp add: digits_from_def)
next
  case (Cons c ds)
  obtain t where t: "digit_of c = Some t" "t < b" "digits (unat b) ds"
    using Cons.prems(1) by (auto simp: digits_def digit_val_def word_less_nat_alt)
  have bt: "buf_digit c = t" "digit_val c = unat t" using digit_of_buf [OF t(1)] t(1) by (auto simp: digit_val_def)
  have n: "(of_nat N :: u64) * ucast b + ucast t = of_nat (N * unat b + unat t)" by simp
  have "int_value b (c # ds) (of_nat N) (2 ^ 64 \<le> N) =
      int_value b ds (of_nat (N * unat b + unat t)) (2 ^ 64 \<le> N * unat b + unat t)"
    using t(2) unfolding int_value.simps Let_def bt n overflow_test [OF t(2) Cons.prems(2)]
    by (simp only: not_le [symmetric] simp_thms if_False)
  also have "\<dots> = Inr (of_nat (digits_from (unat b) (N * unat b + unat t) ds),
      2 ^ 64 \<le> digits_from (unat b) (N * unat b + unat t) ds)"
    using Cons.IH [OF t(3) Cons.prems(2)] .
  finally show ?case by (simp only: digits_from_def bt foldl_Cons)
qed

subsection \<open>Where the cursor goes\<close>

definition cur :: "bytes \<Rightarrow> nat \<Rightarrow> cursor" where
  "cur s i = (byte_at s i, i + 1)"

lemma next_cur [simp]: "next_ch s (cur s i) = cur s (i + 1)"
  by (simp add: next_ch_def cur_def)

lemma start_cur: "next_ch s (0, 0) = cur s 0"
  by (simp add: next_ch_def cur_def)

lemma byte_at_append: "byte_at (xs @ ys) (length xs + i) = byte_at ys i"
  by (simp add: byte_at_def nth_append)

lemma read_digits_stop:
  assumes "\<And>t. digit_of (byte_at s i) = Some t \<Longrightarrow> b \<le> t"
  shows "read_digits s b q (cur s i) = Inr (q, cur s i)"
  using assms by (subst read_digits.simps) (auto simp: cur_def split: option.splits)

lemma read_digits_all:
  assumes "digits (unat b) ds" "\<And>i. i < length ds \<Longrightarrow> byte_at s (k + i) = ds ! i"
    and "\<And>t. digit_of (byte_at s (k + length ds)) = Some t \<Longrightarrow> b \<le> t"
    and "length q + length ds \<le> 1024"
  shows "read_digits s b q (cur s k) = Inr (q @ ds, cur s (k + length ds))"
  using assms
proof (induction ds arbitrary: q k)
  case Nil
  then show ?case by (simp add: read_digits_stop)
next
  case (Cons c ds)
  have c: "byte_at s k = c" using Cons.prems(2) [of 0] by simp
  obtain t where t: "digit_of c = Some t" "\<not> b \<le> t" "digits (unat b) ds"
    using Cons.prems(1) by (auto simp: digits_def digit_val_def word_less_nat_alt word_le_nat_alt)
  have "read_digits s b q (cur s k) = read_digits s b (q @ [c]) (cur s (k + 1))"
    using t Cons.prems(4) by (subst read_digits.simps) (simp add: cur_def c put_buf_def next_ch_def)
  also have "\<dots> = Inr ((q @ [c]) @ ds, cur s (k + 1 + length ds))"
    using Cons.prems(2) [of "Suc i" for i] Cons.prems(3,4) t(3)
    by (intro Cons.IH) auto
  finally show ?case by simp
qed

definition count_l :: "bytes \<Rightarrow> nat" where "count_l suf = length (filter (\<lambda>c. toup c = 0x4C) suf)"
definition count_u :: "bytes \<Rightarrow> nat" where "count_u suf = length (filter (\<lambda>c. toup c = 0x55) suf)"

lemma count_simps [simp]:
  "count_l [] = 0" "count_u [] = 0"
  "count_l (c # r) = (if toup c = 0x4C then 1 else 0) + count_l r"
  "count_u (c # r) = (if toup c = 0x55 then 1 else 0) + count_u r"
  by (simp_all add: count_l_def count_u_def)

lemma int_suffix_cur:
  "int_suffix s l u (cur s i) =
     (if toup (byte_at s i) = 0x4C then
        (if l \<ge> 2 then Inl ''three l's in integer constant'' else int_suffix s (l + 1) u (cur s (i + 1)))
      else if toup (byte_at s i) = 0x55 then
        (if u \<ge> 1 then Inl ''two u's in integer constant'' else int_suffix s l (u + 1) (cur s (i + 1)))
      else Inr (l, u, cur s i))"
  by (subst int_suffix.simps) (simp add: cur_def next_ch_def)

lemma int_suffix_all:
  assumes "\<forall>c \<in> set suf. toup c = 0x4C \<or> toup c = 0x55"
    and "\<And>i. i < length suf \<Longrightarrow> byte_at s (k + i) = suf ! i"
    and "byte_at s (k + length suf) = 0"
    and "l + count_l suf \<le> 2" "u + count_u suf \<le> 1"
  shows "int_suffix s l u (cur s k) = Inr (l + count_l suf, u + count_u suf, cur s (k + length suf))"
  using assms
proof (induction suf arbitrary: l u k)
  case Nil
  then show ?case by (subst int_suffix_cur) (simp add: toup_def)
next
  case (Cons c suf)
  have c: "byte_at s k = c" using Cons.prems(2) [of 0] by simp
  have n: "byte_at s (k + 1 + i) = suf ! i" if "i < length suf" for i using Cons.prems(2) [of "Suc i"] that by simp
  have e: "byte_at s (k + 1 + length suf) = 0" using Cons.prems(3) by simp
  show ?case
  proof (cases "toup c = 0x4C")
    case True
    then have "int_suffix s l u (cur s k) = int_suffix s (l + 1) u (cur s (k + 1))"
      using Cons.prems(4) by (subst int_suffix_cur) (simp add: c)
    also have "\<dots> = Inr (l + 1 + count_l suf, u + count_u suf, cur s (k + 1 + length suf))"
      using True Cons.prems(1,4,5) n e by (intro Cons.IH) auto
    finally show ?thesis using True by simp
  next
    case False
    then have U: "toup c = 0x55" using Cons.prems(1) by simp
    then have "int_suffix s l u (cur s k) = int_suffix s l (u + 1) (cur s (k + 1))"
      using Cons.prems(5) by (subst int_suffix_cur) (simp add: c)
    also have "\<dots> = Inr (l + count_l suf, u + 1 + count_u suf, cur s (k + 1 + length suf))"
      using U Cons.prems(1,4,5) n e by (intro Cons.IH) auto
    finally show ?thesis using U by simp
  qed
qed

section \<open>Properties\<close>

text \<open>The spellings of the digits ds of a constant in base b, without its suffix.\<close>

definition int_text :: "bool \<Rightarrow> nat \<Rightarrow> bytes \<Rightarrow> bytes \<Rightarrow> bool" where
  "int_text tcc_ext b ds s \<longleftrightarrow>
     (b = 16 \<and> (s = [0x30, 0x78] @ ds \<or> s = [0x30, 0x58] @ ds)) \<or>
     (b = 2 \<and> tcc_ext \<and> (s = [0x30, 0x62] @ ds \<or> s = [0x30, 0x42] @ ds)) \<or>
     (b = 8 \<and> s = 0x30 # ds) \<or>
     (b = 10 \<and> s = ds \<and> ds \<noteq> [] \<and> hd ds \<noteq> 0x30)"

lemma suffix_char:
  assumes "toup c = 0x4C \<or> toup c = 0x55 \<or> c = 0"
  shows "digit_of c = None" "c \<noteq> 0x2E" "c \<noteq> 0x65" "c \<noteq> 0x45" "c \<noteq> 0x70" "c \<noteq> 0x50" "c \<noteq> 0x78"
    "c \<noteq> 0x58" "c \<noteq> 0x62" "c \<noteq> 0x42"
proof -
  have "c = 0x4C \<or> c = 0x6C \<or> c = 0x55 \<or> c = 0x75 \<or> c = 0"
    using assms unfolding toup_def by (auto split: if_splits simp: eq_diff_eq[symmetric] add.commute)
  then show "digit_of c = None" "c \<noteq> 0x2E" "c \<noteq> 0x65" "c \<noteq> 0x45" "c \<noteq> 0x70" "c \<noteq> 0x50" "c \<noteq> 0x78"
    "c \<noteq> 0x58" "c \<noteq> 0x62" "c \<noteq> 0x42"
    by (auto simp: digit_of_def isnum_def)
qed

definition int_result :: "bool \<Rightarrow> nat \<Rightarrow> nat \<Rightarrow> nat \<Rightarrow> (u32 \<times> number \<times> warnings) res \<Rightarrow> bool" where
  "int_result decimal l u v r \<longleftrightarrow>
     (case c_type decimal l u v of
        Some t \<Rightarrow> r = Inr (t, Int_const (of_nat v), [])
      | None \<Rightarrow> \<exists>t. r = Inr (t, Int_const (of_nat v), [(''integer constant overflow'', 0)]))"

lemma c_type_overflow: "2 ^ 64 \<le> v \<Longrightarrow> c_type decimal l u v = None"
  by (auto simp: c_type_def find_None_iff type_max_def)

lemma int_kind_overflow: "int_kind decimal n l u True = (l', u', ov) \<Longrightarrow> ov"
  by (auto simp: int_kind_def Let_def split: if_splits prod.splits)

lemma int_kind_result:
  assumes "l \<le> 2" "u \<le> 1"
  shows "int_result decimal l u v
     (let (l', u', ov) = int_kind decimal (of_nat v) l u (2 ^ 64 \<le> v) in
      Inr (int_tok l' u', Int_const (of_nat v), if ov then [(''integer constant overflow'', 0)] else []))"
proof (cases "2 ^ 64 \<le> v")
  case True
  obtain l' u' ov where k: "int_kind decimal (of_nat v) l u True = (l', u', ov)" by (cases "int_kind decimal (of_nat v) l u True")
  then show ?thesis using int_kind_overflow [OF k] c_type_overflow [OF True] True by (simp add: int_result_def)
next
  case False
  then have "unat (of_nat v :: u64) = v" by (simp add: unat_of_nat_u64)
  then show ?thesis
    using int_kind_c_type [OF assms, of decimal "of_nat v"] False
    by (auto simp: int_result_def Let_def split: prod.splits option.splits)
qed

text \<open>What remains when the digits have been read: q is the buffer, and the suffix ends the text.\<close>

lemma int_number_result:
  assumes ds: "digits (unat b) ds" "b \<le> 16" "0 < b"
    and q: "(if b' = 10 \<and> peek q = 0x30 then (8, tl q) else (b', q)) = (b, ds)"
    and suf: "\<forall>c \<in> set suf. toup c = 0x4C \<or> toup c = 0x55" "count_l suf \<le> 2" "count_u suf \<le> 1"
    and s: "s = h @ suf" "length h = k"
  shows "int_result (b = 10) (count_l suf) (count_u suf) (digits_from (unat b) 0 ds)
      (ebind (int_number s False b' q (cur s k)) number_end)"
proof -
  let ?v = "digits_from (unat b) 0 ds"
  have v: "int_value b ds 0 False = Inr (of_nat ?v, 2 ^ 64 \<le> ?v)"
    using int_value_digits [OF ds(1,2), of 0] by simp
  have e: "byte_at s (k + length suf) = 0" using s by (simp add: byte_at_def)
  have "int_suffix s 0 0 (cur s k) = Inr (0 + count_l suf, 0 + count_u suf, cur s (k + length suf))"
    using s suf e by (intro int_suffix_all) (auto simp: byte_at_def nth_append)
  then have "int_number s False b' q (cur s k) =
      (let (l', u', ov) = int_kind (b = 10) (of_nat ?v) (count_l suf) (count_u suf) (2 ^ 64 \<le> ?v) in
       Inr (int_tok l' u', Int_const (of_nat ?v), cur s (k + length suf),
            if ov then [(''integer constant overflow'', 0)] else []))"
    unfolding int_number_def q prod.case v ebind_simps Let_def by (simp only: ebind_simps prod.case if_False add_0)
  then show ?thesis
    using int_kind_result [OF suf(2,3), of "b = 10" ?v] e
    by (cases "int_kind (b = 10) (of_nat ?v) (count_l suf) (count_u suf) (2 ^ 64 \<le> ?v)")
       (simp only: Let_def prod.case ebind_simps number_end_def cur_def fst_conv simp_thms if_False)
qed

lemma after_digits:
  assumes "\<forall>c \<in> set suf. toup c = 0x4C \<or> toup c = 0x55" "s = h @ suf" "length h = k"
  shows "toup (byte_at s k) = 0x4C \<or> toup (byte_at s k) = 0x55 \<or> byte_at s k = 0"
  using assms byte_at_append [of h suf 0] by (cases suf) (auto simp: byte_at_def)

lemma fst_cur: "fst (cur s j) = byte_at s j" by (simp add: cur_def)

lemma parse_after_digits:
  assumes "read_digits s b q (cur s i) = Inr (q', cur s k)"
    and "toup (byte_at s k) = 0x4C \<or> toup (byte_at s k) = 0x55 \<or> byte_at s k = 0"
    and "byte_at s 0 \<noteq> 0x2E"
    and "number_base ext s (byte_at s 0) (cur s 1) = (b, q, cur s i)"
  shows "parse_number ext pp s = ebind (int_number s pp b q' (cur s k)) number_end"
proof -
  have "\<not> is_float b (byte_at s k)" using suffix_char(2-6) [OF assms(2)] by (simp add: is_float_def)
  then show ?thesis
    using assms(1,3,4) by (simp add: parse_number_def start_cur fst_cur)
qed

lemma base_16: "byte_at s 0 = 0x30 \<Longrightarrow> byte_at s 1 = 0x78 \<or> byte_at s 1 = 0x58 \<Longrightarrow>
    number_base ext s (byte_at s 0) (cur s 1) = (16, [], cur s 2)"
  by (simp add: number_base_def fst_cur numeral_2_eq_2)

lemma base_2: "byte_at s 0 = 0x30 \<Longrightarrow> byte_at s 1 = 0x62 \<or> byte_at s 1 = 0x42 \<Longrightarrow> ext \<Longrightarrow>
    number_base ext s (byte_at s 0) (cur s 1) = (2, [], cur s 2)"
  by (auto simp add: number_base_def fst_cur numeral_2_eq_2 [symmetric])

lemma base_10: "byte_at s 0 \<noteq> 0x30 \<or> byte_at s 1 \<notin> {0x78, 0x58, 0x62, 0x42} \<Longrightarrow>
    number_base ext s (byte_at s 0) (cur s 1) = (10, [byte_at s 0], cur s 1)"
  by (auto simp add: number_base_def fst_cur)

text \<open>
  C11: integer constants. Write digits in base 16, 10, 8 or, with the extension, 2, and a suffix of at most
  two l's and one u. parse_number returns the value of the digits, and as the token the first type of the
  language's list for that base and suffix that can represent it, without a warning; when none can, it
  returns the value modulo 2^64 and the warning that the constant overflows.
\<close>

theorem integer_constant:
  assumes "int_text tcc_ext b ds s" "digits b ds" "length ds < 1024"
    and "\<forall>c \<in> set suf. toup c = 0x4C \<or> toup c = 0x55" "count_l suf \<le> 2" "count_u suf \<le> 1"
  shows "int_result (b = 10) (count_l suf) (count_u suf) (digits_from b 0 ds)
    (parse_number tcc_ext False (s @ suf))"
proof -
  let ?s = "s @ suf" and ?k = "length s"
  note suf = assms(4-6)
  have stop: "toup (byte_at ?s ?k) = 0x4C \<or> toup (byte_at ?s ?k) = 0x55 \<or> byte_at ?s ?k = 0"
    using after_digits [OF suf(1) refl refl] .
  note nodig = suffix_char(1) [OF stop]
  from assms(1) consider
      (hex) x where "b = 16" "s = [0x30, x] @ ds" "x = 0x78 \<or> x = 0x58"
    | (bin) x where "b = 2" "tcc_ext" "s = [0x30, x] @ ds" "x = 0x62 \<or> x = 0x42"
    | (oct) "b = 8" "s = 0x30 # ds"
    | (dec) d ds' where "b = 10" "s = d # ds'" "ds = d # ds'" "d \<noteq> 0x30"
    unfolding int_text_def by (cases ds) auto
  then show ?thesis
  proof cases
    case hex
    have rd: "read_digits ?s 16 [] (cur ?s 2) = Inr ([] @ ds, cur ?s (2 + length ds))"
      using assms(2,3) hex nodig by (intro read_digits_all) (auto simp: byte_at_def nth_append)
    have k: "2 + length ds = ?k" using hex by simp
    have "parse_number tcc_ext False ?s = ebind (int_number ?s False 16 ds (cur ?s ?k)) number_end"
      using rd base_16 hex stop unfolding k by (intro parse_after_digits) (auto simp: byte_at_def)
    then show ?thesis using int_number_result [of 16 ds 16 ds suf ?s s ?k] assms(2) suf hex by simp
  next
    case bin
    have rd: "read_digits ?s 2 [] (cur ?s 2) = Inr ([] @ ds, cur ?s (2 + length ds))"
      using assms(2,3) bin nodig by (intro read_digits_all) (auto simp: byte_at_def nth_append)
    have k: "2 + length ds = ?k" using bin by simp
    have "parse_number tcc_ext False ?s = ebind (int_number ?s False 2 ds (cur ?s ?k)) number_end"
      using rd base_2 bin stop unfolding k by (intro parse_after_digits) (auto simp: byte_at_def)
    then show ?thesis using int_number_result [of 2 ds 2 ds suf ?s s ?k] assms(2) suf bin by simp
  next
    case oct
    have "digits 10 ds" using assms(2) oct by (auto simp: digits_def)
    then have rd: "read_digits ?s 10 [0x30] (cur ?s 1) = Inr ([0x30] @ ds, cur ?s (1 + length ds))"
      using assms(3) oct nodig by (intro read_digits_all) (auto simp: byte_at_def nth_append)
    have k: "1 + length ds = ?k" using oct by simp
    have n1: "byte_at ?s 1 \<notin> {0x78, 0x58, 0x62, 0x42}"
    proof (cases ds)
      case Nil
      then show ?thesis using suffix_char(7-10) [OF stop] oct by auto
    next
      case (Cons c ds')
      then have "byte_at ?s 1 = c" "digit_of c \<noteq> None" "digit_val c < 8"
        using oct assms(2) by (auto simp: byte_at_def digits_def)
      then show ?thesis by (auto simp: digit_of_def digit_val_def isnum_def)
    qed
    have "parse_number tcc_ext False ?s = ebind (int_number ?s False 10 (0x30 # ds) (cur ?s ?k)) number_end"
      using rd base_10 [of ?s tcc_ext] n1 oct stop unfolding k
      by (intro parse_after_digits) (auto simp: byte_at_def)
    then show ?thesis using int_number_result [of 8 ds 10 "0x30 # ds" suf ?s s ?k] assms(2) suf oct by simp
  next
    case dec
    have d: "digits 10 ds'" "digit_of d \<noteq> None" "digit_val d < 10" using assms(2) dec by (auto simp: digits_def)
    then have rd: "read_digits ?s 10 [d] (cur ?s 1) = Inr ([d] @ ds', cur ?s (1 + length ds'))"
      using assms(3) dec nodig by (intro read_digits_all) (auto simp: byte_at_def nth_append)
    have k: "1 + length ds' = ?k" using dec by simp
    have "d \<noteq> 0x2E" using d by (auto simp: digit_of_def isnum_def)
    then have "parse_number tcc_ext False ?s = ebind (int_number ?s False 10 ds (cur ?s ?k)) number_end"
      using rd base_10 [of ?s tcc_ext] dec stop unfolding k
      by (intro parse_after_digits) (auto simp: byte_at_def)
    then show ?thesis using int_number_result [of 10 ds 10 ds suf ?s s ?k] assms(2) suf dec by simp
  qed
qed

text \<open>The constant 4294967295u has type unsigned, and 0x80000000 too; 2147483648 is a long long.\<close>

theorem integer_constant_witness:
  "parse_number True False [0x32, 0x31, 0x34, 0x37, 0x34, 0x38, 0x33, 0x36, 0x34, 0x38] =
     Inr (0xc4, Int_const 2147483648, [])"
  using integer_constant [of True 10 "[0x32, 0x31, 0x34, 0x37, 0x34, 0x38, 0x33, 0x36, 0x34, 0x38]"
      "[0x32, 0x31, 0x34, 0x37, 0x34, 0x38, 0x33, 0x36, 0x34, 0x38]" "[]"]
  by (simp add: int_text_def digits_def digit_val_def digit_of_def isnum_def digits_from_def int_result_def
      c_type_def type_list_def type_max_def)

lemma int_suffix_no_mix:
  "c = cur s i \<Longrightarrow> int_suffix s l u c \<noteq> Inl ''incorrect integer suffix: %s''"
proof (induction s l u c arbitrary: i rule: int_suffix.induct)
  case (1 s l u c)
  show ?case
    using 1 by (subst int_suffix.simps) (simp add: cur_def next_ch_def)
qed

lemma ebind_cases: "(case ebind m f of Inl e \<Rightarrow> P e | Inr x \<Rightarrow> Q x) \<longleftrightarrow>
    (case m of Inl e \<Rightarrow> P e | Inr y \<Rightarrow> (case f y of Inl e \<Rightarrow> P e | Inr x \<Rightarrow> Q x))"
  by (cases m) auto

definition number_errors :: "string set" where
  "number_errors = {''number too long'', ''invalid digit'', ''%s expected'', ''three l's in integer constant'',
     ''two u's in integer constant'', ''invalid number''}"

lemma put_buf_error: "put_buf q c = Inl e \<Longrightarrow> e \<in> number_errors"
  by (auto simp: put_buf_def number_errors_def split: if_splits)

lemma read_digits_error: "read_digits s b q c = Inl e \<Longrightarrow> e \<in> number_errors"
  by (induction s b q c rule: read_digits.induct)
     (subst (asm) (2) read_digits.simps, auto simp: ebind_Inl_iff put_buf_error split: option.splits if_splits)

lemma copy_digits_error: "copy_digits s q c = Inl e \<Longrightarrow> e \<in> number_errors"
  by (induction s q c rule: copy_digits.induct)
     (subst (asm) (2) copy_digits.simps, auto simp: ebind_Inl_iff put_buf_error split: if_splits)

lemma hex_fraction_error: "hex_fraction s b sh bn f c = Inl e \<Longrightarrow> e \<in> number_errors"
  by (induction s b sh bn f c rule: hex_fraction.induct)
     (subst (asm) (2) hex_fraction.simps, auto simp: number_errors_def split: option.splits if_splits prod.splits)

lemma int_value_error: "int_value b q n ov = Inl e \<Longrightarrow> e \<in> number_errors"
  by (induction b q n ov rule: int_value.induct) (auto simp: Let_def number_errors_def split: if_splits)

lemma number_errors_mem:
  "''number too long'' \<in> number_errors" "''invalid digit'' \<in> number_errors" "''%s expected'' \<in> number_errors"
  "''three l's in integer constant'' \<in> number_errors" "''two u's in integer constant'' \<in> number_errors"
  "''invalid number'' \<in> number_errors"
  by (simp_all add: number_errors_def)

lemma case_pair_Inr: "(case p of (x, y) \<Rightarrow> Inr (g x y)) \<noteq> Inl e"
  by (cases p) simp

lemma dec_exponent_error: "dec_exponent s q c = Inl e \<Longrightarrow> e \<in> number_errors"
  unfolding dec_exponent_def ebind_Inl_iff Let_def
  by (auto simp: ebind_Inl_iff case_pair_Inr number_errors_mem split: if_splits
      dest: put_buf_error copy_digits_error)

lemma float_frac_parse_error: "float_frac_parse s q c = Inl e \<Longrightarrow> e \<in> number_errors"
  by (auto simp: float_frac_parse_def ebind_Inl_iff copy_digits_error dec_exponent_error)

lemma dec_float_error: "dec_float s q c = Inl e \<Longrightarrow> e \<in> number_errors"
  by (auto simp: dec_float_def ebind_Inl_iff put_buf_error float_frac_parse_error dec_exponent_error split: if_splits)

lemma hex_float_error: "hex_float s b q c = Inl e \<Longrightarrow> e \<in> number_errors"
proof -
  assume a: "hex_float s b q c = Inl e"
  obtain bn f where bn: "bn_digits (if b = 16 then 4 else 1) q bn_zero 0 = (bn, f)" by fastforce
  show "e \<in> number_errors"
    using a unfolding hex_float_def Let_def bn prod.case ebind_Inl_iff
    by (elim disjE exE conjE)
       (auto dest: hex_fraction_error simp: number_errors_mem split: if_splits prod.splits)
qed

lemma int_suffix_error: "c = cur s i \<Longrightarrow> int_suffix s l u c = Inl e \<Longrightarrow> e \<in> number_errors"
proof (induction s l u c arbitrary: i rule: int_suffix.induct)
  case (1 s l u c)
  note IH = 1(1,2) and c = 1(3)
  have n: "next_ch s c = cur s (i + 1)" "byte_at s (snd c - 1) = fst c"
    using c by (simp_all add: cur_def next_ch_def)
  show ?case
    using 1(4) IH [OF _ _ _ n(1)] IH(2) [OF _ _ _ n(1)] n(2) unfolding int_suffix.simps [of s l u c]
    by (auto simp: number_errors_mem split: if_splits)
qed

lemma read_digits_cur: "read_digits s b q (cur s i) = Inr (q', c') \<Longrightarrow> \<exists>j. c' = cur s j"
proof (induction s b q "cur s i" arbitrary: i rule: read_digits.induct)
  case (1 s b q i)
  have "read_digits s b q (cur s i) = Inr (q', c')" by fact
  then show ?case
    unfolding read_digits.simps [of s b q "cur s i"]
    using 1(1) [OF _ _ _ next_cur] by (fastforce simp: ebind_Inr_iff split: option.splits if_splits)
qed

lemma int_number_error: "int_number s pp b q (cur s i) = Inl e \<Longrightarrow> e \<in> number_errors"
  unfolding int_number_def Let_def
  by (auto simp: ebind_Inl_iff case_prod_beta dest: int_value_error int_suffix_error [OF refl]
      split: if_splits)

lemma number_base_cur: "number_base ext s t (cur s 1) = (b, q, c) \<Longrightarrow> \<exists>i. c = cur s i"
  by (auto simp: number_base_def split: if_splits)

lemma number_end_error: "number_end r = Inl e \<Longrightarrow> e \<in> number_errors"
  by (auto simp: number_end_def number_errors_mem split: prod.splits if_splits)

lemma float_number_error: "float_number s b q c = Inl e \<Longrightarrow> e \<in> number_errors"
  by (auto simp: float_number_def ebind_Inl_iff case_pair_Inr hex_float_error dec_float_error split: if_splits)

text \<open>
  C33: the errors of numeric constants. Whatever the text, the error parse_number reports is one of six; the
  seventh, incorrect integer suffix, which is meant for a mix of l and L, is never reported, because the
  character the check compares with is the same one.
\<close>

theorem parse_number_errors:
  "case parse_number tcc_ext pp_expr s of Inl e \<Rightarrow> e \<in> number_errors | Inr _ \<Rightarrow> True"
proof (cases "parse_number tcc_ext pp_expr s")
  case (Inl e)
  let ?t = "fst (cur s 0)"
  obtain b q c where nb: "number_base tcc_ext s ?t (cur s 1) = (b, q, c)" by (cases "number_base tcc_ext s ?t (cur s 1)")
  then obtain i where c: "c = cur s i" using number_base_cur by blast
  have "next_ch s (cur s 0) = cur s 1" by simp
  then have "e \<in> number_errors"
    using Inl unfolding parse_number_def start_cur Let_def \<open>next_ch s (cur s 0) = cur s 1\<close> nb prod.case
    by (auto simp: ebind_Inl_iff case_pair_Inr c float_number_error split: if_splits
        dest: number_end_error float_frac_parse_error read_digits_error int_number_error
        dest!: read_digits_cur)
  then show ?thesis using Inl by simp
qed simp

subsection \<open>The mantissa of a hexadecimal float\<close>

fun bn_val :: "u32 list \<Rightarrow> nat" where
  "bn_val [] = 0"
| "bn_val (v # bn) = unat v + 2 ^ 32 * bn_val bn"

lemma bn_val_bound: "bn_val bn < 2 ^ (32 * length bn)"
proof (induction bn)
  case (Cons v bn)
  have "unat v < 2 ^ 32" using unat_u32_less [of v] by simp
  moreover have "2 ^ 32 * bn_val bn + 2 ^ 32 \<le> 2 ^ 32 * 2 ^ (32 * length bn)"
  proof -
    have "2 ^ 32 * (bn_val bn + 1) \<le> 2 ^ 32 * 2 ^ (32 * length bn)"
      using Cons.IH by (intro mult_le_mono2) simp
    then show ?thesis by (simp only: distrib_left mult_1_right)
  qed
  ultimately show ?case by (simp add: power_add)
qed simp

text \<open>One digit of the multi-word shift: the part of a word that leaves it enters the next one.\<close>

lemma shift_word:
  assumes "unat c < 2 ^ k" "k \<le> 32"
  shows "unat (push_bit k v OR c) + 2 ^ 32 * unat (drop_bit (32 - k) v) = 2 ^ k * unat (v :: u32) + unat (c :: u32)"
proof -
  let ?V = "unat v" and ?m = "2 ^ (32 - k) :: nat"
  have c: "take_bit k c = c"
    using assms(1) by (simp add: word_unat_eq_iff unsigned_take_bit_eq take_bit_nat_eq_self)
  have dis: "push_bit k v AND c = 0"
  proof (rule bit_word_eqI)
    fix n
    have "bit c n \<Longrightarrow> n < k" using bit_take_bit_iff [of k c n] c by simp
    then show "bit (push_bit k v AND c) n \<longleftrightarrow> bit (0 :: u32) n" by (auto simp: bit_simps)
  qed
  have m: "2 ^ 32 = 2 ^ k * ?m" using assms(2) by (simp flip: power_add)
  have p: "unat (push_bit k v) = 2 ^ k * (?V mod ?m)"
  proof -
    have "unat (push_bit k v) = (?V * 2 ^ k) mod 2 ^ 32"
      by (simp add: unsigned_push_bit_eq push_bit_eq_mult [where ?'a = nat] take_bit_eq_mod [where ?'a = nat])
    also have "\<dots> = 2 ^ k * (?V mod ?m)" unfolding m by (simp only: mult.commute [of ?V] mult_mod_right)
    finally show ?thesis .
  qed
  have d: "unat (drop_bit (32 - k) v) = ?V div ?m" by (simp add: unat_drop_bit_eq drop_bit_eq_div [where ?'a = nat])
  have "?V mod ?m < ?m" by simp
  then have "?V mod ?m + 1 \<le> ?m" by linarith
  then have "2 ^ k * (?V mod ?m + 1) \<le> 2 ^ k * ?m" by (rule mult_le_mono2)
  then have "unat (push_bit k v) + unat c < 2 ^ 32" using assms(1) unfolding p m by (simp only: distrib_left mult_1_right)
  then have "unat (push_bit k v OR c) = unat (push_bit k v) + unat c"
    unfolding disjunctive_add_eq_or [OF dis, symmetric] by (simp add: unat_word_ariths)
  then have "unat (push_bit k v OR c) + 2 ^ 32 * unat (drop_bit (32 - k) v) =
      2 ^ k * (?V mod ?m) + unat c + (2 ^ k * ?m) * (?V div ?m)" unfolding p d m by (simp only:)
  also have "\<dots> = 2 ^ k * (?m * (?V div ?m) + ?V mod ?m) + unat c" by (simp only: algebra_simps)
  finally show ?thesis by (simp only: mult_div_mod_eq)
qed

lemma bn_shift_in_val:
  assumes "unat c < 2 ^ k" "k \<le> 32" "bn \<noteq> []" "drop_bit (32 - k) (last bn) = 0"
  shows "bn_val (bn_shift_in k c bn) = 2 ^ k * bn_val bn + unat c \<and> length (bn_shift_in k c bn) = length bn"
  using assms
proof (induction bn arbitrary: c)
  case (Cons v bn)
  have d: "unat (drop_bit (32 - k) v) < 2 ^ k"
  proof -
    have "unat v < 2 ^ (32 - k) * 2 ^ k" using unat_u32_less [of v] Cons.prems(2) by (simp flip: power_add)
    then show ?thesis by (simp add: unat_drop_bit_eq drop_bit_eq_div [where ?'a = nat] div_less_iff_less_mult mult.commute)
  qed
  show ?case
  proof (cases "bn = []")
    case True
    then show ?thesis using shift_word [OF Cons.prems(1,2), of v] Cons.prems(4) by simp
  next
    case False
    then have "bn_val (bn_shift_in k (drop_bit (32 - k) v) bn) = 2 ^ k * bn_val bn + unat (drop_bit (32 - k) v)"
        "length (bn_shift_in k (drop_bit (32 - k) v) bn) = length bn"
      using Cons.IH [OF d] Cons.prems by simp_all
    then show ?thesis using shift_word [OF Cons.prems(1,2), of v] by (simp add: algebra_simps)
  qed
qed simp

text \<open>A digit is shifted in, or dropped with the number left alone when it has no room.\<close>

lemma bn_lshift_val:
  assumes "length bn = 4" "unat c < 2 ^ k" "0 < k" "k \<le> 32"
  shows "bn_lshift bn k c = (bn', r) \<Longrightarrow>
    length bn' = 4 \<and>
    (if bn_val bn * 2 ^ k < 2 ^ 128 then r = 0 \<and> bn_val bn' = 2 ^ k * bn_val bn + unat c else r = k \<and> bn' = bn)"
proof -
  assume a: "bn_lshift bn k c = (bn', r)"
  obtain w0 w1 w2 w3 where bn: "bn = [w0, w1, w2, w3]" using assms(1) by (auto simp: numeral_eq_Suc length_Suc_conv)
  let ?lo = "bn_val [w0, w1, w2]" and ?m = "2 ^ (32 - k) :: nat"
  have lo: "?lo < 2 ^ 96" using bn_val_bound [of "[w0, w1, w2]"] by simp
  have v: "bn_val bn = ?lo + 2 ^ 96 * unat w3" unfolding bn by simp
  have "drop_bit (32 - k) w3 = 0 \<longleftrightarrow> unat w3 < ?m"
    by (simp add: word_unat_eq_iff unat_drop_bit_eq drop_bit_eq_div [where ?'a = nat] div_eq_0_iff)
  moreover have "bn_val bn * 2 ^ k < 2 ^ 128 \<longleftrightarrow> unat w3 < ?m"
  proof -
    have "(2 :: nat) ^ 128 = (2 ^ 96 * ?m) * 2 ^ k" using assms(4) by (simp flip: power_add)
    then have "bn_val bn * 2 ^ k < 2 ^ 128 \<longleftrightarrow> bn_val bn < 2 ^ 96 * ?m" by (simp only: mult_less_cancel2) simp
    also have "\<dots> \<longleftrightarrow> unat w3 < ?m"
    proof
      assume "bn_val bn < 2 ^ 96 * ?m"
      then have "2 ^ 96 * unat w3 < 2 ^ 96 * ?m" using v by linarith
      then show "unat w3 < ?m" by (simp only: mult_less_cancel1)
    next
      assume "unat w3 < ?m"
      then have "2 ^ 96 * (unat w3 + 1) \<le> 2 ^ 96 * ?m" by (intro mult_le_mono2) simp
      then have "2 ^ 96 * unat w3 + 2 ^ 96 \<le> 2 ^ 96 * ?m" by (simp only: distrib_left mult_1_right)
      then show "bn_val bn < 2 ^ 96 * ?m" using lo v by linarith
    qed
    finally show ?thesis .
  qed
  ultimately have room: "drop_bit (32 - k) (bn ! 3) = 0 \<longleftrightarrow> bn_val bn * 2 ^ k < 2 ^ 128" by (simp add: bn)
  show ?thesis
  proof (cases "bn_val bn * 2 ^ k < 2 ^ 128")
    case True
    then show ?thesis
      using a room bn_shift_in_val [OF assms(2,4), of bn] assms(1) bn
      by (auto simp: bn_lshift_def simp del: bn_val.simps)
  next
    case False
    then show ?thesis using a room assms(1) by (simp add: bn_lshift_def split: if_splits)
  qed
qed

text \<open>Exactly how many digits were dropped: \<open>j\<close> of them, in base \<open>2 ^ k\<close>.\<close>

lemma bn_digits_val:
  assumes "digits (2 ^ k) ds" "0 < k" "k \<le> 4" "length bn = 4"
    and "bn_val bn * (2 ^ k) ^ j \<le> V" "V < (bn_val bn + 1) * (2 ^ k) ^ j"
    and "j > 0 \<longrightarrow> 2 ^ 128 \<le> bn_val bn * 2 ^ k"
    and "bn_digits k ds bn f = (bn', f')"
  shows "length bn' = 4 \<and> (\<exists>j'. f' = f - int (k * (j' - j)) \<and> j \<le> j' \<and>
    bn_val bn' * (2 ^ k) ^ j' \<le> digits_from (2 ^ k) V ds \<and>
    digits_from (2 ^ k) V ds < (bn_val bn' + 1) * (2 ^ k) ^ j' \<and>
    (j' > 0 \<longrightarrow> 2 ^ 128 \<le> bn_val bn' * 2 ^ k))"
  using assms
proof (induction ds arbitrary: bn f j V)
  case Nil
  then show ?case by (auto simp: digits_from_def intro!: exI [of _ j])
next
  case (Cons c ds)
  obtain t where t: "digit_of c = Some t" "unat t < 2 ^ k" "digits (2 ^ k) ds"
    using Cons.prems(1) by (auto simp: digits_def digit_val_def)
  have bt: "buf_digit c = t" "digit_val c = unat t" using digit_of_buf [OF t(1)] t(1) by (auto simp: digit_val_def)
  have ut: "unat (ucast t :: u32) = unat t"
    using unat_u8_less [of t] by (simp add: unsigned_ucast_eq take_bit_nat_eq_self)
  obtain bn1 r where l: "bn_lshift bn k (ucast t) = (bn1, r)" by fastforce
  have s: "length bn1 = 4 \<and> (if bn_val bn * 2 ^ k < 2 ^ 128 then r = 0 \<and> bn_val bn1 = 2 ^ k * bn_val bn + unat t
      else r = k \<and> bn1 = bn)"
    using bn_lshift_val [OF Cons.prems(4) _ Cons.prems(2) _ l] t(2) Cons.prems(3) ut by simp
  have run: "bn_digits k ds bn1 (f - int r) = (bn', f')" using Cons.prems(8) by (simp add: bt l)
  have from_c: "digits_from (2 ^ k) V (c # ds) = digits_from (2 ^ k) (V * 2 ^ k + unat t) ds"
    by (simp add: digits_from_def bt)
  show ?case
  proof (cases "bn_val bn * 2 ^ k < 2 ^ 128")
    case True
    then have j: "j = 0" using Cons.prems(7) by auto
    have v: "V = bn_val bn" using Cons.prems(5,6) j by simp
    have b1: "bn_val bn1 = V * 2 ^ k + unat t" "r = 0" "length bn1 = 4" using s True v by simp_all
    show ?thesis
      using Cons.IH [OF t(3) Cons.prems(2,3) b1(3), of 0 "V * 2 ^ k + unat t" "f - int r"] run
      unfolding from_c j b1 by simp
  next
    case False
    let ?V = "V * 2 ^ k + unat t" and ?B = "(2 ^ k) ^ j :: nat"
    have "bn_val bn * ?B * 2 ^ k \<le> V * 2 ^ k" using Cons.prems(5) by (rule mult_le_mono1)
    moreover have "bn_val bn * (2 ^ k) ^ Suc j = bn_val bn * ?B * 2 ^ k" by simp
    ultimately have lo: "bn_val bn * (2 ^ k) ^ Suc j \<le> ?V" by linarith
    have "(V + 1) * 2 ^ k \<le> ((bn_val bn + 1) * ?B) * 2 ^ k" using Cons.prems(6) by (intro mult_le_mono1) simp
    then have hi: "?V < (bn_val bn + 1) * (2 ^ k) ^ Suc j" using t(2) by (simp add: algebra_simps)
    have "length bn' = 4 \<and> (\<exists>j'. f' = f - int r - int (k * (j' - Suc j)) \<and> Suc j \<le> j' \<and>
      bn_val bn' * (2 ^ k) ^ j' \<le> digits_from (2 ^ k) ?V ds \<and>
      digits_from (2 ^ k) ?V ds < (bn_val bn' + 1) * (2 ^ k) ^ j' \<and>
      (j' > 0 \<longrightarrow> 2 ^ 128 \<le> bn_val bn' * 2 ^ k))"
      using Cons.IH [OF t(3) Cons.prems(2,3), of bn1 "Suc j" ?V "f - int r"] s False run lo hi by simp
    moreover have "f - int r - int (k * (j' - Suc j)) = f - int (k * (j' - j))" if "Suc j \<le> j'" for j'
    proof -
      have "j' - j = (j' - Suc j) + 1" using that by simp
      then show ?thesis using s False by (simp add: algebra_simps)
    qed
    ultimately show ?thesis unfolding from_c by (metis Suc_leD)
  qed
qed

lemma bn_zero_list: "bn_zero = [0, 0, 0, 0]"
  by (simp add: bn_zero_def numeral_eq_Suc)

text \<open>
  Note: the mantissa of a hexadecimal float. Feeding the digits of the integer part to bn_lshift, however
  many there are, leaves a 128-bit number and a count of dropped bits such that the number, scaled back, is
  the value of the digits cut off after its leading bits; nothing is dropped while there is room.
\<close>

theorem hex_mantissa:
  assumes "digits (2 ^ k) ds" "k = 1 \<or> k = 4" "bn_digits k ds bn_zero 0 = (bn, frac_bits)"
  shows "\<exists>j. frac_bits = - int (k * j) \<and> bn_val bn * 2 ^ (k * j) \<le> digits_from (2 ^ k) 0 ds \<and>
    digits_from (2 ^ k) 0 ds < (bn_val bn + 1) * 2 ^ (k * j) \<and> (j > 0 \<longrightarrow> 2 ^ 128 \<le> bn_val bn * 2 ^ k)"
proof -
  have k: "0 < k" "k \<le> 4" using assms(2) by auto
  have z: "length bn_zero = 4" "bn_val bn_zero * (2 ^ k) ^ 0 \<le> 0" "0 < (bn_val bn_zero + 1) * (2 ^ k) ^ 0"
      "0 > (0 :: nat) \<longrightarrow> 2 ^ 128 \<le> bn_val bn_zero * 2 ^ k"
    by (simp_all add: bn_zero_list)
  obtain j where "frac_bits = 0 - int (k * (j - 0))" "bn_val bn * (2 ^ k) ^ j \<le> digits_from (2 ^ k) 0 ds"
      "digits_from (2 ^ k) 0 ds < (bn_val bn + 1) * (2 ^ k) ^ j" "j > 0 \<longrightarrow> 2 ^ 128 \<le> bn_val bn * 2 ^ k"
    using bn_digits_val [OF assms(1) k z assms(3)] by (elim conjE exE) blast
  then show ?thesis by (intro exI [of _ j]) (simp only: power_mult diff_zero diff_0 simp_thms)
qed

text \<open>The digits 1f.\<close>

theorem hex_mantissa_witness:
  "\<exists>j. (0 :: int) = - int (4 * j) \<and> bn_val [31, 0, 0, 0] * 2 ^ (4 * j) \<le> digits_from (2 ^ 4) 0 [0x31, 0x66]"
proof -
  have "bn_digits 4 [0x31, 0x66] bn_zero 0 = ([31, 0, 0, 0], 0)"
    by (simp add: bn_zero_list bn_lshift_def buf_digit_def)
  moreover have "digits (2 ^ 4) [0x31, 0x66]" by (simp add: digits_def digit_of_def isnum_def digit_val_def)
  ultimately show ?thesis using hex_mantissa [of 4 "[0x31, 0x66]" "[31, 0, 0, 0]" 0] by blast
qed

end
