(* ===== verification/Switch.thy ===== *)
theory Switch
  imports ConstFold "HOL-Library.Multiset"
begin

text \<open>
  The switch statement: reading the value of a case label, sorting and merging the cases, and the search
  the compiler emits for them (case_cmp, case_sort, gcase and their calls in block; lines 20977-21036 and
  21367-21404). Every comparison gcase generates with gen_op is followed by one gvtst, so the emitted code
  is a list of tests: each compares the value switched on with a constant and jumps when the comparison
  holds. A jump still to be patched has the target Open, and a chain of them is the list of their
  positions (that the chain kept inside the code works is shown with the jumps themselves).
\<close>

record case_t =
  v1 :: u64
  v2 :: u64
  case_ind :: nat
  line :: nat

section \<open>Cases\<close>

definition case_cmp :: "u32 \<Rightarrow> u64 \<Rightarrow> u64 \<Rightarrow> int" where
  "case_cmp t a b =
     (if t AND 0x0010 \<noteq> 0 then (if a < b then - 1 else if a > b then 1 else 0)
      else (if a <s b then - 1 else if b <s a then 1 else 0))"

text \<open>
  A case label with the value of its constant expression, or a range with the values of both; the bool is
  the warning of an empty range.
\<close>

definition read_case :: "u32 \<Rightarrow> u64 \<Rightarrow> u64 option \<Rightarrow> nat \<Rightarrow> nat \<Rightarrow> case_t \<times> bool" where
  "read_case t lo hi i l =
     (let a = value64 lo t in
      case hi of
        None \<Rightarrow> (\<lparr>v1 = a, v2 = a, case_ind = i, line = l\<rparr>, False)
      | Some h \<Rightarrow>
          let b = value64 h t in
          (\<lparr>v1 = a, v2 = b, case_ind = i, line = l\<rparr>, case_cmp t b a < 0))"

text \<open>
  The loop of case_sort behind the call of qsort: overlapping cases are an error, with the later of their
  lines; a case that continues its predecessor, with the same code, is merged into it.
\<close>

fun merge_cases :: "u32 \<Rightarrow> case_t list \<Rightarrow> nat + case_t list" where
  "merge_cases t (p0 # p1 # ps) =
     (if case_cmp t (v2 p0) (v1 p1) \<ge> 0 then Inl (if line p0 > line p1 then line p0 else line p1)
      else if v2 p0 + 1 = v1 p1 \<and> case_ind p0 = case_ind p1
      then merge_cases t (p1\<lparr>v1 := v1 p0\<rparr> # ps)
      else ebind (merge_cases t (p1 # ps)) (\<lambda>cs. Inr (p0 # cs)))"
| "merge_cases t cs = Inr cs"

type_synonym sorter = "(case_t \<Rightarrow> case_t \<Rightarrow> int) \<Rightarrow> case_t list \<Rightarrow> case_t list"

definition case_cmp_qs :: "u32 \<Rightarrow> case_t \<Rightarrow> case_t \<Rightarrow> int" where
  "case_cmp_qs t pa pb = case_cmp t (v1 pa) (v1 pb)"

definition case_sort :: "u32 \<Rightarrow> sorter \<Rightarrow> case_t list \<Rightarrow> nat + case_t list" where
  "case_sort t qsort cs = (if length cs < 2 then Inr cs else merge_cases t (qsort (case_cmp_qs t) cs))"

text \<open>What the C library promises of qsort.\<close>

definition sorts :: "sorter \<Rightarrow> u32 \<Rightarrow> bool" where
  "sorts qsort t \<longleftrightarrow> (\<forall>cs. mset (qsort (case_cmp_qs t) cs) = mset cs \<and>
     sorted_wrt (\<lambda>a b. case_cmp_qs t a b \<le> 0) (qsort (case_cmp_qs t) cs))"

section \<open>The emitted search\<close>

datatype target = Open | Here nat | Addr nat
datatype test = TestEq | TestGt | TestGe
datatype instr = Test test u64 target | Jump target

fun set_target :: "target \<Rightarrow> instr \<Rightarrow> instr" where
  "set_target l (Test k v x) = Test k v l"
| "set_target l (Jump x) = Jump l"

text \<open>
  gcase takes the cases base[0 .. len), the chain of jumps to the default and the code so far; it returns
  the chain and the code. The recursive call is on the lower half, the loop continues with the upper.
\<close>

function gcase :: "case_t list \<Rightarrow> nat list \<Rightarrow> instr list \<Rightarrow> nat list \<times> instr list" where
  "gcase base dsym out =
     (if base = [] then (length out # dsym, out @ [Jump Open])
      else
        (let len = length base; l2 = (if len > 8 then len div 2 else 0); p = base ! l2 in
         if l2 = 0 \<and> v1 p = v2 p then
           gcase (drop (l2 + 1) base) dsym (out @ [Test TestEq (v2 p) (Addr (case_ind p))])
         else
           (let e = length out;
                out = out @ [Test TestGt (v2 p) Open];
                dsym = (if len = 1 then e # dsym else dsym);
                out = out @ [Test TestGe (v1 p) (Addr (case_ind p))];
                (dsym, out) = gcase (take l2 base) dsym out;
                out = (if len = 1 then out else out[e := set_target (Here (length out)) (out ! e)])
            in gcase (drop (l2 + 1) base) dsym out)))"
  by pat_completeness auto
termination
  by (relation "measure (\<lambda>(base, dsym, out). length base)") (auto simp: Let_def split: if_splits)

declare gcase.simps [simp del]

definition patch :: "target \<Rightarrow> nat list \<Rightarrow> instr list \<Rightarrow> instr list" where
  "patch l ds out = fold (\<lambda>d out. out[d := set_target l (out ! d)]) ds out"

text \<open>The end of the switch: def_sym is None without a default label, and then the chain ends up here.\<close>

definition switch_code :: "u32 \<Rightarrow> sorter \<Rightarrow> case_t list \<Rightarrow> nat option \<Rightarrow> nat + instr list" where
  "switch_code t qsort cs def_sym =
     ebind (case_sort t qsort cs)
       (\<lambda>p. let (d, out) = gcase p [] [] in
            Inr (patch (case def_sym of Some a \<Rightarrow> Addr a | None \<Rightarrow> Here (length out)) d out))"

section \<open>Running the search\<close>

text \<open>
  The comparisons gen_op generates: the constant pushed has the type long long when the switch is on a long
  long and int otherwise, so the comparison is on 64 or 32 bits, unsigned when the value switched on is an
  unsigned int or unsigned long long; narrower types are promoted to int.
\<close>

definition test_key :: "u32 \<Rightarrow> u64 \<Rightarrow> int" where
  "test_key t a =
     (if t AND 0x000f = 4 then (if t AND 0x0010 \<noteq> 0 then uint a else sint a)
      else if t AND 0x000f = 3 \<and> t AND 0x0010 \<noteq> 0 then uint (ucast a :: u32)
      else sint (ucast a :: u32))"

fun holds :: "u32 \<Rightarrow> test \<Rightarrow> u64 \<Rightarrow> u64 \<Rightarrow> bool" where
  "holds t TestEq x v \<longleftrightarrow> test_key t x = test_key t v"
| "holds t TestGt x v \<longleftrightarrow> test_key t x > test_key t v"
| "holds t TestGe x v \<longleftrightarrow> test_key t x \<ge> test_key t v"

text \<open>
  The run of the code from an instruction on: it ends at an address outside the search, or behind its last
  instruction (None); fuel is the number of instructions still allowed.
\<close>

datatype outcome = Reached nat | Behind | Stuck

fun run :: "u32 \<Rightarrow> instr list \<Rightarrow> u64 \<Rightarrow> nat \<Rightarrow> nat \<Rightarrow> outcome" where
  "run t out x 0 pc = (if pc = length out then Behind else Stuck)"
| "run t out x (Suc n) pc =
     (if pc = length out then Behind
      else if pc > length out then Stuck
      else
        (let follow = (\<lambda>l. case l of Open \<Rightarrow> Stuck | Here q \<Rightarrow> run t out x n q | Addr a \<Rightarrow> Reached a) in
         case out ! pc of
           Jump l \<Rightarrow> follow l
         | Test k v l \<Rightarrow> if holds t k x v then follow l else run t out x n (pc + 1)))"

section \<open>The meaning of a switch\<close>

definition covers :: "u32 \<Rightarrow> case_t \<Rightarrow> u64 \<Rightarrow> bool" where
  "covers t c x \<longleftrightarrow> test_key t (v1 c) \<le> test_key t x \<and> test_key t x \<le> test_key t (v2 c)"

definition switch_target :: "u32 \<Rightarrow> case_t list \<Rightarrow> u64 \<Rightarrow> nat option" where
  "switch_target t cs x = map_option case_ind (find (\<lambda>c. covers t c x) cs)"


section \<open>The order of the cases\<close>

definition sort_key :: "u32 \<Rightarrow> u64 \<Rightarrow> int" where
  "sort_key t a = (if t AND 0x0010 \<noteq> 0 then uint a else sint a)"

text \<open>A value the switch's type can have, and on which the order of case_sort and that of the tests agree.\<close>

definition agrees :: "u32 \<Rightarrow> u64 \<Rightarrow> bool" where
  "agrees t a \<longleftrightarrow> sort_key t a = test_key t a"

definition case_ok :: "u32 \<Rightarrow> case_t \<Rightarrow> bool" where
  "case_ok t c \<longleftrightarrow> agrees t (v1 c) \<and> agrees t (v2 c) \<and> test_key t (v1 c) \<le> test_key t (v2 c)"

lemma case_cmp_key:
  "case_cmp t a b < 0 \<longleftrightarrow> sort_key t a < sort_key t b"
  "case_cmp t a b \<ge> 0 \<longleftrightarrow> sort_key t b \<le> sort_key t a"
  "case_cmp t a b \<le> 0 \<longleftrightarrow> sort_key t a \<le> sort_key t b"
  by (auto simp: case_cmp_def sort_key_def word_less_def word_sless_alt)

lemma sort_key_Suc:
  assumes "sort_key t a < sort_key t (a + 1)"
  shows "sort_key t (a + 1) = sort_key t a + 1"
proof (cases "t AND 0x0010 \<noteq> 0")
  case True
  then have "uint a < uint (a + 1)" using assms by (simp add: sort_key_def)
  moreover have "uint (a + 1) = (uint a + 1) mod 2 ^ 64" by (simp add: uint_word_ariths)
  moreover have "(uint a + 1) mod 2 ^ 64 = (if uint a + 1 = 2 ^ 64 then 0 else uint a + 1)"
    using uint_lt2p [of a] by (auto intro: mod_pos_pos_trivial)
  moreover have "0 \<le> uint a" by simp
  ultimately have "uint (a + 1) = uint a + 1" by (metis linorder_not_less)
  then show ?thesis using True by (simp add: sort_key_def)
next
  case False
  then have "sint a < sint (a + 1)" using assms by (simp add: sort_key_def)
  moreover have e: "sint (a + 1) = signed_take_bit 63 (sint a + 1)"
    using sint_word_ariths(1) [of a 1] by simp
  moreover have "- (2 ^ 63) \<le> sint a" "sint a < 2 ^ 63" using sint_ge [of a] sint_lt [of a] by simp_all
  moreover have "signed_take_bit 63 (sint a + 1) = sint a + 1" if "sint a + 1 < 2 ^ 63"
    using that calculation(3) by (intro signed_take_bit_int_eq_self) simp_all
  moreover have "signed_take_bit 63 (2 ^ 63 :: int) = - (2 ^ 63)" by simp
  ultimately have "sint (a + 1) = sint a + 1" by (cases "sint a + 1 = 2 ^ 63") auto
  then show ?thesis using False by (simp add: sort_key_def)
qed

lemma covers_key:
  "covers t c x \<longleftrightarrow> test_key t (v1 c) \<le> test_key t x \<and> test_key t x \<le> test_key t (v2 c)"
  by (simp add: covers_def)

definition ascending :: "u32 \<Rightarrow> case_t list \<Rightarrow> bool" where
  "ascending t cs \<longleftrightarrow> sorted_wrt (\<lambda>a b. test_key t (v2 a) < test_key t (v1 b)) cs \<and> (\<forall>c\<in>set cs. case_ok t c)"

text \<open>The codes a value leads to; two of them are a duplicate case.\<close>

definition hits :: "u32 \<Rightarrow> case_t list \<Rightarrow> u64 \<Rightarrow> nat list" where
  "hits t cs x = map case_ind (filter (\<lambda>c. covers t c x) cs)"

definition duplicate :: "u32 \<Rightarrow> case_t list \<Rightarrow> bool" where
  "duplicate t cs \<longleftrightarrow> (\<exists>x. 2 \<le> length (hits t cs x))"

lemma ascending_hits: "ascending t cs \<Longrightarrow> length (hits t cs x) \<le> 1"
proof (induction cs)
  case (Cons c cs)
  then have "ascending t cs" "\<forall>d\<in>set cs. test_key t (v2 c) < test_key t (v1 d)" by (auto simp: ascending_def)
  moreover from this(2) have "hits t cs x = []" if "covers t c x"
    using that by (auto simp: hits_def filter_empty_conv covers_key)
  ultimately show ?case using Cons.IH by (auto simp: hits_def)
qed (simp add: hits_def)

lemma not_duplicate: "(\<And>x. length (hits t cs x) \<le> 1) \<Longrightarrow> \<not> duplicate t cs"
  unfolding duplicate_def by (metis Suc_1 Suc_n_not_le_n One_nat_def le_trans)

lemma merge_cases:
  assumes "sorted_wrt (\<lambda>a b. test_key t (v1 a) \<le> test_key t (v1 b)) cs" "\<forall>c\<in>set cs. case_ok t c"
  shows "case merge_cases t cs of
      Inl l \<Rightarrow> duplicate t cs
    | Inr cs' \<Rightarrow> ascending t cs' \<and> (\<forall>x. hits t cs' x = hits t cs x)
        \<and> (\<forall>c'\<in>set cs'. \<exists>c\<in>set cs. test_key t (v1 c) = test_key t (v1 c'))"
  using assms
proof (induction t cs rule: merge_cases.induct)
  case (1 t p0 p1 ps)
  have ok: "case_ok t p0" "case_ok t p1" using 1(4) by auto
  have le: "test_key t (v1 p0) \<le> test_key t (v1 p1)" using 1(3) by simp
  consider "case_cmp t (v2 p0) (v1 p1) \<ge> 0"
    | "\<not> case_cmp t (v2 p0) (v1 p1) \<ge> 0" "v2 p0 + 1 = v1 p1 \<and> case_ind p0 = case_ind p1"
    | "\<not> case_cmp t (v2 p0) (v1 p1) \<ge> 0" "\<not> (v2 p0 + 1 = v1 p1 \<and> case_ind p0 = case_ind p1)" by blast
  then show ?case
  proof cases
    case a: 1
    then have "test_key t (v1 p1) \<le> test_key t (v2 p0)"
      using ok case_cmp_key(2) by (simp add: case_ok_def agrees_def)
    then have "2 \<le> length (hits t (p0 # p1 # ps) (v1 p1))"
      using ok le by (simp add: hits_def covers_key case_ok_def)
    then show ?thesis using a by (auto simp: duplicate_def)
  next
    case b: 2
    let ?q = "p1\<lparr>v1 := v1 p0\<rparr>"
    have k: "test_key t (v1 p1) = test_key t (v2 p0) + 1"
      using b ok sort_key_Suc [of t "v2 p0"] case_cmp_key(2) [of t "v2 p0" "v1 p1"]
      by (auto simp: case_ok_def agrees_def)
    have "case_ok t ?q" using ok k by (auto simp: case_ok_def)
    then have ih: "case merge_cases t (?q # ps) of
      Inl l \<Rightarrow> duplicate t (?q # ps)
    | Inr cs' \<Rightarrow> ascending t cs' \<and> (\<forall>x. hits t cs' x = hits t (?q # ps) x)
        \<and> (\<forall>c'\<in>set cs'. \<exists>c\<in>set (?q # ps). test_key t (v1 c) = test_key t (v1 c'))"
      using 1(1) [OF b] 1(3,4) by (auto simp del: merge_cases.simps)
    have h: "hits t (?q # ps) x = hits t (p0 # p1 # ps) x" for x
      using b(2) k ok by (auto simp: hits_def covers_key case_ok_def)
    show ?thesis using ih b unfolding duplicate_def h by (auto split: sum.splits)
  next
    case c: 3
    have lt: "test_key t (v2 p0) < test_key t (v1 p1)"
      using c(1) ok case_cmp_key(2) by (simp add: case_ok_def agrees_def)
    have ih: "case merge_cases t (p1 # ps) of
      Inl l \<Rightarrow> duplicate t (p1 # ps)
    | Inr cs' \<Rightarrow> ascending t cs' \<and> (\<forall>x. hits t cs' x = hits t (p1 # ps) x)
        \<and> (\<forall>c'\<in>set cs'. \<exists>c\<in>set (p1 # ps). test_key t (v1 c) = test_key t (v1 c'))"
      using 1(2) [OF c] 1(3,4) by simp
    have all: "\<forall>d\<in>set (p1 # ps). test_key t (v2 p0) < test_key t (v1 d)" using lt 1(3) by auto
    have h: "hits t (p0 # cs) x = (if covers t p0 x then case_ind p0 # hits t cs x else hits t cs x)" for cs x
      by (simp add: hits_def)
    show ?thesis
    proof (cases "merge_cases t (p1 # ps)")
      case (Inl l)
      then obtain x where "2 \<le> length (hits t (p1 # ps) x)" using ih by (auto simp: duplicate_def)
      then have "2 \<le> length (hits t (p0 # p1 # ps) x)" unfolding h [of "p1 # ps"] by auto
      then show ?thesis using Inl c by (auto simp: duplicate_def)
    next
      case (Inr cs')
      then have "\<forall>d\<in>set cs'. test_key t (v2 p0) < test_key t (v1 d)" using ih all by auto metis
      then show ?thesis using Inr ih c ok h by (auto simp: ascending_def)
    qed
  qed
qed (auto simp: ascending_def)


section \<open>The search finds the case\<close>

definition middle :: "case_t list \<Rightarrow> nat" where
  "middle base = (if length base > 8 then length base div 2 else 0)"

lemma gcase_Nil: "gcase [] dsym out = (length out # dsym, out @ [Jump Open])"
  by (subst gcase.simps) simp

lemma gcase_single:
  assumes "base \<noteq> []" "middle base = 0" "v1 (base ! 0) = v2 (base ! 0)"
  shows "gcase base dsym out =
    gcase (drop 1 base) dsym (out @ [Test TestEq (v2 (base ! 0)) (Addr (case_ind (base ! 0)))])"
  using assms by (subst gcase.simps) (auto simp: middle_def Let_def)

lemma gcase_range:
  assumes "base \<noteq> []" "\<not> (middle base = 0 \<and> v1 (base ! 0) = v2 (base ! 0))"
    and "p = base ! middle base"
    and "gcase (take (middle base) base) (if length base = 1 then length out # dsym else dsym)
          (out @ [Test TestGt (v2 p) Open, Test TestGe (v1 p) (Addr (case_ind p))]) = (ds2, o2)"
  shows "gcase base dsym out =
    gcase (drop (middle base + 1) base) ds2
      (if length base = 1 then o2 else o2[length out := set_target (Here (length o2)) (o2 ! length out)])"
proof -
  have m: "(if length base > 8 then length base div 2 else 0) = middle base" by (simp add: middle_def)
  have c: "\<not> (middle base = 0 \<and> v1 (base ! middle base) = v2 (base ! middle base))" using assms(2) by auto
  show ?thesis
    using assms(1,4) c
    by (subst gcase.simps) (simp only: m Let_def assms(3) if_False append_assoc append.simps prod.case simp_thms)
qed

lemma middle_less: "base \<noteq> [] \<Longrightarrow> middle base < length base"
  by (auto simp: middle_def)

text \<open>The code grows at its end, and so does the chain.\<close>

lemma gcase_grows:
  "gcase base dsym out = (ds', out') \<Longrightarrow>
   length out < length out' \<and> take (length out) out' = out \<and>
   (\<exists>new. ds' = new @ dsym \<and> (\<forall>d\<in>set new. length out \<le> d \<and> d < length out'))"
proof (induction "length base" arbitrary: base dsym out ds' out' rule: less_induct)
  case less
  note IH = less(1) and g = less(2)
  show ?case
  proof (cases "base = []")
    case True
    then show ?thesis using g by (auto simp: gcase_Nil)
  next
    case ne: False
    show ?thesis
    proof (cases "middle base = 0 \<and> v1 (base ! 0) = v2 (base ! 0)")
      case True
      then have "gcase (drop 1 base) dsym (out @ [Test TestEq (v2 (base ! 0)) (Addr (case_ind (base ! 0)))]) = (ds', out')"
        using g gcase_single [OF ne] by simp
      from IH [OF _ this] ne obtain new where
        i: "length out + 1 < length out'" "take (length out + 1) out' = out @ [Test TestEq (v2 (base ! 0)) (Addr (case_ind (base ! 0)))]"
           "ds' = new @ dsym" "\<forall>d\<in>set new. length out + 1 \<le> d \<and> d < length out'" by auto
      have "take (length out) out' = out" using arg_cong [OF i(2), of "take (length out)"] by (simp add: min_def)
      moreover have "\<forall>d\<in>set new. length out \<le> d \<and> d < length out'" using i(4) by auto
      ultimately show ?thesis using i by auto
    next
      case False
      define p where "p = base ! middle base"
      define d0 where "d0 = (if length base = 1 then length out # dsym else dsym)"
      define o1 where "o1 = out @ [Test TestGt (v2 p) Open, Test TestGe (v1 p) (Addr (case_ind p))]"
      obtain ds2 o2 where g2: "gcase (take (middle base) base) d0 o1 = (ds2, o2)" by fastforce
      define o3 where "o3 = (if length base = 1 then o2 else o2[length out := set_target (Here (length o2)) (o2 ! length out)])"
      have g3: "gcase (drop (middle base + 1) base) ds2 o3 = (ds', out')"
        using g gcase_range [OF ne False p_def g2 [unfolded d0_def o1_def]] by (simp add: o3_def)
      have "length (take (middle base) base) < length base" using middle_less [OF ne] by simp
      from IH [OF this g2] obtain n2 where
        i2: "length o1 < length o2" "take (length o1) o2 = o1" "ds2 = n2 @ d0" "\<forall>d\<in>set n2. length o1 \<le> d \<and> d < length o2" by auto
      have "length (drop (middle base + 1) base) < length base" using ne by simp
      from IH [OF this g3] obtain n3 where
        i3: "length o3 < length out'" "take (length o3) out' = o3" "ds' = n3 @ ds2" "\<forall>d\<in>set n3. length o3 \<le> d \<and> d < length out'" by auto
      have l: "length o3 = length o2" "length o1 = length out + 2" by (simp_all add: o3_def o1_def)
      have "take (length out) o2 = out" using arg_cong [OF i2(2), of "take (length out)"] l by (simp add: o1_def min_def)
      then have "take (length out) o3 = out" by (simp add: o3_def)
      then have "take (length out) out' = out" using arg_cong [OF i3(2), of "take (length out)"] l i2(1) by (simp add: min_def)
      moreover have "\<exists>new. ds' = new @ dsym \<and> (\<forall>d\<in>set new. length out \<le> d \<and> d < length out')"
      proof (intro exI conjI)
        show "ds' = (n3 @ n2 @ (if length base = 1 then [length out] else [])) @ dsym" using i3(3) i2(3) by (simp add: d0_def)
        show "\<forall>d\<in>set (n3 @ n2 @ (if length base = 1 then [length out] else [])). length out \<le> d \<and> d < length out'"
          using i2 i3 l by auto
      qed
      moreover have "length out < length out'" using i2(1) i3(1) l by simp
      ultimately show ?thesis by blast
    qed
  qed
qed


text \<open>The final code from position a to b: the emitted one with the chain led to D.\<close>

definition patched :: "instr list \<Rightarrow> target \<Rightarrow> nat list \<Rightarrow> instr list \<Rightarrow> nat \<Rightarrow> nat \<Rightarrow> bool" where
  "patched F D ds out a b \<longleftrightarrow>
     (\<forall>p. a \<le> p \<and> p < b \<longrightarrow> F ! p = (if p \<in> set ds then set_target D (out ! p) else out ! p))"

definition arrives :: "instr list \<Rightarrow> target \<Rightarrow> outcome \<Rightarrow> bool" where
  "arrives F D r \<longleftrightarrow> D = Here (length F) \<and> r = Behind \<or> (\<exists>a. D = Addr a \<and> r = Reached a)"

lemma run_test:
  assumes "pc < length F" "F ! pc = Test k v l" "0 < n"
  shows "holds t k x v \<Longrightarrow> l = Addr a \<Longrightarrow> run t F x n pc = Reached a"
    and "holds t k x v \<Longrightarrow> l = Here q \<Longrightarrow> run t F x n pc = run t F x (n - 1) q"
    and "holds t k x v \<Longrightarrow> arrives F l r \<Longrightarrow> run t F x n pc = r"
    and "\<not> holds t k x v \<Longrightarrow> run t F x n pc = run t F x (n - 1) (pc + 1)"
  using assms by (cases n; auto simp: arrives_def; cases "n - 1"; auto)+

lemma run_jump:
  assumes "pc < length F" "F ! pc = Jump l" "0 < n" "arrives F l r"
  shows "run t F x n pc = r"
  using assms by (cases n; auto simp: arrives_def; cases "n - 1"; auto)+

lemma hits_simps: "hits t (xs @ ys) x = hits t xs x @ hits t ys x" "hits t [] x = []"
  "hits t (c # cs) x = (if covers t c x then case_ind c # hits t cs x else hits t cs x)"
  by (simp_all add: hits_def)

lemma hits_none: "(\<And>c. c \<in> set cs \<Longrightarrow> \<not> covers t c x) \<Longrightarrow> hits t cs x = []"
  by (simp add: hits_def filter_empty_conv)

lemma ascending_split:
  assumes "ascending t (xs @ p # ys)"
  shows "ascending t xs" "ascending t ys" "case_ok t p"
    "test_key t (v2 p) < test_key t x \<Longrightarrow> hits t xs x = []"
    "test_key t (v1 p) \<le> test_key t x \<Longrightarrow> hits t xs x = []"
    "test_key t x \<le> test_key t (v2 p) \<Longrightarrow> hits t ys x = []"
proof -
  have l: "\<forall>a\<in>set xs. test_key t (v2 a) < test_key t (v1 p)" and u: "\<forall>b\<in>set ys. test_key t (v2 p) < test_key t (v1 b)"
    and ok: "case_ok t p"
    using assms by (auto simp: ascending_def sorted_wrt_append)
  then have le: "test_key t (v1 p) \<le> test_key t (v2 p)" by (simp add: case_ok_def)
  show "ascending t xs" "ascending t ys" using assms by (auto simp: ascending_def sorted_wrt_append)
  show "case_ok t p" by (rule ok)
  show below: "test_key t (v1 p) \<le> test_key t x \<Longrightarrow> hits t xs x = []"
    using l by (intro hits_none) (force simp: covers_key)
  show "test_key t (v2 p) < test_key t x \<Longrightarrow> hits t xs x = []" using below le by simp
  show "test_key t x \<le> test_key t (v2 p) \<Longrightarrow> hits t ys x = []"
    using u by (intro hits_none) (force simp: covers_key)
qed

lemma run_gcase:
  assumes "gcase base dsym out = (ds', out')" "ascending t base" "\<forall>d\<in>set dsym. d < length out"
    and "length out' \<le> length F" "patched F D ds' out' (length out) (length out')" "arrives F D r"
    and "length out' - length out \<le> n"
  shows "run t F x n (length out) = (case hits t base x of [] \<Rightarrow> r | i # is \<Rightarrow> Reached i)"
  using assms
proof (induction "length base" arbitrary: base dsym out ds' out' n rule: less_induct)
  case less
  note IH = less(1) and g = less(2) and asc = less(3) and old = less(4) and len = less(5) and P = less(6) and D = less(7) and fuel = less(8)
  have gr: "length out < length out'" "take (length out) out' = out" using gcase_grows [OF g] by auto
  have n: "0 < n" using fuel gr by simp
  show ?case
  proof (cases "base = []")
    case True
    then have "ds' = length out # dsym" "out' = out @ [Jump Open]" using g by (simp_all add: gcase_Nil)
    then have "F ! length out = Jump D" "length out < length F" using P len by (auto simp: patched_def)
    then show ?thesis using run_jump [OF _ _ n D] True by (simp add: hits_def)
  next
    case ne: False
    show ?thesis
    proof (cases "middle base = 0 \<and> v1 (base ! 0) = v2 (base ! 0)")
      case True
      obtain c cs where b: "base = c # cs" using ne by (cases base) auto
      let ?o = "out @ [Test TestEq (v2 c) (Addr (case_ind c))]"
      have g1: "gcase cs dsym ?o = (ds', out')" using g gcase_single [OF ne] True b by simp
      obtain new where i: "length ?o < length out'" "take (length ?o) out' = ?o" "ds' = new @ dsym" "\<forall>d\<in>set new. length ?o \<le> d"
        using gcase_grows [OF g1] by auto
      have "length out \<notin> set ds'" using i old by auto
      moreover have "out' ! length out = Test TestEq (v2 c) (Addr (case_ind c))"
        using arg_cong [OF i(2), of "\<lambda>l. l ! length out"] by simp
      ultimately have F: "F ! length out = Test TestEq (v2 c) (Addr (case_ind c))" "length out < length F"
        using P len gr(1) by (auto simp: patched_def)
      have cov: "covers t c x \<longleftrightarrow> holds t TestEq x (v2 c)" using True b by (auto simp: covers_key)
      have asc': "ascending t cs" using ascending_split(2) [of t "[]" c cs] asc b by simp
      show ?thesis
      proof (cases "covers t c x")
        case True
        then show ?thesis using run_test(1) [OF F(2,1) n _ refl] cov b by (simp add: hits_simps)
      next
        case False
        have "run t F x (n - 1) (length ?o) = (case hits t cs x of [] \<Rightarrow> r | i # is \<Rightarrow> Reached i)"
          by (rule IH [OF _ g1 asc' _ len _ D]) (use b old P fuel in \<open>auto simp: patched_def\<close>)
        then show ?thesis using run_test(4) [OF F(2,1) n] cov False b by (simp add: hits_simps)
      qed
    next
      case False
      define m where "m = middle base"
      define p where "p = base ! m"
      define d0 where "d0 = (if length base = 1 then length out # dsym else dsym)"
      define o1 where "o1 = out @ [Test TestGt (v2 p) Open, Test TestGe (v1 p) (Addr (case_ind p))]"
      obtain ds2 o2 where g2: "gcase (take m base) d0 o1 = (ds2, o2)" by fastforce
      define o3 where "o3 = (if length base = 1 then o2 else o2[length out := set_target (Here (length o2)) (o2 ! length out)])"
      have g3: "gcase (drop (m + 1) base) ds2 o3 = (ds', out')"
        using g gcase_range [OF ne False] g2 by (simp add: o3_def m_def p_def d0_def o1_def)
      have ml: "m < length base" using middle_less [OF ne] by (simp add: m_def)
      have b: "base = take m base @ p # drop (m + 1) base" using id_take_nth_drop [OF ml] by (simp add: p_def)
      note A = ascending_split [of t "take m base" p "drop (m + 1) base", folded b, OF asc]
      obtain n2 where i2: "length o1 < length o2" "take (length o1) o2 = o1" "ds2 = n2 @ d0" "\<forall>d\<in>set n2. length o1 \<le> d \<and> d < length o2"
        using gcase_grows [OF g2] by auto
      obtain n3 where i3: "length o3 < length out'" "take (length o3) out' = o3" "ds' = n3 @ ds2" "\<forall>d\<in>set n3. length o3 \<le> d \<and> d < length out'"
        using gcase_grows [OF g3] by auto
      have l: "length o3 = length o2" "length o1 = length out + 2" by (simp_all add: o3_def o1_def)
      have at3: "out' ! q = o3 ! q" if "q < length o3" for q
        using arg_cong [OF i3(2), of "\<lambda>l. l ! q"] that i3(1) by simp
      have at2: "o2 ! q = o1 ! q" if "q < length o1" for q
        using arg_cong [OF i2(2), of "\<lambda>l. l ! q"] that i2(1) by simp
      have first: "o2 ! length out = Test TestGt (v2 p) Open" "o2 ! (length out + 1) = Test TestGe (v1 p) (Addr (case_ind p))"
        using at2 [of "length out"] at2 [of "length out + 1"] l(2) by (simp_all add: o1_def nth_append)
      have e_in: "length out \<in> set ds' \<longleftrightarrow> length base = 1" "length out + 1 \<notin> set ds'"
        using i2(3,4) i3(3,4) i2(1) l old by (auto simp: d0_def split: if_splits)
      have F0: "F ! length out = Test TestGt (v2 p) (if length base = 1 then D else Here (length o2))"
        using P gr(1) at3 [of "length out"] i2(1) l first e_in(1) by (auto simp: patched_def o3_def)
      have F1: "F ! (length out + 1) = Test TestGe (v1 p) (Addr (case_ind p))"
        using P at3 [of "length out + 1"] i2(1) i3(1) l first e_in(2) by (auto simp: patched_def o3_def)
      have lF: "length out < length F" "length out + 1 < length F" using len i2(1) i3(1) l by simp_all
      have h: "hits t base x = hits t (take m base) x @ (if covers t p x then [case_ind p] else []) @ hits t (drop (m + 1) base) x"
        by (subst b) (simp add: hits_simps)
      have P3: "patched F D ds' out' (length o3) (length out')" using P l i2(1) by (auto simp: patched_def)
      have old3: "\<forall>d\<in>set ds2. d < length o3" using i2 l old by (auto simp: d0_def split: if_splits)
      consider (above) "test_key t (v2 p) < test_key t x" | (inside) "covers t p x" | (below) "test_key t x < test_key t (v1 p)"
        unfolding covers_key by linarith
      then show ?thesis
      proof cases
        case above
        then have hb: "hits t base x = hits t (drop (m + 1) base) x" using h A(4) by (simp add: covers_key)
        have ho: "holds t TestGt x (v2 p)" using above by simp
        show ?thesis
        proof (cases "length base = 1")
          case True
          then have "drop (m + 1) base = []" using ml by simp
          then have "hits t base x = []" using hb by (simp add: hits_def)
          then show ?thesis using run_test(3) [OF lF(1) F0 n ho] True D by simp
        next
          case False
          have "run t F x (n - 1) (length o3) = (case hits t (drop (m + 1) base) x of [] \<Rightarrow> r | i # is \<Rightarrow> Reached i)"
            by (rule IH [OF _ g3 A(2) old3 len P3 D]) (use ne l i2(1) fuel in auto)
          then show ?thesis using run_test(2) [OF lF(1) F0 n ho] False hb l by simp
        qed
      next
        case inside
        then have "hits t base x = [case_ind p]" using h A(5,6) by (simp add: covers_key)
        moreover have "\<not> holds t TestGt x (v2 p)" "holds t TestGe x (v1 p)" using inside by (simp_all add: covers_key)
        moreover have "0 < n - 1" using fuel i2(1) i3(1) l by simp
        ultimately show ?thesis
          using run_test(4) [OF lF(1) F0 n] run_test(1) [OF lF(2) F1 _ _ refl] by simp
      next
        case below
        then have up: "test_key t x \<le> test_key t (v2 p)" using A(3) by (simp add: case_ok_def)
        then have hb: "hits t base x = hits t (take m base) x" using h A(6) below by (simp add: covers_key)
        have no: "\<not> holds t TestGt x (v2 p)" "\<not> holds t TestGe x (v1 p)" using below up by simp_all
        have n1: "0 < n - 1" using fuel i2(1) i3(1) l by simp
        have "run t F x (n - 1 - 1) (length o1) = (case hits t (take m base) x of [] \<Rightarrow> r | i # is \<Rightarrow> Reached i)"
        proof (rule IH [OF _ g2 A(1) _ _ _ D])
          show "length (take m base) < length base" using ml by simp
          show "\<forall>d\<in>set d0. d < length o1" using old l by (auto simp: d0_def)
          show "length o2 \<le> length F" using len i3(1) l by simp
          show "length o2 - length o1 \<le> n - 1 - 1" using fuel i3(1) l by simp
          have "q \<in> set ds' \<longleftrightarrow> q \<in> set ds2" if "q < length o2" for q using that i3(3,4) l by auto
          moreover have "out' ! q = o2 ! q" if "length o1 \<le> q" "q < length o2" for q
            using at3 [of q] that l by (auto simp: o3_def)
          ultimately show "patched F D ds2 o2 (length o1) (length o2)"
            using P i3(1) l by (auto simp: patched_def)
        qed
        then show ?thesis
          using run_test(4) [OF lF(1) F0 n no(1)] run_test(4) [OF lF(2) F1 n1 no(2)] hb l by simp
      qed
    qed
  qed
qed


lemma set_target_twice [simp]: "set_target l (set_target l' i) = set_target l i"
  by (cases i) auto

lemma patch_nth:
  "\<forall>d\<in>set ds. d < length out \<Longrightarrow>
   length (patch l ds out) = length out \<and>
   (\<forall>p<length out. patch l ds out ! p = (if p \<in> set ds then set_target l (out ! p) else out ! p))"
proof (induction ds arbitrary: out)
  case Nil
  then show ?case by (simp add: patch_def)
next
  case (Cons d ds)
  let ?o = "out[d := set_target l (out ! d)]"
  have "patch l (d # ds) out = patch l ds ?o" by (simp add: patch_def)
  then show ?case using Cons.IH [of ?o] Cons.prems by (auto simp: nth_list_update)
qed

lemma short_perm: "mset xs = mset ys \<Longrightarrow> length ys \<le> 1 \<Longrightarrow> xs = ys"
  by (cases ys; cases "tl ys") auto

lemma case_sort:
  assumes "sorts qsort t" "\<forall>c\<in>set cs. case_ok t c"
  shows "case case_sort t qsort cs of
      Inl l \<Rightarrow> duplicate t cs
    | Inr cs' \<Rightarrow> ascending t cs' \<and> \<not> duplicate t cs \<and> (\<forall>x. hits t cs' x = hits t cs x)"
proof (cases "length cs < 2")
  case True
  then consider "cs = []" | c where "cs = [c]" by (cases cs; cases "tl cs") auto
  then have "ascending t cs" using assms(2) by cases (auto simp: ascending_def)
  moreover from this have "\<not> duplicate t cs" using ascending_hits [of t cs] not_duplicate by blast
  ultimately show ?thesis using True by (simp add: case_sort_def)
next
  case False
  let ?q = "qsort (case_cmp_qs t) cs"
  have m: "mset ?q = mset cs" and srt: "sorted_wrt (\<lambda>a b. case_cmp_qs t a b \<le> 0) ?q"
    using assms(1) by (auto simp: sorts_def)
  have ok: "\<forall>c\<in>set ?q. case_ok t c" using assms(2) mset_eq_setD [OF m] by simp
  have "sorted_wrt (\<lambda>a b. test_key t (v1 a) \<le> test_key t (v1 b)) ?q"
    using srt by (rule sorted_wrt_mono_rel [rotated])
      (use ok in \<open>auto simp: case_cmp_qs_def case_cmp_key(3) case_ok_def agrees_def\<close>)
  note g = merge_cases [OF this ok]
  have hm: "mset (hits t ?q x) = mset (hits t cs x)" for x
    unfolding hits_def mset_map mset_filter m ..
  then have hl: "length (hits t ?q x) = length (hits t cs x)" for x by (metis size_mset)
  show ?thesis
  proof (cases "merge_cases t ?q")
    case (Inl l)
    then show ?thesis using g False hl by (simp add: case_sort_def duplicate_def)
  next
    case (Inr cs')
    then have a: "ascending t cs'" "\<And>x. hits t cs' x = hits t ?q x" using g by auto
    then have l1: "length (hits t cs x) \<le> 1" for x using ascending_hits [OF a(1)] hl by metis
    then have "hits t ?q x = hits t cs x" for x
      using hm short_perm l1 by blast
    moreover have "\<not> duplicate t cs" using l1 not_duplicate by blast
    ultimately show ?thesis using Inr a False by (simp add: case_sort_def)
  qed
qed

lemma switch_target_hits: "switch_target t cs x = (case hits t cs x of [] \<Rightarrow> None | i # is \<Rightarrow> Some i)"
  by (induction cs) (auto simp: switch_target_def hits_def)

lemma switch_code_runs:
  assumes "sorts qsort t" "\<forall>c\<in>set cs. case_ok t c" "switch_code t qsort cs def_sym = Inr F" "length F \<le> n"
  shows "run t F x n 0 = (case switch_target t cs x of Some a \<Rightarrow> Reached a
    | None \<Rightarrow> (case def_sym of Some a \<Rightarrow> Reached a | None \<Rightarrow> Behind))"
proof -
  obtain p where p: "case_sort t qsort cs = Inr p" using assms(3) by (cases "case_sort t qsort cs") (auto simp: switch_code_def)
  obtain d out where g: "gcase p [] [] = (d, out)" by fastforce
  define D where "D = (case def_sym of Some a \<Rightarrow> Addr a | None \<Rightarrow> Here (length out))"
  have F: "F = patch D d out" using assms(3) p g by (simp add: switch_code_def D_def)
  have d: "\<forall>q\<in>set d. q < length out" using gcase_grows [OF g] by auto
  note P = patch_nth [OF d, of D]
  have pt: "patched F D d out (length ([] :: instr list)) (length out)" using P F by (auto simp: patched_def)
  have ar: "arrives F D (case def_sym of Some a \<Rightarrow> Reached a | None \<Rightarrow> Behind)"
    using P F by (auto simp: arrives_def D_def split: option.splits)
  have a: "ascending t p" "hits t p x = hits t cs x" using case_sort [OF assms(1,2)] p by auto
  have "run t F x n (length ([] :: instr list)) = (case hits t p x of [] \<Rightarrow> (case def_sym of Some a \<Rightarrow> Reached a | None \<Rightarrow> Behind) | i # is \<Rightarrow> Reached i)"
    by (rule run_gcase [OF g a(1) _ _ pt ar]) (use P F assms(4) in auto)
  then show ?thesis by (simp add: a(2) switch_target_hits split: list.splits)
qed

section \<open>Case values\<close>

lemma test_key_value64:
  assumes "t AND 0x000f \<in> {1, 2, 3, 4, 11}"
    and "t AND 0x000f \<notin> {3, 4} \<and> t AND 0x0010 \<noteq> 0 \<Longrightarrow> value64 a t < 2 ^ 31"
  shows "agrees t (value64 a t)"
proof (cases "t AND 0x000f = 4")
  case True
  then show ?thesis by (simp add: agrees_def sort_key_def test_key_def)
next
  case False
  let ?v = "value64 a t"
  have nb: "t AND 0x000f \<noteq> 5" using assms(1) by auto
  have e: "?v = (if t AND 0x0010 \<noteq> 0 then ucast (ucast a :: u32) else scast (ucast a :: u32))"
    using value64_int [of 3 a] value64_int [of "0x13" a] False nb unfolding value64_def is_uns_def by simp
  have low: "(ucast ?v :: u32) = ucast a"
    unfolding e by (rule bit_word_eqI, rename_tac n, case_tac "n = 31"; simp add: bit_simps min_def)
  have u: "uint (ucast (ucast a :: u32) :: u64) = uint (ucast a :: u32)"
    by (simp add: unsigned_ucast_eq unsigned_take_bit_eq)
  have s: "sint (scast (ucast a :: u32) :: u64) = sint (ucast a :: u32)"
    unfolding signed_scast_eq sint_uint [of "ucast a :: u32"] by simp
  show ?thesis
  proof (cases "t AND 0x0010 \<noteq> 0")
    case True
    show ?thesis
    proof (cases "t AND 0x000f = 3")
      case b: True
      have "sort_key t ?v = uint (ucast a :: u32)" using True u e by (simp add: sort_key_def)
      then show ?thesis using True b False low by (simp add: agrees_def test_key_def)
    next
      case b: False
      have "?v < 2 ^ 31" using assms(2) b False True by blast
      then have "uint (ucast a :: u32) < 2 ^ 31" using u e True by (simp add: word_less_def)
      then have "unat (ucast a :: u32) < 2 ^ 31" by (metis uint_nat of_nat_less_iff of_nat_numeral of_nat_power)
      then have "sint (ucast a :: u32) = uint (ucast a :: u32)" by (simp only: sint_small uint_nat)
      then show ?thesis using True b False low u e by (simp add: agrees_def sort_key_def test_key_def)
    qed
  next
    case c: False
    then show ?thesis using False low s e by (simp add: agrees_def sort_key_def test_key_def)
  qed
qed

definition read_cases :: "u32 \<Rightarrow> (u64 \<times> u64 option \<times> nat \<times> nat) list \<Rightarrow> (case_t \<times> bool) list" where
  "read_cases t ls = map (\<lambda>(lo, hi, i, l). read_case t lo hi i l) ls"

text \<open>
  The switches the search is right for: on an integer, without an empty range, and, on an unsigned char or
  short, without a negative case value.
\<close>

definition switch_ok :: "u32 \<Rightarrow> (u64 \<times> u64 option \<times> nat \<times> nat) list \<Rightarrow> bool" where
  "switch_ok t ls \<longleftrightarrow> t AND 0x000f \<in> {1, 2, 3, 4, 11} \<and>
     list_all (\<lambda>(c, warned). \<not> warned \<and>
       (t AND 0x000f \<in> {3, 4} \<or> t AND 0x0010 = 0 \<or> v1 c < 2 ^ 31 \<and> v2 c < 2 ^ 31)) (read_cases t ls)"

lemma switch_cases_ok:
  assumes "switch_ok t ls"
  shows "\<forall>c\<in>set (map fst (read_cases t ls)). case_ok t c"
proof
  fix c assume "c \<in> set (map fst (read_cases t ls))"
  then obtain lo hi i l where m: "(lo, hi, i, l) \<in> set ls" "c = fst (read_case t lo hi i l)" by (auto simp: read_cases_def)
  then have w: "\<not> snd (read_case t lo hi i l)"
      "t AND 0x000f \<in> {3, 4} \<or> t AND 0x0010 = 0 \<or> v1 c < 2 ^ 31 \<and> v2 c < 2 ^ 31"
    using bspec [OF assms [unfolded switch_ok_def list_all_iff, THEN conjunct2], of "read_case t lo hi i l"] m
    unfolding read_cases_def by (force simp: case_prod_beta)+
  have t: "t AND 0x000f \<in> {1, 2, 3, 4, 11}" using assms by (simp add: switch_ok_def)
  obtain a b where v: "v1 c = value64 a t" "v2 c = value64 b t" using m(2) by (auto simp: read_case_def Let_def split: option.splits)
  have "agrees t (v1 c)" "agrees t (v2 c)" using test_key_value64 [OF t] w(2) v by auto
  moreover have "sort_key t (v1 c) \<le> sort_key t (v2 c)"
    using w(1) m(2) by (auto simp: read_case_def Let_def case_cmp_key(1) not_less split: option.splits)
  ultimately show "case_ok t c" by (simp add: case_ok_def agrees_def)
qed


section \<open>A sorting function for the examples\<close>

fun insert_case :: "(case_t \<Rightarrow> case_t \<Rightarrow> int) \<Rightarrow> case_t \<Rightarrow> case_t list \<Rightarrow> case_t list" where
  "insert_case cmp c [] = [c]"
| "insert_case cmp c (d # ds) = (if cmp c d \<le> 0 then c # d # ds else d # insert_case cmp c ds)"

definition insertion_sort :: sorter where
  "insertion_sort cmp cs = foldr (insert_case cmp) cs []"

lemma insertion_sort: "sorts insertion_sort t"
proof -
  let ?le = "\<lambda>a b. case_cmp_qs t a b \<le> 0"
  have le: "?le a b \<longleftrightarrow> sort_key t (v1 a) \<le> sort_key t (v1 b)" for a b by (simp add: case_cmp_qs_def case_cmp_key(3))
  have ins: "mset (insert_case (case_cmp_qs t) c cs) = add_mset c (mset cs)" for c cs by (induction cs) auto
  then have insset: "set (insert_case (case_cmp_qs t) c cs) = insert c (set cs)" for c cs
    by (metis set_mset_mset set_mset_add_mset_insert)
  have srt: "sorted_wrt ?le cs \<Longrightarrow> sorted_wrt ?le (insert_case (case_cmp_qs t) c cs)" for c cs
    unfolding le by (induction cs) (auto simp: insset le)
  have "mset (insertion_sort (case_cmp_qs t) cs) = mset cs \<and> sorted_wrt ?le (insertion_sort (case_cmp_qs t) cs)" for cs
    by (induction cs) (auto simp: insertion_sort_def ins srt)
  then show ?thesis by (simp add: sorts_def)
qed

text \<open>A switch on an int with ten labels, one of them the range 20 to 29, and the default code at 99.\<close>

definition example_labels :: "(u64 \<times> u64 option \<times> nat \<times> nat) list" where
  "example_labels = (20, Some 29, 50, 7) # map (\<lambda>k. (of_nat k, None, 10 + k, k)) [9, 1, 3, 2, 0, 7, 5, 30, 31]"

lemma example_switch:
  "switch_ok 3 example_labels"
  "\<exists>F. switch_code 3 insertion_sort (map fst (read_cases 3 example_labels)) (Some 99) = Inr F"
proof -
  show "switch_ok 3 example_labels" by code_simp
  have "(case switch_code 3 insertion_sort (map fst (read_cases 3 example_labels)) (Some 99) of Inl l \<Rightarrow> False | Inr F \<Rightarrow> True)"
    by code_simp
  then show "\<exists>F. switch_code 3 insertion_sort (map fst (read_cases 3 example_labels)) (Some 99) = Inr F"
    by (auto split: sum.splits)
qed

text \<open>
  Two switches outside those: in switch (x) { case 4: case 5 ... 3: .. } the empty range is merged with the
  case before it, which is then never found; and in a switch on an unsigned char with the cases 1 and -9 to
  -1 the negative ones are sorted as unsigned but tested as int, so that 1 is not found.
\<close>

lemma empty_range_hides_case:
  "switch_target 3 (map fst (read_cases 3 [(4, None, 10, 1), (5, Some 3, 10, 1)])) 4 = Some 10"
  "(case switch_code 3 insertion_sort (map fst (read_cases 3 [(4, None, 10, 1), (5, Some 3, 10, 1)])) (Some 99) of
     Inl l \<Rightarrow> False | Inr F \<Rightarrow> run 3 F 4 (length F) 0 = Reached 99)"
  by code_simp+

definition negative_labels :: "(u64 \<times> u64 option \<times> nat \<times> nat) list" where
  "negative_labels = (1, None, 50, 1) # map (\<lambda>k. (- of_nat k, None, 10 + k, k)) [1..<10]"

lemma negative_case_hides_others:
  "switch_target 0x11 (map fst (read_cases 0x11 negative_labels)) 1 = Some 50"
  "(case switch_code 0x11 insertion_sort (map fst (read_cases 0x11 negative_labels)) (Some 99) of
     Inl l \<Rightarrow> False | Inr F \<Rightarrow> run 0x11 F 1 (length F) 0 = Reached 99)"
  by code_simp+

section \<open>Properties\<close>

text \<open>
  C6: the search of a switch refines its cases. Whatever value is switched on, the tests and jumps that
  gcase emits for the sorted and merged cases end, within as many steps as there are instructions, at the
  code of the case that covers the value; without one, at the default label or behind the search.
\<close>

theorem switch_dispatch:
  assumes "sorts qsort t" "switch_ok t ls"
    and "switch_code t qsort (map fst (read_cases t ls)) def_sym = Inr F"
  shows "run t F x (length F) 0 = (case switch_target t (map fst (read_cases t ls)) x of
      Some a \<Rightarrow> Reached a
    | None \<Rightarrow> (case def_sym of Some a \<Rightarrow> Reached a | None \<Rightarrow> Behind))"
  using switch_code_runs [OF assms(1) switch_cases_ok [OF assms(2)] assms(3) order_refl] .

theorem switch_dispatch_witness:
  "\<exists>F. switch_code 3 insertion_sort (map fst (read_cases 3 example_labels)) (Some 99) = Inr F
     \<and> run 3 F 27 (length F) 0 = Reached 50 \<and> run 3 F 31 (length F) 0 = Reached 41 \<and> run 3 F 4 (length F) 0 = Reached 99"
proof -
  obtain F where F: "switch_code 3 insertion_sort (map fst (read_cases 3 example_labels)) (Some 99) = Inr F"
    using example_switch(2) by blast
  have "switch_target 3 (map fst (read_cases 3 example_labels)) 27 = Some 50"
    "switch_target 3 (map fst (read_cases 3 example_labels)) 31 = Some 41"
    "switch_target 3 (map fst (read_cases 3 example_labels)) 4 = None"
    by code_simp+
  then show ?thesis using switch_dispatch [OF insertion_sort example_switch(1) F] F by auto
qed

text \<open>
  C32: a switch is rejected exactly when some value has two cases; merging never hides a duplicate and
  never makes one up.
\<close>

theorem switch_duplicates:
  assumes "sorts qsort t" "switch_ok t ls"
  shows "(case switch_code t qsort (map fst (read_cases t ls)) def_sym of Inl l \<Rightarrow> True | Inr F \<Rightarrow> False)
    \<longleftrightarrow> duplicate t (map fst (read_cases t ls))"
  using case_sort [OF assms(1) switch_cases_ok [OF assms(2)]]
  by (auto simp: switch_code_def split: sum.splits prod.splits)

theorem switch_duplicates_witness:
  "duplicate 3 (map fst (read_cases 3 [(20, Some 29, 50, 7), (25, None, 60, 8)]))"
proof -
  let ?ls = "[(20, Some 29, 50, 7), (25, None, 60, 8)] :: (u64 \<times> u64 option \<times> nat \<times> nat) list"
  have "switch_ok 3 ?ls" by code_simp
  moreover have "case switch_code 3 insertion_sort (map fst (read_cases 3 ?ls)) None of Inl l \<Rightarrow> True | Inr F \<Rightarrow> False"
    by code_simp
  ultimately show ?thesis using switch_duplicates [OF insertion_sort] by blast
qed

end
