(* ===== verification/CTypes.thy ===== *)
theory CTypes
  imports Structs ConstFold
begin

text \<open>
  Comparing and combining types (the predicates of lines 16227-16261, is_null_pointer to combine_types,
  lines 17838-18022, mk_pointer to verify_assign_cast, 18401-18521, and the conversion of a constant in gen_cast,
  18209-18262). Types are compared by the identity of the symbols they refer to, so symbols are here the
  positions of a store, which sym_push appends to; a type is its code and the position of its symbol.
\<close>

record tsym =
  ts_c :: int
  ts_t :: u32
  ts_ref :: nat
  ts_call :: nat
  ts_ftype :: nat
  ts_next :: "nat option"

type_synonym symstore = "tsym list"
type_synonym ty = "u32 \<times> nat"

definition pointed_type :: "symstore \<Rightarrow> ty \<Rightarrow> ty" where
  "pointed_type st ty = (ts_t (st ! snd ty), ts_ref (st ! snd ty))"

definition is_float :: "u32 \<Rightarrow> bool" where
  "is_float t = (let bt = t AND 0x000f in bt = 10 \<or> bt = 9 \<or> bt = 8 \<or> bt = 14)"

definition is_integer_btype :: "u32 \<Rightarrow> bool" where
  "is_integer_btype bt \<longleftrightarrow> bt = 1 \<or> bt = 11 \<or> bt = 2 \<or> bt = 3 \<or> bt = 4"

definition btype_size :: "u32 \<Rightarrow> nat" where
  "btype_size bt = (if bt = 1 \<or> bt = 11 then 1 else if bt = 2 then 2 else if bt = 3 then 4
     else if bt = 4 then 8 else if bt = 5 then 8 else 0)"

section \<open>Compatible types\<close>

text \<open>
  compare_types and is_compatible_func, which call each other: the body of each is given the comparison it
  calls. None is a comparison that runs out of fuel. The storage bits and those of bit-fields and enums are
  ignored, and signed only matters for char.
\<close>

definition ignored_bits :: u32 where "ignored_bits = 0x3e000 OR enum_mask"

definition compared_bits :: "bool \<Rightarrow> u32 \<Rightarrow> u32" where
  "compared_bits unqualified t =
     (let t = t AND NOT ignored_bits;
          t = (if unqualified then t AND NOT 0x0700 else t)
      in if t AND 0x000f \<noteq> 1 then t AND NOT 0x0020 else t)"

type_synonym comparison = "bool \<Rightarrow> ty \<Rightarrow> ty \<Rightarrow> bool option"

fun params_loop :: "comparison \<Rightarrow> symstore \<Rightarrow> nat \<Rightarrow> nat \<Rightarrow> nat \<Rightarrow> bool option" where
  "params_loop cmp st 0 s1 s2 = None"
| "params_loop cmp st (Suc n) s1 s2 =
     (case cmp True (pointed_type st (0, s1)) (pointed_type st (0, s2)) of
        None \<Rightarrow> None
      | Some False \<Rightarrow> Some False
      | Some True \<Rightarrow>
          if ts_ftype (st ! s1) = 2 \<or> ts_ftype (st ! s2) = 2 then Some True
          else (case (ts_next (st ! s1), ts_next (st ! s2)) of
              (None, None) \<Rightarrow> Some True
            | (Some u, Some v) \<Rightarrow> params_loop cmp st n u v
            | _ \<Rightarrow> Some False))"

definition is_compatible_func :: "comparison \<Rightarrow> symstore \<Rightarrow> nat \<Rightarrow> nat \<Rightarrow> bool option" where
  "is_compatible_func cmp st s1 s2 =
     (if ts_call (st ! s1) \<noteq> ts_call (st ! s2) then Some False
      else if ts_ftype (st ! s1) \<noteq> ts_ftype (st ! s2) \<and> ts_ftype (st ! s1) \<noteq> 2 \<and> ts_ftype (st ! s2) \<noteq> 2 then Some False
      else params_loop cmp st (length st + 1) s1 s2)"

definition compare_body :: "comparison \<Rightarrow> symstore \<Rightarrow> comparison" where
  "compare_body cmp st unqualified ty1 ty2 =
     (let t1 = compared_bits unqualified (fst ty1); t2 = compared_bits unqualified (fst ty2);
          s1 = st ! snd ty1; s2 = st ! snd ty2 in
      if t1 \<noteq> t2 then Some False
      else if t1 AND 0x0040 \<noteq> 0 \<and> \<not> (ts_c s1 < 0 \<or> ts_c s2 < 0 \<or> ts_c s1 = ts_c s2) then Some False
      else if t1 AND 0x000f = 5 then
        cmp (unqualified \<and> t1 AND 0x0040 \<noteq> 0) (pointed_type st ty1) (pointed_type st ty2)
      else if t1 AND 0x000f = 7 then Some (snd ty1 = snd ty2)
      else if t1 AND 0x000f = 6 then is_compatible_func cmp st (snd ty1) (snd ty2)
      else Some True)"

definition strip_enum :: "symstore \<Rightarrow> ty \<Rightarrow> ty" where
  "strip_enum st ty = (if is_enum (fst ty) then pointed_type st ty else ty)"

primrec compare_fuel :: "nat \<Rightarrow> symstore \<Rightarrow> comparison" where
  "compare_fuel 0 st = (\<lambda>unqualified ty1 ty2. None)"
| "compare_fuel (Suc n) st = (\<lambda>unqualified ty1 ty2.
     if is_enum (fst ty1) \<and> is_enum (fst ty2) then Some (snd ty1 = snd ty2)
     else compare_body (compare_fuel n st) st unqualified (strip_enum st ty1) (strip_enum st ty2))"

text \<open>
  A symbol is pushed after those its type refers to, so the comparison never goes deeper than the store is
  long, and this fuel is enough (shown below).
\<close>

definition compare_types :: "symstore \<Rightarrow> ty \<Rightarrow> ty \<Rightarrow> bool \<Rightarrow> bool" where
  "compare_types st ty1 ty2 unqualified \<longleftrightarrow> compare_fuel (length st + 2) st unqualified ty1 ty2 = Some True"

definition derefs :: "u32 \<Rightarrow> bool" where
  "derefs t \<longleftrightarrow> t AND 0x000f = 5 \<or> t AND 0x000f = 6 \<or> is_enum t"

definition type_ok :: "symstore \<Rightarrow> nat \<Rightarrow> ty \<Rightarrow> bool" where
  "type_ok st n ty \<longleftrightarrow> derefs (fst ty) \<longrightarrow> snd ty < n"

definition store_ok :: "symstore \<Rightarrow> bool" where
  "store_ok st \<longleftrightarrow> (\<forall>s<length st. type_ok st s (ts_t (st ! s), ts_ref (st ! s)) \<and>
     (case ts_next (st ! s) of None \<Rightarrow> True | Some u \<Rightarrow> u < s))"

section \<open>Combining types\<close>

text \<open>What combine_types reads of an SValue: its type, where the value is, and its constant.\<close>

record operand =
  op_type :: ty
  op_r :: u32
  op_c :: u64

definition is_null_pointer :: "symstore \<Rightarrow> operand \<Rightarrow> bool" where
  "is_null_pointer st p =
     (if op_r p AND 0x133f \<noteq> 0x0030 then False
      else
        (let t = fst (op_type p); pt = fst (pointed_type st (op_type p)) in
         t AND 0x000f = 3 \<and> (ucast (op_c p) :: u32) = 0 \<or>
         t AND 0x000f = 4 \<and> op_c p = 0 \<or>
         t AND 0x000f = 5 \<and> op_c p = 0 \<and> pt AND 0x000f = 0 \<and> pt AND 0x0700 = 0))"

text \<open>type_qualifiers skips arrays, innermost last; fuel as for comparing.\<close>

fun qualifiers_fuel :: "nat \<Rightarrow> symstore \<Rightarrow> ty \<Rightarrow> u32" where
  "qualifiers_fuel 0 st ty = fst ty AND 0x0700"
| "qualifiers_fuel (Suc n) st ty =
     (if fst ty AND 0x0040 \<noteq> 0 then qualifiers_fuel n st (pointed_type st ty) else fst ty AND 0x0700)"

definition type_qualifiers :: "symstore \<Rightarrow> ty \<Rightarrow> u32" where
  "type_qualifiers st ty = qualifiers_fuel (length st) st ty"

definition sym_push_type :: "ty \<Rightarrow> int \<Rightarrow> symstore \<Rightarrow> nat \<times> symstore" where
  "sym_push_type ty c st =
     (length st, st @ [\<lparr>ts_c = c, ts_t = fst ty, ts_ref = snd ty, ts_call = 0, ts_ftype = 0, ts_next = None\<rparr>])"

definition mk_pointer :: "ty \<Rightarrow> symstore \<Rightarrow> ty \<times> symstore" where
  "mk_pointer ty st = (let (s, st) = sym_push_type ty (- 1) st in ((5 OR (fst ty AND 0x3e000), s), st))"

text \<open>The type combine_types gives two operands that are neither void, pointers nor structs.\<close>

definition combine_arith :: "u32 \<Rightarrow> u32 \<Rightarrow> u32" where
  "combine_arith t1 t2 =
     (let bt1 = t1 AND 0x000f; bt2 = t2 AND 0x000f in
      if is_float bt1 \<or> is_float bt2 then
        (if bt1 = 10 \<or> bt2 = 10 then 10 else if bt1 = 9 \<or> bt2 = 9 then 9 else 8)
      else if bt1 = 4 \<or> bt2 = 4 then
        (let t = 4 OR 0x1000;
             t = (if bt1 = 4 then t AND t1 else t);
             t = (if bt2 = 4 then t AND t2 else t)
         in if t1 AND 0x001f = 4 OR 0x0010 \<or> t2 AND 0x001f = 4 OR 0x0010 then t OR 0x0010 else t)
      else
        (let t = 3 OR (0x1000 AND (t1 OR t2)) in
         if t1 AND 0x001f = 3 OR 0x0010 \<and> (t1 AND 0x0080 = 0 \<or> drop_bit 26 t1 AND 0x3f = 32) \<or>
            t2 AND 0x001f = 3 OR 0x0010 \<and> (t2 AND 0x0080 = 0 \<or> drop_bit 26 t2 AND 0x3f = 32)
         then t OR 0x0010 else t))"


text \<open>check_restrict_type and parse_btype_qualify; the type to qualify is that of the symbol at s.\<close>

fun check_restrict_fuel :: "nat \<Rightarrow> symstore \<Rightarrow> ty \<Rightarrow> unit res" where
  "check_restrict_fuel 0 st ty = Inr ()"
| "check_restrict_fuel (Suc n) st ty =
     (if fst ty AND 0x000f = 5 then
        (if fst ty AND 0x0400 \<noteq> 0 \<and> fst (pointed_type st ty) AND 0x000f = 6
         then Inl ''restrict-qualified type must be a pointer to object or incomplete type''
         else check_restrict_fuel n st (pointed_type st ty))
      else if fst ty AND 0x0400 \<noteq> 0 then Inl ''restrict-qualified type must be a pointer to object or incomplete type''
      else Inr ())"

fun qualify_fuel :: "nat \<Rightarrow> nat \<Rightarrow> u32 \<Rightarrow> symstore \<Rightarrow> symstore res" where
  "qualify_fuel 0 s q st = Inr st"
| "qualify_fuel (Suc n) s q st =
     (let y = st ! s in
      if ts_t y AND 0x0040 \<noteq> 0 then
        (let (s', st) = sym_push_type (pointed_type st (0, ts_ref y)) (ts_c (st ! ts_ref y)) st
         in qualify_fuel n s' q (st[s := y\<lparr>ts_ref := s'\<rparr>]))
      else ebind (if q AND 0x0400 \<noteq> 0 then check_restrict_fuel (length st + 1) st (ts_t y, ts_ref y) else Inr ())
             (\<lambda>_. Inr (st[s := y\<lparr>ts_t := ts_t y OR q\<rparr>])))"

definition parse_btype_qualify :: "nat \<Rightarrow> u32 \<Rightarrow> symstore \<Rightarrow> symstore res" where
  "parse_btype_qualify s q st = qualify_fuel (length st + 1) s q st"

text \<open>
  The type of a conditional expression on two pointers: that of the second unless the first points to
  void, with the qualifiers of both and, for arrays, the size one of them gives.
\<close>

definition complete_array :: "ty \<Rightarrow> ty \<Rightarrow> bool \<Rightarrow> ty \<Rightarrow> symstore \<Rightarrow> ty \<times> symstore" where
  "complete_array pt1 pt2 copied ty st =
     (let c1 = ts_c (st ! snd pt1); c2 = ts_c (st ! snd pt2);
          pc = ts_c (st ! snd (pointed_type st ty)) in
      if fst pt1 AND 0x0040 \<noteq> 0 \<and> fst pt2 AND 0x0040 \<noteq> 0 \<and> pc < 0 \<and> (c1 > 0 \<or> c2 > 0) then
        (let (r, st) = (if copied then (snd ty, st) else sym_push_type (pointed_type st ty) (ts_c (st ! snd ty)) st);
             a = ts_ref (st ! r);
             (r', st) = sym_push_type (pointed_type st (0, a)) (if 0 < c1 then c1 else c2) st
         in ((fst ty, r), st[r := (st ! r)\<lparr>ts_ref := r'\<rparr>]))
      else (ty, st))"

definition conditional_pointer :: "symstore \<Rightarrow> ty \<Rightarrow> ty \<Rightarrow> (ty \<times> symstore) res" where
  "conditional_pointer st ty1 ty2 =
     (let pt1 = pointed_type st ty1; pt2 = pointed_type st ty2;
          ty = (if fst pt1 AND 0x000f = 0 then ty1 else ty2);
          newquals = type_qualifiers st pt1 OR type_qualifiers st pt2 in
      if NOT (type_qualifiers st (pointed_type st ty)) AND newquals \<noteq> 0 then
        (let (r, st) = sym_push_type (pointed_type st ty) (ts_c (st ! snd ty)) st
         in ebind (parse_btype_qualify r newquals st) (\<lambda>st. Inr (complete_array pt1 pt2 True (fst ty, r) st)))
      else Inr (complete_array pt1 pt2 False ty st))"

text \<open>
  combine_types: whether the operands are valid, the type, the symbols pushed, and the warnings. The
  operators are those of gen_op, with S for shifts, C for comparisons and ? for the conditional.
\<close>

definition combine_pointers :: "symstore \<Rightarrow> operand \<Rightarrow> operand \<Rightarrow> char \<Rightarrow> (bool \<times> ty \<times> symstore \<times> string list) res" where
  "combine_pointers st op1 op2 opr =
     (let ty1 = op_type op1; ty2 = op_type op2; bt1 = fst ty1 AND 0x000f; bt2 = fst ty2 AND 0x000f in
      if opr = CHR ''+'' then Inr (is_integer_btype (if bt1 = 5 then bt2 else bt1), (0, 0), st, [])
      else if is_null_pointer st op2 then Inr (True, ty1, st, [])
      else if is_null_pointer st op1 then Inr (True, ty2, st, [])
      else if bt1 \<noteq> bt2 then
        (let ty = (if bt1 = 5 then ty1 else ty2) in
         if (opr = CHR ''?'' \<or> opr = CHR ''C'') \<and> (is_integer_btype bt1 \<or> is_integer_btype bt2)
         then Inr (True, ty, st, [''pointer/integer mismatch in %s''])
         else Inr (opr = CHR ''-'' \<and> is_integer_btype bt2, ty, st, []))
      else
        (let pt1 = pointed_type st ty1; pt2 = pointed_type st ty2;
             bad = (fst pt1 AND 0x000f \<noteq> 0 \<and> fst pt2 AND 0x000f \<noteq> 0 \<and> \<not> compare_types st pt1 pt2 True);
             ret = (\<not> bad \<or> opr = CHR ''?'' \<or> opr = CHR ''C'');
             w = (if bad \<and> opr = CHR ''?'' then [''pointer type mismatch in conditional expression'']
                  else if bad \<and> opr = CHR ''C'' then [''pointer type mismatch in comparison''] else []) in
         if opr = CHR ''?'' then ebind (conditional_pointer st ty1 ty2) (\<lambda>(ty, st). Inr (ret, ty, st, w))
         else Inr (ret, (0, 0), st, w)))"

definition combine_types :: "symstore \<Rightarrow> operand \<Rightarrow> operand \<Rightarrow> char \<Rightarrow> (bool \<times> ty \<times> symstore \<times> string list) res" where
  "combine_types st op1 op2 opr =
     (let op2 = (if opr = CHR ''S'' then op1 else op2);
          ty1 = op_type op1; ty2 = op_type op2; bt1 = fst ty1 AND 0x000f; bt2 = fst ty2 AND 0x000f in
      if bt1 = 0 \<or> bt2 = 0 then
        (if opr \<noteq> CHR ''?'' then Inl ''operation on void value'' else Inr (True, (0, 0), st, []))
      else if bt1 = 5 \<or> bt2 = 5 then
        ebind (combine_pointers st op1 op2 opr)
          (\<lambda>(ret, ty, st, w). Inr (ret, if opr = CHR ''C'' then (4 OR 0x0010, snd ty) else ty, st, w))
      else if bt1 = 7 \<or> bt2 = 7 then Inr (opr = CHR ''?'' \<and> compare_types st ty1 ty2 True, ty1, st, [])
      else Inr (True, (combine_arith (fst ty1) (fst ty2), 0), st, []))"

section \<open>Assignment\<close>

text \<open>
  verify_assign_cast: the warnings of assigning the value v to the type dt, or the error. The loop goes
  down both types as long as they are pointers.
\<close>

fun assign_levels :: "nat \<Rightarrow> symstore \<Rightarrow> ty \<Rightarrow> ty \<Rightarrow> bool \<Rightarrow> nat \<Rightarrow> ty \<times> ty \<times> bool \<times> nat" where
  "assign_levels 0 st ty1 ty2 qualwarn lvl = (ty1, ty2, qualwarn, lvl)"
| "assign_levels (Suc n) st ty1 ty2 qualwarn lvl =
     (let qualwarn = (if (fst ty2 AND NOT (fst ty1)) AND 0x0700 \<noteq> 0 then True else qualwarn) in
      if fst ty1 AND 0x100f \<noteq> 5 \<or> fst ty2 AND 0x100f \<noteq> 5 then (ty1, ty2, qualwarn, lvl)
      else assign_levels n st (pointed_type st ty1) (pointed_type st ty2) qualwarn (lvl + 1))"

definition assign_pointer :: "symstore \<Rightarrow> ty \<Rightarrow> ty \<Rightarrow> string list" where
  "assign_pointer st ty1 ty2 =
     (if compare_types st ty1 ty2 False then []
      else
        (let (ty1, ty2, qualwarn, lvl) = assign_levels (length st + 1) st ty1 ty2 False 0;
             dbt = fst ty1 AND 0x100f; sbt = fst ty2 AND 0x100f;
             same = dbt = sbt \<and> is_integer_btype (sbt AND 0x000f) \<and>
               (if is_enum (fst ty1) then 1 else 0) + (if is_enum (fst ty2) then 1 else 0)
                 + (if (fst ty1 XOR fst ty2) AND 0x0010 \<noteq> 0 then 1 else 0) < (2 :: nat) in
         if \<not> compare_types st ty1 ty2 True \<and> \<not> ((dbt = 0 \<or> sbt = 0) \<and> lvl = 0) \<and> \<not> same
         then [''assignment from incompatible pointer type'']
         else if qualwarn then [''assignment discards qualifiers from pointer target type''] else []))"

definition verify_assign_cast :: "symstore \<Rightarrow> ty \<Rightarrow> operand \<Rightarrow> string list res" where
  "verify_assign_cast st dt v =
     (let sty = op_type v; dbt = fst dt AND 0x000f; sbt = fst sty AND 0x000f;
          ro = (if fst dt AND 0x0100 \<noteq> 0 then [''assignment of read-only location''] else []);
          cast_error = Inl ''cannot convert %s to %s'';
          struct_case = (if compare_types st dt sty True then Inr ro else cast_error) in
      if dbt = 0 then (if sbt \<noteq> dbt then Inl ''assignment to void expression'' else Inr ro)
      else if dbt = 5 then
        (if is_null_pointer st v then Inr ro
         else if is_integer_btype sbt then Inr (ro @ [''assignment makes pointer from integer without a cast''])
         else if sbt = 5 then Inr (ro @ assign_pointer st (pointed_type st dt) (pointed_type st sty))
         else if sbt = 6 then Inr (ro @ assign_pointer st (pointed_type st dt) sty)
         else cast_error)
      else if dbt = 1 \<or> dbt = 2 \<or> dbt = 3 \<or> dbt = 4 then
        (if sbt = 5 \<or> sbt = 6 then Inr (ro @ [''assignment makes integer from pointer without a cast''])
         else if sbt = 7 then struct_case else Inr ro)
      else if dbt = 8 \<or> dbt = 9 \<or> dbt = 10 then (if sbt = 5 \<or> sbt = 6 then cast_error else Inr ro)
      else if dbt = 7 then struct_case
      else Inr ro)"

section \<open>Conversion of constants\<close>

text \<open>What gen_cast does to an integer constant c.i; s and d are the source and target codes.\<close>

definition cast_const :: "u32 \<Rightarrow> u32 \<Rightarrow> u64 \<Rightarrow> u64" where
  "cast_const s d i =
     (let sbt = s AND 0x001f; dbt = d AND 0x001f in
      if sbt = dbt then i
      else
        (let i = (if sbt AND 0x000f = 4 \<or> sbt = 5 then i
                  else if sbt AND 0x0010 \<noteq> 0 then ucast (ucast i :: u32)
                  else ucast (ucast i :: u32) OR - (i AND 0x80000000)) in
         if dbt AND 0x000f = 4 \<or> dbt = 5 then i
         else if dbt = 11 then (if i \<noteq> 0 then 1 else 0)
         else
           (let m = (if dbt AND 0x000f = 1 then 0xff else if dbt AND 0x000f = 2 then 0xffff else 0xffffffff) :: u64;
                i = i AND m
            in if dbt AND 0x0010 = 0 then i OR - (i AND (drop_bit 1 m + 1)) else i)))"

section \<open>Comparing is a compatibility relation\<close>

lemma params_sym:
  assumes "\<And>u a b. cmp u a b = cmp u b a"
  shows "params_loop cmp st n s1 s2 = params_loop cmp st n s2 s1"
proof (induction n arbitrary: s1 s2)
  case (Suc n)
  have "cmp True (pointed_type st (0, s1)) (pointed_type st (0, s2)) = cmp True (pointed_type st (0, s2)) (pointed_type st (0, s1))"
    by (rule assms)
  then show ?case using Suc by (auto split: option.splits bool.splits)
qed simp

lemma body_sym:
  assumes "\<And>u a b. cmp u a b = cmp u b a"
  shows "compare_body cmp st u a b = compare_body cmp st u b a"
proof -
  have p: "params_loop cmp st n s1 s2 = params_loop cmp st n s2 s1" for n s1 s2 by (rule params_sym [OF assms])
  have f: "is_compatible_func cmp st s1 s2 = is_compatible_func cmp st s2 s1" for s1 s2
    unfolding is_compatible_func_def p [of _ s1 s2] by auto
  show ?thesis
  proof (cases "compared_bits u (fst a) = compared_bits u (fst b)")
    case True
    have k: "cmp w (pointed_type st a) (pointed_type st b) = cmp w (pointed_type st b) (pointed_type st a)" for w by (rule assms)
    have c: "(ts_c s1 < 0 \<or> ts_c s2 < 0 \<or> ts_c s1 = ts_c s2) = (ts_c s2 < 0 \<or> ts_c s1 < 0 \<or> ts_c s2 = ts_c s1)" for s1 s2 :: tsym
      by auto
    have e: "(snd a = snd b) = (snd b = snd a)" by auto
    show ?thesis
      unfolding compare_body_def Let_def True f [of "snd a"] k c [of "st ! snd a"] e by (rule refl)
  qed (simp add: compare_body_def)
qed

lemma compare_sym: "compare_fuel n st u a b = compare_fuel n st u b a"
proof (induction n arbitrary: u a b)
  case (Suc n)
  show ?case using body_sym [OF Suc.IH] by auto
qed simp

lemma compared_unqualified:
  "compared_bits True t = compared_bits False t AND NOT 0x0700"
  "compared_bits True t AND 0x000f = compared_bits False t AND 0x000f"
  "compared_bits True t AND 0x0040 = compared_bits False t AND 0x0040"
proof -
  show e: "compared_bits True t = compared_bits False t AND NOT 0x0700"
    by (simp add: compared_bits_def Let_def and.assoc and.commute and.left_commute)
  show "compared_bits True t AND 0x000f = compared_bits False t AND 0x000f"
    "compared_bits True t AND 0x0040 = compared_bits False t AND 0x0040"
    unfolding e by (simp_all add: and.assoc)
qed

lemma body_weaken:
  assumes "compare_body cmp st False a b = Some True" "\<And>a b. cmp False a b = Some True \<Longrightarrow> cmp True a b = Some True"
  shows "compare_body cmp st True a b = Some True"
proof -
  have e: "compared_bits False (fst a) = compared_bits False (fst b)"
    using assms(1) by (auto simp: compare_body_def Let_def split: if_splits)
  then have e': "compared_bits True (fst a) = compared_bits True (fst b)" by (simp only: compared_unqualified(1))
  have k: "cmp w (pointed_type st a) (pointed_type st b) = Some True"
    if "cmp False (pointed_type st a) (pointed_type st b) = Some True" for w
    using that assms(2) by (cases w) auto
  show ?thesis
    using assms(1) k unfolding compare_body_def Let_def e e' compared_unqualified(2,3)
    by (simp split: if_split_asm)
qed

lemma compare_weaken: "compare_fuel n st False a b = Some True \<Longrightarrow> compare_fuel n st True a b = Some True"
proof (induction n arbitrary: a b)
  case (Suc n)
  then show ?case using body_weaken [of "compare_fuel n st" st "strip_enum st a" "strip_enum st b"]
    by (auto split: if_splits)
qed simp

text \<open>Enough fuel: the depth of a type is the position of the symbol it goes through.\<close>

definition depth :: "ty \<Rightarrow> nat" where
  "depth ty = (if derefs (fst ty) then snd ty + 1 else 0)"

lemma store_ok_pointed:
  assumes "store_ok st" "s < length st"
  shows "type_ok st (length st) (pointed_type st (t, s))" "depth (pointed_type st (t, s)) \<le> s"
    "ts_next (st ! s) = Some u \<Longrightarrow> u < s"
  using assms by (force simp: store_ok_def type_ok_def depth_def pointed_type_def)+

lemma params_stops:
  assumes "store_ok st" "s1 < length st" "s2 < length st" "s1 < n"
    and "\<And>u a b. type_ok st (length st) a \<Longrightarrow> type_ok st (length st) b \<Longrightarrow> depth a \<le> s1 \<Longrightarrow> cmp u a b \<noteq> None"
  shows "params_loop cmp st n s1 s2 \<noteq> None"
  using assms
proof (induction n arbitrary: s1 s2)
  case (Suc n)
  have c: "cmp True (pointed_type st (0, s1)) (pointed_type st (0, s2)) \<noteq> None"
    by (rule Suc.prems(5)) (use store_ok_pointed [OF Suc.prems(1)] Suc.prems(2,3) in auto)
  have "params_loop cmp st n u v \<noteq> None" if n: "ts_next (st ! s1) = Some u" "ts_next (st ! s2) = Some v" for u v
  proof -
    have l: "u < s1" "v < s2" using store_ok_pointed(3) [OF Suc.prems(1)] Suc.prems(2,3) n by auto
    show ?thesis by (rule Suc.IH) (use Suc.prems l in auto)
  qed
  then show ?case using c by (auto split: option.splits bool.splits)
qed simp

lemma bits_derefs:
  assumes "compared_bits u t AND 0x000f = 5 \<or> compared_bits u t AND 0x000f = 6"
  shows "derefs t"
proof -
  have "compared_bits u t AND 0x000f = t AND 0x000f"
    by (simp add: compared_bits_def Let_def ignored_bits_def enum_mask_def and.assoc)
  then show ?thesis using assms by (auto simp: derefs_def)
qed

lemma body_stops:
  assumes "store_ok st" "type_ok st (length st) a" "type_ok st (length st) b"
    and cmp: "\<And>u a' b'. type_ok st (length st) a' \<Longrightarrow> type_ok st (length st) b' \<Longrightarrow> depth a' < depth a \<Longrightarrow> cmp u a' b' \<noteq> None"
  shows "compare_body cmp st u a b \<noteq> None"
proof (cases "compared_bits u (fst a) = compared_bits u (fst b) \<and>
    (compared_bits u (fst a) AND 0x000f = 5 \<or> compared_bits u (fst a) AND 0x000f = 6)")
  case False
  then show ?thesis by (auto simp: compare_body_def Let_def)
next
  case True
  then have d: "derefs (fst a)" "derefs (fst b)" using bits_derefs by metis+
  then have r: "snd a < length st" "snd b < length st" "depth a = snd a + 1"
    using assms(2,3) by (auto simp: type_ok_def depth_def)
  have p: "pointed_type st a = pointed_type st (0, snd a)" "pointed_type st b = pointed_type st (0, snd b)"
    by (simp_all add: pointed_type_def)
  have c: "cmp w (pointed_type st a) (pointed_type st b) \<noteq> None" for w
    unfolding p by (rule cmp) (use store_ok_pointed [OF assms(1)] r in \<open>auto simp: less_Suc_eq_le\<close>)
  have "params_loop cmp st (length st + 1) (snd a) (snd b) \<noteq> None"
    by (rule params_stops [OF assms(1) r(1,2)]) (use r cmp in auto)
  then show ?thesis using c by (auto simp: compare_body_def is_compatible_func_def Let_def)
qed

lemma compare_stops:
  assumes "store_ok st" "type_ok st (length st) a" "type_ok st (length st) b" "depth a < n"
  shows "compare_fuel n st u a b \<noteq> None"
  using assms(2-)
proof (induction n arbitrary: u a b)
  case (Suc n)
  have str: "type_ok st (length st) (strip_enum st ty) \<and> depth (strip_enum st ty) \<le> depth ty" if "type_ok st (length st) ty" for ty
  proof (cases "is_enum (fst ty)")
    case True
    then have "snd ty < length st" "depth ty = snd ty + 1" using that by (auto simp: type_ok_def derefs_def depth_def)
    then show ?thesis
      using store_ok_pointed(1,2) [OF assms(1), of "snd ty" "fst ty"] True by (simp add: strip_enum_def)
  qed (use that in \<open>simp add: strip_enum_def\<close>)
  have "compare_body (compare_fuel n st) st u (strip_enum st a) (strip_enum st b) \<noteq> None"
  proof (rule body_stops [OF assms(1)])
    show "type_ok st (length st) (strip_enum st a)" "type_ok st (length st) (strip_enum st b)"
      using str Suc.prems by blast+
    fix w a' b'
    assume k: "type_ok st (length st) a'" "type_ok st (length st) b'" "depth a' < depth (strip_enum st a)"
    moreover have "depth (strip_enum st a) \<le> depth a" using str Suc.prems by blast
    ultimately show "compare_fuel n st w a' b' \<noteq> None" using Suc.prems(3) by (intro Suc.IH) linarith+
  qed
  then show ?case by auto
qed simp

lemma params_refl:
  assumes "\<And>u a. cmp u a a \<noteq> Some False"
  shows "params_loop cmp st n s s \<noteq> Some False"
  by (induction n arbitrary: s) (use assms in \<open>auto split: option.splits bool.splits\<close>)

lemma compare_refl: "compare_fuel n st u a a \<noteq> Some False"
proof (induction n arbitrary: u a)
  case (Suc n)
  then show ?case using params_refl [of "compare_fuel n st" st]
    by (auto simp: compare_body_def is_compatible_func_def Let_def simp del: params_loop.simps)
qed simp


section \<open>The usual arithmetic conversions\<close>

text \<open>
  The arithmetic types as the C standard orders them: an integer type has a sign, the number of its bits
  and a rank (int 3, long 4, long long 5); a floating type is 8, 9 or 10 as in the code.
\<close>

datatype atype = Integer (sgn_of: bool) (bits_of: nat) (rank_of: nat) | Floating nat

definition integer_code :: "u32 \<Rightarrow> bool" where
  "integer_code t \<longleftrightarrow>
     t AND 0x000f \<in> {1, 2, 3, 4, 11} \<and> (t AND 0x1000 \<noteq> 0 \<longrightarrow> t AND 0x000f = 3) \<and>
     (t AND 0x0080 \<noteq> 0 \<longrightarrow> t AND 0x000f = 3 \<and> t AND 0x1000 = 0 \<and> bf_width t \<le> 32)"

definition float_code :: "u32 \<Rightarrow> bool" where
  "float_code t \<longleftrightarrow> t AND 0x000f \<in> {8, 9, 10}"

definition atype_of :: "u32 \<Rightarrow> atype" where
  "atype_of t =
     (let bt = t AND 0x000f; sg = (t AND 0x0010 = 0) in
      if is_float t then Floating (unat bt)
      else if t AND 0x0080 \<noteq> 0 then Integer sg (nat (bf_width t)) 2
      else if bt = 11 then Integer False 1 0
      else if bt = 1 then Integer sg 8 1
      else if bt = 2 then Integer sg 16 2
      else if bt = 3 then Integer sg 32 (if t AND 0x1000 \<noteq> 0 then 4 else 3)
      else Integer sg 64 5)"

definition promote :: "atype \<Rightarrow> atype" where
  "promote a =
     (case a of
        Integer sg b r \<Rightarrow>
          if r \<le> 3 then (if sg \<and> b \<le> 32 \<or> b < 32 then Integer True 32 3 else Integer False 32 3) else a
      | Floating k \<Rightarrow> a)"

definition usual :: "atype \<Rightarrow> atype \<Rightarrow> atype" where
  "usual a b =
     (case (promote a, promote b) of
        (Floating k, Floating l) \<Rightarrow> Floating (max k l)
      | (Floating k, _) \<Rightarrow> Floating k
      | (_, Floating l) \<Rightarrow> Floating l
      | (Integer s1 b1 r1, Integer s2 b2 r2) \<Rightarrow>
          if s1 = s2 then (if r1 < r2 then Integer s2 b2 r2 else Integer s1 b1 r1)
          else
            (let (ub, ur, sb, sr) = (if s1 then (b2, r2, b1, r1) else (b1, r1, b2, r2)) in
             if sr \<le> ur then Integer False ub ur
             else if ub < sb then Integer True sb sr
             else Integer False sb sr))"

text \<open>What combine_arith reads of an integer code: its basic type, and whether it ends as long or unsigned.\<close>

definition is_long :: "u32 \<Rightarrow> bool" where "is_long t \<longleftrightarrow> t AND 0x1000 \<noteq> 0"
definition promotes_unsigned :: "u32 \<Rightarrow> bool" where
  "promotes_unsigned t \<longleftrightarrow> t AND 0x001f = 3 OR 0x0010 \<and> (t AND 0x0080 = 0 \<or> drop_bit 26 t AND 0x3f = 32)"

lemma flag_and: "(t :: u32) AND 2 ^ k = (if bit t k then 2 ^ k else 0)"
  by (rule bit_word_eqI) (auto simp: bit_simps)

lemma flags:
  "(t :: u32) AND 0x0010 = (if bit t 4 then 0x0010 else 0)" "(t :: u32) AND 0x1000 = (if bit t 12 then 0x1000 else 0)"
  using flag_and [of t 4] flag_and [of t 12] by simp_all

lemma and_1f: "(t :: u32) AND 0x001f = (t AND 0x000f) OR (t AND 0x0010)"
  by (simp add: and.left_commute flip: bit.conj_disj_distrib)

lemma low_bits:
  assumes "t AND 0x000f \<in> {1, 2, 3, 4, 11 :: u32}"
  shows "t AND 0x001f = 0x0014 \<longleftrightarrow> t AND 0x000f = 4 \<and> bit t 4" "t AND 0x001f = 0x0013 \<longleftrightarrow> t AND 0x000f = 3 \<and> bit t 4"
    "\<not> is_float (t AND 0x000f)"
  using assms unfolding and_1f flags by (auto simp: is_float_def Let_def split: if_splits)

lemma llong_and:
  assumes "integer_code t" "t AND 0x000f = 4"
  shows "0x1004 AND t = 4" "4 AND t = 4"
proof -
  have "(t AND 0x000f) AND 4 = t AND 4" unfolding and.assoc by simp
  then have "4 AND t = (t AND 0x000f) AND 4" by (simp add: and.commute)
  then show f: "4 AND t = 4" using assms(2) by simp
  have "t AND 0x1000 = 0" using assms by (auto simp: integer_code_def)
  moreover have "(0x1004 :: u32) AND t = (t AND 0x1000) OR (4 AND t)"
    by (simp add: and.commute flip: bit.conj_disj_distrib)
  ultimately show "0x1004 AND t = 4" using f by simp
qed

lemma combine_arith_int:
  assumes "integer_code t1" "integer_code t2"
  shows "combine_arith t1 t2 =
    (if t1 AND 0x000f = 4 \<or> t2 AND 0x000f = 4 then
       (if t1 AND 0x000f = 4 \<and> bit t1 4 \<or> t2 AND 0x000f = 4 \<and> bit t2 4 then 0x0014 else 4)
     else (if is_long t1 \<or> is_long t2 then 0x1000 else 0) OR
       (if promotes_unsigned t1 \<or> promotes_unsigned t2 then 0x0013 else 3))"
proof -
  have c: "t1 AND 0x000f \<in> {1, 2, 3, 4, 11}" "t2 AND 0x000f \<in> {1, 2, 3, 4, 11}"
    using assms by (auto simp: integer_code_def)
  note f = low_bits [OF c(1)] low_bits [OF c(2)]
  have o: "(0x1000 :: u32) AND (t1 OR t2) = (if is_long t1 \<or> is_long t2 then 0x1000 else 0)"
    unfolding bit.conj_disj_distrib and.commute [of "0x1000"] flags is_long_def by simp
  have p: "promotes_unsigned t \<longleftrightarrow> t AND 0x001f = 0x0013 \<and> (t AND 0x0080 = 0 \<or> drop_bit 26 t AND 0x3f = 32)" for t
    by (simp add: promotes_unsigned_def)
  show ?thesis
  proof (cases "t1 AND 0x000f = 4 \<or> t2 AND 0x000f = 4")
    case True
    then show ?thesis
      using f llong_and assms by (auto simp: combine_arith_def Let_def)
  next
    case False
    then show ?thesis using f(3,6) o by (simp add: combine_arith_def Let_def p or.commute or.left_commute)
  qed
qed

lemma long_unsigned_codes:
  "atype_of ((if l then 0x1000 else 0) OR (if u then 0x0013 else 3)) = Integer (\<not> u) 32 (if l then 4 else 3)"
  "atype_of (if u then 0x0014 else 4) = Integer (\<not> u) 64 5"
  by (auto simp: atype_of_def is_float_def)

lemma promote_code:
  assumes "integer_code t"
  shows "promote (atype_of t) =
    (if t AND 0x000f = 4 then Integer (\<not> bit t 4) 64 5
     else if is_long t then Integer (\<not> bit t 4) 32 4
     else Integer (\<not> promotes_unsigned t) 32 3)"
proof -
  have c: "t AND 0x000f \<in> {1, 2, 3, 4, 11}" using assms by (auto simp: integer_code_def)
  have p: "promotes_unsigned t \<longleftrightarrow> t AND 0x000f = 3 \<and> bit t 4 \<and> (t AND 0x0080 = 0 \<or> drop_bit 26 t AND 0x3f = 32)"
    using low_bits(2) [OF c] by (auto simp: promotes_unsigned_def)
  have fl: "\<not> is_float t" using low_bits(3) [OF c] by (simp add: is_float_def and.assoc)
  have sg: "(t AND 0x0010 = 0) = (\<not> bit t 4)" unfolding flags by simp
  show ?thesis
  proof (cases "t AND 0x0080 \<noteq> 0")
    case True
    then have b: "t AND 0x000f = 3" "\<not> is_long t" "bf_width t \<le> 32" using assms by (auto simp: integer_code_def is_long_def)
    have w: "drop_bit 26 t AND 0x3f = 32 \<longleftrightarrow> bf_width t = 32"
      unfolding bf_width_def word_uint_eq_iff by simp
    have n: "nat (bf_width t) \<le> 32" "nat (bf_width t) < 32 \<longleftrightarrow> bf_width t \<noteq> 32" using b(3) by auto
    have "atype_of t = Integer (\<not> bit t 4) (nat (bf_width t)) 2" using fl True sg by (simp add: atype_of_def)
    then show ?thesis using b p w True n by (simp add: promote_def)
  next
    case False
    show ?thesis
    proof (cases "t AND 0x000f = 3")
      case True
      then show ?thesis using False fl sg p by (simp add: atype_of_def promote_def is_long_def)
    next
      case n3: False
      then have "\<not> is_long t" using assms by (auto simp: integer_code_def is_long_def)
      then show ?thesis using c n3 False fl sg p by (auto simp: atype_of_def promote_def)
    qed
  qed
qed

lemma usual_int:
  assumes "integer_code t1" "integer_code t2"
  shows "atype_of (combine_arith t1 t2) = usual (atype_of t1) (atype_of t2)"
proof -
  have l: "promotes_unsigned t \<longleftrightarrow> bit t 4" if "integer_code t" "is_long t" for t
  proof -
    have "t AND 0x000f = 3" "t AND 0x0080 = 0" using that by (auto simp: integer_code_def is_long_def)
    then show ?thesis using low_bits(2) [of t] by (auto simp: promotes_unsigned_def)
  qed
  show ?thesis
  proof (cases "t1 AND 0x000f = 4 \<or> t2 AND 0x000f = 4")
    case True
    have "atype_of (combine_arith t1 t2) = Integer (\<not> (t1 AND 0x000f = 4 \<and> bit t1 4 \<or> t2 AND 0x000f = 4 \<and> bit t2 4)) 64 5"
      using True by (simp only: combine_arith_int [OF assms] if_True long_unsigned_codes)
    then show ?thesis using True
      by (simp add: usual_def promote_code [OF assms(1)] promote_code [OF assms(2)] split del: if_split split: if_split_asm) (auto split: if_splits)
  next
    case False
    have "atype_of (combine_arith t1 t2) =
        Integer (\<not> (promotes_unsigned t1 \<or> promotes_unsigned t2)) 32 (if is_long t1 \<or> is_long t2 then 4 else 3)"
      using False by (simp only: combine_arith_int [OF assms] if_False long_unsigned_codes)
    then show ?thesis using False l [OF assms(1)] l [OF assms(2)]
      by (auto simp: usual_def promote_code [OF assms(1)] promote_code [OF assms(2)])
  qed
qed

lemma usual_float:
  assumes "float_code t1 \<and> (float_code t2 \<or> integer_code t2) \<or> integer_code t1 \<and> float_code t2"
  shows "atype_of (combine_arith t1 t2) = usual (atype_of t1) (atype_of t2)"
proof -
  have f: "is_float t \<and> is_float (t AND 0x000f) \<and> atype_of t = Floating (unat (t AND 0x000f)) \<and> t AND 0x000f \<in> {8, 9, 10}"
    if "float_code t" for t
    using that unfolding float_code_def by (elim insertE emptyE) (simp_all add: is_float_def Let_def atype_of_def)
  have i: "\<not> is_float t \<and> \<not> is_float (t AND 0x000f) \<and> (\<exists>s b r. promote (atype_of t) = Integer s b r) \<and> t AND 0x000f \<notin> {8, 9, 10}"
    if "integer_code t" for t
  proof -
    have c: "t AND 0x000f \<in> {1, 2, 3, 4, 11}" using that by (simp add: integer_code_def)
    have p: "\<exists>s b r. promote (atype_of t) = Integer s b r" unfolding promote_code [OF that] by (simp split: if_split)
    have "is_float (t AND 0x000f) = is_float t" by (simp add: is_float_def and.assoc)
    then show ?thesis using p low_bits(3) [OF c] c by (elim insertE emptyE) simp_all
  qed
  have k: "promote (Floating n) = Floating n" for n by (simp add: promote_def)
  have a: "atype_of 8 = Floating 8" "atype_of 9 = Floating 9" "atype_of 10 = Floating 10"
    by (simp_all add: atype_of_def is_float_def)
  have e: "combine_arith t1 t2 = (if t1 AND 0x000f = 10 \<or> t2 AND 0x000f = 10 then 10
      else if t1 AND 0x000f = 9 \<or> t2 AND 0x000f = 9 then 9 else 8)"
  proof -
    have "is_float (t1 AND 0x000f) \<or> is_float (t2 AND 0x000f)" using assms f by blast
    then show ?thesis by (simp add: combine_arith_def Let_def)
  qed
  consider "float_code t1" "float_code t2" | "float_code t1" "integer_code t2" | "integer_code t1" "float_code t2"
    using assms by blast
  then show ?thesis
  proof cases
    case 1
    then have c: "t1 AND 0x000f \<in> {8, 9, 10}" "t2 AND 0x000f \<in> {8, 9, 10}"
      "atype_of t1 = Floating (unat (t1 AND 0x000f))" "atype_of t2 = Floating (unat (t2 AND 0x000f))" using f by auto
    show ?thesis unfolding e usual_def c(3,4) k using c(1,2) by (elim insertE emptyE) (simp_all add: a)
  next
    case 2
    then have c: "t1 AND 0x000f \<in> {8, 9, 10}" "t2 AND 0x000f \<notin> {8, 9, 10}"
      "atype_of t1 = Floating (unat (t1 AND 0x000f))" using f i by auto
    obtain sg b r where p: "promote (atype_of t2) = Integer sg b r" using i [OF 2(2)] by blast
    show ?thesis unfolding e usual_def c(3) k p using c(1,2) by (elim insertE emptyE) (simp_all add: a)
  next
    case 3
    then have c: "t2 AND 0x000f \<in> {8, 9, 10}" "t1 AND 0x000f \<notin> {8, 9, 10}"
      "atype_of t2 = Floating (unat (t2 AND 0x000f))" using f i by auto
    obtain sg b r where p: "promote (atype_of t1) = Integer sg b r" using i [OF 3(1)] by blast
    show ?thesis unfolding e usual_def c(3) k p using c(1,2) by (elim insertE emptyE) (simp_all add: a)
  qed
qed


section \<open>Conversion of a constant\<close>

text \<open>The value of a constant of an integer or pointer type, and its conversion to another such type.\<close>

definition const_value :: "u32 \<Rightarrow> u64 \<Rightarrow> int" where
  "const_value s i =
     (if s AND 0x001f = 5 then uint i
      else if s AND 0x000f = 4 then (if s AND 0x0010 \<noteq> 0 then uint i else sint i)
      else if s AND 0x0010 \<noteq> 0 then uint (ucast i :: u32) else sint (ucast i :: u32))"

definition converted :: "u32 \<Rightarrow> int \<Rightarrow> int" where
  "converted d v =
     (if d AND 0x001f = 11 then (if v = 0 then 0 else 1)
      else
        (let w = (if d AND 0x000f = 1 then 8 else if d AND 0x000f = 2 then 16 else if d AND 0x000f = 3 then 32 else 64)
         in if d AND 0x0010 \<noteq> 0 \<or> d AND 0x001f = 5 then take_bit w v else signed_take_bit (w - 1) v))"

definition scalar_code :: "u32 \<Rightarrow> bool" where
  "scalar_code t \<longleftrightarrow> t AND 0x000f \<in> {1, 2, 3, 4} \<or> t AND 0x001f = 5 \<or> t AND 0x001f = 11"

lemma sign_extend:
  fixes x :: u64
  assumes "k < 63"
  shows "(x AND mask (Suc k)) OR - ((x AND mask (Suc k)) AND 2 ^ k) = signed_take_bit k x"
proof -
  have n: "- (2 ^ k :: u64) = NOT (mask k)"
    by (simp only: minus_eq_not_minus_1 mask_eq_exp_minus_1)
  have m: "(x AND mask (Suc k)) AND 2 ^ k = (if bit x k then 2 ^ k else 0)"
    by (rule bit_word_eqI) (auto simp: bit_simps)
  show ?thesis
  proof (cases "bit x k")
    case True
    show ?thesis unfolding m if_P [OF True] n
      by (rule bit_word_eqI) (use True assms in \<open>auto simp: bit_simps min_def less_Suc_eq\<close>)
  next
    case False
    show ?thesis unfolding m if_not_P [OF False]
      by (rule bit_word_eqI) (use False assms in \<open>auto simp: bit_simps min_def less_Suc_eq\<close>)
  qed
qed

lemma const_value_word:
  assumes "scalar_code s"
  shows "(if s AND 0x000f = 4 \<or> s AND 0x001f = 5 then i
          else if s AND 0x0010 \<noteq> 0 then ucast (ucast i :: u32)
          else ucast (ucast i :: u32) OR - (i AND 0x80000000)) = (word_of_int (const_value s i) :: u64)"
proof -
  have u: "ucast (ucast i :: u32) = (word_of_int (uint (ucast i :: u32)) :: u64)" by simp
  have "ucast (ucast i :: u32) OR - (i AND 0x80000000) = (scast (ucast i :: u32) :: u64)"
    using value64_int [of 3 i] by (simp add: value64_def is_uns_def)
  then have sg: "ucast (ucast i :: u32) OR - (i AND 0x80000000) = (word_of_int (sint (ucast i :: u32)) :: u64)" by simp
  show ?thesis unfolding const_value_def sg unfolding u by (simp split: if_split)
qed

lemma bits_of_word: "signed_take_bit k (word_of_int v :: u64) = word_of_int (signed_take_bit k v)"
  "(word_of_int v :: u64) AND mask k = word_of_int (take_bit k v)" if "k < 63"
  by (rule bit_word_eqI, use that in \<open>auto simp: bit_simps min_def\<close>)+

lemma narrow:
  assumes "0 < w" "w \<le> 32" "m = mask w" "x = word_of_int v"
  shows "(if u then (x :: u64) AND m else (x AND m) OR - ((x AND m) AND (drop_bit 1 m + 1))) =
    word_of_int (if u then take_bit w v else signed_take_bit (w - 1) v)"
proof -
  obtain k where k: "w = Suc k" using assms(1) by (cases w) auto
  have "drop_bit 1 (mask (Suc k) :: u64) = mask k"
    by (rule bit_word_eqI) (use k assms(2) in \<open>auto simp: bit_simps\<close>)
  then have d: "drop_bit 1 m + 1 = 2 ^ k" by (simp add: assms(3) k mask_eq_exp_minus_1)
  show ?thesis
    unfolding d unfolding assms(3,4) k using k assms(2) sign_extend [of k "word_of_int v"] bits_of_word [of k v] bits_of_word(2) [of "Suc k" v]
    by simp
qed

lemma cast_const_value:
  assumes "scalar_code s" "scalar_code d" "s AND 0x001f \<noteq> d AND 0x001f"
  shows "cast_const s d i = word_of_int (converted d (const_value s i))"
proof -
  define v where "v = const_value s i"
  define x :: u64 where "x = word_of_int v"
  have s1: "(s AND 0x001f) AND 0x000f = s AND 0x000f" "(s AND 0x001f) AND 0x0010 = s AND 0x0010"
    "(d AND 0x001f) AND 0x000f = d AND 0x000f" "(d AND 0x001f) AND 0x0010 = d AND 0x0010" by (simp_all add: and.assoc)
  have x: "(if s AND 0x000f = 4 \<or> s AND 0x001f = 5 then i
          else if s AND 0x0010 \<noteq> 0 then ucast (ucast i :: u32)
          else ucast (ucast i :: u32) OR - (i AND 0x80000000)) = x"
    unfolding x_def v_def by (rule const_value_word [OF assms(1)])
  have c: "cast_const s d i =
    (if d AND 0x000f = 4 \<or> d AND 0x001f = 5 then x
     else if d AND 0x001f = 11 then (if x \<noteq> 0 then 1 else 0)
     else (let m = (if d AND 0x000f = 1 then 0xff else if d AND 0x000f = 2 then 0xffff else 0xffffffff); i = x AND m
           in if d AND 0x0010 = 0 then i OR - (i AND (drop_bit 1 m + 1)) else i))"
    unfolding cast_const_def Let_def s1 if_not_P [OF assms(3)] x by (rule refl)
  have z: "x = 0 \<longleftrightarrow> v = 0"
  proof -
    have nn: "- (2 ^ 63) \<le> uint i" "- (2 ^ 63) \<le> uint (ucast i :: u32)"
      by (rule order_trans [OF _ uint_nonnegative], simp)+
    have "- (2 ^ 63) \<le> v" "v < 2 ^ 64"
      unfolding v_def const_value_def
      using uint_lt2p [of i] sint_ge [of i] sint_lt [of i] uint_lt2p [of "ucast i :: u32"] sint_ge [of "ucast i :: u32"] sint_lt [of "ucast i :: u32"] nn
      by (simp_all split: if_split)
    moreover have "x = 0 \<longleftrightarrow> v mod 2 ^ 64 = 0"
      using word_of_int_eq_iff [of v 0, where ?'a = 64] by (simp add: x_def take_bit_eq_mod)
    moreover have "v mod 2 ^ 64 = (if v < 0 then v + 2 ^ 64 else v)" if "- (2 ^ 63) \<le> v" "v < 2 ^ 64"
      using that mod_pos_pos_trivial [of v "2 ^ 64"] mod_pos_pos_trivial [of "v + 2 ^ 64" "2 ^ 64"] by (auto simp: mod_add_self2)
    ultimately show ?thesis by (auto split: if_splits)
  qed
  have m: "(0xff :: u64) = mask 8" "(0xffff :: u64) = mask 16" "(0xffffffff :: u64) = mask 32"
    by (simp_all add: mask_eq_exp_minus_1)
  have whole: "word_of_int (take_bit 64 v) = x" "word_of_int (signed_take_bit 63 v) = x"
    by (rule bit_word_eqI, rename_tac n, case_tac "n = 63"; simp add: x_def bit_simps min_def)+
  have nb: "d AND 0x001f = k \<Longrightarrow> d AND 0x000f = k AND 0x000f" for k using s1(3) by simp
  have n5: "d AND 0x000f \<noteq> 5 \<Longrightarrow> d AND 0x001f \<noteq> 5" "d AND 0x000f \<noteq> 11 \<Longrightarrow> d AND 0x001f \<noteq> 11"
    using nb [of 5] nb [of 11] by auto
  consider "d AND 0x001f = 5" | "d AND 0x000f = 4" | "d AND 0x001f = 11" | "d AND 0x000f = 1" | "d AND 0x000f = 2" | "d AND 0x000f = 3"
    using assms(2) by (auto simp: scalar_code_def)
  then show ?thesis
  proof cases
    case 1
    then show ?thesis using nb [OF 1] whole unfolding c v_def [symmetric] converted_def by simp
  next
    case 2
    then show ?thesis using n5 whole unfolding c v_def [symmetric] converted_def by simp
  next
    case 3
    then show ?thesis using nb [OF 3] z unfolding c v_def [symmetric] converted_def by simp
  next
    case 4
    then show ?thesis using n5 narrow [OF _ _ m(1) x_def, of "d AND 0x0010 \<noteq> 0"]
      unfolding c v_def [symmetric] converted_def
      by (cases "d AND 0x0010 = 0") (simp_all add: Let_def)
  next
    case 5
    then show ?thesis using n5 narrow [OF _ _ m(2) x_def, of "d AND 0x0010 \<noteq> 0"]
      unfolding c v_def [symmetric] converted_def
      by (cases "d AND 0x0010 = 0") (simp_all add: Let_def)
  next
    case 6
    then show ?thesis using n5 narrow [OF _ _ m(3) x_def, of "d AND 0x0010 \<noteq> 0"]
      unfolding c v_def [symmetric] converted_def
      by (cases "d AND 0x0010 = 0") (simp_all add: Let_def)
  qed
qed

section \<open>Properties\<close>



text \<open>
  C21: the usual arithmetic conversions. For two operands of arithmetic types, bit-fields included, the
  type combine_types gives them is the common type of the C standard, with 32-bit long.
\<close>

theorem usual_arithmetic_conversions:
  assumes "integer_code (fst (op_type p)) \<or> float_code (fst (op_type p))"
    and "integer_code (fst (op_type q)) \<or> float_code (fst (op_type q))" "opr \<noteq> CHR ''S''"
  shows "\<exists>t. combine_types st p q opr = Inr (True, (t, 0), st, [])
    \<and> atype_of t = usual (atype_of (fst (op_type p))) (atype_of (fst (op_type q)))"
proof -
  have n: "fst (op_type r) AND 0x000f \<notin> {0, 5, 7}"
    if "integer_code (fst (op_type r)) \<or> float_code (fst (op_type r))" for r :: operand
    using that unfolding integer_code_def float_code_def by (elim disjE conjE insertE emptyE) simp_all
  have "combine_types st p q opr = Inr (True, (combine_arith (fst (op_type p)) (fst (op_type q)), 0), st, [])"
    using n [OF assms(1)] n [OF assms(2)] assms(3) by (simp add: combine_types_def Let_def)
  moreover have "atype_of (combine_arith (fst (op_type p)) (fst (op_type q))) = usual (atype_of (fst (op_type p))) (atype_of (fst (op_type q)))"
    using assms(1,2) usual_int usual_float by blast
  ultimately show ?thesis by blast
qed

text \<open>An unsigned int and a long: 32-bit long cannot hold every unsigned int, so the result is unsigned long.\<close>

theorem usual_arithmetic_conversions_witness:
  "\<exists>t. combine_types [] \<lparr>op_type = (0x0013, 0), op_r = 0, op_c = 0\<rparr> \<lparr>op_type = (0x1003, 0), op_r = 0, op_c = 0\<rparr> (CHR ''+'') = Inr (True, (t, 0), [], [])
     \<and> atype_of t = Integer False 32 4"
proof -
  have i: "integer_code 0x0013" "integer_code 0x1003" by (simp_all add: integer_code_def)
  have u: "usual (atype_of 0x0013) (atype_of 0x1003) = Integer False 32 4" by code_simp
  show ?thesis
    using usual_arithmetic_conversions [of "\<lparr>op_type = (0x0013, 0), op_r = 0, op_c = 0\<rparr>"
        "\<lparr>op_type = (0x1003, 0), op_r = 0, op_c = 0\<rparr>" "CHR ''+''" "[]"] i u by simp
qed

text \<open>
  C23: conversions of constants. The cast of an integer or pointer constant to another such type leaves the
  value of the C conversion: whether it is zero for _Bool, and otherwise the value modulo the width of the
  type, brought into its range.
\<close>

theorem constant_cast:
  assumes "scalar_code s" "scalar_code d" "s AND 0x001f \<noteq> d AND 0x001f"
  shows "cast_const s d i = word_of_int (converted d (const_value s i))"
  using cast_const_value [OF assms] .

theorem constant_cast_witness:
  "cast_const 0x0014 1 0x1234567890abcdf0 = - 16"
proof -
  have "converted 1 (const_value 0x0014 0x1234567890abcdf0) = - 16" by code_simp
  then show ?thesis using constant_cast [of "0x0014" 1 "0x1234567890abcdf0"] by (simp add: scalar_code_def)
qed

end
