(* ===== verification/Spec2Isabelle.thy ===== *)
theory Spec2Isabelle
  imports Leb128 Relocate Scopes RegAlloc CondIncl PeReloc AsmExpr ExprInfix ArgList TinyAlloc X86Encode ConstFold TokenStr Numbers Structs Switch CTypes
begin

text \<open>
  A model of the core of the compiler in src/tcc.c, and what makes it correct.

  The program. src/tcc.c is a C compiler for x86-64 Windows (PE files, with the headers and libraries of
  Cygwin), in one file from which the preprocessor has removed every macro; its first 10,750 lines are declarations of the
  system headers. It compiles in one pass. next_nomacro and preprocess turn the text into tokens; tok_alloc interns
  names, parse_number and parse_string read constants, macro bodies are kept in token strings. The parser (unary,
  expr_infix, block, decl) keeps its symbols on stacks with one chain for every name, and the values of an expression
  on a value stack whose entries are constants, registers or places in memory. It calls the generator as it goes:
  gen_opic folds and simplifies, get_reg and save_reg keep the registers apart, gen_modrm, load, store, gjmp and gsym
  write bytes into the text section. Sections, symbols and relocations follow the ELF formats until pe_output_file writes
  the image; before, symbols are resolved (set_elf_sym), renumbered (sort_syms), given addresses (relocate_syms), and
  the relocations are applied (relocate_section) and listed for the loader (pe_build_reloc).

  Conventions. A C integer of w bits is a word of w bits where overflow, the bits or the sign matter, otherwise a nat or
  an int. A pointer into a buffer is the buffer, a list of bytes, and an offset. Structures are records with the
  fields that the modelled code uses. _tcc_error does not return, so a function that may call it gives Inl with the
  text of the message (without its arguments), otherwise Inr; a warning, or _tcc_error_noabort, which goes on, is an
  entry in a list. Loops are recursive functions with the C condition as their test. A loop that does not end on some
  input (the doubling in section_realloc above 2^31, walks over chains) is a partial_function over option and the
  theorems show that it gives a result. Where fuel is used, it is shown to be enough: the search for an access unit
  of a bit-field takes at most 6 rounds (Structs.find_unit), comparing types at most two more than there are
  symbols (CTypes.compare_fuel), the tests of a switch at most as many as there are instructions (Switch.run), and the
  expressions of C and of the assembler end with every fuel from some bound on (ExprInfix.settles, AsmExpr.runs).

  The theories, from the bottom up:

  Prelude: words, errors, slices of buffers, rounding to a power of two. Bytes: read16le to add64le. Leb128: the DWARF
  numbers (dwarf_uleb128 and the others), read back for every value.

  Sections: new_section to put_elf_str; growth never loses bytes and the offsets are aligned. ElfSym: put_elf_sym,
  rebuild_hash, find_elf_sym; with the table's invariant it is a map from names to the last global symbol. The locale
  symbol_map states that interface, interpreted on these functions. ElfLink: set_elf_sym, update_relocs, sort_syms,
  relocate_syms. Relocate: get_sym_attr, relocate, relocate_section, with the array of relocations that is read and
  overwritten at once. PeReloc: pe_build_reloc, against a reader of the table as the PE format defines it.

  CodeGen: the text section and g, o, gen_le32 and so on, as appended bytes. Jumps: gjmp, gjmp_append, gsym_addr, the list
  of pending jumps that runs through the displacement fields of the code. X86Encode: orex, gen_modrm_impl, load of a value that is not
  in memory, store, with a decoder for these instructions written from the architecture manual. RegAlloc: save_regs,
  save_reg_upstack, get_temp_local_var, get_reg, against a machine that executes the stores emitted: the meaning
  of every entry of the value stack is kept.

  ConstFold: value64, gen_opic, vswap and vpop; fold_op computes the C value, and each simplification
  leaves an operation with the same value. CTypes: compare_types over a store of symbols, combine_types, gen_cast on
  constants, verify_assign_cast. Structs: type_size, check_fields, find_field, struct_layout, adjust_bitfield, in both
  modes for bit-fields. Switch: read_case (from block), case_cmp, case_sort, gcase and the tests they emit.

  TokTable: the enumeration of the tokens and the table of the keywords, row by row, in agreement. Tokens: tok_alloc with its
  hash chains, tccpp_new, get_tok_str; the locale interning states what users of names rely on, interpreted on
  tok_alloc. Escape: parse_string, parse_escape_string, add_char, UTF-8. Numbers: parse_number with every suffix,
  overflow rule and error. TokenStr: tok_str_add2, tok_get, macro_is_equal. CondIncl: preprocess_skip and the
  conditional directives, against the groups of the C standard, and the soundness of skipping a guarded file.

  Scopes: sym_malloc, sym_push, sym_link, sym_pop, sym_find, struct_find, new_scope, prev_scope: the stacks and chains of the
  compiler refine nested environments. ExprInfix: precedence, expr_infix, expr_landor over every generator, against
  expression trees bound by the levels of the C grammar. AsmExpr: asm_expr_unary to asm_int_expr, against the values of expression
  trees. ArgList: pstrcpy, pstrcat, dynarray_add, dynarray_split, tcc_split_path; the locale growing is the array
  the splitting functions fill. TinyAlloc: tal_new, tal_free_impl, tal_realloc_impl over a memory with headers; blocks in
  use never overlap.

  Parameters. What is outside src/ or belongs to a part that is not modelled is an argument of the definitions: qsort (Switch; its hypothesis is that
  the result is an ordered permutation), strtod and the floating-point unit (Numbers), the value of a preprocessor
  expression, the effect of other lines and the table of macros (CondIncl), the symbol table seen by the assembler
  (AsmExpr), the generator and the operands of the C expressions (ExprInfix), the sections of the symbols (PeReloc), malloc (TinyAlloc). Memory from the allocator is taken to be available.

  Findings. The model shows that get_tok_str keeps only the low nine bits of a character it prints as digits; that 1lL is accepted as
  a suffix and 0x as a constant; that a zero-width bit-field may let the next unit overlap in the Microsoft mode; that an empty
  range in a switch hides the case merged with it, and that cases of a narrow unsigned switch are sorted by another order than
  the promoted value is tested in; that symbols kept by a statement expression are taken out of their chains twice; that an
  assembler sum forgets that its right operand is relative to the place of the instruction. They are lemmas beside the
  definitions concerned.

  Not modelled. The characters of the lexer outside constants and the expansion of macros: the text of a file is consumed through shared buffers and
  flags by functions that call each other for every token. The parser of declarations, initialisers, statements and
  C operands: its state is nearly every global variable of the program, and its result is the calls of the parts above.
  gv, the lvalue branch of load, calls and floating-point operations: they belong to that parser. The instruction tables and
  operands of the assembler. The reading of object files, archives and DLL definitions, the final layout of sections
  and the headers of the PE file: mostly moving of structures through files. Debug information apart from its numbers.
  The driver, its options and its messages. The runtime (src/libtcc), the Cygwin headers, the
  examples and the documentation contain no logic of the compiler.
\<close>

end
